(* ===== verification/Prelude.thy ===== *)
theory Prelude
  imports Main "HOL-Library.Word"
begin

unbundle bit_operations_syntax

text \<open>
  The shared base of the development. It names the machine types of the C++ sources (bytes,
  \<open>uint32_t\<close>, \<open>uint64_t\<close>, \<open>int32_t\<close>, \<open>int64_t\<close>), models raw buffers (an allocation whose
  initial contents are arbitrary, and \<open>memcpy\<close> into it at an offset), and holds the generic
  facts on lists, words and little-endian byte strings that the component theories use.
\<close>

named_theorems buf_simps \<open>rewriting writes into raw buffers\<close>

type_synonym byte = "8 word"
type_synonym bytes = "8 word list"
type_synonym u32 = "32 word"
type_synonym u64 = "64 word"
type_synonym i32 = "32 word"
type_synonym i64 = "64 word"

section \<open>Raw buffers\<close>

text \<open>
  A buffer of the sources is \<open>char space_[200]\<close> on the stack or \<open>new char[needed]\<close>; neither is
  initialised. \<open>alloc junk n\<close> is such a buffer, \<open>junk\<close> being whatever the memory held.
  \<open>memcpy_at buf off src\<close> is \<open>memcpy(buf + off, src, size)\<close>. A write that fits in the buffer
  keeps its length; one that does not makes the list longer, so "the length is still the
  allocated one" says that no write ran past the end.
\<close>

definition alloc :: "(nat \<Rightarrow> byte) \<Rightarrow> nat \<Rightarrow> bytes" where
  "alloc junk n = map junk [0..<n]"

definition memcpy_at :: "bytes \<Rightarrow> nat \<Rightarrow> bytes \<Rightarrow> bytes" where
  "memcpy_at buf off src = take off buf @ src @ drop (off + length src) buf"

lemma length_alloc [simp]: "length (alloc junk n) = n"
  by (simp add: alloc_def)

lemma length_memcpy_at [simp]:
  "off + length src \<le> length buf \<Longrightarrow> length (memcpy_at buf off src) = length buf"
  by (simp add: memcpy_at_def)

lemma memcpy_at_skip [buf_simps]:
  assumes "length done \<le> off"
  shows "memcpy_at (done @ rest) off src = done @ memcpy_at rest (off - length done) src"
proof -
  from assms obtain n where "off = length done + n" using le_Suc_ex by blast
  then show ?thesis by (simp add: memcpy_at_def)
qed

lemma memcpy_at_Cons [buf_simps]:
  "0 < n \<Longrightarrow> memcpy_at (b # rest) n src = b # memcpy_at rest (n - 1) src"
  by (cases n) (simp_all add: memcpy_at_def)

lemma memcpy_at_start [buf_simps]: "memcpy_at rest 0 src = src @ drop (length src) rest"
  by (simp add: memcpy_at_def)

lemma nth_memcpy_at:
  assumes "off + length src \<le> length buf" and "i < length buf"
  shows "memcpy_at buf off src ! i =
    (if off \<le> i \<and> i < off + length src then src ! (i - off) else buf ! i)"
  using assms by (auto simp: memcpy_at_def nth_append)

lemma take_memcpy_at_before:
  assumes "n \<le> off" and "off \<le> length buf"
  shows "take n (memcpy_at buf off src) = take n buf"
  using assms by (simp add: memcpy_at_def min_def)

lemma drop_memcpy_at_after:
  assumes "off + length src \<le> n" and "off \<le> length buf"
  shows "drop n (memcpy_at buf off src) = drop n buf"
  using assms by (simp add: memcpy_at_def)

lemma memcpy_at_commute:
  assumes "off1 + length s1 \<le> off2" and "off2 + length s2 \<le> length buf"
  shows "memcpy_at (memcpy_at buf off1 s1) off2 s2 = memcpy_at (memcpy_at buf off2 s2) off1 s1"
  using assms by (intro nth_equalityI) (auto simp: nth_memcpy_at)

section \<open>Little-endian byte strings\<close>

definition le_bytes :: "nat \<Rightarrow> 'a::len word \<Rightarrow> bytes" where
  "le_bytes n w = map (\<lambda>i. ucast (drop_bit (8 * i) w)) [0..<n]"

fun le_val :: "bytes \<Rightarrow> 'a::len word" where
  "le_val [] = 0"
| "le_val (b # bs) = ucast b OR push_bit 8 (le_val bs)"

lemma length_le_bytes [simp]: "length (le_bytes n w) = n"
  by (simp add: le_bytes_def)

lemma bit_le_val:
  "bit (le_val bs :: 'a::len word) k \<longleftrightarrow>
     k < LENGTH('a) \<and> k < 8 * length bs \<and> bit (bs ! (k div 8)) (k mod 8)"
proof (induction bs arbitrary: k)
  case Nil
  then show ?case by simp
next
  case (Cons b bs)
  show ?case
  proof (cases "k < 8")
    case True
    then show ?thesis by (auto simp: bit_or_iff bit_push_bit_iff bit_ucast_iff)
  next
    case False
    define j where "j = k - 8"
    with False have k: "k = j + 8" by simp
    have "\<not> bit b k" using False by (auto dest: bit_imp_le_length)
    moreover have "k div 8 = Suc (j div 8)" and "k mod 8 = j mod 8"
      using k by simp_all
    ultimately show ?thesis using Cons.IH [of j] k
      by (simp add: bit_or_iff bit_push_bit_iff bit_ucast_iff) linarith
  qed
qed

lemma le_val_append: "le_val (xs @ ys) = le_val xs OR push_bit (8 * length xs) (le_val ys)"
  by (induction xs) (simp_all add: push_bit_or push_bit_push_bit or.assoc add.commute)

lemma ucast_le_val:
  assumes "8 * length bs \<le> LENGTH('b)"
  shows "ucast (le_val bs :: 'b::len word) = (le_val bs :: 'a::len word)"
proof (rule bit_word_eqI)
  fix k assume "k < LENGTH('a)"
  then show "bit (ucast (le_val bs :: 'b word) :: 'a word) k \<longleftrightarrow> bit (le_val bs :: 'a word) k"
    unfolding bit_ucast_iff bit_le_val using assms by linarith
qed

lemma le_val_le_bytes:
  assumes "8 * n = LENGTH('a)"
  shows "le_val (le_bytes n w) = (w :: 'a::len word)"
proof (rule bit_word_eqI)
  fix k assume k: "k < LENGTH('a)"
  then have "k div 8 < n" using assms by linarith
  then have "bit (le_bytes n w ! (k div 8)) (k mod 8) \<longleftrightarrow> bit w k"
    by (simp add: le_bytes_def bit_ucast_iff bit_drop_bit_eq)
  then show "bit (le_val (le_bytes n w) :: 'a word) k \<longleftrightarrow> bit w k"
    using k assms by (simp add: bit_le_val)
qed

end
