(* ===== verification/Coding.thy ===== *)
theory Coding
  imports Prelude
begin

text \<open>
  Fixed-width integers of the storage engine, \<open>src/src/storage/src/coding.h\<close>. The source has
  two code paths chosen by \<open>kLittleEndian\<close>: a \<open>memcpy\<close> of the integer object on little-endian
  hosts, explicit shifts otherwise. Both are modelled, the object representation being a
  function of the host's byte order, and shown to write and read the same bytes, so stored
  data does not depend on the host.
\<close>

named_theorems coding_simps \<open>decoding what was encoded\<close>

definition object_bytes :: "bool \<Rightarrow> nat \<Rightarrow> 'a::len word \<Rightarrow> bytes" where
  "object_bytes little n w = (if little then le_bytes n w else rev (le_bytes n w))"

definition object_value :: "bool \<Rightarrow> bytes \<Rightarrow> 'a::len word" where
  "object_value little bs = (if little then le_val bs else le_val (rev bs))"

definition EncodeFixed32_on :: "bool \<Rightarrow> u32 \<Rightarrow> bytes" where
  "EncodeFixed32_on kLittleEndian value =
     (if kLittleEndian then object_bytes kLittleEndian 4 value
      else [ucast (value AND 0xff),
            ucast (drop_bit 8 value AND 0xff),
            ucast (drop_bit 16 value AND 0xff),
            ucast (drop_bit 24 value AND 0xff)])"

definition EncodeFixed64_on :: "bool \<Rightarrow> u64 \<Rightarrow> bytes" where
  "EncodeFixed64_on kLittleEndian value =
     (if kLittleEndian then object_bytes kLittleEndian 8 value
      else [ucast (value AND 0xff),
            ucast (drop_bit 8 value AND 0xff),
            ucast (drop_bit 16 value AND 0xff),
            ucast (drop_bit 24 value AND 0xff),
            ucast (drop_bit 32 value AND 0xff),
            ucast (drop_bit 40 value AND 0xff),
            ucast (drop_bit 48 value AND 0xff),
            ucast (drop_bit 56 value AND 0xff)])"

definition DecodeFixed32_on :: "bool \<Rightarrow> bytes \<Rightarrow> u32" where
  "DecodeFixed32_on kLittleEndian ptr =
     (if kLittleEndian then object_value kLittleEndian (take 4 ptr)
      else ucast (ptr ! 0) OR push_bit 8 (ucast (ptr ! 1)) OR
           push_bit 16 (ucast (ptr ! 2)) OR push_bit 24 (ucast (ptr ! 3)))"

definition DecodeFixed64_on :: "bool \<Rightarrow> bytes \<Rightarrow> u64" where
  "DecodeFixed64_on kLittleEndian ptr =
     (if kLittleEndian then object_value kLittleEndian (take 8 ptr)
      else (let lo = ucast (DecodeFixed32_on kLittleEndian ptr) :: u64;
                hi = ucast (DecodeFixed32_on kLittleEndian (drop 4 ptr)) :: u64
            in push_bit 32 hi OR lo))"

text \<open>The supported hosts are little-endian; the other path is compared with this one below.\<close>

abbreviation EncodeFixed32 :: "u32 \<Rightarrow> bytes" where "EncodeFixed32 \<equiv> EncodeFixed32_on True"
abbreviation EncodeFixed64 :: "u64 \<Rightarrow> bytes" where "EncodeFixed64 \<equiv> EncodeFixed64_on True"
abbreviation DecodeFixed32 :: "bytes \<Rightarrow> u32" where "DecodeFixed32 \<equiv> DecodeFixed32_on True"
abbreviation DecodeFixed64 :: "bytes \<Rightarrow> u64" where "DecodeFixed64 \<equiv> DecodeFixed64_on True"

lemma length_EncodeFixed32 [simp]: "length (EncodeFixed32_on e v) = 4"
  by (simp add: EncodeFixed32_on_def object_bytes_def)

lemma length_EncodeFixed64 [simp]: "length (EncodeFixed64_on e v) = 8"
  by (simp add: EncodeFixed64_on_def object_bytes_def)

lemma ucast_and_ff: "ucast (w AND 0xff) = (ucast w :: 8 word)" for w :: "'a::len word"
proof (rule bit_word_eqI)
  fix k assume "k < LENGTH(8)"
  then show "bit (ucast (w AND 0xff) :: 8 word) k \<longleftrightarrow> bit (ucast w :: 8 word) k"
    using mask_eq_exp_minus_1 [of 8, where 'a = "'a word"] bit_mask_iff [of 8 k, where 'a = "'a word"]
    by (auto simp: bit_ucast_iff bit_and_iff dest: bit_imp_le_length)
qed

lemma EncodeFixed32_host_independent: "EncodeFixed32_on e v = EncodeFixed32 v"
  by (simp add: EncodeFixed32_on_def object_bytes_def le_bytes_def ucast_and_ff upt_rec)

lemma EncodeFixed64_host_independent: "EncodeFixed64_on e v = EncodeFixed64 v"
  by (simp add: EncodeFixed64_on_def object_bytes_def le_bytes_def ucast_and_ff upt_rec)

lemma DecodeFixed32_Encode [coding_simps, simp]: "DecodeFixed32 (EncodeFixed32 v @ rest) = v"
  using le_val_le_bytes [of 4 v]
  by (simp add: DecodeFixed32_on_def EncodeFixed32_on_def object_bytes_def object_value_def)

lemma DecodeFixed64_Encode [coding_simps, simp]: "DecodeFixed64 (EncodeFixed64 v @ rest) = v"
  using le_val_le_bytes [of 8 v]
  by (simp add: DecodeFixed64_on_def EncodeFixed64_on_def object_bytes_def object_value_def)

lemmas DecodeFixed32_Encode0 [coding_simps, simp] = DecodeFixed32_Encode [where rest = "[]", simplified]
lemmas DecodeFixed64_Encode0 [coding_simps, simp] = DecodeFixed64_Encode [where rest = "[]", simplified]

lemma EncodeFixed64_inject [simp]: "EncodeFixed64 a = EncodeFixed64 b \<longleftrightarrow> a = b"
  using DecodeFixed64_Encode0 by metis

lemma EncodeFixed32_inject [simp]: "EncodeFixed32 a = EncodeFixed32 b \<longleftrightarrow> a = b"
  using DecodeFixed32_Encode0 by metis

text \<open>Reading only looks at the bytes of the object, so what follows it does not matter.\<close>

lemma DecodeFixed64_take [simp]: "8 \<le> n \<Longrightarrow> DecodeFixed64 (take n p) = DecodeFixed64 p"
  by (simp add: DecodeFixed64_on_def min_def)

lemma DecodeFixed32_take [simp]: "4 \<le> n \<Longrightarrow> DecodeFixed32 (take n p) = DecodeFixed32 p"
  by (simp add: DecodeFixed32_on_def min_def)

lemma Decode32_portable:
  assumes "4 \<le> length p"
  shows "DecodeFixed32_on e p = DecodeFixed32 p"
proof -
  obtain a p1 where "p = a # p1" and "3 \<le> length p1" using assms by (cases p) auto
  moreover then obtain b p2 where "p1 = b # p2" and "2 \<le> length p2" by (cases p1) auto
  moreover then obtain c p3 where "p2 = c # p3" and "1 \<le> length p3" by (cases p2) auto
  moreover then obtain d r where "p3 = d # r" by (cases p3) auto
  ultimately have p: "p = a # b # c # d # r" by simp
  show ?thesis
    by (simp add: p DecodeFixed32_on_def object_value_def push_bit_or push_bit_push_bit)
qed

lemma Decode64_portable:
  assumes "8 \<le> length p"
  shows "DecodeFixed64_on e p = DecodeFixed64 p"
proof (cases e)
  case False
  have "take 8 p = take 4 p @ take 4 (drop 4 p)"
    using take_add [of 4 4 p] by simp
  then have "le_val (take 8 p) =
      (le_val (take 4 p) OR push_bit 32 (le_val (take 4 (drop 4 p))) :: u64)"
    using assms by (simp add: le_val_append)
  then show ?thesis using False assms
    by (simp add: DecodeFixed64_on_def Decode32_portable [of _ False] Let_def
        DecodeFixed32_on_def [of True] object_value_def ucast_le_val or.commute)
qed simp

end
