(* ===== verification/KeyFormat.thy ===== *)
theory KeyFormat
  imports Coding "HOL-Library.Sublist"
begin

text \<open>
  Layout of the keys kept in RocksDB: the user-key escaping of
  \<open>src/src/storage/include/storage/storage_define.h\<close> and the key classes of
  \<open>base_key_format.h\<close>, \<open>base_data_key_format.h\<close>, \<open>lists_data_key_format.h\<close> and
  \<open>zsets_data_key_format.h\<close> under \<open>src/src/storage/src\<close>. An \<open>Encode\<close> method is a function of the
  fields and of the uninitialised contents of the buffer it fills; a parser returns \<open>None\<close>
  where the source throws or reads outside its argument.
\<close>

section \<open>Constants\<close>

abbreviation (input) kPrefixReserveLength :: nat where "kPrefixReserveLength \<equiv> 8"
abbreviation (input) kVersionLength :: nat where "kVersionLength \<equiv> 8"
abbreviation (input) kScoreLength :: nat where "kScoreLength \<equiv> 8"
abbreviation (input) kSuffixReserveLength :: nat where "kSuffixReserveLength \<equiv> 16"
abbreviation (input) kListValueIndexLength :: nat where "kListValueIndexLength \<equiv> 16"
abbreviation (input) kTypeLength :: nat where "kTypeLength \<equiv> 1"
abbreviation (input) kTimestampLength :: nat where "kTimestampLength \<equiv> 8"

datatype ColumnFamilyIndex =
  kMetaCF | kHashesDataCF | kSetsDataCF | kListsDataCF | kZsetsDataCF | kZsetsScoreCF | kStreamsDataCF

abbreviation (input) kNeedTransformCharacter :: byte where "kNeedTransformCharacter \<equiv> 0"
abbreviation (input) kEncodedTransformCharacter :: bytes where "kEncodedTransformCharacter \<equiv> [0, 1]"
abbreviation (input) kEncodedKeyDelim :: bytes where "kEncodedKeyDelim \<equiv> [0, 0]"
abbreviation (input) kEncodedKeyDelimSize :: nat where "kEncodedKeyDelimSize \<equiv> 2"

section \<open>Escaping of user keys\<close>

text \<open>The \<open>for\<close> loop of \<open>EncodeUserKey\<close>; its result is the final \<open>pos\<close>, buffer and offset.\<close>

function EncodeUserKey_loop :: "bytes \<Rightarrow> nat \<Rightarrow> nat \<Rightarrow> bytes \<Rightarrow> nat \<Rightarrow> nat \<times> bytes \<times> nat" where
  "EncodeUserKey_loop user_data i pos dst off =
     (if i < length user_data then
        (if user_data ! i = kNeedTransformCharacter then
           (let sub_len = i - pos;
                (dst1, off1) = (if sub_len \<noteq> 0
                  then (memcpy_at dst off (take sub_len (drop pos user_data)), off + sub_len)
                  else (dst, off))
            in EncodeUserKey_loop user_data (i + 1) (i + 1)
                 (memcpy_at dst1 off1 kEncodedTransformCharacter) (off1 + 2))
         else EncodeUserKey_loop user_data (i + 1) pos dst off)
      else (pos, dst, off))"
  by pat_completeness auto
termination
  by (relation "measure (\<lambda>(user_data, i, pos, dst, off). length user_data - i)") auto

declare EncodeUserKey_loop.simps [simp del]

text \<open>\<open>EncodeUserKey(user_key, dst_ptr, nzero)\<close>: the buffer after the call and the returned pointer.\<close>

definition EncodeUserKey :: "bytes \<Rightarrow> bytes \<Rightarrow> nat \<Rightarrow> nat \<Rightarrow> bytes \<times> nat" where
  "EncodeUserKey user_key dst off nzero =
     (if nzero = 0 then
        (let dst1 = memcpy_at dst off user_key;
             off1 = off + length user_key
         in (memcpy_at dst1 off1 kEncodedKeyDelim, off1 + 2))
      else
        (let (pos, dst1, off1) = EncodeUserKey_loop user_key 0 0 dst off;
             dst2 = (if pos \<noteq> length user_key then memcpy_at dst1 off1 (drop pos user_key) else dst1)
         in (memcpy_at dst2 off1 kEncodedKeyDelim, off1 + 2)))"

text \<open>
  The loop of \<open>DecodeUserKey\<close> over the remaining input: the characters stored so far and, when the
  delimiter was found, the offset just past it.
\<close>

fun DecodeUserKey_loop :: "bytes \<Rightarrow> nat \<Rightarrow> bool \<Rightarrow> bytes \<Rightarrow> bytes \<times> nat option" where
  "DecodeUserKey_loop [] idx zero_ahead user_key = (user_key, None)"
| "DecodeUserKey_loop (c # cs) idx zero_ahead user_key =
     (if c = 0 then
        (if zero_ahead then (user_key, Some (idx + 1))
         else DecodeUserKey_loop cs (idx + 1) True user_key)
      else if c = 1 then
        DecodeUserKey_loop cs (idx + 1) False (user_key @ [if zero_ahead then 0 else c])
      else DecodeUserKey_loop cs (idx + 1) False (user_key @ [c]))"

text \<open>
  \<open>DecodeUserKey(ptr, length, user_key)\<close>: the decoded key and the number of bytes consumed. A
  length below two makes \<open>resize\<close> throw; storing more characters than the string was resized to
  is undefined; both are \<open>None\<close>. Without a delimiter the string keeps its zero padding and the
  returned pointer is the argument.
\<close>

definition DecodeUserKey :: "bytes \<Rightarrow> nat \<Rightarrow> (bytes \<times> nat) option" where
  "DecodeUserKey ptr len =
     (if len < kEncodedKeyDelimSize then None
      else case DecodeUserKey_loop (take len ptr) 0 False [] of
        (user_key, Some n) \<Rightarrow> Some (user_key, n)
      | (user_key, None) \<Rightarrow>
          (if length user_key \<le> len - kEncodedKeyDelimSize
           then Some (user_key @ replicate (len - kEncodedKeyDelimSize - length user_key) 0, 0)
           else None))"

fun SeekUserkeyDelim_loop :: "bytes \<Rightarrow> nat \<Rightarrow> bool \<Rightarrow> nat option" where
  "SeekUserkeyDelim_loop [] i zero_ahead = None"
| "SeekUserkeyDelim_loop (c # cs) i zero_ahead =
     (if c = kNeedTransformCharacter \<and> zero_ahead then Some (i + 1)
      else SeekUserkeyDelim_loop cs (i + 1) (c = kNeedTransformCharacter))"

text \<open>\<open>SeekUserkeyDelim(ptr, length)\<close>, as an offset from \<open>ptr\<close>; zero when there is no delimiter.\<close>

definition SeekUserkeyDelim :: "bytes \<Rightarrow> nat \<Rightarrow> nat" where
  "SeekUserkeyDelim ptr len =
     (case SeekUserkeyDelim_loop (take len ptr) 0 False of Some n \<Rightarrow> n | None \<Rightarrow> 0)"

section \<open>Key classes\<close>

definition reserve1 :: bytes where "reserve1 = replicate 8 0"
definition reserve2 :: bytes where "reserve2 = replicate 16 0"

definition BaseKey_Encode :: "(nat \<Rightarrow> byte) \<Rightarrow> bytes \<Rightarrow> bytes" where
  "BaseKey_Encode junk key =
     (let meta_size = length reserve1 + length reserve2;
          nzero = count_list key kNeedTransformCharacter;
          usize = nzero + kEncodedKeyDelimSize + length key;
          needed = meta_size + usize;
          dst = memcpy_at (alloc junk needed) 0 reserve1;
          (dst, off) = EncodeUserKey key dst (length reserve1) nzero
      in memcpy_at dst off reserve2)"

definition ParsedBaseKey_decode :: "bytes \<Rightarrow> bytes option" where
  "ParsedBaseKey_decode key =
     (if length key < kPrefixReserveLength + kSuffixReserveLength then None
      else let body = drop kPrefixReserveLength (take (length key - kSuffixReserveLength) key)
           in map_option fst (DecodeUserKey body (length body)))"

definition BaseDataKey_EncodeSeekKey :: "(nat \<Rightarrow> byte) \<Rightarrow> bytes \<Rightarrow> u64 \<Rightarrow> bytes \<Rightarrow> bytes" where
  "BaseDataKey_EncodeSeekKey junk key version data =
     (let meta_size = length reserve1 + kVersionLength;
          usize = length key + length data + kEncodedKeyDelimSize;
          nzero = count_list key kNeedTransformCharacter;
          needed = meta_size + (usize + nzero);
          dst = memcpy_at (alloc junk needed) 0 reserve1;
          (dst, off) = EncodeUserKey key dst (length reserve1) nzero;
          dst = memcpy_at dst off (EncodeFixed64 version);
          off = off + kVersionLength
      in memcpy_at dst off data)"

definition BaseDataKey_Encode :: "(nat \<Rightarrow> byte) \<Rightarrow> bytes \<Rightarrow> u64 \<Rightarrow> bytes \<Rightarrow> bytes" where
  "BaseDataKey_Encode junk key version data =
     (let meta_size = length reserve1 + kVersionLength + length reserve2;
          usize = length key + length data + kEncodedKeyDelimSize;
          nzero = count_list key kNeedTransformCharacter;
          needed = meta_size + (usize + nzero);
          dst = memcpy_at (alloc junk needed) 0 reserve1;
          (dst, off) = EncodeUserKey key dst (length reserve1) nzero;
          dst = memcpy_at dst off (EncodeFixed64 version);
          off = off + kVersionLength;
          dst = memcpy_at dst off data;
          off = off + length data
      in memcpy_at dst off reserve2)"

record ParsedBaseDataKey =
  bdk_key_str :: bytes
  bdk_version :: u64
  bdk_data :: bytes

definition ParsedBaseDataKey_decode :: "bytes \<Rightarrow> ParsedBaseDataKey option" where
  "ParsedBaseDataKey_decode key =
     (if length key < 8 + kSuffixReserveLength then None
      else let body = drop 8 (take (length key - kSuffixReserveLength) key)
           in case DecodeUserKey body (length body) of None \<Rightarrow> None
              | Some (k, n) \<Rightarrow>
                 (let ptr = drop n body in
                  if length ptr < 8 then None
                  else Some \<lparr>bdk_key_str = k, bdk_version = DecodeFixed64 ptr, bdk_data = drop 8 ptr\<rparr>))"

definition ListsDataKey_Encode :: "(nat \<Rightarrow> byte) \<Rightarrow> bytes \<Rightarrow> u64 \<Rightarrow> u64 \<Rightarrow> bytes" where
  "ListsDataKey_Encode junk key version index =
     (let meta_size = length reserve1 + kVersionLength + length reserve2;
          usize = length key + 8 + kEncodedKeyDelimSize;
          nzero = count_list key kNeedTransformCharacter;
          needed = meta_size + (usize + nzero);
          dst = memcpy_at (alloc junk needed) 0 reserve1;
          (dst, off) = EncodeUserKey key dst (length reserve1) nzero;
          dst = memcpy_at dst off (EncodeFixed64 version);
          off = off + kVersionLength;
          dst = memcpy_at dst off (EncodeFixed64 index);
          off = off + 8
      in memcpy_at dst off reserve2)"

record ParsedListsDataKey =
  ldk_key_str :: bytes
  ldk_version :: u64
  ldk_index :: u64

definition ParsedListsDataKey_decode :: "bytes \<Rightarrow> ParsedListsDataKey option" where
  "ParsedListsDataKey_decode key =
     (if length key < 8 + 16 then None
      else let body = drop 8 (take (length key - 16) key)
           in case DecodeUserKey body (length body) of None \<Rightarrow> None
              | Some (k, n) \<Rightarrow>
                 (let ptr = drop n body in
                  if length ptr < 16 then None
                  else Some \<lparr>ldk_key_str = k, ldk_version = DecodeFixed64 ptr,
                             ldk_index = DecodeFixed64 (drop 8 ptr)\<rparr>))"

text \<open>A \<open>double\<close> score is kept as the 64 bits of its representation, as the source reinterprets it.\<close>

definition ZSetsScoreKey_Encode :: "(nat \<Rightarrow> byte) \<Rightarrow> bytes \<Rightarrow> u64 \<Rightarrow> u64 \<Rightarrow> bytes \<Rightarrow> bytes" where
  "ZSetsScoreKey_Encode junk key version score member =
     (let meta_size = length reserve1 + kVersionLength + kScoreLength + length reserve2;
          usize = length key + length member + kEncodedKeyDelimSize;
          nzero = count_list key kNeedTransformCharacter;
          needed = meta_size + (usize + nzero);
          dst = memcpy_at (alloc junk needed) 0 reserve1;
          (dst, off) = EncodeUserKey key dst (length reserve1) nzero;
          dst = memcpy_at dst off (EncodeFixed64 version);
          off = off + kVersionLength;
          dst = memcpy_at dst off (EncodeFixed64 score);
          off = off + kScoreLength;
          dst = memcpy_at dst off member;
          off = off + length member
      in memcpy_at dst off reserve2)"

record ParsedZSetsScoreKey =
  zsk_key_str :: bytes
  zsk_version :: u64
  zsk_score :: u64
  zsk_member :: bytes

definition ParsedZSetsScoreKey_decode :: "bytes \<Rightarrow> ParsedZSetsScoreKey option" where
  "ParsedZSetsScoreKey_decode key =
     (if length key < 8 + 16 then None
      else let body = drop 8 (take (length key - 16) key)
           in case DecodeUserKey body (length body) of None \<Rightarrow> None
              | Some (k, n) \<Rightarrow>
                 (let ptr = drop n body in
                  if length ptr < 16 then None
                  else Some \<lparr>zsk_key_str = k, zsk_version = DecodeFixed64 ptr,
                             zsk_score = DecodeFixed64 (drop 8 ptr), zsk_member = drop 16 ptr\<rparr>))"

section \<open>What the escaping writes\<close>

text \<open>
  \<open>esc\<close> is the intended escaping: every zero byte becomes \<open>0, 1\<close>. The buffer code splits a key
  after its last zero byte: \<open>upto_last0\<close> is the part the loop copies, \<open>after_last0\<close> the tail copied
  behind it.
\<close>

fun esc :: "bytes \<Rightarrow> bytes" where
  "esc [] = []"
| "esc (b # bs) = (if b = 0 then 0 # 1 # esc bs else b # esc bs)"

fun upto_last0 :: "bytes \<Rightarrow> bytes" where
  "upto_last0 [] = []"
| "upto_last0 (b # bs) = (if 0 \<in> set (b # bs) then b # upto_last0 bs else [])"

fun after_last0 :: "bytes \<Rightarrow> bytes" where
  "after_last0 [] = []"
| "after_last0 (b # bs) = (if 0 \<in> set (b # bs) then after_last0 bs else b # bs)"

definition key_ok :: "bytes \<Rightarrow> bool" where
  "key_ok key \<longleftrightarrow> 0 \<notin> set key \<or> after_last0 key = []"

named_theorems key_simps \<open>layout of encoded keys\<close>

lemma upto_after_last0: "upto_last0 key @ after_last0 key = key"
  by (induction key) auto

lemma upto_last0_zero_free [simp]: "0 \<notin> set key \<Longrightarrow> upto_last0 key = []"
  by (cases key) auto

lemma upto_last0_append_zero: "upto_last0 (w @ 0 # rest) = w @ 0 # upto_last0 rest"
  by (induction w) auto

lemma esc_append [simp]: "esc (xs @ ys) = esc xs @ esc ys"
  by (induction xs) auto

lemma esc_zero_free [simp]: "0 \<notin> set key \<Longrightarrow> esc key = key"
  by (induction key) auto

lemma length_esc [simp]: "length (esc key) = length key + count_list key 0"
  by (induction key) auto

lemma key_ok_zero_free [simp, intro]: "0 \<notin> set key \<Longrightarrow> key_ok key"
  by (simp add: key_ok_def)

lemma EncodeUserKey_loop_run:
  assumes "0 \<notin> set w"
  shows "EncodeUserKey_loop (A @ w @ rest) (length A + length w) (length A) (D @ R) (length D) =
    (let E = esc (upto_last0 (w @ rest))
     in (length A + length (upto_last0 (w @ rest)), (D @ E) @ drop (length E) R,
         length D + length E))"
  using assms
proof (induction rest arbitrary: A w D R)
  case Nil
  then show ?case by (simp add: EncodeUserKey_loop.simps)
next
  case (Cons b rest)
  show ?case
  proof (cases "b = 0")
    case False
    have "EncodeUserKey_loop (A @ w @ b # rest) (length A + length w) (length A) (D @ R) (length D) =
        EncodeUserKey_loop (A @ (w @ [b]) @ rest) (length A + length (w @ [b])) (length A) (D @ R) (length D)"
      using False by (subst EncodeUserKey_loop.simps) (simp add: nth_append)
    also have "\<dots> = (let E = esc (upto_last0 ((w @ [b]) @ rest))
       in (length A + length (upto_last0 ((w @ [b]) @ rest)), (D @ E) @ drop (length E) R,
           length D + length E))"
      by (rule Cons.IH) (use False Cons.prems in auto)
    finally show ?thesis by simp
  next
    case True
    have sub: "(if length w \<noteq> 0 then (memcpy_at (D @ R) (length D) (take (length w) (drop (length A)
        (A @ w @ b # rest))), length D + length w) else (D @ R, length D)) =
        ((D @ w) @ drop (length w) R, length (D @ w))"
      by (simp add: buf_simps)
    have "EncodeUserKey_loop (A @ w @ b # rest) (length A + length w) (length A) (D @ R) (length D) =
        EncodeUserKey_loop ((A @ w @ [b]) @ [] @ rest) (length (A @ w @ [b]) + length ([] :: bytes))
          (length (A @ w @ [b])) ((D @ w @ [0, 1]) @ drop (Suc (Suc (length w))) R) (length (D @ w @ [0, 1]))"
      using True sub
      by (subst EncodeUserKey_loop.simps) (simp add: nth_append buf_simps Let_def)
    also have "\<dots> = (let E = esc (upto_last0 ([] @ rest))
       in (length (A @ w @ [b]) + length (upto_last0 ([] @ rest)),
           ((D @ w @ [0, 1]) @ E) @ drop (length E) (drop (Suc (Suc (length w))) R),
           length (D @ w @ [0, 1]) + length E))"
      by (rule Cons.IH) simp
    finally show ?thesis using True Cons.prems
      by (simp add: upto_last0_append_zero Let_def ac_simps)
  qed
qed

lemma count_list_zero_iff: "count_list xs x = 0 \<longleftrightarrow> x \<notin> set xs"
  by (rule count_list_0_iff)

text \<open>The exact effect of \<open>EncodeUserKey\<close> on a buffer whose first part \<open>D\<close> is already written.\<close>

lemma EncodeUserKey_effect:
  "EncodeUserKey key (D @ R) (length D) (count_list key 0) =
    (let E = (if 0 \<in> set key then esc (upto_last0 key) else key);
         T = (if 0 \<in> set key then after_last0 key else []);
         R1 = drop (length E) R
     in (D @ E @ [0, 0] @ drop 2 (T @ drop (length T) R1), length D + length E + 2))"
proof (cases "0 \<in> set key")
  case False
  then show ?thesis
    by (simp add: EncodeUserKey_def count_list_zero_iff buf_simps Let_def)
next
  case True
  have "EncodeUserKey_loop key 0 0 (D @ R) (length D) =
     (length (upto_last0 key), (D @ esc (upto_last0 key)) @ drop (length (esc (upto_last0 key))) R,
      length (D @ esc (upto_last0 key)))"
    using EncodeUserKey_loop_run [of "[]" "[]" key D R] by (simp add: Let_def)
  moreover have "drop (length (upto_last0 key)) key = after_last0 key"
    by (metis append_eq_conv_conj upto_after_last0)
  moreover have "(length (upto_last0 key) = length key) = (after_last0 key = [])"
    by (metis append_Nil2 append_eq_conv_conj length_append length_0_conv add_eq_self_zero upto_after_last0)
  ultimately show ?thesis using True
    by (auto simp: EncodeUserKey_def count_list_zero_iff buf_simps Let_def numeral_2_eq_2 add.assoc)
qed

lemma EncodeUserKey_ok [key_simps]:
  assumes "key_ok key"
  shows "EncodeUserKey key (D @ R) (length D) (count_list key 0) =
    ((D @ esc key @ [0, 0]) @ drop (length (esc key) + 2) R, length (D @ esc key @ [0, 0]))"
proof -
  have "0 \<in> set key \<Longrightarrow> after_last0 key = [] \<and> upto_last0 key = key"
    using assms upto_after_last0 [of key] by (auto simp: key_ok_def)
  then show ?thesis
    unfolding EncodeUserKey_effect by (auto simp: Let_def add.commute)
qed

lemma DecodeUserKey_loop_esc:
  "DecodeUserKey_loop (esc key @ 0 # 0 # rest) idx False out =
     (out @ key, Some (idx + length (esc key) + 2))"
  by (induction key arbitrary: idx out) auto

lemma DecodeUserKey_esc [key_simps]:
  assumes "length (esc key) + 2 \<le> len"
  shows "DecodeUserKey (esc key @ 0 # 0 # rest) len = Some (key, length (esc key) + 2)"
proof -
  have "take len (esc key @ 0 # 0 # rest) = esc key @ 0 # 0 # take (len - length (esc key) - 2) rest"
    using assms by (simp add: take_Cons' numeral_2_eq_2)
  then show ?thesis using assms
    by (simp only: DecodeUserKey_def DecodeUserKey_loop_esc) simp
qed

lemma SeekUserkeyDelim_loop_esc:
  "SeekUserkeyDelim_loop (esc key @ 0 # 0 # rest) idx False = Some (idx + length (esc key) + 2)"
  by (induction key arbitrary: idx) auto

lemma SeekUserkeyDelim_esc [key_simps]:
  assumes "length (esc key) + 2 \<le> len"
  shows "SeekUserkeyDelim (esc key @ 0 # 0 # rest) len = length (esc key) + 2"
proof -
  have "take len (esc key @ 0 # 0 # rest) = esc key @ 0 # 0 # take (len - length (esc key) - 2) rest"
    using assms by (simp add: take_Cons' numeral_2_eq_2)
  then show ?thesis using assms
    by (simp only: SeekUserkeyDelim_def SeekUserkeyDelim_loop_esc) simp
qed

text \<open>The delimiter makes escaped keys prefix-free: the first delimiter determines the key.\<close>

lemma esc_delim_inject [simp]: "esc k1 @ 0 # 0 # r1 = esc k2 @ 0 # 0 # r2 \<longleftrightarrow> k1 = k2 \<and> r1 = r2"
proof
  assume eq: "esc k1 @ 0 # 0 # r1 = esc k2 @ 0 # 0 # r2"
  have "fst (DecodeUserKey_loop (esc k1 @ 0 # 0 # r1) 0 False []) = k1"
    and "fst (DecodeUserKey_loop (esc k2 @ 0 # 0 # r2) 0 False []) = k2"
    by (simp_all add: DecodeUserKey_loop_esc)
  with eq have "k1 = k2" by simp
  with eq show "k1 = k2 \<and> r1 = r2" by simp
qed auto

section \<open>Layout of each key class\<close>

lemma length_reserves [simp]: "length reserve1 = 8" "length reserve2 = 16"
  by (simp_all add: reserve1_def reserve2_def)

text \<open>The first two writes of every \<open>Encode\<close>: the head reserve and the escaped user key.\<close>

lemma encode_head:
  assumes "key_ok key"
  shows "EncodeUserKey key (reserve1 @ drop 8 (alloc junk n)) 8 (count_list key 0) =
    ((reserve1 @ esc key @ [0, 0]) @ drop (8 + length (esc key) + 2) (alloc junk n),
     8 + length (esc key) + 2)"
  using EncodeUserKey_ok [OF assms, of reserve1 "drop 8 (alloc junk n)"]
  by (simp add: add.commute)

lemma BaseKey_Encode_layout [key_simps]:
  assumes "key_ok key"
  shows "BaseKey_Encode junk key = reserve1 @ esc key @ [0, 0] @ reserve2"
  by (simp add: BaseKey_Encode_def encode_head [OF assms] Let_def buf_simps)

lemma BaseDataKey_EncodeSeekKey_layout [key_simps]:
  assumes "key_ok key"
  shows "BaseDataKey_EncodeSeekKey junk key version d =
    reserve1 @ esc key @ [0, 0] @ EncodeFixed64 version @ d"
  by (simp add: BaseDataKey_EncodeSeekKey_def encode_head [OF assms] Let_def buf_simps)

lemma BaseDataKey_Encode_layout [key_simps]:
  assumes "key_ok key"
  shows "BaseDataKey_Encode junk key version d =
    reserve1 @ esc key @ [0, 0] @ EncodeFixed64 version @ d @ reserve2"
  by (simp add: BaseDataKey_Encode_def encode_head [OF assms] Let_def buf_simps)

lemma ListsDataKey_Encode_layout [key_simps]:
  assumes "key_ok key"
  shows "ListsDataKey_Encode junk key version index =
    reserve1 @ esc key @ [0, 0] @ EncodeFixed64 version @ EncodeFixed64 index @ reserve2"
  by (simp add: ListsDataKey_Encode_def encode_head [OF assms] Let_def buf_simps)

lemma ZSetsScoreKey_Encode_layout [key_simps]:
  assumes "key_ok key"
  shows "ZSetsScoreKey_Encode junk key version score member =
    reserve1 @ esc key @ [0, 0] @ EncodeFixed64 version @ EncodeFixed64 score @ member @ reserve2"
  by (simp add: ZSetsScoreKey_Encode_def encode_head [OF assms] Let_def buf_simps)

lemmas key_layouts = BaseKey_Encode_layout BaseDataKey_EncodeSeekKey_layout
  BaseDataKey_Encode_layout ListsDataKey_Encode_layout ZSetsScoreKey_Encode_layout

text \<open>What a parser sees between the two reserves of an encoded key.\<close>

lemma encoded_body:
  assumes "length r = 16"
  shows "drop 8 (take (length (reserve1 @ b @ r) - 16) (reserve1 @ b @ r)) = b"
  using assms by simp

lemma BaseKey_decode_esc:
  assumes "length r = 16"
  shows "ParsedBaseKey_decode (reserve1 @ (esc key @ [0, 0]) @ r) = Some key"
  using DecodeUserKey_esc [of key "length (esc key) + 2" "[]"] assms
  by (simp only: ParsedBaseKey_decode_def encoded_body Let_def) simp

lemma body_length:
  assumes "length r = 16"
  shows "\<not> length (reserve1 @ b @ r) < 8 + 16"
  using assms by simp

lemma after_last0_zero_free: "0 \<notin> set (after_last0 key)"
  by (induction key) auto

lemma count_upto_last0: "count_list (upto_last0 key) 0 = count_list key 0"
  by (induction key) (auto simp: count_list_zero_iff)

lemma length_upto_after: "length (upto_last0 key) + length (after_last0 key) = length key"
  by (metis length_append upto_after_last0)

text \<open>Whatever the key, the writes of \<open>EncodeUserKey\<close> stay within the space reserved for it.\<close>

lemma EncodeUserKey_bounds:
  assumes "length D + length key + count_list key 0 + 2 \<le> length (D @ R)"
  shows "length (fst (EncodeUserKey key (D @ R) (length D) (count_list key 0))) = length (D @ R)"
    and "snd (EncodeUserKey key (D @ R) (length D) (count_list key 0))
      \<le> length D + length key + count_list key 0 + 2"
  using assms length_upto_after [of key] count_upto_last0 [of key]
  unfolding EncodeUserKey_effect by (auto simp: Let_def count_list_zero_iff)

lemma EncodeUserKey_alloc_bounds:
  assumes "8 + length key + count_list key 0 + 2 \<le> n"
    and "EncodeUserKey key (memcpy_at (alloc junk n) 0 reserve1) 8 (count_list key 0) = (dst, off)"
  shows "length dst = n" and "off \<le> 8 + length key + count_list key 0 + 2"
  using assms EncodeUserKey_bounds [of reserve1 key "drop 8 (alloc junk n)"]
  by (simp_all add: memcpy_at_start)

lemma EncodeUserKey_tail:
  assumes "0 \<notin> set t"
  shows "EncodeUserKey (pre @ 0 # t) (D @ R) (length D) (Suc (count_list pre 0)) =
    (D @ esc pre @ [0, 1, 0, 0] @ drop 2 (t @ drop (length t + length (esc pre) + 2) R),
     length D + length (esc pre) + 4)"
proof -
  have "upto_last0 (pre @ 0 # t) = pre @ [0]"
    using assms by (simp add: upto_last0_append_zero)
  moreover have "after_last0 (pre @ 0 # t) = t"
    using upto_after_last0 [of "pre @ 0 # t"] calculation by simp
  moreover have "count_list (pre @ 0 # t) 0 = Suc (count_list pre 0)"
    using assms by (simp add: count_list_zero_iff)
  ultimately show ?thesis
    using EncodeUserKey_effect [of "pre @ 0 # t" D R] by (simp add: Let_def ac_simps)
qed

lemma length_BaseKey_Encode:
  "length (BaseKey_Encode junk key) = 24 + (count_list key 0 + 2 + length key)" (is "_ = ?n")
proof -
  obtain dst off where e: "EncodeUserKey key (memcpy_at (alloc junk ?n) 0 reserve1) 8 (count_list key 0)
    = (dst, off)" by fastforce
  show ?thesis using EncodeUserKey_alloc_bounds [OF _ e] e by (simp add: BaseKey_Encode_def Let_def)
qed

lemma length_BaseDataKey_Encode:
  "length (BaseDataKey_Encode junk key version d) = 32 + (length key + length d + 2 + count_list key 0)"
  (is "_ = ?n")
proof -
  obtain dst off where e: "EncodeUserKey key (memcpy_at (alloc junk ?n) 0 reserve1) 8 (count_list key 0)
    = (dst, off)" by fastforce
  show ?thesis using EncodeUserKey_alloc_bounds [OF _ e] e by (simp add: BaseDataKey_Encode_def Let_def)
qed

lemma length_ListsDataKey_Encode:
  "length (ListsDataKey_Encode junk key version index) = 32 + (length key + 8 + 2 + count_list key 0)"
  (is "_ = ?n")
proof -
  obtain dst off where e: "EncodeUserKey key (memcpy_at (alloc junk ?n) 0 reserve1) 8 (count_list key 0)
    = (dst, off)" by fastforce
  show ?thesis using EncodeUserKey_alloc_bounds [OF _ e] e by (simp add: ListsDataKey_Encode_def Let_def)
qed

lemma length_ZSetsScoreKey_Encode:
  "length (ZSetsScoreKey_Encode junk key version score d) = 40 + (length key + length d + 2 + count_list key 0)"
  (is "_ = ?n")
proof -
  obtain dst off where e: "EncodeUserKey key (memcpy_at (alloc junk ?n) 0 reserve1) 8 (count_list key 0)
    = (dst, off)" by fastforce
  show ?thesis using EncodeUserKey_alloc_bounds [OF _ e] e by (simp add: ZSetsScoreKey_Encode_def Let_def)
qed

section \<open>Decoding what was encoded\<close>

lemma BaseKey_decode_Encode [key_simps]:
  assumes "key_ok key"
  shows "ParsedBaseKey_decode (BaseKey_Encode junk key) = Some key"
  using BaseKey_decode_esc [of reserve2 key] by (simp add: BaseKey_Encode_layout [OF assms])

lemma BaseDataKey_decode_Encode [key_simps]:
  assumes "key_ok key"
  shows "ParsedBaseDataKey_decode (BaseDataKey_Encode junk key version d) =
    Some \<lparr>bdk_key_str = key, bdk_version = version, bdk_data = d\<rparr>"
proof -
  let ?b = "esc key @ 0 # 0 # EncodeFixed64 version @ d"
  have "DecodeUserKey ?b (length ?b) = Some (key, length (esc key) + 2)"
    by (rule DecodeUserKey_esc) simp
  then show ?thesis
    using encoded_body [of reserve2 ?b] body_length [of reserve2 ?b]
    by (simp add: BaseDataKey_Encode_layout [OF assms] ParsedBaseDataKey_decode_def Let_def)
qed

lemma ListsDataKey_decode_Encode [key_simps]:
  assumes "key_ok key"
  shows "ParsedListsDataKey_decode (ListsDataKey_Encode junk key version index) =
    Some \<lparr>ldk_key_str = key, ldk_version = version, ldk_index = index\<rparr>"
proof -
  let ?b = "esc key @ 0 # 0 # EncodeFixed64 version @ EncodeFixed64 index"
  have "DecodeUserKey ?b (length ?b) = Some (key, length (esc key) + 2)"
    by (rule DecodeUserKey_esc) simp
  then show ?thesis
    using encoded_body [of reserve2 ?b] body_length [of reserve2 ?b]
    by (simp add: ListsDataKey_Encode_layout [OF assms] ParsedListsDataKey_decode_def Let_def)
qed

lemma ZSetsScoreKey_decode_Encode [key_simps]:
  assumes "key_ok key"
  shows "ParsedZSetsScoreKey_decode (ZSetsScoreKey_Encode junk key version score member) =
    Some \<lparr>zsk_key_str = key, zsk_version = version, zsk_score = score, zsk_member = member\<rparr>"
proof -
  let ?b = "esc key @ 0 # 0 # EncodeFixed64 version @ EncodeFixed64 score @ member"
  have "DecodeUserKey ?b (length ?b) = Some (key, length (esc key) + 2)"
    by (rule DecodeUserKey_esc) simp
  then show ?thesis
    using encoded_body [of reserve2 ?b] body_length [of reserve2 ?b]
    by (simp add: ZSetsScoreKey_Encode_layout [OF assms] ParsedZSetsScoreKey_decode_def Let_def)
qed

section \<open>Properties\<close>



text \<open>A prefix scan is exact. The seek key built from a user key and a version is a prefix of a
  stored member key exactly when that member belongs to the same user key and version, so
  iterating while the prefix matches visits no member of another key or version.\<close>

theorem seek_prefix_exact:
  assumes "key_ok key" and "key_ok key'"
  shows "prefix (BaseDataKey_EncodeSeekKey junk key version []) (BaseDataKey_Encode junk' key' version' d)
    \<longleftrightarrow> key = key' \<and> version = version'"
proof -
  have "prefix (esc key @ [0, 0] @ EncodeFixed64 version) (esc key' @ [0, 0] @ EncodeFixed64 version' @ r)
    \<longleftrightarrow> key = key' \<and> version = version'" for r
    by (auto simp: prefix_def append_eq_append_conv)
  then show ?thesis
    by (simp add: BaseDataKey_EncodeSeekKey_layout [OF assms(1)] BaseDataKey_Encode_layout [OF assms(2)])
qed

theorem seek_prefix_exact_witness:
  "\<not> prefix (BaseDataKey_EncodeSeekKey (\<lambda>_. 9) [1] 7 []) (BaseDataKey_Encode (\<lambda>_. 9) [1, 0] 7 [3])"
  using seek_prefix_exact [of "[1]" "[1, 0]" "\<lambda>_. 9" 7 "\<lambda>_. 9" 7 "[3]"] by (simp add: key_ok_def)

text \<open>No encoder writes outside its buffer: for every key, also one with embedded zero bytes,
  the result has exactly the size that was reserved before the first write.\<close>

theorem Encode_in_bounds:
  "length (BaseKey_Encode junk key) = 24 + (count_list key 0 + 2 + length key) \<and>
   length (BaseDataKey_Encode junk key version d) = 32 + (length key + length d + 2 + count_list key 0) \<and>
   length (ListsDataKey_Encode junk key version index) = 32 + (length key + 8 + 2 + count_list key 0) \<and>
   length (ZSetsScoreKey_Encode junk key version score d) = 40 + (length key + length d + 2 + count_list key 0)"
  by (intro conjI length_BaseKey_Encode length_BaseDataKey_Encode length_ListsDataKey_Encode
      length_ZSetsScoreKey_Encode)

text \<open>C33: The escaping loses what follows the last zero byte of a user key. \<open>EncodeUserKey\<close> copies
  the tail but does not advance over it, so the delimiter and the fields written next overwrite
  it: two keys that differ only in a tail of at most 18 bytes after their last zero byte share one
  meta key.\<close>

theorem BaseKey_tail_collision:
  assumes "0 \<notin> set t1" and "0 \<notin> set t2" and "length t1 = length t2" and "length t1 \<le> 18"
  shows "BaseKey_Encode junk (pre @ 0 # t1) = BaseKey_Encode junk (pre @ 0 # t2)"
  using assms EncodeUserKey_tail [of t1 pre reserve1] EncodeUserKey_tail [of t2 pre reserve1]
  by (simp add: BaseKey_Encode_def buf_simps count_list_zero_iff Let_def)

theorem BaseKey_tail_collision_witness:
  "BaseKey_Encode (\<lambda>_. 9) ([1] @ 0 # [2]) = BaseKey_Encode (\<lambda>_. 9) ([1] @ 0 # [3])"
  by (rule BaseKey_tail_collision) simp_all

end
