(* ===== verification/Comparator.thy ===== *)
theory Comparator
  imports KeyFormat "HOL-Library.List_Lexorder" "HOL-Library.Product_Lexorder" "HOL-Library.Option_ord"
begin

text \<open>
  Orders on keys. RocksDB keeps every column family sorted by a comparator; \<open>Redis::Open\<close>
  (\<open>src/src/storage/src/redis.cc\<close>) installs the two of \<open>custom_comparator.h\<close> for list elements and
  zset scores and leaves the byte order elsewhere. Both call \<open>rocksdb::Slice::compare\<close>, which is
  not part of the repository: it is the parameter \<open>slice_compare\<close>, with its documented contract as
  the locale \<open>slice_order\<close>. The repository's own \<open>pstd::Slice::compare\<close> fulfils that contract.
\<close>

section \<open>Three-way comparison of byte strings\<close>

text \<open>\<open>memcmp\<close> reads bytes as unsigned; only the sign of its result is specified.\<close>

fun memcmp :: "bytes \<Rightarrow> bytes \<Rightarrow> nat \<Rightarrow> int" where
  "memcmp (x # xs) (y # ys) (Suc n) = (if x = y then memcmp xs ys n else if x < y then - 1 else 1)"
| "memcmp _ _ _ = 0"

text \<open>\<open>pstd::Slice::compare\<close>.\<close>

definition pstd_Slice_compare :: "bytes \<Rightarrow> bytes \<Rightarrow> int" where
  "pstd_Slice_compare a b =
     (let min_len = (if length a < length b then length a else length b);
          r = memcmp a b min_len
      in if r = 0 then
           (if length a < length b then - 1 else if length a > length b then 1 else r)
         else r)"

definition pstd_Slice_starts_with :: "bytes \<Rightarrow> bytes \<Rightarrow> bool" where
  "pstd_Slice_starts_with a x \<longleftrightarrow> length a \<ge> length x \<and> memcmp a x (length x) = 0"

section \<open>Comparators\<close>

text \<open>
  \<open>ListsDataKeyComparatorImpl::Compare\<close>. The pointers are offsets into the two keys. On a key that
  ends inside its version or index the source reads behind it; here the missing bytes are zero.
\<close>

definition ListsDataKeyComparator_Compare :: "(bytes \<Rightarrow> bytes \<Rightarrow> int) \<Rightarrow> bytes \<Rightarrow> bytes \<Rightarrow> int" where
  "ListsDataKeyComparator_Compare slice_compare a b =
     (let ptr_a = kPrefixReserveLength + SeekUserkeyDelim (drop kPrefixReserveLength a) (length a - kPrefixReserveLength);
          ptr_b = kPrefixReserveLength + SeekUserkeyDelim (drop kPrefixReserveLength b) (length b - kPrefixReserveLength);
          a_prefix = take ptr_a a;
          b_prefix = take ptr_b b
      in if a_prefix \<noteq> b_prefix then slice_compare a_prefix b_prefix
         else if ptr_a = length a \<and> ptr_b = length b then 0
         else if ptr_a = length a then - 1
         else if ptr_b = length b then 1
         else
           let version_a = DecodeFixed64 (drop ptr_a a);
               version_b = DecodeFixed64 (drop ptr_b b);
               ptr_a = ptr_a + 8;
               ptr_b = ptr_b + 8
           in if version_a \<noteq> version_b then (if version_a < version_b then - 1 else 1)
              else if ptr_a = length a \<and> ptr_b = length b then 0
              else if ptr_a = length a then - 1
              else if ptr_b = length b then 1
              else
                let index_a = DecodeFixed64 (drop ptr_a a);
                    index_b = DecodeFixed64 (drop ptr_b b)
                in if index_a \<noteq> index_b then (if index_a < index_b then - 1 else 1) else 0)"

text \<open>
  Comparison of \<open>double\<close> values on their representations (IEEE 754 binary64): a NaN is neither
  less than nor equal to anything, and the two zeros are equal.
\<close>

definition double_isnan :: "u64 \<Rightarrow> bool" where
  "double_isnan d \<longleftrightarrow> take_bit 63 d > 0x7FF0000000000000"

definition double_rank :: "u64 \<Rightarrow> int" where
  "double_rank d = (if bit d 63 then - uint (take_bit 63 d) else uint (take_bit 63 d))"

definition double_eq :: "u64 \<Rightarrow> u64 \<Rightarrow> bool" where
  "double_eq a b \<longleftrightarrow> \<not> double_isnan a \<and> \<not> double_isnan b \<and> double_rank a = double_rank b"

definition double_less :: "u64 \<Rightarrow> u64 \<Rightarrow> bool" where
  "double_less a b \<longleftrightarrow> \<not> double_isnan a \<and> \<not> double_isnan b \<and> double_rank a < double_rank b"

text \<open>\<open>ZSetsScoreKeyComparatorImpl::Compare\<close>.\<close>

definition ZSetsScoreKeyComparator_Compare :: "(bytes \<Rightarrow> bytes \<Rightarrow> int) \<Rightarrow> bytes \<Rightarrow> bytes \<Rightarrow> int" where
  "ZSetsScoreKeyComparator_Compare slice_compare a b =
     (let p_a = kPrefixReserveLength + SeekUserkeyDelim (drop kPrefixReserveLength a) (length a - kPrefixReserveLength);
          p_b = kPrefixReserveLength + SeekUserkeyDelim (drop kPrefixReserveLength b) (length b - kPrefixReserveLength);
          ret = slice_compare (drop kPrefixReserveLength (take p_a a)) (drop kPrefixReserveLength (take p_b b))
      in if ret \<noteq> 0 then ret
         else
           let version_a = DecodeFixed64 (drop p_a a);
               version_b = DecodeFixed64 (drop p_b b)
           in if version_a \<noteq> version_b then (if version_a < version_b then - 1 else 1)
              else
                let ptr_a = p_a + kVersionLength;
                    ptr_b = p_b + kVersionLength;
                    a_score = DecodeFixed64 (drop ptr_a a);
                    b_score = DecodeFixed64 (drop ptr_b b)
                in if \<not> double_eq a_score b_score then (if double_less a_score b_score then - 1 else 1)
                   else slice_compare (drop (ptr_a + kScoreLength) a) (drop (ptr_b + kScoreLength) b))"

text \<open>The comparator \<open>Redis::Open\<close> gives each column family.\<close>

fun cf_compare :: "(bytes \<Rightarrow> bytes \<Rightarrow> int) \<Rightarrow> ColumnFamilyIndex \<Rightarrow> bytes \<Rightarrow> bytes \<Rightarrow> int" where
  "cf_compare slice_compare kListsDataCF = ListsDataKeyComparator_Compare slice_compare"
| "cf_compare slice_compare kZsetsScoreCF = ZSetsScoreKeyComparator_Compare slice_compare"
| "cf_compare slice_compare _ = slice_compare"

section \<open>The contract of a comparator\<close>

definition comparator_ok :: "(bytes \<Rightarrow> bytes \<Rightarrow> int) \<Rightarrow> bool" where
  "comparator_ok cmp \<longleftrightarrow>
     (\<forall>a b. cmp a b < 0 \<longleftrightarrow> 0 < cmp b a) \<and>
     (\<forall>a b c. cmp a b \<le> 0 \<longrightarrow> cmp b c \<le> 0 \<longrightarrow> cmp a c \<le> 0)"

lemma comparator_okD:
  assumes "comparator_ok cmp"
  shows "cmp a b < 0 \<longleftrightarrow> 0 < cmp b a" "cmp a b \<le> 0 \<Longrightarrow> cmp b c \<le> 0 \<Longrightarrow> cmp a c \<le> 0"
  using assms by (auto simp: comparator_ok_def)

lemma comparator_ok_refl: "comparator_ok cmp \<Longrightarrow> cmp a a = 0"
  using comparator_okD(1) [of cmp a a] by linarith

lemma comparator_ok_sym: "comparator_ok cmp \<Longrightarrow> cmp a b = 0 \<longleftrightarrow> cmp b a = 0"
  using comparator_okD(1) [of cmp a b] comparator_okD(1) [of cmp b a] by linarith

lemma comparator_ok_less_trans:
  assumes "comparator_ok cmp" "cmp a b < 0" "cmp b c \<le> 0"
  shows "cmp a c < 0"
proof -
  have "\<not> cmp c a \<le> 0"
    using comparator_okD(2) [OF assms(1), of b c a] comparator_okD(1) [OF assms(1), of a b] assms by linarith
  then show ?thesis using comparator_okD(1) [OF assms(1), of a c] by linarith
qed

lemma comparator_ok_le_less_trans:
  assumes "comparator_ok cmp" "cmp a b \<le> 0" "cmp b c < 0"
  shows "cmp a c < 0"
proof -
  have "\<not> cmp c a \<le> 0"
    using comparator_okD(2) [OF assms(1), of c a b] comparator_okD(1) [OF assms(1), of b c] assms by linarith
  then show ?thesis using comparator_okD(1) [OF assms(1), of a c] by linarith
qed

lemma comparator_ok_eq_cong:
  assumes "comparator_ok cmp" "cmp a b = 0"
  shows "cmp a c = 0 \<longleftrightarrow> cmp b c = 0" "cmp a c < 0 \<longleftrightarrow> cmp b c < 0"
proof -
  note ok = assms(1)
  have s: "cmp b a = 0" using assms comparator_ok_sym by blast
  show lt: "cmp a c < 0 \<longleftrightarrow> cmp b c < 0"
    using comparator_ok_le_less_trans [OF ok, of a b c] comparator_ok_le_less_trans [OF ok, of b a c] assms(2) s
    by auto
  have "cmp c a < 0 \<longleftrightarrow> cmp c b < 0"
    using comparator_ok_less_trans [OF ok, of c a b] comparator_ok_less_trans [OF ok, of c b a] assms(2) s
    by auto
  with lt show "cmp a c = 0 \<longleftrightarrow> cmp b c = 0"
    using comparator_okD(1) [OF ok, of c a] comparator_okD(1) [OF ok, of c b] by linarith
qed

text \<open>A comparison that agrees with the order of some sort key meets the contract.\<close>

lemma comparator_okI:
  fixes f :: "bytes \<Rightarrow> 'k :: linorder"
  assumes "\<And>a b. cmp a b < 0 \<longleftrightarrow> f a < f b" and "\<And>a b. cmp a b = 0 \<longleftrightarrow> f a = f b"
  shows "comparator_ok cmp"
proof -
  have le: "cmp a b \<le> 0 \<longleftrightarrow> f a \<le> f b" for a b
    using assms(1) [of a b] assms(2) [of a b] by (auto simp: order_le_less)
  have "0 < cmp b a \<longleftrightarrow> f a < f b" for a b
    using le [of b a] by (metis linorder_not_le)
  then show ?thesis
    using assms le unfolding comparator_ok_def by (metis order_trans)
qed

locale slice_order =
  fixes slice_compare :: "bytes \<Rightarrow> bytes \<Rightarrow> int"
  assumes slice_compare_less: "slice_compare a b < 0 \<longleftrightarrow> a < b"
    and slice_compare_eq [simp]: "slice_compare a b = 0 \<longleftrightarrow> a = b"
begin

lemma slice_comparator_ok: "comparator_ok slice_compare"
  by (rule comparator_okI [where f = "\<lambda>k. k"]) (simp_all add: slice_compare_less)

end

text \<open>\<open>pstd::Slice::compare\<close> meets the contract.\<close>

lemma memcmp_eq: "n \<le> length a \<Longrightarrow> n \<le> length b \<Longrightarrow> memcmp a b n = 0 \<longleftrightarrow> take n a = take n b"
  by (induction a b n rule: memcmp.induct) auto

lemma pstd_Slice_compare_Cons:
  "pstd_Slice_compare (x # a) (y # b) =
     (if x = y then pstd_Slice_compare a b else if x < y then - 1 else 1)"
  by (simp add: pstd_Slice_compare_def Let_def)

lemma memcmp_refl [simp]: "memcmp a a n = 0"
proof (induction a arbitrary: n)
  case (Cons x a)
  then show ?case by (cases n) auto
qed simp

lemma pstd_Slice_compare_refl [simp]: "pstd_Slice_compare a a = 0"
  by (simp add: pstd_Slice_compare_def Let_def)

lemma pstd_Slice_compare_eq:
  "pstd_Slice_compare a b = (if a = b then 0 else if a < b then - 1 else 1)"
proof (induction a arbitrary: b)
  case Nil
  then show ?case by (cases b) (simp_all add: pstd_Slice_compare_def)
next
  case (Cons x a)
  show ?case
  proof (cases b)
    case Nil
    then show ?thesis by (simp add: pstd_Slice_compare_def)
  next
    case (Cons y b')
    then show ?thesis by (simp add: pstd_Slice_compare_Cons Cons.IH)
  qed
qed

interpretation pstd_slice: slice_order pstd_Slice_compare
  by unfold_locales (auto simp: pstd_Slice_compare_eq)

section \<open>Order of list elements\<close>

text \<open>What the list comparator sorts by: the user key with its delimiter, then the version, then the
  index.\<close>

definition lists_sort_key :: "bytes \<Rightarrow> bytes \<times> (u64 \<times> u64 option) option" where
  "lists_sort_key k =
     (let n = 8 + SeekUserkeyDelim (drop 8 k) (length k - 8)
      in (take n k,
          if n = length k then None
          else Some (DecodeFixed64 (drop n k),
                     if n + 8 = length k then None else Some (DecodeFixed64 (drop (n + 8) k)))))"

context slice_order
begin

lemma three_way_less:
  fixes va vb ia ib :: u64
  shows "(if pa \<noteq> pb then slice_compare pa pb
     else if ea \<and> eb then 0 else if ea then - 1 else if eb then 1
     else if va \<noteq> vb then (if va < vb then - 1 else 1)
     else if fa \<and> fb then 0 else if fa then - 1 else if fb then 1
     else if ia \<noteq> ib then (if ia < ib then - 1 else 1) else 0) < 0 \<longleftrightarrow>
    (pa, if ea then None else Some (va, if fa then None else Some ia)) <
    (pb, if eb then None else Some (vb, if fb then None else Some ib))"
  by (cases ea; cases eb; cases fa; cases fb) (auto simp: slice_compare_less order_le_less)

lemma three_way_eq:
  fixes va vb ia ib :: u64
  shows "(if pa \<noteq> pb then slice_compare pa pb
     else if ea \<and> eb then 0 else if ea then - 1 else if eb then 1
     else if va \<noteq> vb then (if va < vb then - 1 else 1)
     else if fa \<and> fb then 0 else if fa then - 1 else if fb then 1
     else if ia \<noteq> ib then (if ia < ib then - 1 else 1) else 0) = 0 \<longleftrightarrow>
    (pa, if ea then None else Some (va, if fa then None else Some ia)) =
    (pb, if eb then None else Some (vb, if fb then None else Some ib))"
  by (cases ea; cases eb; cases fa; cases fb) auto

lemma lists_compare_sort_key:
  "ListsDataKeyComparator_Compare slice_compare a b < 0 \<longleftrightarrow> lists_sort_key a < lists_sort_key b"
  "ListsDataKeyComparator_Compare slice_compare a b = 0 \<longleftrightarrow> lists_sort_key a = lists_sort_key b"
  unfolding ListsDataKeyComparator_Compare_def lists_sort_key_def Let_def
  by (rule three_way_less, rule three_way_eq)

lemma lists_comparator_ok: "comparator_ok (ListsDataKeyComparator_Compare slice_compare)"
  by (rule comparator_okI [where f = lists_sort_key]) (rule lists_compare_sort_key)+

lemma cf_comparator_ok: "cf \<noteq> kZsetsScoreCF \<Longrightarrow> comparator_ok (cf_compare slice_compare cf)"
  by (cases cf) (simp_all add: lists_comparator_ok slice_comparator_ok)

end

lemma append_less_cancel: "xs @ a < xs @ b \<longleftrightarrow> a < (b :: bytes)"
  by (induction xs) auto

text \<open>Where the comparators find the end of the user key in an encoded key.\<close>

lemma seek_after_head:
  "8 + SeekUserkeyDelim (drop 8 ((reserve1 @ esc key @ [0, 0]) @ r)) (length ((reserve1 @ esc key @ [0, 0]) @ r) - 8)
    = length (reserve1 @ esc key @ [0, 0])"
proof -
  let ?k = "(reserve1 @ esc key @ [0, 0]) @ r"
  have l: "length ?k - 8 = length (drop 8 ?k)" by simp
  have d: "drop 8 ?k = esc key @ 0 # 0 # r" by simp
  show ?thesis unfolding l unfolding d by (subst SeekUserkeyDelim_esc) simp_all
qed

lemma lists_sort_key_Encode:
  assumes "key_ok key"
  shows "lists_sort_key (ListsDataKey_Encode junk key version index) =
    (reserve1 @ esc key @ [0, 0], Some (version, Some index))"
proof -
  let ?v = "EncodeFixed64 version @ EncodeFixed64 index @ reserve2"
  let ?k = "ListsDataKey_Encode junk key version index"
  have k: "?k = (reserve1 @ esc key @ [0, 0]) @ ?v"
    by (simp add: ListsDataKey_Encode_layout [OF assms])
  show ?thesis
    unfolding lists_sort_key_def Let_def k seek_after_head by simp
qed

lemma lists_compare_encoded:
  assumes "slice_order slice_compare" and "key_ok k1" and "key_ok k2"
  shows "ListsDataKeyComparator_Compare slice_compare (ListsDataKey_Encode j1 k1 v1 i1) (ListsDataKey_Encode j2 k2 v2 i2) < 0
      \<longleftrightarrow> esc k1 @ [0, 0] < esc k2 @ [0, 0] \<or> k1 = k2 \<and> (v1 < v2 \<or> v1 = v2 \<and> i1 < i2)" (is ?less)
    and "ListsDataKeyComparator_Compare slice_compare (ListsDataKey_Encode j1 k1 v1 i1) (ListsDataKey_Encode j2 k2 v2 i2) = 0
      \<longleftrightarrow> k1 = k2 \<and> v1 = v2 \<and> i1 = i2" (is ?eq)
proof -
  have eq: "esc k1 @ [0, 0] = esc k2 @ [0, 0] \<longleftrightarrow> k1 = k2"
    using esc_delim_inject [of k1 "[]" k2 "[]"] by simp
  have less: "reserve1 @ a < reserve1 @ b \<longleftrightarrow> a < b" for a b
    by (rule append_less_cancel)
  show ?less ?eq
    using eq less [of "esc k1 @ [0, 0]" "esc k2 @ [0, 0]"] less [of "esc k2 @ [0, 0]" "esc k1 @ [0, 0]"]
    by (auto simp: slice_order.lists_compare_sort_key [OF assms(1)] lists_sort_key_Encode assms(2,3) order_le_less)
qed

lemma zsets_compare_same_key:
  assumes "slice_order slice_compare" and "key_ok key"
  shows "ZSetsScoreKeyComparator_Compare slice_compare (ZSetsScoreKey_Encode j1 key v s1 m1) (ZSetsScoreKey_Encode j2 key v s2 m2) =
    (if \<not> double_eq s1 s2 then (if double_less s1 s2 then - 1 else 1)
     else slice_compare (m1 @ reserve2) (m2 @ reserve2))"
proof -
  let ?h = "reserve1 @ esc key @ [0, 0]"
  let ?v = "\<lambda>s m. EncodeFixed64 v @ EncodeFixed64 s @ m @ reserve2"
  have e: "ZSetsScoreKey_Encode j key v s m = ?h @ ?v s m" for j s m
    by (simp add: ZSetsScoreKey_Encode_layout [OF assms(2)])
  show ?thesis
    unfolding e ZSetsScoreKeyComparator_Compare_def Let_def seek_after_head
    using slice_order.slice_compare_eq [OF assms(1)] by simp
qed

section \<open>Properties\<close>



text \<open>A NaN score breaks the zset comparator. Two score keys of one zset of which one holds a NaN
  are each greater than the other, and a NaN key is not equal to itself, so the comparator is not
  an order on the keys \<open>ZADD\<close> accepts.\<close>

theorem zset_comparator_nan:
  assumes "slice_order slice_compare" and "key_ok key" and "double_isnan s1"
  shows "ZSetsScoreKeyComparator_Compare slice_compare (ZSetsScoreKey_Encode j1 key v s1 m1) (ZSetsScoreKey_Encode j2 key v s2 m2) = 1 \<and>
    ZSetsScoreKeyComparator_Compare slice_compare (ZSetsScoreKey_Encode j2 key v s2 m2) (ZSetsScoreKey_Encode j1 key v s1 m1) = 1"
  using assms by (simp add: zsets_compare_same_key double_eq_def double_less_def)

theorem zset_comparator_nan_witness:
  "ZSetsScoreKeyComparator_Compare pstd_Slice_compare (ZSetsScoreKey_Encode (\<lambda>_. 9) [1] 7 0x7FF8000000000000 [2]) (ZSetsScoreKey_Encode (\<lambda>_. 9) [1] 7 0x7FF8000000000000 [2]) = 1"
  using zset_comparator_nan [OF pstd_slice.slice_order_axioms, of "[1]" "0x7FF8000000000000" "\<lambda>_. 9" 7 "[2]" "\<lambda>_. 9" "0x7FF8000000000000" "[2]"]
  by (simp add: double_isnan_def)

end
