(* ===== verification/RocksDB.thy ===== *)
theory RocksDB
  imports Comparator
begin

text \<open>
  The storage engine's view of RocksDB, which is not part of the repository. \<open>'s rocksdb\<close> is the
  interface: the calls of \<open>rocksdb::DB\<close> and \<open>rocksdb::Iterator\<close> the storage engine makes, over an
  unknown database state \<open>'s\<close>. The locale \<open>rocksdb\<close> states the documented behaviour the engine
  relies on, in terms of the contents \<open>view s cf\<close> of each column family, with keys identified by
  the family's comparator. Any call may fail with a status other than \<open>OK\<close> and \<open>NotFound\<close>. A
  reference database that is the log of its write batches fulfils the locale.
\<close>

section \<open>Interface\<close>

text \<open>The statuses of \<open>rocksdb::Status\<close> the engine builds or distinguishes; the engine passes every
  other one on.\<close>

datatype Status =
  OK | NotFound string | Corruption string | InvalidArgument string | OtherStatus nat string

fun is_NotFound :: "Status \<Rightarrow> bool" where
  "is_NotFound (NotFound _) = True"
| "is_NotFound _ = False"

text \<open>The entries of a \<open>rocksdb::WriteBatch\<close>; \<open>DB::Put\<close> is a batch of one entry.\<close>

datatype WriteOp = Put ColumnFamilyIndex bytes bytes | Delete ColumnFamilyIndex bytes

text \<open>
  \<open>db_Get\<close> returns the status and the output string. An iterator is what it visits: \<open>it_Seek\<close> the
  entries from \<open>Seek(k)\<close> on by \<open>Next\<close>, \<open>it_SeekPrev\<close> those from \<open>Seek(k)\<close> back by \<open>Prev\<close>,
  \<open>it_SeekForPrev\<close> those from \<open>SeekForPrev(k)\<close> back by \<open>Prev\<close>. Iterators and snapshots read the
  state at which they were created.
\<close>

record 's rocksdb =
  db_Get :: "'s \<Rightarrow> ColumnFamilyIndex \<Rightarrow> bytes \<Rightarrow> Status \<times> bytes"
  db_Write :: "'s \<Rightarrow> WriteOp list \<Rightarrow> Status \<times> 's"
  it_SeekToFirst :: "'s \<Rightarrow> ColumnFamilyIndex \<Rightarrow> (bytes \<times> bytes) list"
  it_Seek :: "'s \<Rightarrow> ColumnFamilyIndex \<Rightarrow> bytes \<Rightarrow> (bytes \<times> bytes) list"
  it_SeekPrev :: "'s \<Rightarrow> ColumnFamilyIndex \<Rightarrow> bytes \<Rightarrow> (bytes \<times> bytes) list"
  it_SeekForPrev :: "'s \<Rightarrow> ColumnFamilyIndex \<Rightarrow> bytes \<Rightarrow> (bytes \<times> bytes) list"

type_synonym contents = "ColumnFamilyIndex \<Rightarrow> bytes \<Rightarrow> bytes option"

text \<open>What a batch does to the contents.\<close>

fun apply_op :: "(bytes \<Rightarrow> bytes \<Rightarrow> int) \<Rightarrow> WriteOp \<Rightarrow> contents \<Rightarrow> contents" where
  "apply_op sc (Put cf k v) m = m(cf := (\<lambda>k'. if cf_compare sc cf k k' = 0 then Some v else m cf k'))"
| "apply_op sc (Delete cf k) m = m(cf := (\<lambda>k'. if cf_compare sc cf k k' = 0 then None else m cf k'))"

definition apply_batch :: "(bytes \<Rightarrow> bytes \<Rightarrow> int) \<Rightarrow> WriteOp list \<Rightarrow> contents \<Rightarrow> contents" where
  "apply_batch sc ops m = fold (apply_op sc) ops m"

lemma apply_batch_simps [simp]:
  "apply_batch sc [] m = m"
  "apply_batch sc (op # ops) m = apply_batch sc ops (apply_op sc op m)"
  "apply_batch sc (ops @ ops') m = apply_batch sc ops' (apply_batch sc ops m)"
  by (simp_all add: apply_batch_def)

text \<open>\<open>Get\<close> returns \<open>OK\<close> exactly on the keys that are present and nothing fails.\<close>

definition db_healthy :: "'s rocksdb \<Rightarrow> ('s \<Rightarrow> contents) \<Rightarrow> bool" where
  "db_healthy db view \<longleftrightarrow>
     (\<forall>s cf k. case view s cf k of Some v \<Rightarrow> db_Get db s cf k = (OK, v)
                | None \<Rightarrow> is_NotFound (fst (db_Get db s cf k))) \<and>
     (\<forall>s ops. fst (db_Write db s ops) = OK)"

locale rocksdb = slice_order slice_compare
  for slice_compare :: "bytes \<Rightarrow> bytes \<Rightarrow> int" +
  fixes db :: "'s rocksdb" and view :: "'s \<Rightarrow> contents"
  assumes Get_OK: "db_Get db s cf k = (OK, v) \<Longrightarrow> view s cf k = Some v"
    and Get_NotFound: "db_Get db s cf k = (NotFound msg, v) \<Longrightarrow> view s cf k = None"
    and Write_OK: "db_Write db s ops = (OK, s') \<Longrightarrow> comparator_ok (cf_compare slice_compare cf) \<Longrightarrow>
      view s' cf = apply_batch slice_compare ops (view s) cf"
    and Write_failed: "db_Write db s ops = (st, s') \<Longrightarrow> st \<noteq> OK \<Longrightarrow> view s' = view s"
    and scan_sorted: "comparator_ok (cf_compare slice_compare cf) \<Longrightarrow>
      sorted_wrt (\<lambda>x y. cf_compare slice_compare cf (fst x) (fst y) < 0) (it_SeekToFirst db s cf)"
    and scan_complete: "comparator_ok (cf_compare slice_compare cf) \<Longrightarrow>
      view s cf k = Some v \<longleftrightarrow> (\<exists>k'. (k', v) \<in> set (it_SeekToFirst db s cf) \<and> cf_compare slice_compare cf k k' = 0)"
    and seek: "comparator_ok (cf_compare slice_compare cf) \<Longrightarrow>
      it_Seek db s cf k = dropWhile (\<lambda>x. cf_compare slice_compare cf (fst x) k < 0) (it_SeekToFirst db s cf)"
    and seek_prev: "comparator_ok (cf_compare slice_compare cf) \<Longrightarrow>
      it_SeekPrev db s cf k = (case it_Seek db s cf k of [] \<Rightarrow> []
        | e # _ \<Rightarrow> e # rev (takeWhile (\<lambda>x. cf_compare slice_compare cf (fst x) k < 0) (it_SeekToFirst db s cf)))"
    and seek_for_prev: "comparator_ok (cf_compare slice_compare cf) \<Longrightarrow>
      it_SeekForPrev db s cf k =
        rev (takeWhile (\<lambda>x. cf_compare slice_compare cf (fst x) k \<le> 0) (it_SeekToFirst db s cf))"
begin

text \<open>Every column family but the one of zset scores has a proper comparator.\<close>

lemma view_Write:
  "db_Write db s ops = (OK, s') \<Longrightarrow> cf \<noteq> kZsetsScoreCF \<Longrightarrow> view s' cf = apply_batch slice_compare ops (view s) cf"
  by (rule Write_OK) (auto intro: cf_comparator_ok)

lemma Get_cases:
  obtains (found) v where "db_Get db s cf k = (OK, v)" "view s cf k = Some v"
  | (missing) msg v where "db_Get db s cf k = (NotFound msg, v)" "view s cf k = None"
  | (failed) st v where "db_Get db s cf k = (st, v)" "st \<noteq> OK" "\<not> is_NotFound st" "\<not> db_healthy db view"
proof (cases "db_Get db s cf k")
  case (Pair st v)
  have "\<not> db_healthy db view" if "st \<noteq> OK" "\<not> is_NotFound st"
  proof
    assume "db_healthy db view"
    then have "case view s cf k of Some v \<Rightarrow> db_Get db s cf k = (OK, v)
        | None \<Rightarrow> is_NotFound (fst (db_Get db s cf k))"
      by (simp add: db_healthy_def)
    then show False using Pair that by (auto split: option.splits)
  qed
  then show thesis
    using Pair that Get_OK Get_NotFound by (cases st) auto
qed

lemma Write_healthy: "db_healthy db view \<Longrightarrow> fst (db_Write db s ops) = OK"
  by (simp add: db_healthy_def)

end

section \<open>Reference database\<close>

text \<open>A database that keeps the log of all batches. Scanning a column family replays the log into a
  sorted sequence.\<close>

fun log_op :: "(bytes \<Rightarrow> bytes \<Rightarrow> int) \<Rightarrow> ColumnFamilyIndex \<Rightarrow> WriteOp \<Rightarrow> (bytes \<times> bytes) list \<Rightarrow> (bytes \<times> bytes) list" where
  "log_op sc cf (Put cf' k v) l = (if cf' = cf then
     filter (\<lambda>x. cf_compare sc cf (fst x) k < 0) l @ (k, v) # filter (\<lambda>x. cf_compare sc cf (fst x) k > 0) l else l)"
| "log_op sc cf (Delete cf' k) l = (if cf' = cf then
     filter (\<lambda>x. cf_compare sc cf (fst x) k < 0) l @ filter (\<lambda>x. cf_compare sc cf (fst x) k > 0) l else l)"

definition log_scan :: "(bytes \<Rightarrow> bytes \<Rightarrow> int) \<Rightarrow> WriteOp list \<Rightarrow> ColumnFamilyIndex \<Rightarrow> (bytes \<times> bytes) list" where
  "log_scan sc log cf = fold (log_op sc cf) log []"

definition log_view :: "(bytes \<Rightarrow> bytes \<Rightarrow> int) \<Rightarrow> WriteOp list \<Rightarrow> contents" where
  "log_view sc log cf k = map_option snd (find (\<lambda>x. cf_compare sc cf k (fst x) = 0) (log_scan sc log cf))"

definition log_db :: "(bytes \<Rightarrow> bytes \<Rightarrow> int) \<Rightarrow> WriteOp list rocksdb" where
  "log_db sc = \<lparr>
     db_Get = (\<lambda>log cf k. case log_view sc log cf k of Some v \<Rightarrow> (OK, v) | None \<Rightarrow> (NotFound [], [])),
     db_Write = (\<lambda>log ops. (OK, log @ ops)),
     it_SeekToFirst = log_scan sc,
     it_Seek = (\<lambda>log cf k. dropWhile (\<lambda>x. cf_compare sc cf (fst x) k < 0) (log_scan sc log cf)),
     it_SeekPrev = (\<lambda>log cf k. case dropWhile (\<lambda>x. cf_compare sc cf (fst x) k < 0) (log_scan sc log cf) of
        [] \<Rightarrow> [] | e # _ \<Rightarrow> e # rev (takeWhile (\<lambda>x. cf_compare sc cf (fst x) k < 0) (log_scan sc log cf))),
     it_SeekForPrev = (\<lambda>log cf k. rev (takeWhile (\<lambda>x. cf_compare sc cf (fst x) k \<le> 0) (log_scan sc log cf)))\<rparr>"

lemma log_op_sorted:
  assumes ok: "comparator_ok (cf_compare sc cf)"
    and "sorted_wrt (\<lambda>x y. cf_compare sc cf (fst x) (fst y) < 0) l"
  shows "sorted_wrt (\<lambda>x y. cf_compare sc cf (fst x) (fst y) < 0) (log_op sc cf op l)"
proof -
  have "cf_compare sc cf a b < 0" if "cf_compare sc cf a k < 0" "0 < cf_compare sc cf b k" for a b k
    using that comparator_okD(1) [OF ok, of k b] comparator_ok_less_trans [OF ok, of a k b] by simp
  moreover have "cf_compare sc cf k b < 0" if "0 < cf_compare sc cf b k" for b k
    using that comparator_okD(1) [OF ok, of k b] by simp
  ultimately show ?thesis
    using assms(2) by (cases op) (auto simp: sorted_wrt_append intro: sorted_wrt_filter)
qed

lemma log_scan_snoc: "log_scan sc (log @ [op]) cf = log_op sc cf op (log_scan sc log cf)"
  by (simp add: log_scan_def)

lemma log_scan_sorted:
  assumes "comparator_ok (cf_compare sc cf)"
  shows "sorted_wrt (\<lambda>x y. cf_compare sc cf (fst x) (fst y) < 0) (log_scan sc log cf)"
proof (induction log rule: rev_induct)
  case (snoc op log)
  then show ?case by (simp add: log_scan_snoc log_op_sorted assms)
qed (simp add: log_scan_def)

lemma find_sorted:
  assumes ok: "comparator_ok cmp" and "sorted_wrt (\<lambda>x y. cmp (fst x) (fst y) < 0) l"
  shows "map_option snd (find (\<lambda>x. cmp k (fst x) = 0) l) = Some v \<longleftrightarrow> (\<exists>k'. (k', v) \<in> set l \<and> cmp k k' = 0)"
  using assms(2)
proof (induction l)
  case (Cons x l)
  have "\<not> cmp k (fst y) = 0" if "cmp k (fst x) = 0" "y \<in> set l" for y
    using that Cons.prems comparator_ok_eq_cong [OF ok, of k "fst x" "fst y"] by fastforce
  then have none: "cmp k (fst x) = 0 \<Longrightarrow> (k', v) \<notin> set l \<or> cmp k k' \<noteq> 0" for k'
    by force
  show ?case
  proof (cases "cmp k (fst x) = 0")
    case True
    then show ?thesis using none by (cases x) auto
  next
    case False
    then show ?thesis using Cons by (cases x) auto
  qed
qed simp

lemma log_view_eq:
  assumes "comparator_ok (cf_compare sc cf)"
  shows "log_view sc log cf k = Some v \<longleftrightarrow> (\<exists>k'. (k', v) \<in> set (log_scan sc log cf) \<and> cf_compare sc cf k k' = 0)"
  unfolding log_view_def by (rule find_sorted [OF assms log_scan_sorted [OF assms]])

lemma set_log_op:
  "set (log_op sc cf (Put cf k v) l) = insert (k, v) {x \<in> set l. cf_compare sc cf (fst x) k \<noteq> 0}"
  "set (log_op sc cf (Delete cf k) l) = {x \<in> set l. cf_compare sc cf (fst x) k \<noteq> 0}"
  by auto

lemma option_eqI: "(\<And>v. x = Some v \<longleftrightarrow> y = Some v) \<Longrightarrow> x = y"
  by (cases x; cases y) auto

text \<open>Looking up a key after the entries equal to another key have been replaced or removed.\<close>

lemma lookup_without:
  assumes ok: "comparator_ok cmp"
  shows "(\<exists>k''. (k'', v') \<in> {x \<in> S. cmp (fst x) k \<noteq> 0} \<and> cmp k' k'' = 0) \<longleftrightarrow>
    cmp k k' \<noteq> 0 \<and> (\<exists>k''. (k'', v') \<in> S \<and> cmp k' k'' = 0)"
proof -
  have "cmp k'' k = 0 \<longleftrightarrow> cmp k k' = 0" if "cmp k' k'' = 0" for k''
    using comparator_ok_eq_cong(1) [OF ok that, of k] comparator_ok_sym [OF ok, of k k'] by simp
  then show ?thesis by auto
qed

lemma lookup_insert:
  assumes ok: "comparator_ok cmp"
  shows "(\<exists>k''. (k'', v') \<in> insert (k, v) {x \<in> S. cmp (fst x) k \<noteq> 0} \<and> cmp k' k'' = 0) \<longleftrightarrow>
    (if cmp k k' = 0 then v = v' else \<exists>k''. (k'', v') \<in> S \<and> cmp k' k'' = 0)"
proof -
  have "(\<exists>k''. (k'', v') \<in> insert (k, v) T \<and> cmp k' k'' = 0) \<longleftrightarrow>
      v' = v \<and> cmp k k' = 0 \<or> (\<exists>k''. (k'', v') \<in> T \<and> cmp k' k'' = 0)" for T
    using comparator_ok_sym [OF ok, of k k'] by auto
  then show ?thesis by (simp only: lookup_without [OF ok]) auto
qed

lemma log_view_snoc:
  assumes ok: "comparator_ok (cf_compare sc cf)"
  shows "log_view sc (log @ [op]) cf = apply_op sc op (log_view sc log) cf"
proof
  fix k'
  have "log_view sc (log @ [op]) cf k' = Some v' \<longleftrightarrow> apply_op sc op (log_view sc log) cf k' = Some v'" for v'
  proof (cases op)
    case (Put cf' k v)
    then show ?thesis
    proof (cases "cf' = cf")
      case True
      have "log_view sc (log @ [op]) cf k' = Some v' \<longleftrightarrow>
          (if cf_compare sc cf k k' = 0 then v = v' else log_view sc log cf k' = Some v')"
        unfolding log_view_eq [OF ok] log_scan_snoc Put True set_log_op by (rule lookup_insert [OF ok])
      then show ?thesis using Put True by simp
    qed (simp add: log_view_def log_scan_snoc)
  next
    case (Delete cf' k)
    then show ?thesis
    proof (cases "cf' = cf")
      case True
      have "log_view sc (log @ [op]) cf k' = Some v' \<longleftrightarrow>
          cf_compare sc cf k k' \<noteq> 0 \<and> log_view sc log cf k' = Some v'"
        unfolding log_view_eq [OF ok] log_scan_snoc Delete True set_log_op by (rule lookup_without [OF ok])
      then show ?thesis using Delete True by simp
    qed (simp add: log_view_def log_scan_snoc)
  qed
  then show "log_view sc (log @ [op]) cf k' = apply_op sc op (log_view sc log) cf k'"
    by (rule option_eqI)
qed

text \<open>The effect on one column family depends on that family only.\<close>

lemma apply_op_cong: "m cf = m' cf \<Longrightarrow> apply_op sc op m cf = apply_op sc op m' cf"
  by (cases op) auto

lemma apply_batch_cong: "m cf = m' cf \<Longrightarrow> apply_batch sc ops m cf = apply_batch sc ops m' cf"
proof (induction ops arbitrary: m m')
  case (Cons op ops)
  show ?case using Cons.IH [of "apply_op sc op m" "apply_op sc op m'", OF apply_op_cong [of m cf m', OF Cons.prems]] by simp
qed simp

lemma log_view_append:
  assumes ok: "comparator_ok (cf_compare sc cf)"
  shows "log_view sc (log @ ops) cf = apply_batch sc ops (log_view sc log) cf"
proof (induction ops arbitrary: log)
  case (Cons op ops)
  then show ?case
    using Cons.IH [of "log @ [op]"] apply_batch_cong [of "log_view sc (log @ [op])" cf "apply_op sc op (log_view sc log)", OF log_view_snoc [OF ok]] by simp
qed simp

lemma log_db_rocksdb:
  assumes "slice_order sc"
  shows "rocksdb sc (log_db sc) (log_view sc)"
  unfolding rocksdb_def rocksdb_axioms_def log_db_def rocksdb.simps
  using assms by (auto simp: log_view_append log_view_eq log_scan_sorted split: option.splits)

lemma log_db_healthy: "db_healthy (log_db sc) (log_view sc)"
  by (auto simp: db_healthy_def log_db_def split: option.splits)

interpretation log: rocksdb pstd_Slice_compare "log_db pstd_Slice_compare" "log_view pstd_Slice_compare"
  by (rule log_db_rocksdb) (rule pstd_slice.slice_order_axioms)

end
