(* ===== verification/LruCache.thy ===== *)
theory LruCache
  imports RocksDB "HOL-Library.Monad_Syntax"
begin

text \<open>
  The cache of \<open>src/src/storage/src/lru_cache.h\<close>, which the engine uses for its per-key statistics:
  a hash table of handles and a circular doubly linked list of the same handles, oldest first.
  Handles live in a heap; the dummy head \<open>lru_\<close> is address 0. Following a dangling pointer is \<open>None\<close>,
  and so is a loop that does not end. The specification is a list of entries; the operations on
  pointers implement it and never fail.
\<close>

section \<open>Handles and pointers\<close>

type_synonym addr = nat

record ('k, 'v) LRUHandle =
  h_key :: 'k
  h_value :: 'v
  h_charge :: u64
  h_next :: addr
  h_prev :: addr

record ('k, 'v) LRUCache =
  lc_capacity :: u64
  lc_usage :: u64
  lc_size :: u64
  lru_next :: addr
  lru_prev :: addr
  lc_heap :: "addr \<Rightarrow> ('k, 'v) LRUHandle option"
  lc_table :: "'k \<Rightarrow> addr option"
  lc_fresh :: addr

definition get_next :: "('k, 'v) LRUCache \<Rightarrow> addr \<Rightarrow> addr option" where
  "get_next c e = (if e = 0 then Some (lru_next c) else map_option h_next (lc_heap c e))"

definition get_prev :: "('k, 'v) LRUCache \<Rightarrow> addr \<Rightarrow> addr option" where
  "get_prev c e = (if e = 0 then Some (lru_prev c) else map_option h_prev (lc_heap c e))"

definition set_next :: "addr \<Rightarrow> addr \<Rightarrow> ('k, 'v) LRUCache \<Rightarrow> ('k, 'v) LRUCache option" where
  "set_next e n c =
     (if e = 0 then Some (c\<lparr>lru_next := n\<rparr>)
      else case lc_heap c e of None \<Rightarrow> None
           | Some h \<Rightarrow> Some (c\<lparr>lc_heap := (lc_heap c)(e \<mapsto> h\<lparr>h_next := n\<rparr>)\<rparr>))"

definition set_prev :: "addr \<Rightarrow> addr \<Rightarrow> ('k, 'v) LRUCache \<Rightarrow> ('k, 'v) LRUCache option" where
  "set_prev e p c =
     (if e = 0 then Some (c\<lparr>lru_prev := p\<rparr>)
      else case lc_heap c e of None \<Rightarrow> None
           | Some h \<Rightarrow> Some (c\<lparr>lc_heap := (lc_heap c)(e \<mapsto> h\<lparr>h_prev := p\<rparr>)\<rparr>))"

section \<open>Operations\<close>

definition HandleTable_Lookup :: "'k \<Rightarrow> ('k, 'v) LRUCache \<Rightarrow> addr option" where
  "HandleTable_Lookup key c = lc_table c key"

definition HandleTable_Remove :: "'k \<Rightarrow> ('k, 'v) LRUCache \<Rightarrow> addr option \<times> ('k, 'v) LRUCache" where
  "HandleTable_Remove key c = (lc_table c key, c\<lparr>lc_table := (lc_table c)(key := None)\<rparr>)"

definition HandleTable_Insert :: "'k \<Rightarrow> addr \<Rightarrow> ('k, 'v) LRUCache \<Rightarrow> addr option \<times> ('k, 'v) LRUCache" where
  "HandleTable_Insert key handle c = (lc_table c key, c\<lparr>lc_table := (lc_table c)(key \<mapsto> handle)\<rparr>)"

definition LRUCache_new :: "('k, 'v) LRUCache" where
  "LRUCache_new = \<lparr>lc_capacity = 0, lc_usage = 0, lc_size = 0, lru_next = 0, lru_prev = 0,
     lc_heap = (\<lambda>_. None), lc_table = (\<lambda>_. None), lc_fresh = 1\<rparr>"

definition LRU_Remove :: "addr \<Rightarrow> ('k, 'v) LRUCache \<Rightarrow> ('k, 'v) LRUCache option" where
  "LRU_Remove e c = do {
     n \<leftarrow> get_next c e;
     p \<leftarrow> get_prev c e;
     c \<leftarrow> set_prev n p c;
     p \<leftarrow> get_prev c e;
     n \<leftarrow> get_next c e;
     set_next p n c }"

definition LRU_Append :: "addr \<Rightarrow> ('k, 'v) LRUCache \<Rightarrow> ('k, 'v) LRUCache option" where
  "LRU_Append e c = do {
     c \<leftarrow> set_next e 0 c;
     p \<leftarrow> get_prev c 0;
     c \<leftarrow> set_prev e p c;
     p \<leftarrow> get_prev c e;
     c \<leftarrow> set_next p e c;
     n \<leftarrow> get_next c e;
     set_prev n e c }"

definition LRU_MoveToHead :: "addr \<Rightarrow> ('k, 'v) LRUCache \<Rightarrow> ('k, 'v) LRUCache option" where
  "LRU_MoveToHead e c = do { c \<leftarrow> LRU_Remove e c; LRU_Append e c }"

definition FinishErase :: "addr option \<Rightarrow> ('k, 'v) LRUCache \<Rightarrow> (bool \<times> ('k, 'v) LRUCache) option" where
  "FinishErase e c = (case e of
     None \<Rightarrow> Some (False, c)
   | Some e \<Rightarrow> do {
       c \<leftarrow> LRU_Remove e c;
       h \<leftarrow> lc_heap c e;
       Some (True, c\<lparr>lc_size := lc_size c - 1, lc_usage := lc_usage c - h_charge h,
                     lc_heap := (lc_heap c)(e := None)\<rparr>) })"

text \<open>One turn of the loops of \<open>LRU_Trim\<close> and \<open>Clear\<close>: erase the oldest entry.\<close>

definition erase_oldest :: "('k, 'v) LRUCache \<Rightarrow> ('k, 'v) LRUCache option" where
  "erase_oldest c = do {
     h \<leftarrow> lc_heap c (lru_next c);
     let (old, c) = HandleTable_Remove (h_key h) c;
     (erased, c) \<leftarrow> FinishErase old c;
     Some c }"

partial_function (option) LRU_Trim :: "('k, 'v) LRUCache \<Rightarrow> ('k, 'v) LRUCache option" where
  "LRU_Trim c =
     (if lc_usage c > lc_capacity c \<and> lru_next c \<noteq> 0
      then Option.bind (erase_oldest c) LRU_Trim else Some c)"

partial_function (option) Clear :: "('k, 'v) LRUCache \<Rightarrow> ('k, 'v) LRUCache option" where
  "Clear c = (if lru_next c \<noteq> 0 then Option.bind (erase_oldest c) Clear else Some c)"

definition SetCapacity :: "u64 \<Rightarrow> ('k, 'v) LRUCache \<Rightarrow> ('k, 'v) LRUCache option" where
  "SetCapacity capacity c = LRU_Trim (c\<lparr>lc_capacity := capacity\<rparr>)"

definition Lookup :: "'k \<Rightarrow> ('k, 'v) LRUCache \<Rightarrow> ('v option \<times> ('k, 'v) LRUCache) option" where
  "Lookup key c = (case HandleTable_Lookup key c of
     None \<Rightarrow> Some (None, c)
   | Some handle \<Rightarrow> do {
       c \<leftarrow> LRU_MoveToHead handle c;
       h \<leftarrow> lc_heap c handle;
       Some (Some (h_value h), c) })"

definition Insert :: "'k \<Rightarrow> 'v \<Rightarrow> u64 \<Rightarrow> ('k, 'v) LRUCache \<Rightarrow> (Status \<times> ('k, 'v) LRUCache) option" where
  "Insert key value charge c =
     (if lc_capacity c = 0 then Some (Corruption ''capacity is empty'', c)
      else do {
        let handle = lc_fresh c;
        let c = c\<lparr>lc_fresh := handle + 1,
          lc_heap := (lc_heap c)(handle \<mapsto> \<lparr>h_key = key, h_value = value, h_charge = charge, h_next = 0, h_prev = 0\<rparr>)\<rparr>;
        c \<leftarrow> LRU_Append handle c;
        let c = c\<lparr>lc_size := lc_size c + 1, lc_usage := lc_usage c + charge\<rparr>;
        let (old, c) = HandleTable_Insert key handle c;
        (erased, c) \<leftarrow> FinishErase old c;
        c \<leftarrow> LRU_Trim c;
        Some (OK, c) })"

definition Remove :: "'k \<Rightarrow> ('k, 'v) LRUCache \<Rightarrow> (Status \<times> ('k, 'v) LRUCache) option" where
  "Remove key c = do {
     let (old, c) = HandleTable_Remove key c;
     (erased, c) \<leftarrow> FinishErase old c;
     Some (if erased then OK else NotFound [], c) }"

section \<open>Specification\<close>

type_synonym ('k, 'v) entry = "'k \<times> 'v \<times> u64"

definition charges :: "('k, 'v) entry list \<Rightarrow> u64" where
  "charges es = sum_list (map (\<lambda>(k, v, ch). ch) es)"

definition spec_remove :: "'k \<Rightarrow> ('k, 'v) entry list \<Rightarrow> ('k, 'v) entry list" where
  "spec_remove key es = filter (\<lambda>(k, v, ch). k \<noteq> key) es"

fun spec_trim :: "u64 \<Rightarrow> ('k, 'v) entry list \<Rightarrow> ('k, 'v) entry list" where
  "spec_trim cap [] = []"
| "spec_trim cap (e # es) = (if charges (e # es) > cap then spec_trim cap es else e # es)"

definition spec_lookup :: "'k \<Rightarrow> ('k, 'v) entry list \<Rightarrow> 'v option" where
  "spec_lookup key es = map_option (\<lambda>(k, v, ch). v) (find (\<lambda>(k, v, ch). k = key) es)"

definition spec_touch :: "'k \<Rightarrow> ('k, 'v) entry list \<Rightarrow> ('k, 'v) entry list" where
  "spec_touch key es = spec_remove key es @ filter (\<lambda>(k, v, ch). k = key) es"

section \<open>Linked lists\<close>

fun linked :: "(addr \<Rightarrow> addr option) \<Rightarrow> (addr \<Rightarrow> addr option) \<Rightarrow> addr list \<Rightarrow> bool" where
  "linked nx pv (a # b # r) \<longleftrightarrow> nx a = Some b \<and> pv b = Some a \<and> linked nx pv (b # r)"
| "linked nx pv _ \<longleftrightarrow> True"

lemma linked_append:
  "l \<noteq> [] \<Longrightarrow> r \<noteq> [] \<Longrightarrow> linked nx pv (l @ r) \<longleftrightarrow>
     linked nx pv l \<and> linked nx pv r \<and> nx (last l) = Some (hd r) \<and> pv (hd r) = Some (last l)"
proof (induction l rule: list_nonempty_induct)
  case (single a)
  then show ?case by (cases r) auto
next
  case (cons a l)
  then show ?case by (cases l) auto
qed

lemma linked_update_next:
  "x \<notin> set (butlast l) \<Longrightarrow> linked (nx(x := y)) pv l = linked nx pv l"
  by (induction nx pv l rule: linked.induct) (auto split: if_splits)

lemma linked_update_prev:
  "x \<notin> set (tl l) \<Longrightarrow> linked nx (pv(x := y)) l = linked nx pv l"
  by (induction nx pv l rule: linked.induct) auto

lemma linked_remove:
  assumes "linked nx pv (l @ e # r)" and "l \<noteq> []" and "r \<noteq> []"
    and "last l \<notin> set (butlast l)" and "last l \<notin> set (butlast r)"
    and "hd r \<notin> set (tl l)" and "hd r \<notin> set (tl r)"
  shows "nx e = Some (hd r)" "pv e = Some (last l)"
    "linked (nx(last l \<mapsto> hd r)) (pv(hd r \<mapsto> last l)) (l @ r)"
  using assms linked_append [of l "e # r" nx pv] linked_append [of "[e]" r nx pv] linked_append [of l r]
  by (auto simp: linked_update_next linked_update_prev)

lemma linked_add:
  assumes "linked nx pv (l @ [z])" and "l \<noteq> []"
    and "last l \<notin> set (butlast l)" and "z \<notin> set (tl l)" and "e \<notin> set l" and "e \<noteq> z"
  shows "linked (nx(e \<mapsto> z, last l \<mapsto> e)) (pv(e \<mapsto> last l, z \<mapsto> e)) (l @ [e, z])"
proof -
  have "e \<notin> set (butlast l)" "e \<notin> set (tl l)" "last l \<noteq> e"
    using assms by (auto dest: in_set_butlastD list.set_sel(2))
  then show ?thesis
    using assms linked_append [of l "[z]" nx pv] by (auto simp: linked_append linked_update_next linked_update_prev)
qed

section \<open>Effect of pointer operations\<close>

definition node_data :: "('k, 'v) LRUCache \<Rightarrow> addr \<Rightarrow> ('k, 'v) entry option" where
  "node_data c a = map_option (\<lambda>h. (h_key h, h_value h, h_charge h)) (lc_heap c a)"

definition shape :: "('k, 'v) LRUCache \<Rightarrow> u64 \<times> u64 \<times> u64 \<times> ('k \<Rightarrow> addr option) \<times> addr" where
  "shape c = (lc_capacity c, lc_usage c, lc_size c, lc_table c, lc_fresh c)"

lemma shape_eq: "shape c = shape d \<longleftrightarrow> lc_capacity c = lc_capacity d \<and> lc_usage c = lc_usage d \<and>
    lc_size c = lc_size d \<and> lc_table c = lc_table d \<and> lc_fresh c = lc_fresh d"
  by (simp add: shape_def)

lemma set_next_ok:
  assumes "e = 0 \<or> node_data c e \<noteq> None"
  shows "\<exists>c'. set_next e n c = Some c' \<and> get_next c' = (get_next c)(e \<mapsto> n) \<and> get_prev c' = get_prev c \<and>
    node_data c' = node_data c \<and> shape c' = shape c"
  using assms by (auto simp: set_next_def get_next_def get_prev_def node_data_def shape_def fun_eq_iff)

lemma set_prev_ok:
  assumes "e = 0 \<or> node_data c e \<noteq> None"
  shows "\<exists>c'. set_prev e p c = Some c' \<and> get_prev c' = (get_prev c)(e \<mapsto> p) \<and> get_next c' = get_next c \<and>
    node_data c' = node_data c \<and> shape c' = shape c"
  using assms by (auto simp: set_prev_def get_next_def get_prev_def node_data_def shape_def fun_eq_iff)

definition link_ok :: "('k, 'v) LRUCache \<Rightarrow> addr list \<Rightarrow> bool" where
  "link_ok c xs \<longleftrightarrow> linked (get_next c) (get_prev c) (0 # xs @ [0]) \<and> distinct (0 # xs) \<and>
     (\<forall>a \<in> set xs. node_data c a \<noteq> None)"

lemma last_not_in_butlast: "distinct l \<Longrightarrow> l \<noteq> [] \<Longrightarrow> last l \<notin> set (butlast l)"
  by (cases l rule: rev_cases) auto

lemma LRU_Remove_ok:
  assumes "link_ok c (as @ e # bs)"
  shows "\<exists>c'. LRU_Remove e c = Some c' \<and> link_ok c' (as @ bs) \<and> node_data c' = node_data c \<and> shape c' = shape c"
proof -
  let ?l = "0 # as" and ?r = "bs @ [0]"
  let ?p = "last ?l" and ?n = "hd ?r"
  have d: "distinct (0 # as @ e # bs)" and nd: "\<forall>a \<in> set (as @ e # bs). node_data c a \<noteq> None"
    and ln: "linked (get_next c) (get_prev c) (?l @ e # ?r)"
    using assms by (auto simp: link_ok_def)
  have in_p: "?p = 0 \<or> ?p \<in> set as" and in_n: "?n = 0 \<or> ?n \<in> set bs"
    by (auto simp: hd_append)
  have sides: "?p \<notin> set (butlast ?l)" "?p \<notin> set (butlast ?r)" "?n \<notin> set (tl ?l)" "?n \<notin> set (tl ?r)"
  proof -
    show "?p \<notin> set (butlast ?l)" by (rule last_not_in_butlast) (use d in auto)
    show "?p \<notin> set (butlast ?r)" using d in_p by auto
    show "?n \<notin> set (tl ?l)" using d in_n by auto
    show "?n \<notin> set (tl ?r)" using d by (cases bs) auto
  qed
  note rm = linked_remove [OF ln _ _ sides]
  obtain c1 where c1: "set_prev ?n ?p c = Some c1" "get_prev c1 = (get_prev c)(?n \<mapsto> ?p)"
      "get_next c1 = get_next c" "node_data c1 = node_data c" "shape c1 = shape c"
    using set_prev_ok [of ?n c ?p] in_n nd by auto
  obtain c2 where c2: "set_next ?p ?n c1 = Some c2" "get_next c2 = (get_next c1)(?p \<mapsto> ?n)"
      "get_prev c2 = get_prev c1" "node_data c2 = node_data c1" "shape c2 = shape c1"
    using set_next_ok [of ?p c1 ?n] in_p nd c1(4) by auto
  have "e \<noteq> ?n" using d in_n by auto
  then have "LRU_Remove e c = Some c2"
    using rm c1 c2 by (simp add: LRU_Remove_def)
  moreover have "link_ok c2 (as @ bs)"
    using rm c1 c2 d nd by (simp add: link_ok_def)
  ultimately show ?thesis using c1 c2 by auto
qed

lemma LRU_Append_ok:
  assumes "link_ok c xs" and "e \<noteq> 0" and "e \<notin> set xs" and "node_data c e \<noteq> None"
  shows "\<exists>c'. LRU_Append e c = Some c' \<and> link_ok c' (xs @ [e]) \<and> node_data c' = node_data c \<and> shape c' = shape c"
proof -
  let ?l = "0 # xs"
  let ?p = "last ?l"
  have d: "distinct ?l" and nd: "\<forall>a \<in> set xs. node_data c a \<noteq> None"
    and ln: "linked (get_next c) (get_prev c) (?l @ [0])"
    using assms by (auto simp: link_ok_def)
  have in_p: "?p = 0 \<or> ?p \<in> set xs" by auto
  have p: "get_prev c 0 = Some ?p" using ln linked_append [of ?l "[0]"] by auto
  have sides: "?p \<notin> set (butlast ?l)" "0 \<notin> set (tl ?l)"
    using last_not_in_butlast [OF d] d by auto
  obtain c1 where c1: "set_next e 0 c = Some c1" "get_next c1 = (get_next c)(e \<mapsto> 0)"
      "get_prev c1 = get_prev c" "node_data c1 = node_data c" "shape c1 = shape c"
    using set_next_ok [of e c 0] assms by auto
  obtain c2 where c2: "set_prev e ?p c1 = Some c2" "get_prev c2 = (get_prev c1)(e \<mapsto> ?p)"
      "get_next c2 = get_next c1" "node_data c2 = node_data c1" "shape c2 = shape c1"
    using set_prev_ok [of e c1 ?p] assms c1(4) by auto
  obtain c3 where c3: "set_next ?p e c2 = Some c3" "get_next c3 = (get_next c2)(?p \<mapsto> e)"
      "get_prev c3 = get_prev c2" "node_data c3 = node_data c2" "shape c3 = shape c2"
    using set_next_ok [of ?p c2 e] in_p nd c1(4) c2(4) by auto
  obtain c4 where c4: "set_prev 0 e c3 = Some c4" "get_prev c4 = (get_prev c3)(0 \<mapsto> e)"
      "get_next c4 = get_next c3" "node_data c4 = node_data c3" "shape c4 = shape c3"
    using set_prev_ok [of 0 c3 e] by auto
  have "?p \<noteq> e" using in_p assms by auto
  then have "LRU_Append e c = Some c4"
    using p c1 c2 c3 c4 assms(2) by (simp add: LRU_Append_def)
  moreover have "link_ok c4 (xs @ [e])"
    using linked_add [OF ln _ sides, of e] c1 c2 c3 c4 d nd assms by (simp add: link_ok_def)
  ultimately show ?thesis using c1 c2 c3 c4 by auto
qed

section \<open>Representation of the cache\<close>

definition entries :: "('k, 'v) LRUCache \<Rightarrow> addr list \<Rightarrow> ('k, 'v) entry list" where
  "entries c xs = map (\<lambda>a. the (node_data c a)) xs"

text \<open>The list, the heap and the counters agree; the table is considered apart because the
  operations update it before the list.\<close>

definition core_ok :: "('k, 'v) LRUCache \<Rightarrow> addr list \<Rightarrow> bool" where
  "core_ok c xs \<longleftrightarrow> link_ok c xs \<and> dom (node_data c) = set xs \<and> lc_size c = of_nat (length xs) \<and>
     lc_usage c = charges (entries c xs) \<and> (\<forall>a \<in> set xs. a < lc_fresh c) \<and> 0 < lc_fresh c"

definition table_ok :: "('k, 'v) LRUCache \<Rightarrow> addr list \<Rightarrow> bool" where
  "table_ok c xs \<longleftrightarrow> (\<forall>k a. lc_table c k = Some a \<longleftrightarrow> a \<in> set xs \<and> fst (the (node_data c a)) = k)"

definition lru_rel :: "('k, 'v) LRUCache \<Rightarrow> ('k, 'v) entry list \<Rightarrow> bool" where
  "lru_rel c es \<longleftrightarrow> (\<exists>xs. core_ok c xs \<and> table_ok c xs \<and> es = entries c xs)"

lemma charges_simps [simp]:
  "charges [] = 0" "charges (e # es) = snd (snd e) + charges es" "charges (es @ es') = charges es + charges es'"
  by (simp_all add: charges_def split_beta)

lemma lru_relI: "core_ok c xs \<Longrightarrow> table_ok c xs \<Longrightarrow> lru_rel c (entries c xs)"
  by (auto simp: lru_rel_def)

lemma table_okD: "table_ok c xs \<Longrightarrow> a \<in> set xs \<Longrightarrow> lc_table c (fst (the (node_data c a))) = Some a"
  by (simp add: table_ok_def)

lemma table_None:
  "table_ok c xs \<Longrightarrow> lc_table c key = None \<longleftrightarrow> (\<forall>a \<in> set xs. fst (the (node_data c a)) \<noteq> key)"
  by (metis not_None_eq table_ok_def)

lemma entries_simps [simp]:
  "entries c [] = []" "entries c (a # xs) = the (node_data c a) # entries c xs"
  "entries c (xs @ ys) = entries c xs @ entries c ys"
  by (simp_all add: entries_def)

lemma entries_cong: "(\<And>a. a \<in> set xs \<Longrightarrow> node_data c a = node_data c' a) \<Longrightarrow> entries c xs = entries c' xs"
  by (simp add: entries_def)

lemma linked_cong:
  assumes "\<And>a. a \<in> set l \<Longrightarrow> nx a = nx' a" "\<And>a. a \<in> set l \<Longrightarrow> pv a = pv' a"
  shows "linked nx pv l = linked nx' pv' l"
  using assms by (induction nx pv l rule: linked.induct) auto

lemma FinishErase_ok:
  assumes "core_ok c (as @ e # bs)"
  shows "\<exists>c'. FinishErase (Some e) c = Some (True, c') \<and> core_ok c' (as @ bs) \<and>
    node_data c' = (node_data c)(e := None) \<and> lc_table c' = lc_table c \<and> lc_capacity c' = lc_capacity c \<and>
    lc_fresh c' = lc_fresh c"
proof -
  from assms have lk: "link_ok c (as @ e # bs)" and dm: "dom (node_data c) = set (as @ e # bs)"
    and u: "lc_usage c = charges (entries c (as @ e # bs))" and sz: "lc_size c = of_nat (length (as @ e # bs))"
    and fr: "\<forall>a \<in> set (as @ e # bs). a < lc_fresh c" "0 < lc_fresh c"
    by (auto simp: core_ok_def)
  obtain c1 where c1: "LRU_Remove e c = Some c1" "link_ok c1 (as @ bs)" "node_data c1 = node_data c" "shape c1 = shape c"
    using LRU_Remove_ok [OF lk] by auto
  obtain h where h: "lc_heap c1 e = Some h"
  proof -
    have "e \<in> dom (node_data c1)" using c1(3) dm by simp
    then show ?thesis using that by (auto simp: node_data_def)
  qed
  define c2 where "c2 = c1\<lparr>lc_size := lc_size c1 - 1, lc_usage := lc_usage c1 - h_charge h,
    lc_heap := (lc_heap c1)(e := None)\<rparr>"
  have e: "e \<noteq> 0" "e \<notin> set (as @ bs)" using lk by (auto simp: link_ok_def)
  have nd: "node_data c2 = (node_data c)(e := None)"
    using c1(3) by (auto simp: c2_def node_data_def fun_eq_iff)
  have he: "the (node_data c e) = (h_key h, h_value h, h_charge h)"
    using h c1(3) by (metis (mono_tags, lifting) node_data_def option.simps(9) option.sel)
  have "linked (get_next c2) (get_prev c2) (0 # (as @ bs) @ [0])"
    using c1(2) e by (subst linked_cong [of _ _ "get_next c1" _ "get_prev c1"])
      (auto simp: link_ok_def c2_def get_next_def get_prev_def)
  then have "link_ok c2 (as @ bs)"
    using c1(2,3) e by (auto simp: link_ok_def nd)
  moreover have "entries c2 (as @ bs) = entries c (as @ bs)"
    by (rule entries_cong) (use e nd in auto)
  ultimately have "core_ok c2 (as @ bs)"
    using c1 dm u sz fr e nd he by (auto simp: core_ok_def c2_def shape_eq)
  moreover have "FinishErase (Some e) c = Some (True, c2)"
    using c1 h by (simp add: FinishErase_def c2_def)
  ultimately show ?thesis
    using nd c1(4) by (auto simp: c2_def shape_eq)
qed

lemma core_ok_table [simp]: "core_ok (c\<lparr>lc_table := t\<rparr>) xs = core_ok c xs"
proof -
  have "get_next (c\<lparr>lc_table := t\<rparr>) = get_next c" "get_prev (c\<lparr>lc_table := t\<rparr>) = get_prev c"
    "node_data (c\<lparr>lc_table := t\<rparr>) = node_data c"
    by (simp_all add: get_next_def get_prev_def node_data_def fun_eq_iff)
  then show ?thesis by (simp add: core_ok_def link_ok_def entries_def)
qed

lemma node_data_table [simp]: "node_data (c\<lparr>lc_table := t\<rparr>) = node_data c"
  by (simp add: node_data_def fun_eq_iff)

lemma spec_remove_simps [simp]:
  "spec_remove k [] = []"
  "spec_remove k (e # es) = (if fst e = k then spec_remove k es else e # spec_remove k es)"
  "spec_remove k (es @ es') = spec_remove k es @ spec_remove k es'"
  by (auto simp: spec_remove_def)

lemma spec_remove_absent: "(\<And>a. a \<in> set xs \<Longrightarrow> fst (the (node_data c a)) \<noteq> k) \<Longrightarrow> spec_remove k (entries c xs) = entries c xs"
  by (induction xs) auto

lemma erase_key_ok:
  assumes "core_ok c xs" and "table_ok c xs"
  shows "\<exists>c' ys. FinishErase (fst (HandleTable_Remove key c)) (snd (HandleTable_Remove key c)) =
      Some (lc_table c key \<noteq> None, c') \<and> core_ok c' ys \<and> table_ok c' ys \<and>
      entries c' ys = spec_remove key (entries c xs) \<and> lc_capacity c' = lc_capacity c"
proof (cases "lc_table c key")
  case None
  then have "spec_remove key (entries c xs) = entries c xs"
    using assms(2) by (intro spec_remove_absent) (auto dest: table_okD)
  moreover have "table_ok (c\<lparr>lc_table := (lc_table c)(key := None)\<rparr>) xs"
    using assms(2) None by (simp add: table_ok_def fun_upd_idem)
  ultimately show ?thesis
    using assms(1) None
    by (intro exI [of _ "c\<lparr>lc_table := (lc_table c)(key := None)\<rparr>"] exI [of _ xs])
      (auto simp: FinishErase_def HandleTable_Remove_def entries_def)
next
  case (Some e)
  then have e: "e \<in> set xs" "fst (the (node_data c e)) = key" using assms(2) by (auto simp: table_ok_def)
  then obtain as bs where xs: "xs = as @ e # bs" by (meson split_list)
  let ?c = "c\<lparr>lc_table := (lc_table c)(key := None)\<rparr>"
  obtain c' where c': "FinishErase (Some e) ?c = Some (True, c')" "core_ok c' (as @ bs)"
      "node_data c' = (node_data ?c)(e := None)" "lc_table c' = lc_table ?c" "lc_capacity c' = lc_capacity ?c"
    using FinishErase_ok [of ?c as e bs] assms(1) xs by auto
  have d: "e \<notin> set (as @ bs)" using assms(1) xs by (auto simp: core_ok_def link_ok_def)
  have other: "fst (the (node_data c a)) \<noteq> key" if "a \<in> set (as @ bs)" for a
    using table_okD [OF assms(2), of a] that Some d xs by auto
  have en: "entries c' (as @ bs) = entries c (as @ bs)"
    by (rule entries_cong) (use d c'(3) in auto)
  have "spec_remove key (entries c xs) = entries c (as @ bs)"
    using spec_remove_absent [of "as @ bs" c key, OF other] e(2) by (simp add: xs)
  moreover have "table_ok c' (as @ bs)"
    unfolding table_ok_def
  proof (intro allI)
    fix k a
    show "lc_table c' k = Some a \<longleftrightarrow> a \<in> set (as @ bs) \<and> fst (the (node_data c' a)) = k"
      using assms(2) c'(3,4) d xs Some other [of a] by (cases "k = key") (auto simp: table_ok_def)
  qed
  ultimately show ?thesis
    using c' en Some by (auto simp: HandleTable_Remove_def)
qed

lemma lru_next_zero:
  assumes "core_ok c xs"
  shows "lru_next c = (case xs of [] \<Rightarrow> 0 | a # _ \<Rightarrow> a)" "0 \<notin> set xs"
  using assms by (cases xs; auto simp: core_ok_def link_ok_def get_next_def)+

lemma erase_oldest_ok:
  assumes "lru_rel c (e # es)"
  shows "\<exists>c'. erase_oldest c = Some c' \<and> lru_rel c' es \<and> lc_capacity c' = lc_capacity c"
proof -
  obtain xs where xs: "core_ok c xs" "table_ok c xs" "e # es = entries c xs"
    using assms by (auto simp: lru_rel_def)
  then obtain a ys where a: "xs = a # ys" by (cases xs) auto
  then have nx: "lru_next c = a" using lru_next_zero(1) [OF xs(1)] by simp
  have "a \<in> dom (node_data c)" using xs(1) a by (auto simp: core_ok_def)
  then obtain h where h: "lc_heap c a = Some h" by (auto simp: node_data_def)
  have ek: "fst e = h_key h" "es = entries c ys" using xs(3) a h by (auto simp: node_data_def)
  have "fst (the (node_data c b)) \<noteq> h_key h" if "b \<in> set ys" for b
  proof
    assume "fst (the (node_data c b)) = h_key h"
    then have "lc_table c (h_key h) = Some b" "lc_table c (h_key h) = Some a"
      using xs(2) that a h by (auto simp: table_ok_def node_data_def)
    then show False using that xs(1) a by (auto simp: core_ok_def link_ok_def)
  qed
  then have "spec_remove (h_key h) (entries c xs) = es"
    using spec_remove_absent [of ys c "h_key h"] xs(3) a ek by simp
  moreover obtain c' ys' where c': "FinishErase (fst (HandleTable_Remove (h_key h) c)) (snd (HandleTable_Remove (h_key h) c)) =
      Some (lc_table c (h_key h) \<noteq> None, c')" "core_ok c' ys'" "table_ok c' ys'"
      "entries c' ys' = spec_remove (h_key h) (entries c xs)" "lc_capacity c' = lc_capacity c"
    using erase_key_ok [OF xs(1,2), of "h_key h"] by blast
  ultimately have "lru_rel c' es" using lru_relI [OF c'(2,3)] by simp
  then show ?thesis using c' h nx by (simp add: erase_oldest_def split_beta)
qed

lemma lru_rel_next: "lru_rel c es \<Longrightarrow> lru_next c = 0 \<longleftrightarrow> es = []"
proof -
  assume "lru_rel c es"
  then obtain xs where "core_ok c xs" "es = entries c xs" by (auto simp: lru_rel_def)
  then show ?thesis using lru_next_zero [of c xs] by (cases xs) auto
qed

lemma lru_rel_usage: "lru_rel c es \<Longrightarrow> lc_usage c = charges es \<and> lc_size c = of_nat (length es)"
  by (auto simp: lru_rel_def core_ok_def entries_def)

lemma LRU_Trim_ok:
  assumes "lru_rel c es"
  shows "\<exists>c'. LRU_Trim c = Some c' \<and> lru_rel c' (spec_trim (lc_capacity c) es) \<and> lc_capacity c' = lc_capacity c"
  using assms
proof (induction es arbitrary: c)
  case Nil
  then show ?case using lru_rel_next [OF Nil] by (simp add: LRU_Trim.simps)
next
  case (Cons e es)
  show ?case
  proof (cases "charges (e # es) > lc_capacity c")
    case True
    obtain c1 where c1: "erase_oldest c = Some c1" "lru_rel c1 es" "lc_capacity c1 = lc_capacity c"
      using erase_oldest_ok [OF Cons.prems] by auto
    with Cons.IH [OF c1(2)] show ?thesis
      using True lru_rel_next [OF Cons.prems] lru_rel_usage [OF Cons.prems]
      by (subst LRU_Trim.simps) (auto simp del: charges_simps)
  next
    case False
    then show ?thesis
      using Cons.prems lru_rel_usage [OF Cons.prems] by (subst LRU_Trim.simps) (auto simp del: charges_simps)
  qed
qed

lemma Clear_ok:
  assumes "lru_rel c es"
  shows "\<exists>c'. Clear c = Some c' \<and> lru_rel c' [] \<and> lc_capacity c' = lc_capacity c"
  using assms
proof (induction es arbitrary: c)
  case Nil
  then show ?case using lru_rel_next [OF Nil] by (simp add: Clear.simps)
next
  case (Cons e es)
  obtain c1 where c1: "erase_oldest c = Some c1" "lru_rel c1 es" "lc_capacity c1 = lc_capacity c"
    using erase_oldest_ok [OF Cons.prems] by auto
  with Cons.IH [OF c1(2)] show ?case
    using lru_rel_next [OF Cons.prems] by (subst Clear.simps) auto
qed

lemma spec_trim_bound: "charges (spec_trim cap es) \<le> cap"
  by (induction cap es rule: spec_trim.induct) (auto simp: not_less simp del: charges_simps(2))

lemma lru_rel_capacity: "lru_rel (c\<lparr>lc_capacity := cap\<rparr>) es = lru_rel c es"
proof -
  let ?c = "c\<lparr>lc_capacity := cap\<rparr>"
  have "get_next ?c = get_next c" "get_prev ?c = get_prev c" "node_data ?c = node_data c"
    by (simp_all add: get_next_def get_prev_def node_data_def fun_eq_iff)
  then show ?thesis by (simp add: lru_rel_def core_ok_def table_ok_def link_ok_def entries_def)
qed

lemma LRU_MoveToHead_ok:
  assumes "core_ok c (as @ e # bs)" and "table_ok c (as @ e # bs)"
  shows "\<exists>c'. LRU_MoveToHead e c = Some c' \<and> core_ok c' (as @ bs @ [e]) \<and> table_ok c' (as @ bs @ [e]) \<and>
    node_data c' = node_data c \<and> lc_capacity c' = lc_capacity c"
proof -
  have lk: "link_ok c (as @ e # bs)" using assms by (simp add: core_ok_def)
  then have e: "e \<noteq> 0" "e \<notin> set (as @ bs)" "node_data c e \<noteq> None" by (auto simp: link_ok_def)
  obtain c1 where c1: "LRU_Remove e c = Some c1" "link_ok c1 (as @ bs)" "node_data c1 = node_data c" "shape c1 = shape c"
    using LRU_Remove_ok [OF lk] by auto
  obtain c2 where c2: "LRU_Append e c1 = Some c2" "link_ok c2 ((as @ bs) @ [e])" "node_data c2 = node_data c1"
      "shape c2 = shape c1"
    using LRU_Append_ok [OF c1(2), of e] e c1(3) by auto
  have "entries c2 xs = entries c xs" for xs using c1(3) c2(3) by (simp add: entries_def)
  then have "core_ok c2 (as @ bs @ [e])"
    using assms(1) c1 c2 by (auto simp: core_ok_def shape_eq ac_simps)
  moreover have "table_ok c2 (as @ bs @ [e])"
    using assms(2) c1 c2 by (auto simp: table_ok_def shape_eq)
  ultimately show ?thesis using c1 c2 by (auto simp: LRU_MoveToHead_def shape_eq)
qed

lemma entries_key_unique:
  assumes "core_ok c (as @ e # bs)" and "table_ok c (as @ e # bs)" and "a \<in> set (as @ bs)"
  shows "fst (the (node_data c a)) \<noteq> fst (the (node_data c e))"
proof
  assume eq: "fst (the (node_data c a)) = fst (the (node_data c e))"
  have a: "lc_table c (fst (the (node_data c a))) = Some a"
    by (rule table_okD [OF assms(2)]) (use assms(3) in auto)
  have e: "lc_table c (fst (the (node_data c e))) = Some e"
    by (rule table_okD [OF assms(2)]) simp
  have "a = e" using a [unfolded eq] e by simp
  then show False using assms(1,3) by (auto simp: core_ok_def link_ok_def)
qed

lemma filter_key_absent:
  "(\<And>a. a \<in> set xs \<Longrightarrow> fst (the (node_data c a)) \<noteq> k) \<Longrightarrow> filter (\<lambda>(k', v, ch). k' = k) (entries c xs) = []"
  by (induction xs) (auto simp: split_beta)

lemma find_key_absent:
  "(\<And>a. a \<in> set xs \<Longrightarrow> fst (the (node_data c a)) \<noteq> k) \<Longrightarrow> find (\<lambda>(k', v, ch). k' = k) (entries c xs @ es) = find (\<lambda>(k', v, ch). k' = k) es"
  by (induction xs) (auto simp: split_beta)

lemma Lookup_ok:
  assumes "lru_rel c es"
  shows "\<exists>c'. Lookup key c = Some (spec_lookup key es, c') \<and> lru_rel c' (spec_touch key es) \<and>
    lc_capacity c' = lc_capacity c"
proof -
  obtain xs where xs: "core_ok c xs" "table_ok c xs" "es = entries c xs" using assms by (auto simp: lru_rel_def)
  show ?thesis
  proof (cases "lc_table c key")
    case None
    then have ne: "fst (the (node_data c a)) \<noteq> key" if "a \<in> set xs" for a
      using table_okD [OF xs(2) that] by auto
    have "spec_touch key es = es" "spec_lookup key es = None"
      using spec_remove_absent [of xs c key] filter_key_absent [of xs c key] find_key_absent [of xs c key "[]"] ne xs(3)
      by (simp_all add: spec_touch_def spec_lookup_def)
    then show ?thesis using None assms by (simp add: Lookup_def HandleTable_Lookup_def)
  next
    case (Some e)
    then have e: "e \<in> set xs" "fst (the (node_data c e)) = key" using xs(2) by (auto simp: table_ok_def)
    then obtain as bs where ab: "xs = as @ e # bs" by (meson split_list)
    obtain c' where c': "LRU_MoveToHead e c = Some c'" "core_ok c' (as @ bs @ [e])" "table_ok c' (as @ bs @ [e])"
        "node_data c' = node_data c" "lc_capacity c' = lc_capacity c"
      using LRU_MoveToHead_ok [of c as e bs] xs ab by auto
    have "e \<in> dom (node_data c')" using c'(2) by (auto simp: core_ok_def)
    then obtain h where h: "lc_heap c' e = Some h" by (auto simp: node_data_def)
    have he: "the (node_data c e) = (key, h_value h, h_charge h)"
      using h c'(4) e(2) by (metis (mono_tags, lifting) fst_conv node_data_def option.simps(9) option.sel)
    have ne: "fst (the (node_data c a)) \<noteq> key" if "a \<in> set as \<or> a \<in> set bs" for a
      using entries_key_unique [of c as e bs a] that e xs ab by auto
    have "spec_touch key es = entries c' (as @ bs @ [e])"
      using spec_remove_absent [of as c key] spec_remove_absent [of bs c key] filter_key_absent [of as c key]
        filter_key_absent [of bs c key] ne he xs(3) ab c'(4)
      by (simp add: spec_touch_def entries_def)
    moreover have "spec_lookup key es = Some (h_value h)"
      using find_key_absent [of as c key] ne he xs(3) ab by (simp add: spec_lookup_def)
    ultimately show ?thesis
      using c' h Some lru_relI [OF c'(2,3)] by (simp add: Lookup_def HandleTable_Lookup_def)
  qed
qed

lemma Remove_ok:
  assumes "lru_rel c es"
  shows "\<exists>c'. Remove key c = Some (if spec_lookup key es = None then NotFound [] else OK, c') \<and>
    lru_rel c' (spec_remove key es) \<and> lc_capacity c' = lc_capacity c"
proof -
  obtain xs where xs: "core_ok c xs" "table_ok c xs" "es = entries c xs" using assms by (auto simp: lru_rel_def)
  obtain c' ys where c': "FinishErase (fst (HandleTable_Remove key c)) (snd (HandleTable_Remove key c)) =
      Some (lc_table c key \<noteq> None, c')" "core_ok c' ys" "table_ok c' ys"
      "entries c' ys = spec_remove key (entries c xs)" "lc_capacity c' = lc_capacity c"
    using erase_key_ok [OF xs(1,2), of key] by blast
  have "spec_lookup key es = None \<longleftrightarrow> lc_table c key = None"
    using table_None [OF xs(2), of key] by (simp add: spec_lookup_def xs(3) find_None_iff entries_def split_beta)
  then show ?thesis
    using c' lru_relI [OF c'(2,3)] xs(3) by (auto simp: Remove_def split_beta)
qed

text \<open>Allocating a handle and linking it in, before the table is updated.\<close>

lemma insert_node_ok:
  fixes key :: 'k and v :: 'v and charge :: u64
  assumes "core_ok c xs"
  defines "c1 \<equiv> c\<lparr>lc_fresh := lc_fresh c + 1, lc_heap := (lc_heap c)(lc_fresh c \<mapsto>
    \<lparr>h_key = key, h_value = v, h_charge = charge, h_next = 0, h_prev = 0\<rparr>)\<rparr>"
  shows "\<exists>c2. LRU_Append (lc_fresh c) c1 = Some c2 \<and>
    core_ok (c2\<lparr>lc_size := lc_size c2 + 1, lc_usage := lc_usage c2 + charge\<rparr>) (xs @ [lc_fresh c]) \<and>
    node_data c2 = (node_data c)(lc_fresh c \<mapsto> (key, v, charge)) \<and> lc_table c2 = lc_table c \<and>
    lc_capacity c2 = lc_capacity c"
proof -
  let ?h = "lc_fresh c"
  have h: "?h \<noteq> 0" "?h \<notin> set xs" using assms(1) by (auto simp: core_ok_def)
  have nd: "node_data c1 = (node_data c)(?h \<mapsto> (key, v, charge))"
    by (auto simp: c1_def node_data_def fun_eq_iff)
  have "linked (get_next c1) (get_prev c1) (0 # xs @ [0])"
    using assms(1) h by (subst linked_cong [of _ _ "get_next c" _ "get_prev c"])
      (auto simp: core_ok_def link_ok_def c1_def get_next_def get_prev_def)
  then have "link_ok c1 xs" using assms(1) nd by (auto simp: core_ok_def link_ok_def)
  then obtain c2 where c2: "LRU_Append ?h c1 = Some c2" "link_ok c2 (xs @ [?h])" "node_data c2 = node_data c1"
      "shape c2 = shape c1"
    using LRU_Append_ok [of c1 xs ?h] h nd by auto
  have en: "entries c2 xs = entries c xs"
    by (rule entries_cong) (use h nd c2(3) in auto)
  let ?c3 = "c2\<lparr>lc_size := lc_size c2 + 1, lc_usage := lc_usage c2 + charge\<rparr>"
  have "get_next ?c3 = get_next c2" "get_prev ?c3 = get_prev c2" "node_data ?c3 = node_data c2"
    by (simp_all add: get_next_def get_prev_def node_data_def fun_eq_iff)
  moreover from this have "entries ?c3 (xs @ [?h]) = entries c xs @ [(key, v, charge)]"
    using en nd c2(3) by (simp add: entries_def)
  moreover have "lc_usage c2 = charges (entries c xs)" "lc_size c2 = of_nat (length xs)"
      "lc_fresh c2 = ?h + 1" "\<forall>a \<in> set xs. a < ?h" "dom (node_data c) = set xs"
    using assms(1) c2(4) by (auto simp: core_ok_def shape_eq c1_def)
  ultimately have "core_ok ?c3 (xs @ [?h])"
    using c2(2,3) nd unfolding core_ok_def link_ok_def by (auto simp: less_Suc_eq)
  then show ?thesis using c2 nd by (auto simp: shape_eq c1_def)
qed

lemma spec_remove_keep: "spec_remove k (es @ [(k, v, ch)]) = spec_remove k es"
  by simp

lemma erase_replaced_ok:
  assumes "core_ok c (xs @ [h])" and "table_ok (c\<lparr>lc_table := t\<rparr>) xs" and "lc_table c = t(key \<mapsto> h)"
    and "the (node_data c h) = (key, v, charge)"
  shows "\<exists>c' ys. FinishErase (t key) c = Some (t key \<noteq> None, c') \<and> lru_rel c' (spec_remove key (entries c xs) @ [(key, v, charge)]) \<and>
    lc_capacity c' = lc_capacity c"
proof (cases "t key")
  case None
  have ne: "fst (the (node_data c a)) \<noteq> key" if "a \<in> set xs" for a
    using table_okD [OF assms(2), of a] that None by auto
  have "table_ok c (xs @ [h])"
    using assms None ne unfolding table_ok_def by (auto simp: fun_eq_iff)
  then have "lru_rel c (entries c (xs @ [h]))" using assms(1) by (rule lru_relI [rotated])
  then show ?thesis
    using None spec_remove_absent [of xs c key, OF ne] assms(4) by (auto simp: FinishErase_def)
next
  case (Some e)
  then have e: "e \<in> set xs" "fst (the (node_data c e)) = key" using assms(2) by (auto simp: table_ok_def)
  then obtain as bs where xs: "xs = as @ e # bs" by (meson split_list)
  obtain c' where c': "FinishErase (Some e) c = Some (True, c')" "core_ok c' (as @ bs @ [h])"
      "node_data c' = (node_data c)(e := None)" "lc_table c' = lc_table c" "lc_capacity c' = lc_capacity c"
    using FinishErase_ok [of c as e "bs @ [h]"] assms(1) xs by auto
  have d: "e \<notin> set (as @ bs @ [h])" "h \<notin> set (as @ bs)" using assms(1) xs by (auto simp: core_ok_def link_ok_def)
  have other: "fst (the (node_data c a)) \<noteq> key" if "a \<in> set (as @ bs)" for a
    using table_okD [OF assms(2), of a] that Some d xs by auto
  have en: "entries c' (as @ bs @ [h]) = entries c (as @ bs @ [h])"
    by (rule entries_cong) (use d c'(3) in auto)
  have rm: "spec_remove key (entries c xs) = entries c (as @ bs)"
    using spec_remove_absent [of "as @ bs" c key, OF other] e(2) by (simp add: xs)
  have "table_ok c' (as @ bs @ [h])"
    unfolding table_ok_def
  proof (intro allI)
    fix k a
    show "lc_table c' k = Some a \<longleftrightarrow> a \<in> set (as @ bs @ [h]) \<and> fst (the (node_data c' a)) = k"
      using assms(2,3,4) c'(3,4) d xs Some other [of a] by (cases "k = key"; cases "a = h") (auto simp: table_ok_def)
  qed
  moreover have "entries c' (as @ bs @ [h]) = spec_remove key (entries c xs) @ [(key, v, charge)]"
    unfolding en using rm assms(4) by simp
  ultimately have "lru_rel c' (spec_remove key (entries c xs) @ [(key, v, charge)])"
    using lru_relI [OF c'(2)] by metis
  then show ?thesis using c' Some by auto
qed

lemma Insert_ok:
  assumes "lru_rel c es" and "lc_capacity c \<noteq> 0"
  shows "\<exists>c'. Insert key v charge c = Some (OK, c') \<and>
    lru_rel c' (spec_trim (lc_capacity c) (spec_remove key es @ [(key, v, charge)])) \<and>
    lc_capacity c' = lc_capacity c"
proof -
  obtain xs where xs: "core_ok c xs" "table_ok c xs" "es = entries c xs" using assms by (auto simp: lru_rel_def)
  let ?h = "lc_fresh c"
  obtain c2 where c2: "LRU_Append ?h (c\<lparr>lc_fresh := ?h + 1, lc_heap := (lc_heap c)(?h \<mapsto>
      \<lparr>h_key = key, h_value = v, h_charge = charge, h_next = 0, h_prev = 0\<rparr>)\<rparr>) = Some c2"
      "core_ok (c2\<lparr>lc_size := lc_size c2 + 1, lc_usage := lc_usage c2 + charge\<rparr>) (xs @ [?h])"
      "node_data c2 = (node_data c)(?h \<mapsto> (key, v, charge))" "lc_table c2 = lc_table c"
      "lc_capacity c2 = lc_capacity c"
    using insert_node_ok [OF xs(1), of key v charge] by auto
  define c3 where "c3 = c2\<lparr>lc_size := lc_size c2 + 1, lc_usage := lc_usage c2 + charge,
    lc_table := (lc_table c)(key \<mapsto> ?h)\<rparr>"
  have h: "?h \<notin> set xs" using xs(1) by (auto simp: core_ok_def)
  have nd: "node_data c3 = node_data c2" by (simp add: c3_def node_data_def fun_eq_iff)
  have en: "entries c3 xs = entries c xs" by (rule entries_cong) (use h nd c2(3) in auto)
  have "core_ok c3 (xs @ [?h])" using c2(2) c2(4) by (simp add: c3_def)
  moreover have "table_ok (c3\<lparr>lc_table := lc_table c\<rparr>) xs"
    using xs(2) h nd c2(3) by (auto simp: table_ok_def)
  moreover have "the (node_data c3 ?h) = (key, v, charge)" using nd c2(3) by simp
  ultimately obtain c4 where c4: "FinishErase (lc_table c key) c3 = Some (lc_table c key \<noteq> None, c4)"
      "lru_rel c4 (spec_remove key (entries c3 xs) @ [(key, v, charge)])" "lc_capacity c4 = lc_capacity c3"
    using erase_replaced_ok [of c3 xs ?h "lc_table c" key v charge] by (auto simp: c3_def)
  obtain c5 where c5: "LRU_Trim c4 = Some c5" "lc_capacity c5 = lc_capacity c4"
      "lru_rel c5 (spec_trim (lc_capacity c4) (spec_remove key (entries c3 xs) @ [(key, v, charge)]))"
    using LRU_Trim_ok [OF c4(2)] by auto
  have "HandleTable_Insert key ?h (c2\<lparr>lc_size := lc_size c2 + 1, lc_usage := lc_usage c2 + charge\<rparr>) = (lc_table c key, c3)"
    using c2(4) by (simp add: HandleTable_Insert_def c3_def)
  then have "Insert key v charge c = Some (OK, c5)"
    using assms(2) c2(1) c4(1) c5(1) by (simp add: Insert_def Let_def)
  moreover have "lc_capacity c4 = lc_capacity c" using c4(3) c2(5) by (simp add: c3_def)
  ultimately show ?thesis using c5 en xs(3) by auto
qed

lemma LRUCache_new_ok: "lru_rel LRUCache_new []"
proof -
  have "core_ok LRUCache_new []" "table_ok LRUCache_new []"
    by (auto simp: core_ok_def table_ok_def link_ok_def LRUCache_new_def get_next_def get_prev_def node_data_def)
  from lru_relI [OF this] show ?thesis by simp
qed

section \<open>Properties\<close>

text \<open>C9: The linked list and the hash table implement a least-recently-used cache. On a well-formed
  cache no operation follows a dangling pointer and every loop ends; a lookup returns the stored
  value and makes the entry the newest; an insertion replaces the entry of its key, appends the new
  one and evicts from the oldest end until the charges fit the capacity; a removal deletes exactly
  the entry of its key.\<close>

theorem lru_cache_refines:
  assumes "lru_rel c es"
  shows "(\<exists>c'. Lookup key c = Some (spec_lookup key es, c') \<and> lru_rel c' (spec_touch key es)) \<and>
    (lc_capacity c \<noteq> 0 \<longrightarrow> (\<exists>c'. Insert key v charge c = Some (OK, c') \<and>
       lru_rel c' (spec_trim (lc_capacity c) (spec_remove key es @ [(key, v, charge)])))) \<and>
    (\<exists>c'. Remove key c = Some (if spec_lookup key es = None then NotFound [] else OK, c') \<and>
       lru_rel c' (spec_remove key es)) \<and>
    (\<exists>c'. SetCapacity cap c = Some c' \<and> lru_rel c' (spec_trim cap es)) \<and>
    (\<exists>c'. Clear c = Some c' \<and> lru_rel c' [])"
  using Lookup_ok [OF assms, of key] Insert_ok [OF assms, of key v charge] Remove_ok [OF assms, of key]
    LRU_Trim_ok [of "c\<lparr>lc_capacity := cap\<rparr>" es] Clear_ok [OF assms] assms
  by (auto simp: SetCapacity_def lru_rel_capacity)

theorem lru_cache_refines_witness:
  "\<exists>c'. Insert (3 :: nat) (7 :: nat) 1 (LRUCache_new\<lparr>lc_capacity := 2\<rparr>) = Some (OK, c') \<and> lru_rel c' [(3, 7, 1)]"
  using lru_cache_refines [of "LRUCache_new\<lparr>lc_capacity := 2\<rparr>" "[]" "3 :: nat" "7 :: nat" 1]
  by (simp add: lru_rel_capacity LRUCache_new_ok)

text \<open>The charge in use never exceeds the capacity after an insertion or a change of the
  capacity, and the counters agree with the list: \<open>Size\<close> is its length and \<open>TotalCharge\<close> the sum of
  its charges.\<close>

theorem lru_cache_bounded:
  assumes "lru_rel c es"
  shows "lc_size c = of_nat (length es) \<and> lc_usage c = charges es \<and>
    (Insert key v charge c = Some (OK, c') \<longrightarrow> lc_usage c' \<le> lc_capacity c) \<and>
    (SetCapacity cap c = Some c'' \<longrightarrow> lc_usage c'' \<le> cap)"
proof -
  have "lc_usage c' \<le> lc_capacity c" if "Insert key v charge c = Some (OK, c')"
  proof -
    have "lc_capacity c \<noteq> 0" using that by (auto simp: Insert_def split: if_splits)
    then show ?thesis
      using Insert_ok [OF assms, of key v charge] that lru_rel_usage spec_trim_bound by fastforce
  qed
  moreover have "lc_usage c'' \<le> cap" if "SetCapacity cap c = Some c''"
    using LRU_Trim_ok [of "c\<lparr>lc_capacity := cap\<rparr>" es] that assms lru_rel_usage spec_trim_bound
    by (fastforce simp: SetCapacity_def lru_rel_capacity)
  ultimately show ?thesis using lru_rel_usage [OF assms] by auto
qed

theorem lru_cache_bounded_witness:
  "lc_usage (the (SetCapacity 4 (LRUCache_new :: (nat, nat) LRUCache))) \<le> 4"
  using lru_cache_bounded [OF LRUCache_new_ok, of "0 :: nat" "0 :: nat" 0 LRUCache_new 4]
    LRU_Trim_ok [of "LRUCache_new\<lparr>lc_capacity := 4\<rparr> :: (nat, nat) LRUCache" "[]"]
  by (auto simp: SetCapacity_def lru_rel_capacity LRUCache_new_ok)

end
