(* ===== verification/ValueFormat.thy ===== *)
theory ValueFormat
  imports KeyFormat
begin

text \<open>
  Layout of the values kept in RocksDB, from \<open>base_value_format.h\<close>, \<open>base_data_value_format.h\<close>,
  \<open>base_meta_value_format.h\<close>, \<open>strings_value_format.h\<close> and \<open>lists_meta_value_format.h\<close> under
  \<open>src/src/storage/src\<close>. An \<open>InternalValue\<close> is built by a command and encoded once. A
  \<open>ParsedInternalValue\<close> is a set of fields read from a stored value; when it was built from a
  \<open>std::string*\<close> its setters also patch the bytes, so field and byte views have to agree.
  The parameter \<open>now\<close> is what \<open>pstd::NowMillis\<close> returns.
\<close>

section \<open>Value types\<close>

text \<open>\<open>enum class DataType : uint8_t\<close>. A cast from a byte outside the named values is legal C++ and
  yields an unnamed value, here \<open>kOtherType\<close>.\<close>

datatype DataType =
  kStrings | kHashes | kSets | kLists | kZSets | kStreams | kNones | kAll | kOtherType byte

definition DataType_of_byte :: "byte \<Rightarrow> DataType" where
  "DataType_of_byte b =
     (if b = 0 then kStrings else if b = 1 then kHashes else if b = 2 then kSets
      else if b = 3 then kLists else if b = 4 then kZSets else if b = 5 then kStreams
      else if b = 6 then kNones else if b = 7 then kAll else kOtherType b)"

fun byte_of_DataType :: "DataType \<Rightarrow> byte" where
  "byte_of_DataType kStrings = 0"
| "byte_of_DataType kHashes = 1"
| "byte_of_DataType kSets = 2"
| "byte_of_DataType kLists = 3"
| "byte_of_DataType kZSets = 4"
| "byte_of_DataType kStreams = 5"
| "byte_of_DataType kNones = 6"
| "byte_of_DataType kAll = 7"
| "byte_of_DataType (kOtherType b) = b"

fun DataTypeToTag :: "DataType \<Rightarrow> char" where
  "DataTypeToTag kStrings = CHR ''k''"
| "DataTypeToTag kHashes = CHR ''h''"
| "DataTypeToTag kSets = CHR ''s''"
| "DataTypeToTag kLists = CHR ''l''"
| "DataTypeToTag kZSets = CHR ''z''"
| "DataTypeToTag kStreams = CHR ''x''"
| "DataTypeToTag _ = CHR ''n''"

section \<open>Time stamps\<close>

text \<open>The most significant bit marks a stamp in milliseconds; without it the stamp is in seconds.\<close>

definition ms_flag :: u64 where "ms_flag = push_bit 63 1"

definition EncodeStamp :: "u64 \<Rightarrow> u64" where
  "EncodeStamp t = (if t > 0 then t OR ms_flag else 0)"

definition ParseStamp :: "u64 \<Rightarrow> u64" where
  "ParseStamp t = (let t' = t AND NOT ms_flag in if t' = t then t' * 1000 else t')"

section \<open>Values under construction\<close>

record InternalValue =
  iv_user_value :: bytes
  iv_version :: u64
  iv_etime :: u64
  iv_ctime :: u64
  iv_type :: DataType

definition InternalValue_new :: "u64 \<Rightarrow> DataType \<Rightarrow> bytes \<Rightarrow> InternalValue" where
  "InternalValue_new now type user_value =
     \<lparr>iv_user_value = user_value, iv_version = 0, iv_etime = 0, iv_ctime = now, iv_type = type\<rparr>"

definition InternalValue_SetEtime :: "u64 \<Rightarrow> InternalValue \<Rightarrow> InternalValue" where
  "InternalValue_SetEtime etime v = v\<lparr>iv_etime := etime\<rparr>"

definition InternalValue_SetRelativeTimeInMillsec :: "u64 \<Rightarrow> i64 \<Rightarrow> InternalValue \<Rightarrow> InternalValue" where
  "InternalValue_SetRelativeTimeInMillsec now ttl_millsec v = v\<lparr>iv_etime := now + ttl_millsec\<rparr>"

definition reserve :: bytes where "reserve = replicate 16 0"

text \<open>\<open>BaseDataValue\<close>: an element of a hash, set, zset or list.\<close>

definition BaseDataValue_Encode :: "(nat \<Rightarrow> byte) \<Rightarrow> InternalValue \<Rightarrow> bytes" where
  "BaseDataValue_Encode junk v =
     (let usize = length (iv_user_value v);
          needed = usize + kSuffixReserveLength + kTimestampLength;
          dst = memcpy_at (alloc junk needed) 0 (iv_user_value v);
          off = usize;
          dst = memcpy_at dst off reserve;
          off = off + kSuffixReserveLength
      in memcpy_at dst off (EncodeFixed64 (EncodeStamp (iv_ctime v))))"

text \<open>\<open>BaseMetaValue\<close>: the meta value of a hash, set or zset.\<close>

definition BaseMetaValue_Encode :: "(nat \<Rightarrow> byte) \<Rightarrow> InternalValue \<Rightarrow> bytes" where
  "BaseMetaValue_Encode junk v =
     (let usize = length (iv_user_value v);
          needed = usize + kVersionLength + kSuffixReserveLength + 2 * kTimestampLength + kTypeLength;
          dst = memcpy_at (alloc junk needed) 0 [byte_of_DataType (iv_type v)];
          off = kTypeLength;
          dst = memcpy_at dst off (iv_user_value v);
          off = off + usize;
          dst = memcpy_at dst off (EncodeFixed64 (iv_version v));
          off = off + 8;
          dst = memcpy_at dst off reserve;
          off = off + 16;
          dst = memcpy_at dst off (EncodeFixed64 (EncodeStamp (iv_ctime v)));
          off = off + 8
      in memcpy_at dst off (EncodeFixed64 (EncodeStamp (iv_etime v))))"

definition BaseMetaValue_UpdateVersion :: "u64 \<Rightarrow> InternalValue \<Rightarrow> InternalValue" where
  "BaseMetaValue_UpdateVersion now v =
     (if iv_version v \<ge> now then v\<lparr>iv_version := iv_version v + 1\<rparr> else v\<lparr>iv_version := now\<rparr>)"

definition StringsValue_Encode :: "(nat \<Rightarrow> byte) \<Rightarrow> InternalValue \<Rightarrow> bytes" where
  "StringsValue_Encode junk v =
     (let usize = length (iv_user_value v);
          needed = usize + kSuffixReserveLength + 2 * kTimestampLength + kTypeLength;
          dst = memcpy_at (alloc junk needed) 0 [byte_of_DataType (iv_type v)];
          off = kTypeLength;
          dst = memcpy_at dst off (iv_user_value v);
          off = off + usize;
          dst = memcpy_at dst off reserve;
          off = off + kSuffixReserveLength;
          dst = memcpy_at dst off (EncodeFixed64 (EncodeStamp (iv_ctime v)));
          off = off + kTimestampLength
      in memcpy_at dst off (EncodeFixed64 (EncodeStamp (iv_etime v))))"

text \<open>\<open>HyperloglogValue\<close> marks its reserve field and writes both stamps as they are.\<close>

definition hyperloglog_reserve_flag :: byte where "hyperloglog_reserve_flag = 0x80"

definition HyperloglogValue_Encode :: "(nat \<Rightarrow> byte) \<Rightarrow> InternalValue \<Rightarrow> bytes" where
  "HyperloglogValue_Encode junk v =
     (let usize = length (iv_user_value v);
          needed = usize + kSuffixReserveLength + 2 * kTimestampLength + kTypeLength;
          dst = memcpy_at (alloc junk needed) 0 [byte_of_DataType (iv_type v)];
          off = kTypeLength;
          dst = memcpy_at dst off (iv_user_value v);
          off = off + usize;
          dst = memcpy_at dst off (reserve[0 := reserve ! 0 OR hyperloglog_reserve_flag]);
          off = off + kSuffixReserveLength;
          dst = memcpy_at dst off (EncodeFixed64 (iv_ctime v));
          off = off + kTimestampLength
      in memcpy_at dst off (EncodeFixed64 (iv_etime v)))"

text \<open>\<open>ListsMetaValue\<close>: eight bytes of each index are written, the offset advances by sixteen.\<close>

record ListsMetaValue = InternalValue +
  lmv_left_index :: u64
  lmv_right_index :: u64

definition InitalLeftIndex :: u64 where "InitalLeftIndex = 9223372036854775807"
definition InitalRightIndex :: u64 where "InitalRightIndex = 9223372036854775808"

definition ListsMetaValue_new :: "u64 \<Rightarrow> bytes \<Rightarrow> ListsMetaValue" where
  "ListsMetaValue_new now user_value =
     \<lparr>iv_user_value = user_value, iv_version = 0, iv_etime = 0, iv_ctime = now, iv_type = kLists,
      lmv_left_index = InitalLeftIndex, lmv_right_index = InitalRightIndex\<rparr>"

definition ListsMetaValue_Encode :: "(nat \<Rightarrow> byte) \<Rightarrow> ListsMetaValue \<Rightarrow> bytes" where
  "ListsMetaValue_Encode junk v =
     (let usize = length (iv_user_value v);
          needed = usize + kVersionLength + 2 * kListValueIndexLength + kSuffixReserveLength +
                   2 * kTimestampLength + kTypeLength;
          dst = memcpy_at (alloc junk needed) 0 [byte_of_DataType (iv_type v)];
          off = kTypeLength;
          dst = memcpy_at dst off (iv_user_value v);
          off = off + usize;
          dst = memcpy_at dst off (EncodeFixed64 (iv_version v));
          off = off + kVersionLength;
          dst = memcpy_at dst off (EncodeFixed64 (lmv_left_index v));
          off = off + kListValueIndexLength;
          dst = memcpy_at dst off (EncodeFixed64 (lmv_right_index v));
          off = off + kListValueIndexLength;
          dst = memcpy_at dst off reserve;
          off = off + kSuffixReserveLength;
          dst = memcpy_at dst off (EncodeFixed64 (EncodeStamp (iv_ctime v)));
          off = off + kTimestampLength
      in memcpy_at dst off (EncodeFixed64 (EncodeStamp (iv_etime v))))"

definition ListsMetaValue_UpdateVersion :: "u64 \<Rightarrow> ListsMetaValue \<Rightarrow> ListsMetaValue" where
  "ListsMetaValue_UpdateVersion now v =
     (if iv_version v \<ge> now then v\<lparr>iv_version := iv_version v + 1\<rparr> else v\<lparr>iv_version := now\<rparr>)"

definition ListsMetaValue_ModifyLeftIndex :: "u64 \<Rightarrow> ListsMetaValue \<Rightarrow> ListsMetaValue" where
  "ListsMetaValue_ModifyLeftIndex index v = v\<lparr>lmv_left_index := lmv_left_index v - index\<rparr>"

definition ListsMetaValue_ModifyRightIndex :: "u64 \<Rightarrow> ListsMetaValue \<Rightarrow> ListsMetaValue" where
  "ListsMetaValue_ModifyRightIndex index v = v\<lparr>lmv_right_index := lmv_right_index v + index\<rparr>"

section \<open>Parsed values\<close>

text \<open>
  \<open>pv_data\<close> is the memory the object was parsed from and \<open>pv_owned\<close> whether \<open>value_\<close> points to it
  (the \<open>std::string*\<close> constructors) or is null (the \<open>Slice\<close> constructors). \<open>user_value_\<close> is a
  range of that memory. A value shorter than its format makes the parsers leave fields
  uninitialised or read outside it; parsing is then \<open>None\<close>.
\<close>

record ParsedInternalValue =
  pv_data :: bytes
  pv_owned :: bool
  pv_user_len :: nat
  pv_version :: u64
  pv_ctime :: u64
  pv_etime :: u64
  pv_type :: DataType

definition pv_IsPermanentSurvival :: "('a ParsedInternalValue_scheme) \<Rightarrow> bool" where
  "pv_IsPermanentSurvival p \<longleftrightarrow> pv_etime p = 0"

definition pv_IsStale :: "u64 \<Rightarrow> ('a ParsedInternalValue_scheme) \<Rightarrow> bool" where
  "pv_IsStale now p = (if pv_etime p = 0 then False else pv_etime p < now)"

definition poke :: "nat \<Rightarrow> bytes \<Rightarrow> ('a ParsedInternalValue_scheme) \<Rightarrow> ('a ParsedInternalValue_scheme)" where
  "poke off src p = (if pv_owned p then p\<lparr>pv_data := memcpy_at (pv_data p) off src\<rparr> else p)"

text \<open>The stamps are the last sixteen bytes of every format with an expiry time.\<close>

definition pv_SetEtime :: "u64 \<Rightarrow> ('a ParsedInternalValue_scheme) \<Rightarrow> ('a ParsedInternalValue_scheme)" where
  "pv_SetEtime etime p =
     poke (length (pv_data p) - kTimestampLength) (EncodeFixed64 (EncodeStamp etime)) (p\<lparr>pv_etime := etime\<rparr>)"

definition pv_SetCtime :: "u64 \<Rightarrow> ('a ParsedInternalValue_scheme) \<Rightarrow> ('a ParsedInternalValue_scheme)" where
  "pv_SetCtime ctime p =
     poke (length (pv_data p) - 2 * kTimestampLength) (EncodeFixed64 (EncodeStamp ctime)) (p\<lparr>pv_ctime := ctime\<rparr>)"

definition pv_SetRelativeTimestamp :: "u64 \<Rightarrow> i64 \<Rightarrow> ('a ParsedInternalValue_scheme) \<Rightarrow> ('a ParsedInternalValue_scheme)" where
  "pv_SetRelativeTimestamp now ttl_millsec p = pv_SetEtime (now + ttl_millsec) p"

subsection \<open>Element values\<close>

definition kBaseDataValueSuffixLength :: nat where
  "kBaseDataValueSuffixLength = kSuffixReserveLength + kTimestampLength"

definition ParsedBaseDataValue_UserValue :: "bytes \<Rightarrow> bytes" where
  "ParsedBaseDataValue_UserValue value =
     (if length value \<ge> kBaseDataValueSuffixLength
      then take (length value - kBaseDataValueSuffixLength) value else [])"

definition ParsedBaseDataValue_Ctime :: "bytes \<Rightarrow> u64" where
  "ParsedBaseDataValue_Ctime value =
     (if length value \<ge> kBaseDataValueSuffixLength
      then DecodeFixed64 (drop (length value - kTimestampLength) value) AND NOT ms_flag else 0)"

text \<open>\<open>StripSuffix\<close> of an element; \<open>erase\<close> throws when the string is shorter than the suffix.\<close>

definition ParsedBaseDataValue_StripSuffix :: "bytes \<Rightarrow> bytes option" where
  "ParsedBaseDataValue_StripSuffix value =
     (if length value < kBaseDataValueSuffixLength then None
      else Some (take (length value - kBaseDataValueSuffixLength) value))"

subsection \<open>String values\<close>

definition kStringsValueSuffixLength :: nat where
  "kStringsValueSuffixLength = 2 * kTimestampLength + kSuffixReserveLength"

definition ParsedStringsValue_parse :: "bool \<Rightarrow> bytes \<Rightarrow> ParsedInternalValue option" where
  "ParsedStringsValue_parse owned value =
     (if length value < kStringsValueSuffixLength + kTypeLength then None
      else
        let usize = length value - kStringsValueSuffixLength - kTypeLength;
            off = kTypeLength + usize + kSuffixReserveLength;
            ctime = DecodeFixed64 (drop off value);
            etime = DecodeFixed64 (drop (off + 8) value)
        in Some \<lparr>pv_data = value, pv_owned = owned, pv_user_len = usize, pv_version = 0,
                 pv_ctime = ParseStamp ctime, pv_etime = ParseStamp etime,
                 pv_type = DataType_of_byte (value ! 0)\<rparr>)"

definition pv_UserValue :: "('a ParsedInternalValue_scheme) \<Rightarrow> bytes" where
  "pv_UserValue p = take (pv_user_len p) (drop kTypeLength (pv_data p))"

definition ParsedStringsValue_StripSuffix :: "ParsedInternalValue \<Rightarrow> bytes" where
  "ParsedStringsValue_StripSuffix p =
     (if pv_owned p then
        let v = drop kTypeLength (pv_data p) in take (length v - kStringsValueSuffixLength) v
      else pv_data p)"

subsection \<open>Meta values of hashes, sets and zsets\<close>

record ParsedBaseMetaValue = ParsedInternalValue +
  pm_count :: i32

definition kBaseMetaValueSuffixLength :: nat where
  "kBaseMetaValueSuffixLength = kVersionLength + kSuffixReserveLength + 2 * kTimestampLength"

definition ParsedBaseMetaValue_parse :: "bool \<Rightarrow> bytes \<Rightarrow> ParsedBaseMetaValue option" where
  "ParsedBaseMetaValue_parse owned value =
     (if length value < kBaseMetaValueSuffixLength + kTypeLength then None
      else
        let usize = length value - kBaseMetaValueSuffixLength - kTypeLength;
            off = kTypeLength + usize;
            version = DecodeFixed64 (drop off value);
            off = off + 8 + 16;
            ctime = DecodeFixed64 (drop off value);
            off = off + 8;
            etime = DecodeFixed64 (drop off value)
        in Some \<lparr>pv_data = value, pv_owned = owned, pv_user_len = usize, pv_version = version,
                 pv_ctime = ParseStamp ctime, pv_etime = ParseStamp etime,
                 pv_type = DataType_of_byte (value ! 0),
                 pm_count = DecodeFixed32 (drop kTypeLength value)\<rparr>)"

definition pm_SetCount :: "i32 \<Rightarrow> ParsedBaseMetaValue \<Rightarrow> ParsedBaseMetaValue" where
  "pm_SetCount count p = poke kTypeLength (EncodeFixed32 count) (p\<lparr>pm_count := count\<rparr>)"

definition pm_ModifyCount :: "i32 \<Rightarrow> ParsedBaseMetaValue \<Rightarrow> ParsedBaseMetaValue" where
  "pm_ModifyCount delta p =
     poke kTypeLength (EncodeFixed32 (pm_count p + delta)) (p\<lparr>pm_count := pm_count p + delta\<rparr>)"

text \<open>The sum is formed in 64 bits and compared with \<open>0\<close> and \<open>INT32_MAX\<close>.\<close>

definition pm_CheckModifyCount :: "i32 \<Rightarrow> ParsedBaseMetaValue \<Rightarrow> bool" where
  "pm_CheckModifyCount delta p =
     (let count = sint (pm_count p) + sint delta in \<not> (count < 0 \<or> count > 2147483647))"

definition pm_SetVersion :: "u64 \<Rightarrow> ParsedBaseMetaValue \<Rightarrow> ParsedBaseMetaValue" where
  "pm_SetVersion version p =
     poke (length (pv_data p) - kBaseMetaValueSuffixLength) (EncodeFixed64 version) (p\<lparr>pv_version := version\<rparr>)"

definition pm_UpdateVersion :: "u64 \<Rightarrow> ParsedBaseMetaValue \<Rightarrow> ParsedBaseMetaValue" where
  "pm_UpdateVersion now p =
     pm_SetVersion (if pv_version p \<ge> now then pv_version p + 1 else now) p"

definition pm_InitialMetaValue :: "u64 \<Rightarrow> ParsedBaseMetaValue \<Rightarrow> ParsedBaseMetaValue" where
  "pm_InitialMetaValue now p = pm_UpdateVersion now (pv_SetCtime 0 (pv_SetEtime 0 (pm_SetCount 0 p)))"

definition pm_IsValid :: "u64 \<Rightarrow> ParsedBaseMetaValue \<Rightarrow> bool" where
  "pm_IsValid now p \<longleftrightarrow> \<not> pv_IsStale now p \<and> pm_count p \<noteq> 0"

subsection \<open>Meta values of lists\<close>

record ParsedListsMetaValue = ParsedInternalValue +
  pl_count :: u64
  pl_left_index :: u64
  pl_right_index :: u64

definition kListsMetaValueSuffixLength :: nat where
  "kListsMetaValueSuffixLength =
     kVersionLength + 2 * kListValueIndexLength + kSuffixReserveLength + 2 * kTimestampLength"

definition ParsedListsMetaValue_parse :: "bool \<Rightarrow> bytes \<Rightarrow> ParsedListsMetaValue option" where
  "ParsedListsMetaValue_parse owned value =
     (if length value < kListsMetaValueSuffixLength + kTypeLength then None
      else
        let usize = length value - kListsMetaValueSuffixLength - kTypeLength;
            off = kTypeLength + usize;
            version = DecodeFixed64 (drop off value);
            off = off + kVersionLength;
            left_index = DecodeFixed64 (drop off value);
            off = off + kListValueIndexLength;
            right_index = DecodeFixed64 (drop off value);
            off = off + kListValueIndexLength + kSuffixReserveLength;
            ctime = DecodeFixed64 (drop off value);
            off = off + kTimestampLength;
            etime = DecodeFixed64 (drop off value)
        in Some \<lparr>pv_data = value, pv_owned = owned, pv_user_len = usize, pv_version = version,
                 pv_ctime = ParseStamp ctime, pv_etime = ParseStamp etime,
                 pv_type = DataType_of_byte (value ! 0),
                 pl_count = DecodeFixed64 (drop kTypeLength value),
                 pl_left_index = left_index, pl_right_index = right_index\<rparr>)"

definition pl_SetVersion :: "u64 \<Rightarrow> ParsedListsMetaValue \<Rightarrow> ParsedListsMetaValue" where
  "pl_SetVersion version p =
     poke (length (pv_data p) - kListsMetaValueSuffixLength) (EncodeFixed64 version) (p\<lparr>pv_version := version\<rparr>)"

definition pl_UpdateVersion :: "u64 \<Rightarrow> ParsedListsMetaValue \<Rightarrow> ParsedListsMetaValue" where
  "pl_UpdateVersion now p =
     pl_SetVersion (if pv_version p \<ge> now then pv_version p + 1 else now) p"

definition pl_SetCount :: "u64 \<Rightarrow> ParsedListsMetaValue \<Rightarrow> ParsedListsMetaValue" where
  "pl_SetCount count p = poke kTypeLength (EncodeFixed64 count) (p\<lparr>pl_count := count\<rparr>)"

definition pl_ModifyCount :: "u64 \<Rightarrow> ParsedListsMetaValue \<Rightarrow> ParsedListsMetaValue" where
  "pl_ModifyCount delta p =
     poke kTypeLength (EncodeFixed64 (pl_count p + delta)) (p\<lparr>pl_count := pl_count p + delta\<rparr>)"

definition pl_set_left_index :: "u64 \<Rightarrow> ParsedListsMetaValue \<Rightarrow> ParsedListsMetaValue" where
  "pl_set_left_index index p =
     poke (length (pv_data p) - kListsMetaValueSuffixLength + kVersionLength) (EncodeFixed64 index)
       (p\<lparr>pl_left_index := index\<rparr>)"

definition pl_ModifyLeftIndex :: "u64 \<Rightarrow> ParsedListsMetaValue \<Rightarrow> ParsedListsMetaValue" where
  "pl_ModifyLeftIndex index p =
     poke (length (pv_data p) - kListsMetaValueSuffixLength + kVersionLength)
       (EncodeFixed64 (pl_left_index p - index)) (p\<lparr>pl_left_index := pl_left_index p - index\<rparr>)"

definition pl_set_right_index :: "u64 \<Rightarrow> ParsedListsMetaValue \<Rightarrow> ParsedListsMetaValue" where
  "pl_set_right_index index p =
     poke (length (pv_data p) - kListsMetaValueSuffixLength + kVersionLength + kListValueIndexLength)
       (EncodeFixed64 index) (p\<lparr>pl_right_index := index\<rparr>)"

definition pl_ModifyRightIndex :: "u64 \<Rightarrow> ParsedListsMetaValue \<Rightarrow> ParsedListsMetaValue" where
  "pl_ModifyRightIndex index p =
     poke (length (pv_data p) - kListsMetaValueSuffixLength + kVersionLength + kListValueIndexLength)
       (EncodeFixed64 (pl_right_index p + index)) (p\<lparr>pl_right_index := pl_right_index p + index\<rparr>)"

text \<open>\<open>SetIndexToValue\<close> advances by the size of the field, eight, not by the stride of the layout.\<close>

definition pl_SetIndexToValue :: "ParsedListsMetaValue \<Rightarrow> ParsedListsMetaValue" where
  "pl_SetIndexToValue p =
     (let off = length (pv_data p) - kListsMetaValueSuffixLength + kVersionLength
      in poke (off + 8) (EncodeFixed64 (pl_right_index p)) (poke off (EncodeFixed64 (pl_left_index p)) p))"

definition pl_InitialMetaValue :: "u64 \<Rightarrow> ParsedListsMetaValue \<Rightarrow> ParsedListsMetaValue" where
  "pl_InitialMetaValue now p =
     pl_UpdateVersion now (pv_SetCtime 0 (pv_SetEtime 0 (pl_set_right_index InitalRightIndex
       (pl_set_left_index InitalLeftIndex (pl_SetCount 0 p)))))"

definition pl_IsValid :: "u64 \<Rightarrow> ParsedListsMetaValue \<Rightarrow> bool" where
  "pl_IsValid now p \<longleftrightarrow> \<not> pv_IsStale now p \<and> pl_count p \<noteq> 0"

section \<open>Reading patched bytes\<close>

named_theorems patch_simps \<open>decoding a field of a patched value\<close>

lemma take_drop_memcpy_at_before:
  assumes "n + k \<le> off" and "off \<le> length buf"
  shows "take k (drop n (memcpy_at buf off src)) = take k (drop n buf)"
  using assms by (simp add: memcpy_at_def take_drop min_def)

lemma Decode64_memcpy_same [patch_simps]:
  assumes "off \<le> length buf"
  shows "DecodeFixed64 (drop off (memcpy_at buf off (EncodeFixed64 v))) = v"
  using assms by (simp add: memcpy_at_def)

lemma Decode64_memcpy_other [patch_simps]:
  assumes "n + 8 \<le> off \<or> off + length src \<le> n" and "off \<le> length buf"
  shows "DecodeFixed64 (drop n (memcpy_at buf off src)) = DecodeFixed64 (drop n buf)"
proof (cases "n + 8 \<le> off")
  case True
  then show ?thesis
    using take_drop_memcpy_at_before [of n 8 off buf src] assms(2)
    by (metis DecodeFixed64_take order_refl)
next
  case False
  then show ?thesis using assms by (simp add: drop_memcpy_at_after)
qed

lemma Decode32_memcpy_same [patch_simps]:
  assumes "off \<le> length buf"
  shows "DecodeFixed32 (drop off (memcpy_at buf off (EncodeFixed32 v))) = v"
  using assms by (simp add: memcpy_at_def)

lemma Decode32_memcpy_other [patch_simps]:
  assumes "n + 4 \<le> off \<or> off + length src \<le> n" and "off \<le> length buf"
  shows "DecodeFixed32 (drop n (memcpy_at buf off src)) = DecodeFixed32 (drop n buf)"
proof (cases "n + 4 \<le> off")
  case True
  then show ?thesis
    using take_drop_memcpy_at_before [of n 4 off buf src] assms(2)
    by (metis DecodeFixed32_take order_refl)
next
  case False
  then show ?thesis using assms by (simp add: drop_memcpy_at_after)
qed

lemma nth0_memcpy_at [patch_simps]:
  assumes "0 < off" and "off \<le> length buf"
  shows "memcpy_at buf off src ! 0 = buf ! 0"
  using assms by (simp add: memcpy_at_def nth_append)

section \<open>Time stamps survive a round trip\<close>

text \<open>A stamp whose top bit is clear: every time before the year 292 million.\<close>

definition stamp_ok :: "u64 \<Rightarrow> bool" where
  "stamp_ok t \<longleftrightarrow> \<not> bit t 63"

lemma bit_ms_flag [simp]: "bit ms_flag n \<longleftrightarrow> n = 63"
  unfolding ms_flag_def push_bit_of_1 bit_exp_iff by auto

lemma stamp_ok_0 [simp]: "stamp_ok 0"
  by (simp add: stamp_ok_def)

lemma ParseStamp_EncodeStamp [simp]:
  assumes "stamp_ok t"
  shows "ParseStamp (EncodeStamp t) = t"
proof (cases "t = 0")
  case True
  then show ?thesis by (simp add: ParseStamp_def EncodeStamp_def)
next
  case False
  have "(t OR ms_flag) AND NOT ms_flag = t"
    using assms by (intro bit_word_eqI) (auto simp: stamp_ok_def bit_simps)
  moreover have "t \<noteq> t OR ms_flag"
  proof
    assume "t = t OR ms_flag"
    then have "bit t 63 = bit (t OR ms_flag) 63" by simp
    then show False using assms by (simp add: stamp_ok_def bit_simps)
  qed
  ultimately show ?thesis using False
    by (simp add: ParseStamp_def EncodeStamp_def word_gt_0)
qed

lemma DataType_byte_roundtrip [simp]: "byte_of_DataType (DataType_of_byte b) = b"
  by (simp add: DataType_of_byte_def)

section \<open>Parsed fields and stored bytes agree\<close>

text \<open>
  \<open>pl_wf p\<close>: the object owns a list meta value of the size the engine writes and its fields are
  what parsing those bytes yields. \<open>pm_wf\<close> is the same for hash, set and zset meta values.
\<close>

definition pl_wf :: "ParsedListsMetaValue \<Rightarrow> bool" where
  "pl_wf p \<longleftrightarrow> length (pv_data p) = 81 \<and> ParsedListsMetaValue_parse True (pv_data p) = Some p"

definition pm_wf :: "ParsedBaseMetaValue \<Rightarrow> bool" where
  "pm_wf p \<longleftrightarrow> length (pv_data p) = 45 \<and> ParsedBaseMetaValue_parse True (pv_data p) = Some p"

lemma suffix_lengths [simp]:
  "kListsMetaValueSuffixLength = 72" "kBaseMetaValueSuffixLength = 40"
  "kStringsValueSuffixLength = 32" "kBaseDataValueSuffixLength = 24"
  by (simp_all add: kListsMetaValueSuffixLength_def kBaseMetaValueSuffixLength_def
      kStringsValueSuffixLength_def kBaseDataValueSuffixLength_def)

lemma pl_parse_81:
  assumes "length v = 81"
  shows "ParsedListsMetaValue_parse own v = Some
    \<lparr>pv_data = v, pv_owned = own, pv_user_len = 8, pv_version = DecodeFixed64 (drop 9 v),
     pv_ctime = ParseStamp (DecodeFixed64 (drop 65 v)), pv_etime = ParseStamp (DecodeFixed64 (drop 73 v)),
     pv_type = DataType_of_byte (v ! 0), pl_count = DecodeFixed64 (drop 1 v),
     pl_left_index = DecodeFixed64 (drop 17 v), pl_right_index = DecodeFixed64 (drop 33 v)\<rparr>"
  using assms by (simp add: ParsedListsMetaValue_parse_def Let_def)

lemma pm_parse_45:
  assumes "length v = 45"
  shows "ParsedBaseMetaValue_parse own v = Some
    \<lparr>pv_data = v, pv_owned = own, pv_user_len = 4, pv_version = DecodeFixed64 (drop 5 v),
     pv_ctime = ParseStamp (DecodeFixed64 (drop 29 v)), pv_etime = ParseStamp (DecodeFixed64 (drop 37 v)),
     pv_type = DataType_of_byte (v ! 0), pm_count = DecodeFixed32 (drop 1 v)\<rparr>"
  using assms by (simp add: ParsedBaseMetaValue_parse_def Let_def)

lemma pl_wf_iff:
  "pl_wf p \<longleftrightarrow> length (pv_data p) = 81 \<and> pv_owned p \<and> pv_user_len p = 8 \<and>
     pv_version p = DecodeFixed64 (drop 9 (pv_data p)) \<and>
     pv_ctime p = ParseStamp (DecodeFixed64 (drop 65 (pv_data p))) \<and>
     pv_etime p = ParseStamp (DecodeFixed64 (drop 73 (pv_data p))) \<and>
     pv_type p = DataType_of_byte (pv_data p ! 0) \<and>
     pl_count p = DecodeFixed64 (drop 1 (pv_data p)) \<and>
     pl_left_index p = DecodeFixed64 (drop 17 (pv_data p)) \<and>
     pl_right_index p = DecodeFixed64 (drop 33 (pv_data p))"
  by (cases p) (auto simp: pl_wf_def pl_parse_81)

lemma pm_wf_iff:
  "pm_wf p \<longleftrightarrow> length (pv_data p) = 45 \<and> pv_owned p \<and> pv_user_len p = 4 \<and>
     pv_version p = DecodeFixed64 (drop 5 (pv_data p)) \<and>
     pv_ctime p = ParseStamp (DecodeFixed64 (drop 29 (pv_data p))) \<and>
     pv_etime p = ParseStamp (DecodeFixed64 (drop 37 (pv_data p))) \<and>
     pv_type p = DataType_of_byte (pv_data p ! 0) \<and>
     pm_count p = DecodeFixed32 (drop 1 (pv_data p))"
  by (cases p) (auto simp: pm_wf_def pm_parse_45)

lemma pl_wf_parse: "pl_wf p \<Longrightarrow> ParsedListsMetaValue_parse own (pv_data p) = Some (p\<lparr>pv_owned := own\<rparr>)"
  by (cases p) (auto simp: pl_wf_def pl_parse_81)

lemma pm_wf_parse: "pm_wf p \<Longrightarrow> ParsedBaseMetaValue_parse own (pv_data p) = Some (p\<lparr>pv_owned := own\<rparr>)"
  by (cases p) (auto simp: pm_wf_def pm_parse_45)

named_theorems pl_intros \<open>setters of list meta values keep fields and bytes in agreement\<close>
named_theorems pm_intros \<open>setters of base meta values keep fields and bytes in agreement\<close>

lemma pl_wf_setters [pl_intros]:
  assumes "pl_wf p"
  shows "pl_wf (pl_SetVersion v p)" "pl_wf (pl_SetCount c p)" "pl_wf (pl_ModifyCount c p)"
    "pl_wf (pl_set_left_index i p)" "pl_wf (pl_ModifyLeftIndex i p)"
    "pl_wf (pl_set_right_index i p)" "pl_wf (pl_ModifyRightIndex i p)"
  using assms
  by (simp_all add: pl_wf_iff poke_def pl_SetVersion_def pl_SetCount_def pl_ModifyCount_def
      pl_set_left_index_def pl_ModifyLeftIndex_def pl_set_right_index_def pl_ModifyRightIndex_def patch_simps)

lemma pl_wf_stamps [pl_intros]:
  assumes "pl_wf p"
  shows "stamp_ok t \<Longrightarrow> pl_wf (pv_SetEtime t p)" "stamp_ok t \<Longrightarrow> pl_wf (pv_SetCtime t p)"
  using assms
  by (simp_all add: pl_wf_iff poke_def pv_SetEtime_def pv_SetCtime_def patch_simps)

lemma pm_wf_setters [pm_intros]:
  assumes "pm_wf p"
  shows "pm_wf (pm_SetVersion v p)" "pm_wf (pm_SetCount c p)" "pm_wf (pm_ModifyCount c p)"
  using assms
  by (simp_all add: pm_wf_iff poke_def pm_SetVersion_def pm_SetCount_def pm_ModifyCount_def patch_simps)

lemma pm_wf_stamps [pm_intros]:
  assumes "pm_wf p"
  shows "stamp_ok t \<Longrightarrow> pm_wf (pv_SetEtime t p)" "stamp_ok t \<Longrightarrow> pm_wf (pv_SetCtime t p)"
  using assms
  by (simp_all add: pm_wf_iff poke_def pv_SetEtime_def pv_SetCtime_def patch_simps)

lemma pl_wf_versions [pl_intros]:
  assumes "pl_wf p"
  shows "pl_wf (pl_UpdateVersion now p)" "pl_wf (pl_InitialMetaValue now p)"
  using assms by (simp_all add: pl_UpdateVersion_def pl_InitialMetaValue_def pl_intros)

lemma pm_wf_versions [pm_intros]:
  assumes "pm_wf p"
  shows "pm_wf (pm_UpdateVersion now p)" "pm_wf (pm_InitialMetaValue now p)"
  using assms by (simp_all add: pm_UpdateVersion_def pm_InitialMetaValue_def pm_intros)

text \<open>Effect of the setters on the fields.\<close>

lemma poke_fields [simp]:
  "pv_version (poke off src p) = pv_version p" "pv_ctime (poke off src p) = pv_ctime p"
  "pv_etime (poke off src p) = pv_etime p" "pv_type (poke off src p) = pv_type p"
  "pv_owned (poke off src p) = pv_owned p" "pv_user_len (poke off src p) = pv_user_len p"
  by (simp_all add: poke_def)

lemma poke_fields_lists [simp]:
  "pl_count (poke off src q) = pl_count q" "pl_left_index (poke off src q) = pl_left_index q"
  "pl_right_index (poke off src q) = pl_right_index q"
  by (simp_all add: poke_def)

lemma poke_fields_base [simp]: "pm_count (poke off src q) = pm_count q"
  by (simp add: poke_def)

lemmas setter_defs = pl_SetVersion_def pl_SetCount_def pl_ModifyCount_def pl_set_left_index_def
  pl_ModifyLeftIndex_def pl_set_right_index_def pl_ModifyRightIndex_def pv_SetEtime_def
  pv_SetCtime_def pm_SetVersion_def pm_SetCount_def pm_ModifyCount_def pl_UpdateVersion_def
  pm_UpdateVersion_def pl_InitialMetaValue_def pm_InitialMetaValue_def pv_SetRelativeTimestamp_def

lemma pl_field_effects [simp]:
  "pl_count (pl_ModifyCount d p) = pl_count p + d"
  "pl_left_index (pl_ModifyCount d p) = pl_left_index p"
  "pl_right_index (pl_ModifyCount d p) = pl_right_index p"
  "pv_version (pl_ModifyCount d p) = pv_version p"
  "pv_etime (pl_ModifyCount d p) = pv_etime p"
  "pv_type (pl_ModifyCount d p) = pv_type p"
  "pl_left_index (pl_ModifyLeftIndex d p) = pl_left_index p - d"
  "pl_right_index (pl_ModifyLeftIndex d p) = pl_right_index p"
  "pl_count (pl_ModifyLeftIndex d p) = pl_count p"
  "pv_version (pl_ModifyLeftIndex d p) = pv_version p"
  "pv_etime (pl_ModifyLeftIndex d p) = pv_etime p"
  "pv_type (pl_ModifyLeftIndex d p) = pv_type p"
  "pl_right_index (pl_ModifyRightIndex d p) = pl_right_index p + d"
  "pl_left_index (pl_ModifyRightIndex d p) = pl_left_index p"
  "pl_count (pl_ModifyRightIndex d p) = pl_count p"
  "pv_version (pl_ModifyRightIndex d p) = pv_version p"
  "pv_etime (pl_ModifyRightIndex d p) = pv_etime p"
  "pv_type (pl_ModifyRightIndex d p) = pv_type p"
  by (simp_all add: setter_defs)

lemma pl_initial_effects [simp]:
  "pl_count (pl_InitialMetaValue now p) = 0"
  "pl_left_index (pl_InitialMetaValue now p) = InitalLeftIndex"
  "pl_right_index (pl_InitialMetaValue now p) = InitalRightIndex"
  "pv_etime (pl_InitialMetaValue now p) = 0"
  "pv_type (pl_InitialMetaValue now p) = pv_type p"
  "pv_version (pl_InitialMetaValue now p) = (if pv_version p \<ge> now then pv_version p + 1 else now)"
  by (simp_all add: setter_defs)

lemma pm_field_effects [simp]:
  "pm_count (pm_SetCount c p) = c"
  "pv_version (pm_SetCount c p) = pv_version p"
  "pv_etime (pm_SetCount c p) = pv_etime p"
  "pv_type (pm_SetCount c p) = pv_type p"
  "pm_count (pm_ModifyCount d p) = pm_count p + d"
  "pv_version (pm_ModifyCount d p) = pv_version p"
  "pv_etime (pm_ModifyCount d p) = pv_etime p"
  "pv_type (pm_ModifyCount d p) = pv_type p"
  "pm_count (pm_UpdateVersion now p) = pm_count p"
  "pv_version (pm_UpdateVersion now p) = (if pv_version p \<ge> now then pv_version p + 1 else now)"
  "pv_etime (pm_UpdateVersion now p) = pv_etime p"
  "pv_type (pm_UpdateVersion now p) = pv_type p"
  by (simp_all add: setter_defs)

lemma pm_initial_effects [simp]:
  "pm_count (pm_InitialMetaValue now p) = 0"
  "pv_etime (pm_InitialMetaValue now p) = 0"
  "pv_type (pm_InitialMetaValue now p) = pv_type p"
  "pv_version (pm_InitialMetaValue now p) = (if pv_version p \<ge> now then pv_version p + 1 else now)"
  by (simp_all add: setter_defs)

lemma stamp_setters [simp]:
  "pv_etime (pv_SetEtime t p) = t" "pv_version (pv_SetEtime t p) = pv_version p"
  "pv_type (pv_SetEtime t p) = pv_type p" "pl_count (pv_SetEtime t q) = pl_count q"
  "pl_left_index (pv_SetEtime t q) = pl_left_index q" "pl_right_index (pv_SetEtime t q) = pl_right_index q"
  "pm_count (pv_SetEtime t r) = pm_count r"
  by (simp_all add: setter_defs)

section \<open>Encoded values parse back\<close>

lemma length_reserve [simp]: "length reserve = 16"
  by (simp add: reserve_def)

lemma BaseDataValue_Encode_layout:
  "BaseDataValue_Encode junk v = iv_user_value v @ reserve @ EncodeFixed64 (EncodeStamp (iv_ctime v))"
  by (simp add: BaseDataValue_Encode_def Let_def buf_simps)

lemma StringsValue_Encode_layout:
  "StringsValue_Encode junk v = [byte_of_DataType (iv_type v)] @ iv_user_value v @ reserve @
     EncodeFixed64 (EncodeStamp (iv_ctime v)) @ EncodeFixed64 (EncodeStamp (iv_etime v))"
  by (simp add: StringsValue_Encode_def Let_def buf_simps)

lemma HyperloglogValue_Encode_layout:
  "HyperloglogValue_Encode junk v = [byte_of_DataType (iv_type v)] @ iv_user_value v @
     reserve[0 := reserve ! 0 OR hyperloglog_reserve_flag] @
     EncodeFixed64 (iv_ctime v) @ EncodeFixed64 (iv_etime v)"
  by (simp add: HyperloglogValue_Encode_def Let_def buf_simps)

lemma BaseMetaValue_Encode_layout:
  "BaseMetaValue_Encode junk v = [byte_of_DataType (iv_type v)] @ iv_user_value v @
     EncodeFixed64 (iv_version v) @ reserve @ EncodeFixed64 (EncodeStamp (iv_ctime v)) @
     EncodeFixed64 (EncodeStamp (iv_etime v))"
  by (simp add: BaseMetaValue_Encode_def Let_def buf_simps)

text \<open>In a list meta value the eight bytes behind each index keep what the buffer held.\<close>

lemma ListsMetaValue_Encode_layout:
  "\<exists>gap1 gap2. length gap1 = 8 \<and> length gap2 = 8 \<and>
     ListsMetaValue_Encode junk v = [byte_of_DataType (iv_type v)] @ iv_user_value v @
     EncodeFixed64 (iv_version v) @ EncodeFixed64 (lmv_left_index v) @ gap1 @
     EncodeFixed64 (lmv_right_index v) @ gap2 @ reserve @
     EncodeFixed64 (EncodeStamp (iv_ctime v)) @ EncodeFixed64 (EncodeStamp (iv_etime v))"
proof -
  define n where "n = length (iv_user_value v)"
  define b where "b = alloc junk (n + 73)"
  have len: "length b = n + 73" by (simp add: b_def)
  define gap1 where "gap1 = take 8 (drop (n + 17) b)"
  define gap2 where "gap2 = take 8 (drop (n + 33) b)"
  have split1: "drop (n + 17) b = gap1 @ drop (n + 25) b"
    using append_take_drop_id [of 8 "drop (n + 17) b"] by (simp add: gap1_def add.commute)
  have split2: "drop (n + 33) b = gap2 @ drop (n + 41) b"
    using append_take_drop_id [of 8 "drop (n + 33) b"] by (simp add: gap2_def add.commute)
  have gaps: "length gap1 = 8" "length gap2 = 8" by (simp_all add: gap1_def gap2_def len)
  have "ListsMetaValue_Encode junk v = [byte_of_DataType (iv_type v)] @ iv_user_value v @
     EncodeFixed64 (iv_version v) @ EncodeFixed64 (lmv_left_index v) @ gap1 @
     EncodeFixed64 (lmv_right_index v) @ gap2 @ reserve @
     EncodeFixed64 (EncodeStamp (iv_ctime v)) @ EncodeFixed64 (EncodeStamp (iv_etime v))"
    using split1 split2 gaps len
    by (simp add: ListsMetaValue_Encode_def Let_def n_def [symmetric] b_def [symmetric] buf_simps
        add.commute)
  with gaps show ?thesis by blast
qed

lemma length_ListsMetaValue_Encode [simp]:
  "length (ListsMetaValue_Encode junk v) = 73 + length (iv_user_value v)"
  using ListsMetaValue_Encode_layout [of junk v] by auto

lemma ListsMetaValue_Encode_fields:
  assumes "length (iv_user_value v) = 8"
  shows "ListsMetaValue_Encode junk v ! 0 = byte_of_DataType (iv_type v)"
    and "DecodeFixed64 (drop 1 (ListsMetaValue_Encode junk v)) = DecodeFixed64 (iv_user_value v)"
    and "DecodeFixed64 (drop 9 (ListsMetaValue_Encode junk v)) = iv_version v"
    and "DecodeFixed64 (drop 17 (ListsMetaValue_Encode junk v)) = lmv_left_index v"
    and "DecodeFixed64 (drop 33 (ListsMetaValue_Encode junk v)) = lmv_right_index v"
    and "DecodeFixed64 (drop 65 (ListsMetaValue_Encode junk v)) = EncodeStamp (iv_ctime v)"
    and "DecodeFixed64 (drop 73 (ListsMetaValue_Encode junk v)) = EncodeStamp (iv_etime v)"
proof -
  obtain gap1 gap2 where g: "length gap1 = 8" "length gap2 = 8" and
    e: "ListsMetaValue_Encode junk v = [byte_of_DataType (iv_type v)] @ iv_user_value v @
     EncodeFixed64 (iv_version v) @ EncodeFixed64 (lmv_left_index v) @ gap1 @
     EncodeFixed64 (lmv_right_index v) @ gap2 @ reserve @
     EncodeFixed64 (EncodeStamp (iv_ctime v)) @ EncodeFixed64 (EncodeStamp (iv_etime v))"
    using ListsMetaValue_Encode_layout by blast
  show "DecodeFixed64 (drop 1 (ListsMetaValue_Encode junk v)) = DecodeFixed64 (iv_user_value v)"
    unfolding e using assms by (simp add: DecodeFixed64_on_def)
qed (use ListsMetaValue_Encode_layout [of junk v] assms in auto)

lemma drop_numeral_add_Cons: "drop (numeral k + n) (x # xs) = drop (pred_numeral k + n) xs"
  by (simp add: numeral_eq_Suc)

lemma ParseStamp_plain: "stamp_ok t \<Longrightarrow> ParseStamp t = t * 1000"
proof -
  assume "stamp_ok t"
  then have "t AND NOT ms_flag = t"
    by (intro bit_word_eqI) (auto simp: stamp_ok_def bit_simps)
  then show ?thesis by (simp add: ParseStamp_def)
qed

lemma pl_wf_D: "pl_wf p \<Longrightarrow> ParsedListsMetaValue_parse True (pv_data p) = Some p"
  by (simp add: pl_wf_def)

lemma pm_wf_D: "pm_wf p \<Longrightarrow> ParsedBaseMetaValue_parse True (pv_data p) = Some p"
  by (simp add: pm_wf_def)

lemma next_version_increases:
  fixes v now :: u64
  assumes "v \<noteq> - 1"
  shows "v < (if v \<ge> now then v + 1 else now)"
proof -
  have "v + 1 \<noteq> 0"
    using assms by (metis add.commute add_eq_0_iff)
  then have "unat (1 + v) = Suc (unat v)"
    by (intro unatSuc) (simp add: add.commute)
  then show ?thesis by (simp add: word_less_nat_alt add.commute not_le)
qed

lemma ListsMetaValue_parse:
  assumes "iv_user_value v = EncodeFixed64 count" and "iv_type v = kLists"
    and "stamp_ok (iv_ctime v)" and "stamp_ok (iv_etime v)"
  shows "ParsedListsMetaValue_parse own (ListsMetaValue_Encode junk v) = Some
    \<lparr>pv_data = ListsMetaValue_Encode junk v, pv_owned = own, pv_user_len = 8,
     pv_version = iv_version v, pv_ctime = iv_ctime v, pv_etime = iv_etime v, pv_type = kLists,
     pl_count = count, pl_left_index = lmv_left_index v, pl_right_index = lmv_right_index v\<rparr>"
  using assms ListsMetaValue_Encode_fields [of v junk]
  by (simp add: pl_parse_81 DataType_of_byte_def)

lemma BaseMetaValue_parse:
  assumes "iv_user_value v = EncodeFixed32 count"
    and "stamp_ok (iv_ctime v)" and "stamp_ok (iv_etime v)"
  shows "ParsedBaseMetaValue_parse own (BaseMetaValue_Encode junk v) = Some
    \<lparr>pv_data = BaseMetaValue_Encode junk v, pv_owned = own, pv_user_len = 4,
     pv_version = iv_version v, pv_ctime = iv_ctime v, pv_etime = iv_etime v,
     pv_type = DataType_of_byte (byte_of_DataType (iv_type v)), pm_count = count\<rparr>"
  using assms by (simp add: pm_parse_45 BaseMetaValue_Encode_layout)

section \<open>Properties\<close>

text \<open>The meta values written for a new list, hash, set or zset parse back, from a string or from a slice, to the
  count, version, indexes, type and times they were built from, whatever the uninitialised gaps of the list
  layout hold.\<close>

theorem meta_value_roundtrips:
  assumes "iv_user_value v = EncodeFixed64 n" and "iv_type v = kLists" and "stamp_ok (iv_ctime v)" and "stamp_ok (iv_etime v)"
    and "iv_user_value w = EncodeFixed32 count" and "stamp_ok (iv_ctime w)" and "stamp_ok (iv_etime w)"
  shows "ParsedListsMetaValue_parse own (ListsMetaValue_Encode junk v) = Some
    \<lparr>pv_data = ListsMetaValue_Encode junk v, pv_owned = own, pv_user_len = 8,
     pv_version = iv_version v, pv_ctime = iv_ctime v, pv_etime = iv_etime v, pv_type = kLists,
     pl_count = n, pl_left_index = lmv_left_index v, pl_right_index = lmv_right_index v\<rparr> \<and>
   ParsedBaseMetaValue_parse own (BaseMetaValue_Encode junk w) = Some
    \<lparr>pv_data = BaseMetaValue_Encode junk w, pv_owned = own, pv_user_len = 4,
     pv_version = iv_version w, pv_ctime = iv_ctime w, pv_etime = iv_etime w,
     pv_type = DataType_of_byte (byte_of_DataType (iv_type w)), pm_count = count\<rparr>"
  by (intro conjI ListsMetaValue_parse [OF assms(1-4)] BaseMetaValue_parse [OF assms(5-7)])

theorem meta_value_roundtrips_witness:
  "ParsedBaseMetaValue_parse True (BaseMetaValue_Encode (\<lambda>_. 9) (InternalValue_new 5 kHashes (EncodeFixed32 3))) =
   Some \<lparr>pv_data = BaseMetaValue_Encode (\<lambda>_. 9) (InternalValue_new 5 kHashes (EncodeFixed32 3)),
     pv_owned = True, pv_user_len = 4, pv_version = 0, pv_ctime = 5, pv_etime = 0, pv_type = kHashes,
     pm_count = 3\<rparr>"
  using meta_value_roundtrips [of "ListsMetaValue_new 5 (EncodeFixed64 2)" 2 "InternalValue_new 5 kHashes (EncodeFixed32 3)" 3 True "\<lambda>_. 9"]
  by (simp add: ListsMetaValue_new_def InternalValue_new_def stamp_ok_def DataType_of_byte_def)

text \<open>A stored string parses back to its user value and expiry time, and stripping the suffix of
  the stored bytes leaves exactly the user value.\<close>

theorem StringsValue_roundtrip:
  assumes "stamp_ok (iv_ctime v)" and "stamp_ok (iv_etime v)"
  shows "\<exists>p. ParsedStringsValue_parse True (StringsValue_Encode junk v) = Some p \<and>
    pv_UserValue p = iv_user_value v \<and> pv_ctime p = iv_ctime v \<and> pv_etime p = iv_etime v \<and>
    ParsedStringsValue_StripSuffix p = iv_user_value v"
  using assms
  by (simp add: ParsedStringsValue_parse_def StringsValue_Encode_layout pv_UserValue_def
      ParsedStringsValue_StripSuffix_def Let_def drop_numeral_add_Cons)

theorem StringsValue_roundtrip_witness:
  "\<exists>p. ParsedStringsValue_parse True (StringsValue_Encode (\<lambda>_. 9) (InternalValue_new 5 kStrings [1, 2])) = Some p \<and>
    pv_UserValue p = [1, 2] \<and> pv_ctime p = 5 \<and> pv_etime p = 0 \<and> ParsedStringsValue_StripSuffix p = [1, 2]"
  using StringsValue_roundtrip [of "InternalValue_new 5 kStrings [1, 2]" "\<lambda>_. 9"]
  by (simp add: InternalValue_new_def stamp_ok_def)

text \<open>Every setter of a list meta value keeps the parsed fields and the bytes in agreement: after
  any of them, parsing the patched bytes yields the object again. The stored value is therefore
  always the one the command computed with.\<close>

theorem lists_meta_setters_coherent:
  assumes "pl_wf p" and "stamp_ok t"
  shows "\<forall>q \<in> {pl_ModifyCount c p, pl_SetCount c p, pl_ModifyLeftIndex i p, pl_set_left_index i p,
      pl_ModifyRightIndex i p, pl_set_right_index i p, pl_UpdateVersion now p, pl_InitialMetaValue now p,
      pv_SetEtime t p, pv_SetCtime t p}.
    ParsedListsMetaValue_parse True (pv_data q) = Some q"
  using assms by (auto intro!: pl_wf_D pl_intros)

theorem lists_meta_setters_coherent_witness:
  "ParsedListsMetaValue_parse True (pv_data (pl_ModifyLeftIndex 3
     (the (ParsedListsMetaValue_parse True (ListsMetaValue_Encode (\<lambda>_. 9) (ListsMetaValue_new 5 (EncodeFixed64 2))))))) =
   Some (pl_ModifyLeftIndex 3
     (the (ParsedListsMetaValue_parse True (ListsMetaValue_Encode (\<lambda>_. 9) (ListsMetaValue_new 5 (EncodeFixed64 2))))))"
proof -
  let ?b = "ListsMetaValue_Encode (\<lambda>_. 9) (ListsMetaValue_new 5 (EncodeFixed64 2))"
  have l: "length ?b = 81" by (simp add: ListsMetaValue_new_def)
  then have "pl_wf (the (ParsedListsMetaValue_parse True ?b))"
    by (simp add: pl_parse_81 pl_wf_def)
  then show ?thesis
    using lists_meta_setters_coherent [of _ 0 0 3 0] by (simp add: stamp_ok_def)
qed

text \<open>Every setter of a hash, set or zset meta value keeps the parsed fields and the bytes in
  agreement.\<close>

theorem base_meta_setters_coherent:
  assumes "pm_wf p" and "stamp_ok t"
  shows "\<forall>q \<in> {pm_ModifyCount c p, pm_SetCount c p, pm_SetVersion v p, pm_UpdateVersion now p,
      pm_InitialMetaValue now p, pv_SetEtime t p, pv_SetCtime t p}.
    ParsedBaseMetaValue_parse True (pv_data q) = Some q"
  using assms by (auto intro!: pm_wf_D pm_intros)

theorem base_meta_setters_coherent_witness:
  "ParsedBaseMetaValue_parse True (pv_data (pm_ModifyCount 3
     (the (ParsedBaseMetaValue_parse True (BaseMetaValue_Encode (\<lambda>_. 9) (InternalValue_new 5 kHashes (EncodeFixed32 3))))))) =
   Some (pm_ModifyCount 3
     (the (ParsedBaseMetaValue_parse True (BaseMetaValue_Encode (\<lambda>_. 9) (InternalValue_new 5 kHashes (EncodeFixed32 3))))))"
proof -
  let ?b = "BaseMetaValue_Encode (\<lambda>_. 9) (InternalValue_new 5 kHashes (EncodeFixed32 3))"
  have l: "length ?b = 45" by (simp add: BaseMetaValue_Encode_layout InternalValue_new_def)
  then have "pm_wf (the (ParsedBaseMetaValue_parse True ?b))"
    by (simp add: pm_parse_45 pm_wf_def)
  then show ?thesis
    using base_meta_setters_coherent [of _ 0 3 0] by (simp add: stamp_ok_def)
qed

text \<open>The version of a collection strictly increases each time it is renewed, so the data records
  of an earlier life of the key are never read again: the setters on stored meta values and the
  constructors agree on it. The only exception is the version at the top of its range, which
  wraps around.\<close>

theorem UpdateVersion_increases:
  "(pv_version p \<noteq> - 1 \<longrightarrow> pv_version p < pv_version (pl_InitialMetaValue now p)) \<and>
   (pv_version m \<noteq> - 1 \<longrightarrow> pv_version m < pv_version (pm_InitialMetaValue now m)) \<and>
   (iv_version v \<noteq> - 1 \<longrightarrow> iv_version v < iv_version (BaseMetaValue_UpdateVersion now v)) \<and>
   (iv_version l \<noteq> - 1 \<longrightarrow> iv_version l < iv_version (ListsMetaValue_UpdateVersion now l))"
proof -
  have "iv_version (BaseMetaValue_UpdateVersion now v) =
      (if iv_version v \<ge> now then iv_version v + 1 else now)"
    by (simp add: BaseMetaValue_UpdateVersion_def)
  moreover have "iv_version (ListsMetaValue_UpdateVersion now l) =
      (if iv_version l \<ge> now then iv_version l + 1 else now)"
    by (simp add: ListsMetaValue_UpdateVersion_def)
  ultimately show ?thesis
    by (intro conjI impI) (simp_all only: pl_initial_effects pm_initial_effects next_version_increases not_False_eq_True)
qed

theorem UpdateVersion_increases_witness:
  "iv_version (InternalValue_new 5 kHashes []) < iv_version (BaseMetaValue_UpdateVersion 7 (InternalValue_new 5 kHashes [])) \<and>
   iv_version (BaseMetaValue_UpdateVersion 7 (InternalValue_new 5 kHashes [])) = 7"
  using UpdateVersion_increases [of _ 7 _ "InternalValue_new 5 kHashes []"]
  by (simp add: BaseMetaValue_UpdateVersion_def InternalValue_new_def)

text \<open>A HyperLogLog value writes its creation and expiry times without the millisecond flag, and
  every reader takes an unflagged stamp for seconds: a nonzero millisecond time comes back a
  thousand times too large.\<close>

theorem HyperloglogValue_stamp_scaled:
  assumes "stamp_ok (iv_ctime v)" and "stamp_ok (iv_etime v)"
  shows "\<exists>p. ParsedStringsValue_parse True (HyperloglogValue_Encode junk v) = Some p \<and>
    pv_UserValue p = iv_user_value v \<and> pv_ctime p = iv_ctime v * 1000 \<and> pv_etime p = iv_etime v * 1000"
  using assms
  by (simp add: ParsedStringsValue_parse_def HyperloglogValue_Encode_layout pv_UserValue_def
      Let_def drop_numeral_add_Cons ParseStamp_plain)

theorem HyperloglogValue_stamp_scaled_witness:
  "\<exists>p. ParsedStringsValue_parse True (HyperloglogValue_Encode (\<lambda>_. 9) (InternalValue_new 5 kStrings [1, 2])) = Some p \<and>
    pv_UserValue p = [1, 2] \<and> pv_ctime p = 5000 \<and> pv_etime p = 0"
  using HyperloglogValue_stamp_scaled [of "InternalValue_new 5 kStrings [1, 2]" "\<lambda>_. 9"]
  by (simp add: InternalValue_new_def stamp_ok_def)

end
