(* ===== verification/RedisBase.thy ===== *)
theory RedisBase
  imports LruCache ValueFormat
begin

text \<open>
  What all commands of one storage instance share: the state of \<open>Redis\<close> (\<open>src/src/storage/src/redis.h\<close>,
  \<open>redis.cc\<close>) as far as commands change it, the statistics that trigger small compactions, and the
  reading of a key's meta value with its type and expiry checks. The calls to RocksDB go through
  \<open>'s rocksdb\<close>. An operation is \<open>None\<close> where the source reads outside a value or does not return.
\<close>

section \<open>State\<close>

text \<open>
  What a command uses besides its arguments: RocksDB, \<open>rocksdb::Slice::compare\<close>, the contents of
  uninitialised memory and the clock, read once per command.
\<close>

record 's env =
  env_db :: "'s rocksdb"
  env_compare :: "bytes \<Rightarrow> bytes \<Rightarrow> int"
  env_junk :: "nat \<Rightarrow> byte"
  env_now :: u64

record KeyStatistics =
  ks_window_size :: nat
  ks_durations :: "u64 list"
  ks_modify_count :: u64

record 's redis =
  rds_db :: 's
  rds_statistics_store :: "(bytes, KeyStatistics) LRUCache"
  rds_small_compaction_threshold :: u64
  rds_small_compaction_duration_threshold :: u64
  rds_bg_tasks :: "(DataType \<times> bytes) list"
  rds_scan_cursors_store :: "(bytes, bytes) LRUCache"
  rds_spop_counts_store :: "(bytes, u64) LRUCache"

section \<open>Statistics and small compactions\<close>

definition KeyStatistics_new :: KeyStatistics where
  "KeyStatistics_new = \<lparr>ks_window_size = 10 + 2, ks_durations = [], ks_modify_count = 0\<rparr>"

definition AddDuration :: "u64 \<Rightarrow> KeyStatistics \<Rightarrow> KeyStatistics" where
  "AddDuration duration d =
     (let durations = ks_durations d @ [duration]
      in d\<lparr>ks_durations := drop (length durations - ks_window_size d) durations\<rparr>)"

definition AvgDuration :: "KeyStatistics \<Rightarrow> u64" where
  "AvgDuration d =
     (case ks_durations d of
        [] \<Rightarrow> 0
      | first # _ \<Rightarrow>
          if length (ks_durations d) < ks_window_size d then 0
          else
            let (mn, mx, acc) = fold (\<lambda>duration (mn, mx, acc).
                  (if duration < mn then duration else mn, if duration > mx then duration else mx, acc + duration))
                  (ks_durations d) (first, first, 0)
            in (acc - mx - mn) div of_nat (length (ks_durations d) - 2))"

definition AddModifyCount :: "u64 \<Rightarrow> KeyStatistics \<Rightarrow> KeyStatistics" where
  "AddModifyCount count d = d\<lparr>ks_modify_count := ks_modify_count d + count\<rparr>"

fun DataTypeTag :: "DataType \<Rightarrow> byte option" where
  "DataTypeTag kStrings = Some 0x6B"
| "DataTypeTag kHashes = Some 0x68"
| "DataTypeTag kSets = Some 0x73"
| "DataTypeTag kLists = Some 0x6C"
| "DataTypeTag kZSets = Some 0x7A"
| "DataTypeTag kStreams = Some 0x78"
| "DataTypeTag kNones = Some 0x6E"
| "DataTypeTag kAll = Some 0x61"
| "DataTypeTag (kOtherType _) = None"

fun DataTypeStrings :: "DataType \<Rightarrow> string option" where
  "DataTypeStrings kStrings = Some ''string''"
| "DataTypeStrings kHashes = Some ''hash''"
| "DataTypeStrings kSets = Some ''set''"
| "DataTypeStrings kLists = Some ''list''"
| "DataTypeStrings kZSets = Some ''zset''"
| "DataTypeStrings kStreams = Some ''streams''"
| "DataTypeStrings kNones = Some ''none''"
| "DataTypeStrings kAll = Some ''all''"
| "DataTypeStrings (kOtherType _) = None"

definition AddCompactKeyTaskIfNeeded :: "DataType \<Rightarrow> bytes \<Rightarrow> u64 \<Rightarrow> u64 \<Rightarrow> 's redis \<Rightarrow> 's redis option" where
  "AddCompactKeyTaskIfNeeded dtype key tot duration r =
     (if tot < rds_small_compaction_threshold r \<or> duration < rds_small_compaction_duration_threshold r
      then Some r
      else do {
        tag \<leftarrow> DataTypeTag dtype;
        let r = r\<lparr>rds_bg_tasks := rds_bg_tasks r @ [(dtype, key)]\<rparr>;
        (st, store) \<leftarrow> Remove (tag # key) (rds_statistics_store r);
        Some (r\<lparr>rds_statistics_store := store\<rparr>) })"

definition UpdateSpecificKeyStatistics :: "DataType \<Rightarrow> bytes \<Rightarrow> u64 \<Rightarrow> 's redis \<Rightarrow> 's redis option" where
  "UpdateSpecificKeyStatistics dtype key count r =
     (if lc_capacity (rds_statistics_store r) \<noteq> 0 \<and> count \<noteq> 0 \<and> rds_small_compaction_threshold r \<noteq> 0
      then do {
        tag \<leftarrow> DataTypeTag dtype;
        (found, store) \<leftarrow> Lookup (tag # key) (rds_statistics_store r);
        let d = AddModifyCount count (case found of Some d \<Rightarrow> d | None \<Rightarrow> KeyStatistics_new);
        (st, store) \<leftarrow> Insert (tag # key) d 1 store;
        AddCompactKeyTaskIfNeeded dtype key (ks_modify_count d) (AvgDuration d) (r\<lparr>rds_statistics_store := store\<rparr>) }
      else Some r)"

definition UpdateSpecificKeyDuration :: "DataType \<Rightarrow> bytes \<Rightarrow> u64 \<Rightarrow> 's redis \<Rightarrow> 's redis option" where
  "UpdateSpecificKeyDuration dtype key duration r =
     (if lc_capacity (rds_statistics_store r) \<noteq> 0 \<and> duration \<noteq> 0 \<and> rds_small_compaction_duration_threshold r \<noteq> 0
      then do {
        tag \<leftarrow> DataTypeTag dtype;
        (found, store) \<leftarrow> Lookup (tag # key) (rds_statistics_store r);
        let d = AddDuration duration (case found of Some d \<Rightarrow> d | None \<Rightarrow> KeyStatistics_new);
        (st, store) \<leftarrow> Insert (tag # key) d 1 store;
        AddCompactKeyTaskIfNeeded dtype key (ks_modify_count d) (AvgDuration d) (r\<lparr>rds_statistics_store := store\<rparr>) }
      else Some r)"

section \<open>Meta values\<close>

text \<open>The type byte; \<open>std::string\<close> has a zero byte behind its contents.\<close>

definition GetMetaValueType :: "bytes \<Rightarrow> DataType" where
  "GetMetaValueType meta_value = DataType_of_byte (case meta_value of [] \<Rightarrow> 0 | b # _ \<Rightarrow> b)"

definition ExpectedMetaValue :: "DataType \<Rightarrow> bytes \<Rightarrow> bool" where
  "ExpectedMetaValue type meta_value \<longleftrightarrow> type = GetMetaValueType meta_value"

text \<open>For a stream the source asks a freshly constructed \<open>StreamMetaValue\<close> for its length, which is
  zero.\<close>

definition ExpectedStale :: "u64 \<Rightarrow> bytes \<Rightarrow> bool option" where
  "ExpectedStale now meta_value =
     (case GetMetaValueType meta_value of
        kZSets \<Rightarrow> map_option (\<lambda>p. pv_IsStale now p \<or> pm_count p = 0) (ParsedBaseMetaValue_parse False meta_value)
      | kSets \<Rightarrow> map_option (\<lambda>p. pv_IsStale now p \<or> pm_count p = 0) (ParsedBaseMetaValue_parse False meta_value)
      | kHashes \<Rightarrow> map_option (\<lambda>p. pv_IsStale now p \<or> pm_count p = 0) (ParsedBaseMetaValue_parse False meta_value)
      | kLists \<Rightarrow> map_option (\<lambda>p. pv_IsStale now p \<or> pl_count p = 0) (ParsedListsMetaValue_parse False meta_value)
      | kStrings \<Rightarrow> map_option (pv_IsStale now) (ParsedStringsValue_parse False meta_value)
      | kStreams \<Rightarrow> Some True
      | _ \<Rightarrow> Some False)"

definition string_of_bytes :: "bytes \<Rightarrow> string" where
  "string_of_bytes bs = map (\<lambda>b. char_of (unat b)) bs"

definition wrong_type :: "DataType \<Rightarrow> bytes \<Rightarrow> bytes \<Rightarrow> Status option" where
  "wrong_type expected key meta_value = do {
     want \<leftarrow> DataTypeStrings expected;
     got \<leftarrow> DataTypeStrings (GetMetaValueType meta_value);
     Some (InvalidArgument (''WRONGTYPE, key: '' @ string_of_bytes key @ '', expect type: '' @ want @
       '', get type: '' @ got)) }"

text \<open>
  The first lines of every command: read the meta value of \<open>key\<close>; a value of another type counts as
  absent when it is stale and otherwise makes the command return an error naming \<open>msg_key\<close>.
  \<open>Inl\<close> is that early return, \<open>Inr\<close> the status and meta value the command goes on with.
\<close>

definition get_meta :: "'s env \<Rightarrow> DataType \<Rightarrow> bytes \<Rightarrow> bytes \<Rightarrow> 's \<Rightarrow> (Status + Status \<times> bytes) option" where
  "get_meta env expected key msg_key db =
     (let (s, meta_value) = db_Get (env_db env) db kMetaCF (BaseKey_Encode (env_junk env) key)
      in if s = OK \<and> \<not> ExpectedMetaValue expected meta_value then do {
           stale \<leftarrow> ExpectedStale (env_now env) meta_value;
           if stale then Some (Inr (NotFound [], meta_value))
           else map_option Inl (wrong_type expected msg_key meta_value) }
         else Some (Inr (s, meta_value)))"

text \<open>\<open>db_->Write\<close> and \<open>db_->Put\<close>.\<close>

definition redis_Write :: "'s env \<Rightarrow> WriteOp list \<Rightarrow> 's redis \<Rightarrow> Status \<times> 's redis" where
  "redis_Write env ops r =
     (let (st, db) = db_Write (env_db env) (rds_db r) ops in (st, r\<lparr>rds_db := db\<rparr>))"

section \<open>Statistics never fail and leave the database alone\<close>

definition stats_ok :: "'s redis \<Rightarrow> bool" where
  "stats_ok r \<longleftrightarrow> (\<exists>es. lru_rel (rds_statistics_store r) es)"

lemma AddCompactKeyTaskIfNeeded_ok:
  assumes "stats_ok r" and "DataTypeTag dtype \<noteq> None"
  shows "\<exists>r'. AddCompactKeyTaskIfNeeded dtype key tot duration r = Some r' \<and> stats_ok r' \<and> rds_db r' = rds_db r"
proof -
  obtain es tag where es: "lru_rel (rds_statistics_store r) es" and tag: "DataTypeTag dtype = Some tag"
    using assms by (auto simp: stats_ok_def)
  from Remove_ok [OF es, of "tag # key"] show ?thesis
    using assms(1) tag by (auto simp: AddCompactKeyTaskIfNeeded_def stats_ok_def)
qed

lemma spec_remove_touch: "spec_remove k (spec_touch k es) = spec_remove k es"
  by (auto simp: spec_touch_def spec_remove_def filter_empty_conv)

lemma UpdateSpecificKeyStatistics_store:
  fixes key :: bytes
  assumes "lru_rel (rds_statistics_store r) es" and "DataTypeTag dtype = Some tag"
    and "lc_capacity (rds_statistics_store r) \<noteq> 0" and "count \<noteq> 0" and "rds_small_compaction_threshold r \<noteq> 0"
  defines "k \<equiv> tag # key"
  defines "d \<equiv> AddModifyCount count (case spec_lookup k es of Some d \<Rightarrow> d | None \<Rightarrow> KeyStatistics_new)"
  defines "es' \<equiv> spec_trim (lc_capacity (rds_statistics_store r)) (spec_remove k es @ [(k, d, 1)])"
  shows "\<exists>store. lru_rel store es' \<and> UpdateSpecificKeyStatistics dtype key count r =
    AddCompactKeyTaskIfNeeded dtype key (ks_modify_count d) (AvgDuration d) (r\<lparr>rds_statistics_store := store\<rparr>)"
proof -
  obtain c1 where c1: "Lookup k (rds_statistics_store r) = Some (spec_lookup k es, c1)"
      "lru_rel c1 (spec_touch k es)" "lc_capacity c1 = lc_capacity (rds_statistics_store r)"
    using Lookup_ok [OF assms(1)] by auto
  obtain c2 where c2: "Insert k d 1 c1 = Some (OK, c2)" "lru_rel c2 es'"
    using Insert_ok [OF c1(2), of k d 1] c1(3) assms(3) by (auto simp: es'_def spec_remove_touch)
  show ?thesis
    using assms(2-5) c1 c2 by (auto simp: UpdateSpecificKeyStatistics_def Let_def d_def k_def)
qed

lemma UpdateSpecificKeyStatistics_ok:
  assumes "stats_ok r" and "DataTypeTag dtype \<noteq> None"
  shows "\<exists>r'. UpdateSpecificKeyStatistics dtype key count r = Some r' \<and> stats_ok r' \<and> rds_db r' = rds_db r"
proof (cases "lc_capacity (rds_statistics_store r) \<noteq> 0 \<and> count \<noteq> 0 \<and> rds_small_compaction_threshold r \<noteq> 0")
  case True
  obtain es tag where es: "lru_rel (rds_statistics_store r) es" and tag: "DataTypeTag dtype = Some tag"
    using assms by (auto simp: stats_ok_def)
  obtain store es' tot dur where u: "lru_rel store es'" "UpdateSpecificKeyStatistics dtype key count r =
      AddCompactKeyTaskIfNeeded dtype key tot dur (r\<lparr>rds_statistics_store := store\<rparr>)"
    using UpdateSpecificKeyStatistics_store [OF es tag] True by blast
  then have "stats_ok (r\<lparr>rds_statistics_store := store\<rparr>)" by (auto simp: stats_ok_def)
  from AddCompactKeyTaskIfNeeded_ok [OF this assms(2)] show ?thesis using u(2) by auto
next
  case False
  then show ?thesis using assms by (auto simp: UpdateSpecificKeyStatistics_def)
qed

section \<open>Properties\<close>

text \<open>Small compactions are triggered by accumulated modifications. With statistics enabled, a
  command's modification count is added to the counter of its key, which becomes the newest entry
  of the store; once the counter reaches the threshold and the mean duration its own threshold,
  exactly one compaction of the key is queued and the counter is forgotten.\<close>

theorem small_compaction_trigger:
  assumes "lru_rel (rds_statistics_store r) es" and "DataTypeTag dtype = Some tag"
    and "lc_capacity (rds_statistics_store r) \<noteq> 0" and "count \<noteq> 0" and "rds_small_compaction_threshold r \<noteq> 0"
  shows "let k = tag # key;
      d = AddModifyCount count (case spec_lookup k es of Some d \<Rightarrow> d | None \<Rightarrow> KeyStatistics_new);
      es' = spec_trim (lc_capacity (rds_statistics_store r)) (spec_remove k es @ [(k, d, 1)])
    in \<exists>r'. UpdateSpecificKeyStatistics dtype key count r = Some r' \<and> rds_db r' = rds_db r \<and>
      (if ks_modify_count d < rds_small_compaction_threshold r \<or> AvgDuration d < rds_small_compaction_duration_threshold r
       then rds_bg_tasks r' = rds_bg_tasks r \<and> lru_rel (rds_statistics_store r') es'
       else rds_bg_tasks r' = rds_bg_tasks r @ [(dtype, key)] \<and> lru_rel (rds_statistics_store r') (spec_remove k es'))"
proof -
  let ?k = "tag # key"
  let ?d = "AddModifyCount count (case spec_lookup ?k es of Some d \<Rightarrow> d | None \<Rightarrow> KeyStatistics_new)"
  obtain store where u: "lru_rel store (spec_trim (lc_capacity (rds_statistics_store r)) (spec_remove ?k es @ [(?k, ?d, 1)]))"
      "UpdateSpecificKeyStatistics dtype key count r =
      AddCompactKeyTaskIfNeeded dtype key (ks_modify_count ?d) (AvgDuration ?d) (r\<lparr>rds_statistics_store := store\<rparr>)"
    using UpdateSpecificKeyStatistics_store [OF assms] by blast
  then show ?thesis
    using Remove_ok [OF u(1), of ?k] assms(2) by (auto simp: AddCompactKeyTaskIfNeeded_def Let_def)
qed

definition example_redis :: "WriteOp list redis" where
  "example_redis = \<lparr>rds_db = [], rds_statistics_store = LRUCache_new\<lparr>lc_capacity := 4\<rparr>,
     rds_small_compaction_threshold = 5, rds_small_compaction_duration_threshold = 0, rds_bg_tasks = [],
     rds_scan_cursors_store = LRUCache_new\<lparr>lc_capacity := 4\<rparr>, rds_spop_counts_store = LRUCache_new\<lparr>lc_capacity := 4\<rparr>\<rparr>"

theorem small_compaction_trigger_witness:
  "\<exists>r'. UpdateSpecificKeyStatistics kLists [1] 7 example_redis = Some r' \<and> rds_bg_tasks r' = [(kLists, [1])]"
proof -
  have "lru_rel (rds_statistics_store example_redis) []"
    by (simp add: example_redis_def lru_rel_capacity LRUCache_new_ok)
  from small_compaction_trigger [OF this, where dtype = kLists and tag = "0x6C" and count = 7 and key = "[1]"] show ?thesis
    by (auto simp: example_redis_def spec_lookup_def KeyStatistics_new_def AddModifyCount_def)
qed

end
