(* ===== verification/Lists.thy ===== *)
theory Lists
  imports RedisBase
begin

text \<open>
  The list commands of \<open>src/src/storage/src/redis_lists.cc\<close>, one definition per command and one per
  loop. A list is a meta value in \<open>kMetaCF\<close> holding a count, a version and the indexes left and
  right of its elements, and one record per element in \<open>kListsDataCF\<close> under the key, version and
  index. A command returns its status, its output parameters and the new state; \<open>None\<close> stands for
  reading outside a stored value.
\<close>

section \<open>Keys and values of a list\<close>

definition base_meta_key :: "'s env \<Rightarrow> bytes \<Rightarrow> bytes" where
  "base_meta_key env key = BaseKey_Encode (env_junk env) key"

definition lists_data_key :: "'s env \<Rightarrow> bytes \<Rightarrow> u64 \<Rightarrow> u64 \<Rightarrow> bytes" where
  "lists_data_key env key version index = ListsDataKey_Encode (env_junk env) key version index"

text \<open>\<open>BaseDataValue i_val(value); i_val.Encode()\<close>.\<close>

definition i_val :: "'s env \<Rightarrow> bytes \<Rightarrow> bytes" where
  "i_val env v = BaseDataValue_Encode (env_junk env) (InternalValue_new (env_now env) kNones v)"

section \<open>Reading commands\<close>

record KeyInfo =
  ki_keys :: u64
  ki_expires :: u64
  ki_avg_ttl :: u64
  ki_invaild_keys :: u64

fun ScanListsKeyNum_loop :: "u64 \<Rightarrow> (bytes \<times> bytes) list \<Rightarrow> u64 \<times> u64 \<times> u64 \<times> u64 \<Rightarrow> (u64 \<times> u64 \<times> u64 \<times> u64) option" where
  "ScanListsKeyNum_loop curtime [] acc = Some acc"
| "ScanListsKeyNum_loop curtime ((k, v) # es) (keys, expires, ttl_sum, invaild_keys) =
     (if \<not> ExpectedMetaValue kLists v then ScanListsKeyNum_loop curtime es (keys, expires, ttl_sum, invaild_keys)
      else do {
        p \<leftarrow> ParsedListsMetaValue_parse False v;
        if pv_IsStale curtime p \<or> pl_count p = 0
        then ScanListsKeyNum_loop curtime es (keys, expires, ttl_sum, invaild_keys + 1)
        else if \<not> pv_IsPermanentSurvival p
        then ScanListsKeyNum_loop curtime es (keys + 1, expires + 1, ttl_sum + (pv_etime p - curtime), invaild_keys)
        else ScanListsKeyNum_loop curtime es (keys + 1, expires, ttl_sum, invaild_keys) })"

definition ScanListsKeyNum :: "'s env \<Rightarrow> 's redis \<Rightarrow> (Status \<times> KeyInfo) option" where
  "ScanListsKeyNum env r = do {
     (keys, expires, ttl_sum, invaild_keys) \<leftarrow>
       ScanListsKeyNum_loop (env_now env) (it_SeekToFirst (env_db env) (rds_db r) kMetaCF) (0, 0, 0, 0);
     Some (OK, \<lparr>ki_keys = keys, ki_expires = expires,
       ki_avg_ttl = (if expires \<noteq> 0 then ttl_sum div expires else 0), ki_invaild_keys = invaild_keys\<rparr>) }"

definition LIndex :: "'s env \<Rightarrow> bytes \<Rightarrow> i64 \<Rightarrow> 's redis \<Rightarrow> (Status \<times> bytes) option" where
  "LIndex env key index r = do {
     m \<leftarrow> get_meta env kLists key key (rds_db r);
     case m of Inl st \<Rightarrow> Some (st, [])
     | Inr (s, meta_value) \<Rightarrow>
         if s = OK then do {
           p \<leftarrow> ParsedListsMetaValue_parse True meta_value;
           let version = pv_version p;
           if pv_IsStale (env_now env) p then Some (NotFound ''Stale'', [])
           else if pl_count p = 0 then Some (NotFound [], [])
           else do {
             let target_index = (if sint index \<ge> 0 then pl_left_index p + index + 1 else pl_right_index p + index);
             if pl_left_index p < target_index \<and> target_index < pl_right_index p then do {
               let (s, element) = db_Get (env_db env) (rds_db r) kListsDataCF (lists_data_key env key version target_index);
               if s = OK then do { e \<leftarrow> ParsedBaseDataValue_StripSuffix element; Some (s, e) }
               else Some (s, element) }
             else Some (NotFound [], []) } }
         else Some (s, []) }"

definition LLen :: "'s env \<Rightarrow> bytes \<Rightarrow> bytes \<Rightarrow> 's redis \<Rightarrow> (Status \<times> u64) option" where
  "LLen env key prefetch_meta r = do {
     m \<leftarrow> (if prefetch_meta = [] then get_meta env kLists key key (rds_db r) else Some (Inr (OK, prefetch_meta)));
     case m of Inl st \<Rightarrow> Some (st, 0)
     | Inr (s, meta_value) \<Rightarrow>
         if s = OK then do {
           p \<leftarrow> ParsedListsMetaValue_parse True meta_value;
           if pv_IsStale (env_now env) p then Some (NotFound ''Stale'', 0)
           else if pl_count p = 0 then Some (NotFound [], 0)
           else Some (s, pl_count p) }
         else Some (s, 0) }"

fun LRange_loop :: "(bytes \<times> bytes) list \<Rightarrow> u64 \<Rightarrow> u64 \<Rightarrow> bytes list" where
  "LRange_loop [] current_index sublist_right_index = []"
| "LRange_loop ((k, v) # es) current_index sublist_right_index =
     (if current_index \<le> sublist_right_index
      then ParsedBaseDataValue_UserValue v # LRange_loop es (current_index + 1) sublist_right_index
      else [])"

text \<open>The window of \<open>LRange\<close>, \<open>LRangeWithTTL\<close> and \<open>LTrim\<close>: the sublist's first and last index, \<open>None\<close>
  when it is empty.\<close>

definition sublist_window :: "ParsedListsMetaValue \<Rightarrow> i64 \<Rightarrow> i64 \<Rightarrow> (u64 \<times> u64) option" where
  "sublist_window p start stop =
     (let origin_left_index = pl_left_index p + 1;
          origin_right_index = pl_right_index p - 1;
          sublist_left_index = (if sint start \<ge> 0 then origin_left_index + start else origin_right_index + start + 1);
          sublist_right_index = (if sint stop \<ge> 0 then origin_left_index + stop else origin_right_index + stop + 1)
      in if sublist_left_index > sublist_right_index \<or> sublist_left_index > origin_right_index \<or>
            sublist_right_index < origin_left_index
         then None
         else Some (if sublist_left_index < origin_left_index then origin_left_index else sublist_left_index,
                    if sublist_right_index > origin_right_index then origin_right_index else sublist_right_index))"

definition LRange :: "'s env \<Rightarrow> bytes \<Rightarrow> i64 \<Rightarrow> i64 \<Rightarrow> 's redis \<Rightarrow> (Status \<times> bytes list) option" where
  "LRange env key start stop r = do {
     m \<leftarrow> get_meta env kLists key key (rds_db r);
     case m of Inl st \<Rightarrow> Some (st, [])
     | Inr (s, meta_value) \<Rightarrow>
         if s = OK then do {
           p \<leftarrow> ParsedListsMetaValue_parse True meta_value;
           if pv_IsStale (env_now env) p then Some (NotFound ''Stale'', [])
           else if pl_count p = 0 then Some (NotFound [], [])
           else case sublist_window p start stop of
             None \<Rightarrow> Some (OK, [])
           | Some (sublist_left_index, sublist_right_index) \<Rightarrow>
               let entries = it_Seek (env_db env) (rds_db r) kListsDataCF (lists_data_key env key (pv_version p) sublist_left_index)
               in Some (OK, LRange_loop entries sublist_left_index sublist_right_index) }
         else Some (s, []) }"

text \<open>The remaining time to live. \<open>curtime\<close> is unsigned, so the comparison with zero is unsigned too and
  always true.\<close>

definition ttl_of_etime :: "u64 \<Rightarrow> u64 \<Rightarrow> i64" where
  "ttl_of_etime etime curtime =
     (if etime = 0 then - 1 else if etime - curtime \<ge> 0 then etime - curtime else - 2)"

definition LRangeWithTTL :: "'s env \<Rightarrow> bytes \<Rightarrow> i64 \<Rightarrow> i64 \<Rightarrow> 's redis \<Rightarrow> (Status \<times> bytes list \<times> i64 option) option" where
  "LRangeWithTTL env key start stop r = do {
     m \<leftarrow> get_meta env kLists key key (rds_db r);
     case m of Inl st \<Rightarrow> Some (st, [], None)
     | Inr (s, meta_value) \<Rightarrow>
         if s = OK then do {
           p \<leftarrow> ParsedListsMetaValue_parse True meta_value;
           if pl_count p = 0 then Some (NotFound [], [], None)
           else if pv_IsStale (env_now env) p then Some (NotFound ''Stale'', [], None)
           else do {
             let ttl_millsec = ttl_of_etime (pv_etime p) (env_now env);
             case sublist_window p start stop of
               None \<Rightarrow> Some (OK, [], Some ttl_millsec)
             | Some (sublist_left_index, sublist_right_index) \<Rightarrow>
                 let entries = it_Seek (env_db env) (rds_db r) kListsDataCF (lists_data_key env key (pv_version p) sublist_left_index)
                 in Some (OK, LRange_loop entries sublist_left_index sublist_right_index, Some ttl_millsec) } }
         else Some (s, [], None) }"

definition ListsTTL :: "'s env \<Rightarrow> bytes \<Rightarrow> bytes \<Rightarrow> 's redis \<Rightarrow> (Status \<times> i64 option) option" where
  "ListsTTL env key prefetch_meta r = do {
     m \<leftarrow> (if prefetch_meta = [] then get_meta env kLists key key (rds_db r) else Some (Inr (OK, prefetch_meta)));
     case m of Inl st \<Rightarrow> Some (st, None)
     | Inr (s, meta_value) \<Rightarrow>
         if s = OK then do {
           p \<leftarrow> ParsedListsMetaValue_parse True meta_value;
           if pv_IsStale (env_now env) p then Some (NotFound ''Stale'', Some (- 2))
           else if pl_count p = 0 then Some (NotFound [], Some (- 2))
           else Some (s, Some (ttl_of_etime (pv_etime p) (env_now env))) }
         else Some (s, if is_NotFound s then Some (- 2) else None) }"

section \<open>Pushing\<close>

text \<open>The loops over the pushed values, on a parsed and on a new meta value.\<close>

fun LPush_loop :: "'s env \<Rightarrow> bytes \<Rightarrow> u64 \<Rightarrow> bytes list \<Rightarrow> ParsedListsMetaValue \<Rightarrow> ParsedListsMetaValue \<times> WriteOp list" where
  "LPush_loop env key version [] p = (p, [])"
| "LPush_loop env key version (v # values) p =
     (let index = pl_left_index p;
          p = pl_ModifyCount 1 (pl_ModifyLeftIndex 1 p);
          (p', batch) = LPush_loop env key version values p
      in (p', Put kListsDataCF (lists_data_key env key version index) (i_val env v) # batch))"

fun LPush_new_loop :: "'s env \<Rightarrow> bytes \<Rightarrow> u64 \<Rightarrow> bytes list \<Rightarrow> ListsMetaValue \<Rightarrow> ListsMetaValue \<times> WriteOp list" where
  "LPush_new_loop env key version [] l = (l, [])"
| "LPush_new_loop env key version (v # values) l =
     (let index = lmv_left_index l;
          (l', batch) = LPush_new_loop env key version values (ListsMetaValue_ModifyLeftIndex 1 l)
      in (l', Put kListsDataCF (lists_data_key env key version index) (i_val env v) # batch))"

definition LPush :: "'s env \<Rightarrow> bytes \<Rightarrow> bytes list \<Rightarrow> 's redis \<Rightarrow> ((Status \<times> u64) \<times> 's redis) option" where
  "LPush env key values r = do {
     m \<leftarrow> get_meta env kLists key key (rds_db r);
     case m of Inl st \<Rightarrow> Some ((st, 0), r)
     | Inr (s, meta_value) \<Rightarrow>
         if s = OK then do {
           p \<leftarrow> ParsedListsMetaValue_parse True meta_value;
           let p = (if pv_IsStale (env_now env) p \<or> pl_count p = 0 then pl_InitialMetaValue (env_now env) p else p);
           let version = pv_version p;
           let (p, batch) = LPush_loop env key version values p;
           let (st, r) = redis_Write env (batch @ [Put kMetaCF (base_meta_key env key) (pv_data p)]) r;
           Some ((st, pl_count p), r) }
         else if is_NotFound s then do {
           let l = ListsMetaValue_UpdateVersion (env_now env)
             (ListsMetaValue_new (env_now env) (EncodeFixed64 (of_nat (length values))));
           let version = iv_version l;
           let (l, batch) = LPush_new_loop env key version values l;
           let (st, r) = redis_Write env (batch @ [Put kMetaCF (base_meta_key env key) (ListsMetaValue_Encode (env_junk env) l)]) r;
           Some ((st, lmv_right_index l - lmv_left_index l - 1), r) }
         else Some ((s, 0), r) }"

text \<open>\<open>LPushx\<close> changes the count first.\<close>

fun LPushx_loop :: "'s env \<Rightarrow> bytes \<Rightarrow> u64 \<Rightarrow> bytes list \<Rightarrow> ParsedListsMetaValue \<Rightarrow> ParsedListsMetaValue \<times> WriteOp list" where
  "LPushx_loop env key version [] p = (p, [])"
| "LPushx_loop env key version (v # values) p =
     (let index = pl_left_index p;
          p = pl_ModifyLeftIndex 1 (pl_ModifyCount 1 p);
          (p', batch) = LPushx_loop env key version values p
      in (p', Put kListsDataCF (lists_data_key env key version index) (i_val env v) # batch))"

definition LPushx :: "'s env \<Rightarrow> bytes \<Rightarrow> bytes list \<Rightarrow> 's redis \<Rightarrow> ((Status \<times> u64) \<times> 's redis) option" where
  "LPushx env key values r = do {
     m \<leftarrow> get_meta env kLists key key (rds_db r);
     case m of Inl st \<Rightarrow> Some ((st, 0), r)
     | Inr (s, meta_value) \<Rightarrow>
         if s = OK then do {
           p \<leftarrow> ParsedListsMetaValue_parse True meta_value;
           if pv_IsStale (env_now env) p then Some ((NotFound ''Stale'', 0), r)
           else if pl_count p = 0 then Some ((NotFound [], 0), r)
           else do {
             let version = pv_version p;
             let (p, batch) = LPushx_loop env key version values p;
             let (st, r) = redis_Write env (batch @ [Put kMetaCF (base_meta_key env key) (pv_data p)]) r;
             Some ((st, pl_count p), r) } }
         else Some ((s, 0), r) }"

fun RPush_loop :: "'s env \<Rightarrow> bytes \<Rightarrow> u64 \<Rightarrow> bytes list \<Rightarrow> ParsedListsMetaValue \<Rightarrow> ParsedListsMetaValue \<times> WriteOp list" where
  "RPush_loop env key version [] p = (p, [])"
| "RPush_loop env key version (v # values) p =
     (let index = pl_right_index p;
          p = pl_ModifyCount 1 (pl_ModifyRightIndex 1 p);
          (p', batch) = RPush_loop env key version values p
      in (p', Put kListsDataCF (lists_data_key env key version index) (i_val env v) # batch))"

fun RPush_new_loop :: "'s env \<Rightarrow> bytes \<Rightarrow> u64 \<Rightarrow> bytes list \<Rightarrow> ListsMetaValue \<Rightarrow> ListsMetaValue \<times> WriteOp list" where
  "RPush_new_loop env key version [] l = (l, [])"
| "RPush_new_loop env key version (v # values) l =
     (let index = lmv_right_index l;
          (l', batch) = RPush_new_loop env key version values (ListsMetaValue_ModifyRightIndex 1 l)
      in (l', Put kListsDataCF (lists_data_key env key version index) (i_val env v) # batch))"

definition RPush :: "'s env \<Rightarrow> bytes \<Rightarrow> bytes list \<Rightarrow> 's redis \<Rightarrow> ((Status \<times> u64) \<times> 's redis) option" where
  "RPush env key values r = do {
     m \<leftarrow> get_meta env kLists key key (rds_db r);
     case m of Inl st \<Rightarrow> Some ((st, 0), r)
     | Inr (s, meta_value) \<Rightarrow>
         if s = OK then do {
           p \<leftarrow> ParsedListsMetaValue_parse True meta_value;
           let p = (if pv_IsStale (env_now env) p \<or> pl_count p = 0 then pl_InitialMetaValue (env_now env) p else p);
           let version = pv_version p;
           let (p, batch) = RPush_loop env key version values p;
           let (st, r) = redis_Write env (batch @ [Put kMetaCF (base_meta_key env key) (pv_data p)]) r;
           Some ((st, pl_count p), r) }
         else if is_NotFound s then do {
           let l = ListsMetaValue_UpdateVersion (env_now env)
             (ListsMetaValue_new (env_now env) (EncodeFixed64 (of_nat (length values))));
           let version = iv_version l;
           let (l, batch) = RPush_new_loop env key version values l;
           let (st, r) = redis_Write env (batch @ [Put kMetaCF (base_meta_key env key) (ListsMetaValue_Encode (env_junk env) l)]) r;
           Some ((st, lmv_right_index l - lmv_left_index l - 1), r) }
         else Some ((s, 0), r) }"

fun RPushx_loop :: "'s env \<Rightarrow> bytes \<Rightarrow> u64 \<Rightarrow> bytes list \<Rightarrow> ParsedListsMetaValue \<Rightarrow> ParsedListsMetaValue \<times> WriteOp list" where
  "RPushx_loop env key version [] p = (p, [])"
| "RPushx_loop env key version (v # values) p =
     (let index = pl_right_index p;
          p = pl_ModifyRightIndex 1 (pl_ModifyCount 1 p);
          (p', batch) = RPushx_loop env key version values p
      in (p', Put kListsDataCF (lists_data_key env key version index) (i_val env v) # batch))"

definition RPushx :: "'s env \<Rightarrow> bytes \<Rightarrow> bytes list \<Rightarrow> 's redis \<Rightarrow> ((Status \<times> u64) \<times> 's redis) option" where
  "RPushx env key values r = do {
     m \<leftarrow> get_meta env kLists key key (rds_db r);
     case m of Inl st \<Rightarrow> Some ((st, 0), r)
     | Inr (s, meta_value) \<Rightarrow>
         if s = OK then do {
           p \<leftarrow> ParsedListsMetaValue_parse True meta_value;
           if pv_IsStale (env_now env) p then Some ((NotFound ''Stale'', 0), r)
           else if pl_count p = 0 then Some ((NotFound [], 0), r)
           else do {
             let version = pv_version p;
             let (p, batch) = RPushx_loop env key version values p;
             let (st, r) = redis_Write env (batch @ [Put kMetaCF (base_meta_key env key) (pv_data p)]) r;
             Some ((st, pl_count p), r) } }
         else Some ((s, 0), r) }"

section \<open>Popping\<close>

text \<open>
  The loops of \<open>LPop\<close> and \<open>RPop\<close> over the visited entries: the popped values, the batch, the meta
  value and the statistic. \<open>cur_index\<close> and \<open>stop_index\<close> are \<open>int32_t\<close>.
\<close>

fun LPop_loop :: "(bytes \<times> bytes) list \<Rightarrow> int \<Rightarrow> int \<Rightarrow> ParsedListsMetaValue \<Rightarrow> bytes list \<times> WriteOp list \<times> ParsedListsMetaValue \<times> u32" where
  "LPop_loop [] cur_index stop_index p = ([], [], p, 0)"
| "LPop_loop ((k, v) # es) cur_index stop_index p =
     (if cur_index \<le> stop_index then
        (let (elements, batch, p', statistic) =
               LPop_loop es (cur_index + 1) stop_index (pl_ModifyLeftIndex (- 1) (pl_ModifyCount (- 1) p))
         in (ParsedBaseDataValue_UserValue v # elements, Delete kListsDataCF k # batch, p', statistic + 1))
      else ([], [], p, 0))"

definition pop_stop_index :: "i64 \<Rightarrow> u64 \<Rightarrow> int" where
  "pop_stop_index count size_w =
     (let size = sint (size_w :: i64)
      in sint (word_of_int (if sint count \<le> size then sint count - 1 else size - 1) :: i32))"

definition LPop :: "'s env \<Rightarrow> bytes \<Rightarrow> i64 \<Rightarrow> 's redis \<Rightarrow> ((Status \<times> bytes list) \<times> 's redis) option" where
  "LPop env key count r = do {
     m \<leftarrow> get_meta env kLists key key (rds_db r);
     case m of Inl st \<Rightarrow> Some ((st, []), r)
     | Inr (s, meta_value) \<Rightarrow>
         if s = OK then do {
           p \<leftarrow> ParsedListsMetaValue_parse True meta_value;
           if pv_IsStale (env_now env) p then Some ((NotFound ''Stale'', []), r)
           else if pl_count p = 0 then Some ((NotFound [], []), r)
           else do {
             let stop_index = pop_stop_index count (pl_count p);
             let entries = it_Seek (env_db env) (rds_db r) kListsDataCF (lists_data_key env key (pv_version p) (pl_left_index p + 1));
             let (elements, batch, p, statistic) = LPop_loop entries 0 stop_index p;
             let (st, r) = redis_Write env (batch @ [Put kMetaCF (base_meta_key env key) (pv_data p)]) r;
             r \<leftarrow> UpdateSpecificKeyStatistics kLists key (ucast statistic) r;
             Some ((st, elements), r) } }
         else Some ((s, []), r) }"

fun RPop_loop :: "(bytes \<times> bytes) list \<Rightarrow> int \<Rightarrow> int \<Rightarrow> ParsedListsMetaValue \<Rightarrow> bytes list \<times> WriteOp list \<times> ParsedListsMetaValue \<times> u32" where
  "RPop_loop [] cur_index stop_index p = ([], [], p, 0)"
| "RPop_loop ((k, v) # es) cur_index stop_index p =
     (if cur_index \<le> stop_index then
        (let (elements, batch, p', statistic) =
               RPop_loop es (cur_index + 1) stop_index (pl_ModifyRightIndex (- 1) (pl_ModifyCount (- 1) p))
         in (ParsedBaseDataValue_UserValue v # elements, Delete kListsDataCF k # batch, p', statistic + 1))
      else ([], [], p, 0))"

definition RPop :: "'s env \<Rightarrow> bytes \<Rightarrow> i64 \<Rightarrow> 's redis \<Rightarrow> ((Status \<times> bytes list) \<times> 's redis) option" where
  "RPop env key count r = do {
     m \<leftarrow> get_meta env kLists key key (rds_db r);
     case m of Inl st \<Rightarrow> Some ((st, []), r)
     | Inr (s, meta_value) \<Rightarrow>
         if s = OK then do {
           p \<leftarrow> ParsedListsMetaValue_parse True meta_value;
           if pv_IsStale (env_now env) p then Some ((NotFound ''Stale'', []), r)
           else if pl_count p = 0 then Some ((NotFound [], []), r)
           else do {
             let stop_index = pop_stop_index count (pl_count p);
             let entries = it_SeekForPrev (env_db env) (rds_db r) kListsDataCF (lists_data_key env key (pv_version p) (pl_right_index p - 1));
             let (elements, batch, p, statistic) = RPop_loop entries 0 stop_index p;
             let (st, r) = redis_Write env (batch @ [Put kMetaCF (base_meta_key env key) (pv_data p)]) r;
             r \<leftarrow> UpdateSpecificKeyStatistics kLists key (ucast statistic) r;
             Some ((st, elements), r) } }
         else Some ((s, []), r) }"

definition RPoplpush_same :: "'s env \<Rightarrow> bytes \<Rightarrow> bytes \<Rightarrow> 's redis \<Rightarrow> ((Status \<times> bytes) \<times> 's redis) option" where
  "RPoplpush_same env source destination r = do {
     m \<leftarrow> get_meta env kLists source destination (rds_db r);
     case m of Inl st \<Rightarrow> Some ((st, []), r)
     | Inr (s, meta_value) \<Rightarrow>
         if s = OK then do {
           p \<leftarrow> ParsedListsMetaValue_parse True meta_value;
           if pv_IsStale (env_now env) p then Some ((NotFound ''Stale'', []), r)
           else if pl_count p = 0 then Some ((NotFound [], []), r)
           else do {
             let version = pv_version p;
             let last_node_index = pl_right_index p - 1;
             let (s, target) = db_Get (env_db env) (rds_db r) kListsDataCF (lists_data_key env source version last_node_index);
             if s = OK then do {
               element \<leftarrow> ParsedBaseDataValue_StripSuffix target;
               if pl_count p = 1 then Some ((OK, element), r)
               else do {
                 let target_index = pl_left_index p;
                 let p = pl_ModifyLeftIndex 1 (pl_ModifyRightIndex (- 1) p);
                 let (st, r) = redis_Write env
                   [Delete kListsDataCF (lists_data_key env source version last_node_index),
                    Put kListsDataCF (lists_data_key env source version target_index) target,
                    Put kMetaCF (base_meta_key env source) (pv_data p)] r;
                 r \<leftarrow> UpdateSpecificKeyStatistics kLists source 1 r;
                 Some ((st, element), r) } }
             else Some ((s, []), r) } }
         else Some ((s, []), r) }"

text \<open>The second half of \<open>RPoplpush\<close>: put \<open>target\<close> in front of the destination and write the batch.\<close>

definition RPoplpush_push :: "'s env \<Rightarrow> bytes \<Rightarrow> bytes \<Rightarrow> bytes \<Rightarrow> WriteOp list \<Rightarrow> 's redis \<Rightarrow> ((Status \<times> bytes) \<times> 's redis) option" where
  "RPoplpush_push env source destination target batch r = do {
     m \<leftarrow> get_meta env kLists destination destination (rds_db r);
     case m of Inl st \<Rightarrow> Some ((st, []), r)
     | Inr (s, meta_value) \<Rightarrow> do {
         push \<leftarrow> (if s = OK then do {
             p \<leftarrow> ParsedListsMetaValue_parse True meta_value;
             let p = (if pv_IsStale (env_now env) p \<or> pl_count p = 0 then pl_InitialMetaValue (env_now env) p else p);
             let version = pv_version p;
             let target_index = pl_left_index p;
             let p = pl_ModifyLeftIndex 1 (pl_ModifyCount 1 p);
             Some (Some [Put kListsDataCF (lists_data_key env destination version target_index) target,
                         Put kMetaCF (base_meta_key env destination) (pv_data p)]) }
           else if is_NotFound s then do {
             let l = ListsMetaValue_UpdateVersion (env_now env) (ListsMetaValue_new (env_now env) (EncodeFixed64 1));
             let version = iv_version l;
             let target_index = lmv_left_index l;
             let l = ListsMetaValue_ModifyLeftIndex 1 l;
             Some (Some [Put kListsDataCF (lists_data_key env destination version target_index) target,
                         Put kMetaCF (base_meta_key env destination) (ListsMetaValue_Encode (env_junk env) l)]) }
           else Some None);
         case push of None \<Rightarrow> Some ((s, []), r)
         | Some ops \<Rightarrow> do {
             let (st, r) = redis_Write env (batch @ ops) r;
             r \<leftarrow> UpdateSpecificKeyStatistics kLists source 1 r;
             if st = OK then do { element \<leftarrow> ParsedBaseDataValue_StripSuffix target; Some ((st, element), r) }
             else Some ((st, []), r) } } }"

definition RPoplpush :: "'s env \<Rightarrow> bytes \<Rightarrow> bytes \<Rightarrow> 's redis \<Rightarrow> ((Status \<times> bytes) \<times> 's redis) option" where
  "RPoplpush env source destination r =
     (if env_compare env source destination = 0 then RPoplpush_same env source destination r
      else do {
        m \<leftarrow> get_meta env kLists source source (rds_db r);
        case m of Inl st \<Rightarrow> Some ((st, []), r)
        | Inr (s, meta_value) \<Rightarrow>
            if s = OK then do {
              p \<leftarrow> ParsedListsMetaValue_parse True meta_value;
              if pv_IsStale (env_now env) p then Some ((NotFound ''Stale'', []), r)
              else if pl_count p = 0 then Some ((NotFound [], []), r)
              else do {
                let version = pv_version p;
                let last_node_index = pl_right_index p - 1;
                let (s, target) = db_Get (env_db env) (rds_db r) kListsDataCF (lists_data_key env source version last_node_index);
                if s = OK then do {
                  let p = pl_ModifyRightIndex (- 1) (pl_ModifyCount (- 1) p);
                  RPoplpush_push env source destination target
                    [Delete kListsDataCF (lists_data_key env source version last_node_index),
                     Put kMetaCF (base_meta_key env source) (pv_data p)] r }
                else Some ((s, []), r) } }
            else Some ((s, []), r) })"

section \<open>Changing elements\<close>

definition LSet :: "'s env \<Rightarrow> bytes \<Rightarrow> i64 \<Rightarrow> bytes \<Rightarrow> 's redis \<Rightarrow> (Status \<times> 's redis) option" where
  "LSet env key index v r = do {
     m \<leftarrow> get_meta env kLists key key (rds_db r);
     case m of Inl st \<Rightarrow> Some (st, r)
     | Inr (s, meta_value) \<Rightarrow>
         if s = OK then do {
           p \<leftarrow> ParsedListsMetaValue_parse True meta_value;
           if pv_IsStale (env_now env) p then Some (NotFound ''Stale'', r)
           else if pl_count p = 0 then Some (NotFound [], r)
           else do {
             let version = pv_version p;
             let target_index = (if sint index \<ge> 0 then pl_left_index p + index + 1 else pl_right_index p + index);
             if target_index \<le> pl_left_index p \<or> target_index \<ge> pl_right_index p
             then Some (Corruption ''index out of range'', r)
             else do {
               let (st, r) = redis_Write env [Put kListsDataCF (lists_data_key env key version target_index) (i_val env v)] r;
               r \<leftarrow> UpdateSpecificKeyStatistics kLists key 1 r;
               Some (st, r) } } }
         else Some (s, r) }"

text \<open>The two deletion loops of \<open>LTrim\<close>, with the number of turns.\<close>

function LTrim_left_loop :: "'s env \<Rightarrow> bytes \<Rightarrow> u64 \<Rightarrow> u64 \<Rightarrow> u64 \<Rightarrow> WriteOp list" where
  "LTrim_left_loop env key version idx sublist_left_index =
     (if idx < sublist_left_index
      then Delete kListsDataCF (lists_data_key env key version idx) #
        LTrim_left_loop env key version (idx + 1) sublist_left_index
      else [])"
  by pat_completeness auto
termination
  by (relation "measure (\<lambda>(env, key, version, idx, sublist_left_index). unat (sublist_left_index - idx))")
    (auto simp: diff_diff_eq [symmetric] intro!: measure_unat)

declare LTrim_left_loop.simps [simp del]

function LTrim_right_loop :: "'s env \<Rightarrow> bytes \<Rightarrow> u64 \<Rightarrow> u64 \<Rightarrow> u64 \<Rightarrow> WriteOp list" where
  "LTrim_right_loop env key version idx sublist_right_index =
     (if idx > sublist_right_index
      then Delete kListsDataCF (lists_data_key env key version idx) #
        LTrim_right_loop env key version (idx - 1) sublist_right_index
      else [])"
  by pat_completeness auto
termination
  by (relation "measure (\<lambda>(env, key, version, idx, sublist_right_index). unat idx)")
    (auto intro!: measure_unat)

declare LTrim_right_loop.simps [simp del]

definition LTrim :: "'s env \<Rightarrow> bytes \<Rightarrow> i64 \<Rightarrow> i64 \<Rightarrow> 's redis \<Rightarrow> (Status \<times> 's redis) option" where
  "LTrim env key start stop r = do {
     m \<leftarrow> get_meta env kLists key key (rds_db r);
     case m of Inl st \<Rightarrow> Some (st, r)
     | Inr (s, meta_value) \<Rightarrow>
         if s = OK then do {
           p \<leftarrow> ParsedListsMetaValue_parse True meta_value;
           let version = pv_version p;
           if pv_IsStale (env_now env) p then Some (NotFound ''Stale'', r)
           else if pl_count p = 0 then Some (NotFound [], r)
           else do {
             let origin_left_index = pl_left_index p + 1;
             let origin_right_index = pl_right_index p - 1;
             let (batch, statistic) = (case sublist_window p start stop of
                 None \<Rightarrow> ([Put kMetaCF (base_meta_key env key) (pv_data (pl_InitialMetaValue (env_now env) p))], 0)
               | Some (sublist_left_index, sublist_right_index) \<Rightarrow>
                   let delete_node_num = (sublist_left_index - origin_left_index) + (origin_right_index - sublist_right_index);
                       p = pl_ModifyLeftIndex (- (sublist_left_index - origin_left_index)) p;
                       p = pl_ModifyRightIndex (- (origin_right_index - sublist_right_index)) p;
                       p = pl_ModifyCount (- delete_node_num) p;
                       left = LTrim_left_loop env key version origin_left_index sublist_left_index;
                       right = LTrim_right_loop env key version origin_right_index sublist_right_index
                   in (Put kMetaCF (base_meta_key env key) (pv_data p) # left @ right,
                       of_nat (length left) + of_nat (length right)));
             let (st, r) = redis_Write env batch r;
             r \<leftarrow> UpdateSpecificKeyStatistics kLists key (ucast (statistic :: u32)) r;
             Some (st, r) } }
         else Some (s, r) }"

datatype BeforeOrAfter = Before | After

fun LInsert_find_loop :: "bytes \<Rightarrow> (bytes \<times> bytes) list \<Rightarrow> u64 \<Rightarrow> u64 \<Rightarrow> u64 option" where
  "LInsert_find_loop pivot [] current_index right_index = None"
| "LInsert_find_loop pivot ((k, v) # es) current_index right_index =
     (if current_index < right_index then
        (if pivot = ParsedBaseDataValue_UserValue v then Some current_index
         else LInsert_find_loop pivot es (current_index + 1) right_index)
      else None)"

fun LInsert_first_half_loop :: "BeforeOrAfter \<Rightarrow> u64 \<Rightarrow> (bytes \<times> bytes) list \<Rightarrow> u64 \<Rightarrow> bytes list" where
  "LInsert_first_half_loop ba pivot_index [] current_index = []"
| "LInsert_first_half_loop ba pivot_index ((k, v) # es) current_index =
     (if current_index \<le> pivot_index then
        (if current_index = pivot_index then
           (if ba = After then [ParsedBaseDataValue_UserValue v] else [])
         else ParsedBaseDataValue_UserValue v # LInsert_first_half_loop ba pivot_index es (current_index + 1))
      else [])"

fun LInsert_after_half_loop :: "BeforeOrAfter \<Rightarrow> u64 \<Rightarrow> u64 \<Rightarrow> (bytes \<times> bytes) list \<Rightarrow> u64 \<Rightarrow> bytes list" where
  "LInsert_after_half_loop ba pivot_index right_index [] current_index = []"
| "LInsert_after_half_loop ba pivot_index right_index ((k, v) # es) current_index =
     (if current_index < right_index then
        (if current_index = pivot_index \<and> ba = After
         then LInsert_after_half_loop ba pivot_index right_index es (current_index + 1)
         else ParsedBaseDataValue_UserValue v # LInsert_after_half_loop ba pivot_index right_index es (current_index + 1))
      else [])"

fun put_nodes :: "'s env \<Rightarrow> bytes \<Rightarrow> u64 \<Rightarrow> u64 \<Rightarrow> bytes list \<Rightarrow> WriteOp list" where
  "put_nodes env key version current_index [] = []"
| "put_nodes env key version current_index (node # list_nodes) =
     Put kListsDataCF (lists_data_key env key version current_index) (i_val env node) #
     put_nodes env key version (current_index + 1) list_nodes"

definition LInsert :: "'s env \<Rightarrow> bytes \<Rightarrow> BeforeOrAfter \<Rightarrow> bytes \<Rightarrow> bytes \<Rightarrow> 's redis \<Rightarrow> ((Status \<times> i64) \<times> 's redis) option" where
  "LInsert env key before_or_after pivot v r = do {
     m \<leftarrow> get_meta env kLists key key (rds_db r);
     case m of Inl st \<Rightarrow> Some ((st, 0), r)
     | Inr (s, meta_value) \<Rightarrow>
         if s = OK then do {
           p \<leftarrow> ParsedListsMetaValue_parse True meta_value;
           if pv_IsStale (env_now env) p then Some ((NotFound ''Stale'', 0), r)
           else if pl_count p = 0 then Some ((NotFound [], 0), r)
           else do {
             let version = pv_version p;
             let left = pl_left_index p;
             let right = pl_right_index p;
             let seek = (\<lambda>i. it_Seek (env_db env) (rds_db r) kListsDataCF (lists_data_key env key version i));
             case LInsert_find_loop pivot (seek (left + 1)) (left + 1) right of
               None \<Rightarrow> Some ((NotFound [], - 1), r)
             | Some pivot_index \<Rightarrow> do {
                 let mid_index = left + (right - left) div 2;
                 let (p, target_index, batch) =
                   (if pivot_index \<le> mid_index then
                      (let target_index = (if before_or_after = Before then pivot_index - 1 else pivot_index);
                           list_nodes = LInsert_first_half_loop before_or_after pivot_index (seek (left + 1)) (left + 1)
                       in (pl_ModifyLeftIndex 1 p, target_index, put_nodes env key version left list_nodes))
                    else
                      (let target_index = (if before_or_after = Before then pivot_index else pivot_index + 1);
                           list_nodes = LInsert_after_half_loop before_or_after pivot_index right (seek pivot_index) pivot_index
                       in (pl_ModifyRightIndex 1 p, target_index, put_nodes env key version (target_index + 1) list_nodes)));
                 let p = pl_ModifyCount 1 p;
                 let (st, r) = redis_Write env (batch @ [Put kMetaCF (base_meta_key env key) (pv_data p),
                   Put kListsDataCF (lists_data_key env key version target_index) (i_val env v)]) r;
                 Some ((st, scast (ucast (pl_count p) :: i32)), r) } } }
         else Some ((s, 0), r) }"

text \<open>The search loops of \<open>LRem\<close> collect the indexes of the matches in the order they are visited,
  forward for \<open>count \<ge> 0\<close> and backward otherwise.\<close>

fun LRem_forward_loop :: "'s env \<Rightarrow> bytes \<Rightarrow> bool \<Rightarrow> (bytes \<times> bytes) list \<Rightarrow> u64 \<Rightarrow> u64 \<Rightarrow> u64 \<Rightarrow> u64 list" where
  "LRem_forward_loop env v all [] current_index stop_index rest = []"
| "LRem_forward_loop env v all ((k, x) # es) current_index stop_index rest =
     (if current_index \<le> stop_index \<and> (all \<or> rest \<noteq> 0) then
        (if env_compare env v (ParsedBaseDataValue_UserValue x) = 0
         then current_index # LRem_forward_loop env v all es (current_index + 1) stop_index (if all then rest else rest - 1)
         else LRem_forward_loop env v all es (current_index + 1) stop_index rest)
      else [])"

fun LRem_backward_loop :: "'s env \<Rightarrow> bytes \<Rightarrow> (bytes \<times> bytes) list \<Rightarrow> u64 \<Rightarrow> u64 \<Rightarrow> u64 \<Rightarrow> u64 list" where
  "LRem_backward_loop env v [] current_index start_index rest = []"
| "LRem_backward_loop env v ((k, x) # es) current_index start_index rest =
     (if current_index \<ge> start_index \<and> rest \<noteq> 0 then
        (if env_compare env v (ParsedBaseDataValue_UserValue x) = 0
         then current_index # LRem_backward_loop env v es (current_index - 1) start_index (rest - 1)
         else LRem_backward_loop env v es (current_index - 1) start_index rest)
      else [])"

text \<open>The shifting loops of \<open>LRem\<close>: move the kept elements over the removed ones.\<close>

fun LRem_shift_right_loop :: "'s env \<Rightarrow> bytes \<Rightarrow> u64 \<Rightarrow> bytes \<Rightarrow> (bytes \<times> bytes) list \<Rightarrow> u64 \<Rightarrow> u64 \<Rightarrow> u64 \<Rightarrow> u64 \<Rightarrow> WriteOp list" where
  "LRem_shift_right_loop env key version v [] current_index start_index rest left = []"
| "LRem_shift_right_loop env key version v ((k, x) # es) current_index start_index rest left =
     (if current_index \<ge> start_index then
        (if env_compare env v (ParsedBaseDataValue_UserValue x) = 0 \<and> rest > 0
         then LRem_shift_right_loop env key version v es (current_index - 1) start_index (rest - 1) left
         else Put kListsDataCF (lists_data_key env key version left) x #
           LRem_shift_right_loop env key version v es (current_index - 1) start_index rest (left - 1))
      else [])"

fun LRem_shift_left_loop :: "'s env \<Rightarrow> bytes \<Rightarrow> u64 \<Rightarrow> bytes \<Rightarrow> (bytes \<times> bytes) list \<Rightarrow> u64 \<Rightarrow> u64 \<Rightarrow> u64 \<Rightarrow> u64 \<Rightarrow> WriteOp list" where
  "LRem_shift_left_loop env key version v [] current_index stop_index rest right = []"
| "LRem_shift_left_loop env key version v ((k, x) # es) current_index stop_index rest right =
     (if current_index \<le> stop_index then
        (if env_compare env v (ParsedBaseDataValue_UserValue x) = 0 \<and> rest > 0
         then LRem_shift_left_loop env key version v es (current_index + 1) stop_index (rest - 1) right
         else Put kListsDataCF (lists_data_key env key version right) x #
           LRem_shift_left_loop env key version v es (current_index + 1) stop_index rest (right + 1))
      else [])"

definition LRem :: "'s env \<Rightarrow> bytes \<Rightarrow> i64 \<Rightarrow> bytes \<Rightarrow> 's redis \<Rightarrow> ((Status \<times> u64) \<times> 's redis) option" where
  "LRem env key count v r = do {
     m \<leftarrow> get_meta env kLists key key (rds_db r);
     case m of Inl st \<Rightarrow> Some ((st, 0), r)
     | Inr (s, meta_value) \<Rightarrow>
         if s = OK then do {
           p \<leftarrow> ParsedListsMetaValue_parse True meta_value;
           if pv_IsStale (env_now env) p then Some ((NotFound ''Stale'', 0), r)
           else if pl_count p = 0 then Some ((NotFound [], 0), r)
           else do {
             let rest = (if sint count < 0 then - count else count);
             let version = pv_version p;
             let start_index = pl_left_index p + 1;
             let stop_index = pl_right_index p - 1;
             let data_key = lists_data_key env key version;
             let target_index =
               (if sint count \<ge> 0
                then LRem_forward_loop env v (count = 0) (it_Seek (env_db env) (rds_db r) kListsDataCF (data_key start_index)) start_index stop_index rest
                else LRem_backward_loop env v (it_SeekPrev (env_db env) (rds_db r) kListsDataCF (data_key stop_index)) stop_index start_index rest);
             if target_index = [] then Some ((NotFound [], 0), r)
             else do {
               let n = of_nat (length target_index);
               let sublist_left_index = (if sint count \<ge> 0 then hd target_index else last target_index);
               let sublist_right_index = (if sint count \<ge> 0 then last target_index else hd target_index);
               let left_part_len = sublist_right_index - start_index;
               let right_part_len = stop_index - sublist_left_index;
               let (p, batch, delete_index) =
                 (if left_part_len \<le> right_part_len then
                    (pl_ModifyLeftIndex (- n) p,
                     LRem_shift_right_loop env key version v (it_SeekPrev (env_db env) (rds_db r) kListsDataCF (data_key sublist_right_index))
                       sublist_right_index start_index n sublist_right_index,
                     map (\<lambda>idx. pl_left_index p + of_nat idx + 1) [0..<length target_index])
                  else
                    (pl_ModifyRightIndex (- n) p,
                     LRem_shift_left_loop env key version v (it_Seek (env_db env) (rds_db r) kListsDataCF (data_key sublist_left_index))
                       sublist_left_index stop_index n sublist_left_index,
                     map (\<lambda>idx. pl_right_index p - of_nat idx - 1) [0..<length target_index]));
               let p = pl_ModifyCount (- n) p;
               let (st, r) = redis_Write env (batch @ [Put kMetaCF (base_meta_key env key) (pv_data p)] @
                 map (\<lambda>idx. Delete kListsDataCF (data_key idx)) delete_index) r;
               Some ((st, n), r) } } }
         else Some ((s, 0), r) }"

section \<open>Expiry and deletion\<close>

text \<open>In \<open>ListsExpire\<close> the status of the read is a variable of the inner block, so only its early
  return has an effect: afterwards the command goes on with status \<open>OK\<close> whatever the read said.\<close>

definition ListsExpire :: "'s env \<Rightarrow> bytes \<Rightarrow> i64 \<Rightarrow> bytes \<Rightarrow> 's redis \<Rightarrow> (Status \<times> 's redis) option" where
  "ListsExpire env key ttl_millsec prefetch_meta r = do {
     m \<leftarrow> (if prefetch_meta = [] then get_meta env kLists key key (rds_db r) else Some (Inr (OK, prefetch_meta)));
     case m of Inl st \<Rightarrow> Some (st, r)
     | Inr (_, meta_value) \<Rightarrow> do {
         p \<leftarrow> ParsedListsMetaValue_parse True meta_value;
         if pv_IsStale (env_now env) p then Some (NotFound ''Stale'', r)
         else if pl_count p = 0 then Some (NotFound [], r)
         else do {
           let p = (if sint ttl_millsec > 0 then pv_SetRelativeTimestamp (env_now env) ttl_millsec p
                    else pl_InitialMetaValue (env_now env) p);
           Some (redis_Write env [Put kMetaCF (base_meta_key env key) (pv_data p)] r) } } }"

definition ListsDel :: "'s env \<Rightarrow> bytes \<Rightarrow> bytes \<Rightarrow> 's redis \<Rightarrow> (Status \<times> 's redis) option" where
  "ListsDel env key prefetch_meta r = do {
     m \<leftarrow> (if prefetch_meta = [] then get_meta env kLists key key (rds_db r) else Some (Inr (OK, prefetch_meta)));
     case m of Inl st \<Rightarrow> Some (st, r)
     | Inr (s, meta_value) \<Rightarrow>
         if s = OK then do {
           p \<leftarrow> ParsedListsMetaValue_parse True meta_value;
           if pv_IsStale (env_now env) p then Some (NotFound ''Stale'', r)
           else if pl_count p = 0 then Some (NotFound [], r)
           else do {
             let statistic = pl_count p;
             let p = pl_InitialMetaValue (env_now env) p;
             let (st, r) = redis_Write env [Put kMetaCF (base_meta_key env key) (pv_data p)] r;
             r \<leftarrow> UpdateSpecificKeyStatistics kLists key statistic r;
             Some (st, r) } }
         else Some (s, r) }"

definition ListsExpireat :: "'s env \<Rightarrow> bytes \<Rightarrow> i64 \<Rightarrow> bytes \<Rightarrow> 's redis \<Rightarrow> (Status \<times> 's redis) option" where
  "ListsExpireat env key timestamp_millsec prefetch_meta r = do {
     m \<leftarrow> (if prefetch_meta = [] then get_meta env kLists key key (rds_db r) else Some (Inr (OK, prefetch_meta)));
     case m of Inl st \<Rightarrow> Some (st, r)
     | Inr (s, meta_value) \<Rightarrow>
         if s = OK then do {
           p \<leftarrow> ParsedListsMetaValue_parse True meta_value;
           if pv_IsStale (env_now env) p then Some (NotFound ''Stale'', r)
           else if pl_count p = 0 then Some (NotFound [], r)
           else do {
             let p = (if sint timestamp_millsec > 0 then pv_SetEtime timestamp_millsec p
                      else pl_InitialMetaValue (env_now env) p);
             Some (redis_Write env [Put kMetaCF (base_meta_key env key) (pv_data p)] r) } }
         else Some (s, r) }"

definition ListsPersist :: "'s env \<Rightarrow> bytes \<Rightarrow> bytes \<Rightarrow> 's redis \<Rightarrow> (Status \<times> 's redis) option" where
  "ListsPersist env key prefetch_meta r = do {
     m \<leftarrow> (if prefetch_meta = [] then get_meta env kLists key key (rds_db r) else Some (Inr (OK, prefetch_meta)));
     case m of Inl st \<Rightarrow> Some (st, r)
     | Inr (s, meta_value) \<Rightarrow>
         if s = OK then do {
           p \<leftarrow> ParsedListsMetaValue_parse True meta_value;
           if pv_IsStale (env_now env) p then Some (NotFound ''Stale'', r)
           else if pl_count p = 0 then Some (NotFound [], r)
           else if pv_etime p = 0 then Some (NotFound ''Not have an associated timeout'', r)
           else Some (redis_Write env [Put kMetaCF (base_meta_key env key) (pv_data (pv_SetEtime 0 p))] r) }
         else Some (s, r) }"

end
