(* ===== verification/ListsCorrect.thy ===== *)
theory ListsCorrect
  imports Lists
begin

text \<open>
  The list commands implement lists. \<open>list_at now m key xs\<close> says that the contents \<open>m\<close> of the
  database hold the list \<open>xs\<close> under \<open>key\<close> at time \<open>now\<close>; every command takes it from the list before
  to the list a Redis client expects, touches no other key, and leaves the contents alone when it
  returns an error. The lemmas hold for every database meeting the locale \<open>rocksdb\<close>.
\<close>

section \<open>Contents by key\<close>

text \<open>The records of list keys, for the keys the escaping can handle.\<close>

definition meta_of :: "contents \<Rightarrow> bytes \<Rightarrow> bytes option" where
  "meta_of m k = (if key_ok k then m kMetaCF (BaseKey_Encode (\<lambda>_. 0) k) else None)"

definition elem_of :: "contents \<Rightarrow> bytes \<times> u64 \<times> u64 \<Rightarrow> bytes option" where
  "elem_of m = (\<lambda>(k, version, index).
     if key_ok k then m kListsDataCF (ListsDataKey_Encode (\<lambda>_. 0) k version index) else None)"

lemma BaseKey_Encode_inject:
  assumes "key_ok k" "key_ok k'"
  shows "BaseKey_Encode j k = BaseKey_Encode j' k' \<longleftrightarrow> k = k'"
  using esc_delim_inject [of k reserve2 k' reserve2] assms by (simp add: BaseKey_Encode_layout)

lemma BaseKey_Encode_junk: "key_ok k \<Longrightarrow> BaseKey_Encode j k = BaseKey_Encode (\<lambda>_. 0) k"
  by (simp add: BaseKey_Encode_layout)

lemma ListsDataKey_Encode_junk: "key_ok k \<Longrightarrow> ListsDataKey_Encode j k v i = ListsDataKey_Encode (\<lambda>_. 0) k v i"
  by (simp add: ListsDataKey_Encode_layout)

named_theorems batch_simps \<open>effect of a write batch on list records\<close>

context slice_order
begin

lemma lists_key_equal:
  assumes "key_ok k" "key_ok k'"
  shows "ListsDataKeyComparator_Compare slice_compare (ListsDataKey_Encode j k v i) (ListsDataKey_Encode j' k' v' i') = 0
    \<longleftrightarrow> (k, v, i) = (k', v', i')"
  using lists_compare_encoded(2) [OF slice_order_axioms assms] by simp

lemma put_meta:
  assumes "key_ok k"
  shows "meta_of (apply_op slice_compare (Put kMetaCF (BaseKey_Encode j k) v) m) = (meta_of m)(k \<mapsto> v)"
    and "elem_of (apply_op slice_compare (Put kMetaCF x v) m) = elem_of m"
  using assms by (auto simp: meta_of_def elem_of_def fun_eq_iff BaseKey_Encode_inject)

lemma put_elem:
  assumes "key_ok k"
  shows "elem_of (apply_op slice_compare (Put kListsDataCF (ListsDataKey_Encode j k version i) v) m) =
      (elem_of m)((k, version, i) \<mapsto> v)"
    and "meta_of (apply_op slice_compare (Put kListsDataCF x v) m) = meta_of m"
  using assms by (auto simp: meta_of_def elem_of_def fun_eq_iff lists_key_equal)

lemma delete_elem:
  assumes "key_ok k" and "ListsDataKeyComparator_Compare slice_compare x (ListsDataKey_Encode j k version i) = 0"
  shows "elem_of (apply_op slice_compare (Delete kListsDataCF x) m) = (elem_of m)((k, version, i) := None)"
  using assms comparator_ok_eq_cong(1) [OF lists_comparator_ok assms(2)]
  by (auto simp: elem_of_def fun_eq_iff lists_key_equal)

lemma delete_elem_meta: "meta_of (apply_op slice_compare (Delete kListsDataCF x) m) = meta_of m"
  by (simp add: meta_of_def fun_eq_iff)

end

declare apply_op.simps [simp del]

text \<open>Only \<open>kMetaCF\<close> and \<open>kListsDataCF\<close> are written by list commands.\<close>

fun lists_op :: "WriteOp \<Rightarrow> bool" where
  "lists_op (Put cf k v) \<longleftrightarrow> cf = kMetaCF \<or> cf = kListsDataCF"
| "lists_op (Delete cf k) \<longleftrightarrow> cf = kMetaCF \<or> cf = kListsDataCF"

lemma lists_op_frame:
  assumes "\<forall>op \<in> set ops. lists_op op" and "cf \<noteq> kMetaCF" and "cf \<noteq> kListsDataCF"
  shows "apply_batch sc ops m cf = m cf"
  using assms
proof (induction ops arbitrary: m)
  case (Cons op ops)
  then show ?case by (cases op) (auto simp: apply_op.simps)
qed simp

section \<open>Lists in the database\<close>

text \<open>The elements \<open>xs\<close> are stored at the indexes strictly between left and right.\<close>

definition list_window :: "(bytes \<times> u64 \<times> u64 \<Rightarrow> bytes option) \<Rightarrow> bytes \<Rightarrow> u64 \<Rightarrow> u64 \<Rightarrow> u64 \<Rightarrow> bytes list \<Rightarrow> bool" where
  "list_window E k version left right xs \<longleftrightarrow>
     unat right = unat left + 1 + length xs \<and>
     (\<forall>j < length xs. \<exists>v. E (k, version, left + 1 + of_nat j) = Some v \<and> 24 \<le> length v \<and>
        ParsedBaseDataValue_UserValue v = xs ! j)"

definition list_repr :: "(bytes \<times> u64 \<times> u64 \<Rightarrow> bytes option) \<Rightarrow> bytes \<Rightarrow> ParsedListsMetaValue \<Rightarrow> bytes list \<Rightarrow> bool" where
  "list_repr E k p xs \<longleftrightarrow>
     list_window E k (pv_version p) (pl_left_index p) (pl_right_index p) xs \<and> unat (pl_count p) = length xs"

inductive list_at :: "u64 \<Rightarrow> contents \<Rightarrow> bytes \<Rightarrow> bytes list \<Rightarrow> bool" for now m k where
  absent: "meta_of m k = None \<Longrightarrow> list_at now m k []"
| other_stale: "meta_of m k = Some mv \<Longrightarrow> GetMetaValueType mv \<noteq> kLists \<Longrightarrow> ExpectedStale now mv = Some True \<Longrightarrow>
    list_at now m k []"
| expired: "meta_of m k = Some (pv_data p) \<Longrightarrow> pl_wf p \<Longrightarrow> pv_type p = kLists \<Longrightarrow>
    pv_IsStale now p \<or> pl_count p = 0 \<Longrightarrow> list_at now m k []"
| live: "meta_of m k = Some (pv_data p) \<Longrightarrow> pl_wf p \<Longrightarrow> pv_type p = kLists \<Longrightarrow>
    \<not> pv_IsStale now p \<Longrightarrow> pl_count p \<noteq> 0 \<Longrightarrow> list_repr (elem_of m) k p xs \<Longrightarrow> list_at now m k xs"

text \<open>A key of another type that has not expired.\<close>

definition other_type :: "u64 \<Rightarrow> contents \<Rightarrow> bytes \<Rightarrow> bool" where
  "other_type now m k \<longleftrightarrow> (\<exists>mv. meta_of m k = Some mv \<and> GetMetaValueType mv \<noteq> kLists \<and>
     ExpectedStale now mv = Some False \<and> DataTypeStrings (GetMetaValueType mv) \<noteq> None)"

text \<open>How many elements can still be pushed on either side before an index wraps around.\<close>

definition left_room :: "u64 \<Rightarrow> contents \<Rightarrow> bytes \<Rightarrow> nat" where
  "left_room now m k = (case meta_of m k of
     Some mv \<Rightarrow> (case ParsedListsMetaValue_parse True mv of
       Some p \<Rightarrow> if GetMetaValueType mv = kLists \<and> \<not> pv_IsStale now p \<and> pl_count p \<noteq> 0
                 then unat (pl_left_index p) else 2 ^ 63 - 1
     | None \<Rightarrow> 2 ^ 63 - 1)
   | None \<Rightarrow> 2 ^ 63 - 1)"

definition right_room :: "u64 \<Rightarrow> contents \<Rightarrow> bytes \<Rightarrow> nat" where
  "right_room now m k = (case meta_of m k of
     Some mv \<Rightarrow> (case ParsedListsMetaValue_parse True mv of
       Some p \<Rightarrow> if GetMetaValueType mv = kLists \<and> \<not> pv_IsStale now p \<and> pl_count p \<noteq> 0
                 then 2 ^ 64 - 1 - unat (pl_right_index p) else 2 ^ 63 - 1
     | None \<Rightarrow> 2 ^ 63 - 1)
   | None \<Rightarrow> 2 ^ 63 - 1)"

text \<open>The records of every other key, and every other column family, are as before.\<close>

definition same_except :: "bytes set \<Rightarrow> contents \<Rightarrow> contents \<Rightarrow> bool" where
  "same_except K m m' \<longleftrightarrow>
     (\<forall>k. k \<notin> K \<longrightarrow> meta_of m' k = meta_of m k \<and> (\<forall>v i. elem_of m' (k, v, i) = elem_of m (k, v, i))) \<and>
     (\<forall>cf. cf \<noteq> kMetaCF \<longrightarrow> cf \<noteq> kListsDataCF \<longrightarrow> cf \<noteq> kZsetsScoreCF \<longrightarrow> m' cf = m cf)"

lemma same_except_list_at:
  assumes "same_except K m m'" and "k \<notin> K"
  shows "list_at now m' k xs \<longleftrightarrow> list_at now m k xs"
proof -
  have "list_repr (elem_of m') k p ys \<longleftrightarrow> list_repr (elem_of m) k p ys" for p ys
    using assms by (simp add: same_except_def list_repr_def list_window_def)
  then show ?thesis
    using assms by (simp add: list_at.simps same_except_def)
qed

subsection \<open>Windows\<close>

lemma i_val_simps [simp]:
  "24 \<le> length (i_val env v)" "ParsedBaseDataValue_UserValue (i_val env v) = v"
  by (simp_all add: i_val_def BaseDataValue_Encode_layout InternalValue_new_def ParsedBaseDataValue_UserValue_def)

lemma unat_pred: "0 < unat (x :: u64) \<Longrightarrow> unat (x - 1) = unat x - 1"
  by (rule unat_minus_one) auto

lemma unat_u64 [simp]: "unat (x :: u64) < 2 ^ 64" "unat (x :: u64) < 18446744073709551616"
  using unsigned_less [of x] by simp_all

lemma unat_succ: "unat (x :: u64) + 1 < 2 ^ 64 \<Longrightarrow> unat (x + 1) = unat x + 1"
  using unat_add_lem [of x 1] by simp

lemma unat_plus_of_nat: "unat (x :: u64) + n < 2 ^ 64 \<Longrightarrow> unat (x + of_nat n) = unat x + n"
  by (simp add: unat_word_ariths unat_of_nat mod_less)

lemma list_window_bound: "list_window E k version left right xs \<Longrightarrow> unat left + 1 + length xs < 2 ^ 64"
  using unat_u64(1) [of right] by (simp add: list_window_def)

lemma list_window_nth:
  assumes "list_window E k version left right xs" and "j < length xs"
  obtains v where "E (k, version, left + 1 + of_nat j) = Some v" "24 \<le> length v"
    "ParsedBaseDataValue_UserValue v = xs ! j"
  using assms by (auto simp: list_window_def)

text \<open>The indexes of the elements are pairwise different and lie strictly between left and right.\<close>

lemma window_index:
  assumes "list_window E k version left right xs" and "j < length xs"
  shows "unat (left + 1 + of_nat j) = unat left + 1 + j"
  using unat_plus_of_nat [of left "1 + j"] list_window_bound [OF assms(1)] assms(2) by (simp add: add.assoc)

lemma list_window_Cons:
  assumes "list_window E k version left right xs" and "0 < unat left"
    and "E' (k, version, left) = Some v" and "24 \<le> length v" and "ParsedBaseDataValue_UserValue v = x"
    and "\<And>i. i \<noteq> left \<Longrightarrow> E' (k, version, i) = E (k, version, i)"
  shows "list_window E' k version (left - 1) right (x # xs)"
  unfolding list_window_def
proof (intro conjI allI impI)
  show "unat right = unat (left - 1) + 1 + length (x # xs)"
    using assms(1,2) by (simp add: list_window_def unat_pred)
  fix j assume j: "j < length (x # xs)"
  show "\<exists>v. E' (k, version, left - 1 + 1 + of_nat j) = Some v \<and> 24 \<le> length v \<and>
      ParsedBaseDataValue_UserValue v = (x # xs) ! j"
  proof (cases j)
    case (Suc i)
    then have i: "i < length xs" using j by simp
    have "left + 1 + of_nat i \<noteq> left"
      using window_index [OF assms(1) i] by (metis Suc_eq_plus1 add_Suc_shift n_not_Suc_n less_add_Suc1 not_less_iff_gr_or_eq add.commute)
    then show ?thesis
      using list_window_nth [OF assms(1) i] assms(6) Suc by (auto simp: add.assoc)
  qed (use assms in simp)
qed

lemma list_window_snoc:
  assumes "list_window E k version left right xs" and "unat right + 1 < 2 ^ 64"
    and "E' (k, version, right) = Some v" and "24 \<le> length v" and "ParsedBaseDataValue_UserValue v = x"
    and "\<And>i. i \<noteq> right \<Longrightarrow> E' (k, version, i) = E (k, version, i)"
  shows "list_window E' k version left (right + 1) (xs @ [x])"
  unfolding list_window_def
proof (intro conjI allI impI)
  have r: "unat right = unat left + 1 + length xs" using assms(1) by (simp add: list_window_def)
  then have right: "right = left + 1 + of_nat (length xs)"
    using unat_plus_of_nat [of left "1 + length xs"] assms(2) by (simp add: add.assoc word_unat_eq_iff)
  show "unat (right + 1) = unat left + 1 + length (xs @ [x])"
    using r assms(2) by (simp add: unat_succ)
  fix j assume j: "j < length (xs @ [x])"
  show "\<exists>v. E' (k, version, left + 1 + of_nat j) = Some v \<and> 24 \<le> length v \<and>
      ParsedBaseDataValue_UserValue v = (xs @ [x]) ! j"
  proof (cases "j < length xs")
    case True
    then have "left + 1 + of_nat j \<noteq> right" using window_index [OF assms(1) True] r by auto
    then show ?thesis
      using list_window_nth [OF assms(1) True] assms(6) True by (auto simp: nth_append)
  next
    case False
    then have "j = length xs" using j by simp
    then show ?thesis using assms(3-5) right by simp
  qed
qed

lemma list_atI:
  assumes "meta_of m k = Some (pv_data p)" "pl_wf p" "pv_type p = kLists" "\<not> pv_IsStale now p"
    and "list_repr (elem_of m) k p xs"
  shows "list_at now m k xs"
proof (cases "pl_count p = 0")
  case True
  then have "xs = []" using assms(5) by (auto simp: list_repr_def)
  then show ?thesis using list_at.expired [OF assms(1-3)] True by simp
qed (rule list_at.live [OF assms(1-4) _ assms(5)])

lemma list_repr_initial:
  "list_repr E k (pl_InitialMetaValue now p) []"
  by (simp add: list_repr_def list_window_def InitalLeftIndex_def InitalRightIndex_def)

lemma initial_not_stale: "\<not> pv_IsStale now' (pl_InitialMetaValue now p)"
  by (simp add: pv_IsStale_def)

lemma GetMetaValueType_wf: "pl_wf p \<Longrightarrow> GetMetaValueType (pv_data p) = pv_type p"
  by (cases "pv_data p") (auto simp: pl_wf_iff GetMetaValueType_def)

lemma room_live:
  assumes "meta_of m k = Some (pv_data p)" "pl_wf p" "pv_type p = kLists"
  shows "left_room now m k = (if pv_IsStale now p \<or> pl_count p = 0 then 2 ^ 63 - 1 else unat (pl_left_index p))"
    and "right_room now m k = (if pv_IsStale now p \<or> pl_count p = 0 then 2 ^ 63 - 1 else 2 ^ 64 - 1 - unat (pl_right_index p))"
  using assms by (simp_all add: left_room_def right_room_def pl_wf_D GetMetaValueType_wf)

lemma room_missing:
  assumes "meta_of m k = None \<or> (\<exists>mv. meta_of m k = Some mv \<and> GetMetaValueType mv \<noteq> kLists)"
  shows "left_room now m k = 2 ^ 63 - 1" "right_room now m k = 2 ^ 63 - 1"
  using assms by (auto simp: left_room_def right_room_def split: option.splits)

text \<open>
  How a command ends: on \<open>OK\<close> it has changed records of the keys \<open>K\<close> only, on any other status
  nothing; the statistics stay well-formed.
\<close>

definition outcome :: "('s \<Rightarrow> contents) \<Rightarrow> bytes set \<Rightarrow> 's redis \<Rightarrow> Status \<Rightarrow> 's redis \<Rightarrow> bool" where
  "outcome view K r st r' \<longleftrightarrow>
     (st = OK \<longrightarrow> same_except K (view (rds_db r)) (view (rds_db r'))) \<and>
     (st \<noteq> OK \<longrightarrow> view (rds_db r') = view (rds_db r)) \<and> (stats_ok r \<longrightarrow> stats_ok r')"

lemma outcome_refl: "st \<noteq> OK \<Longrightarrow> outcome view K r st r"
  by (simp add: outcome_def)

section \<open>The engine\<close>

locale engine = rocksdb "env_compare env" "env_db env" view
  for env :: "'s env" and view :: "'s \<Rightarrow> contents"
begin

abbreviation "sc \<equiv> env_compare env"

lemma get_meta_missing:
  assumes "key_ok key" and "db_Get (env_db env) s kMetaCF (BaseKey_Encode (env_junk env) key) = (NotFound msg, v)"
  shows "meta_of (view s) key = None"
  using Get_NotFound [OF assms(2)] assms(1) by (simp add: meta_of_def BaseKey_Encode_layout)

text \<open>The outcomes of reading the meta value of a list key.\<close>

lemma get_meta_list [consumes 2, case_names missing present failed]:
  assumes "key_ok key" and "list_at (env_now env) (view s) key xs"
  obtains (missing) st mv where "get_meta env kLists key mk s = Some (Inr (st, mv))" "is_NotFound st" "xs = []"
      "meta_of (view s) key = None \<or> (\<exists>mv. meta_of (view s) key = Some mv \<and> GetMetaValueType mv \<noteq> kLists)"
  | (present) p where "get_meta env kLists key mk s = Some (Inr (OK, pv_data p))" "pl_wf p" "pv_type p = kLists"
      "meta_of (view s) key = Some (pv_data p)"
      "pv_IsStale (env_now env) p \<or> pl_count p = 0 \<Longrightarrow> xs = []"
      "\<not> pv_IsStale (env_now env) p \<Longrightarrow> pl_count p \<noteq> 0 \<Longrightarrow> list_repr (elem_of (view s)) key p xs"
  | (failed) st mv where "get_meta env kLists key mk s = Some (Inr (st, mv))" "st \<noteq> OK" "\<not> is_NotFound st"
      "\<not> db_healthy (env_db env) view"
proof -
  let ?k = "BaseKey_Encode (env_junk env) key"
  have vk: "view s kMetaCF ?k = meta_of (view s) key"
    using assms(1) by (simp add: meta_of_def BaseKey_Encode_layout)
  have ty: "GetMetaValueType (pv_data p) = pv_type p" if "pl_wf p" for p :: ParsedListsMetaValue
    using that by (cases "pv_data p") (auto simp: pl_wf_iff GetMetaValueType_def)
  show thesis
  proof (cases rule: Get_cases [of s kMetaCF ?k])
    case (found mv)
    then have mv: "meta_of (view s) key = Some mv" using vk by simp
    from assms(2) show thesis
    proof cases
      case absent
      then show ?thesis using mv by simp
    next
      case (other_stale mv')
      then have "get_meta env kLists key mk s = Some (Inr (NotFound [], mv))"
        using found mv by (simp add: get_meta_def ExpectedMetaValue_def)
      then show ?thesis using missing other_stale mv by auto
    next
      case (expired p)
      then have "get_meta env kLists key mk s = Some (Inr (OK, pv_data p))"
        using found mv by (simp add: get_meta_def ExpectedMetaValue_def ty)
      then show ?thesis using present [of p] expired by auto
    next
      case (live p)
      then have "get_meta env kLists key mk s = Some (Inr (OK, pv_data p))"
        using found mv by (simp add: get_meta_def ExpectedMetaValue_def ty)
      then show ?thesis using present [of p] live by auto
    qed
  next
    case (missing msg v)
    then have none: "meta_of (view s) key = None" using vk by simp
    then have "xs = []" by (cases rule: list_at.cases [OF assms(2)]) auto
    moreover have "get_meta env kLists key mk s = Some (Inr (NotFound msg, v))"
      using missing by (simp add: get_meta_def)
    ultimately show thesis using that(1) none by auto
  next
    case (failed st v)
    moreover have "get_meta env kLists key mk s = Some (Inr (st, v))"
      using failed by (simp add: get_meta_def)
    ultimately show thesis using that(3) failed by auto
  qed
qed

lemma get_meta_other [consumes 2, case_names wrong failed]:
  assumes "key_ok key" and "other_type (env_now env) (view s) key"
  obtains (wrong) msg where "get_meta env kLists key mk s = Some (Inl (InvalidArgument msg))"
  | (failed) st mv where "get_meta env kLists key mk s = Some (Inr (st, mv))" "st \<noteq> OK" "\<not> is_NotFound st"
      "\<not> db_healthy (env_db env) view"
proof -
  let ?k = "BaseKey_Encode (env_junk env) key"
  have vk: "view s kMetaCF ?k = meta_of (view s) key"
    using assms(1) by (simp add: meta_of_def BaseKey_Encode_layout)
  show thesis
  proof (cases rule: Get_cases [of s kMetaCF ?k])
    case (found mv)
    then show thesis
      using assms(2) vk wrong
      by (auto simp: other_type_def get_meta_def ExpectedMetaValue_def wrong_type_def)
  next
    case (missing msg v)
    then show thesis using vk assms(2) by (auto simp: other_type_def)
  next
    case (failed st v)
    moreover have "get_meta env kLists key mk s = Some (Inr (st, v))"
      using failed by (simp add: get_meta_def)
    ultimately show thesis using that(2) failed by auto
  qed
qed

text \<open>What \<open>Write\<close> does to the records of lists.\<close>

lemma redis_Write_cases:
  assumes "redis_Write env ops r = (st, r')"
  shows "st = OK \<Longrightarrow> meta_of (view (rds_db r')) = meta_of (apply_batch sc ops (view (rds_db r))) \<and>
      elem_of (view (rds_db r')) = elem_of (apply_batch sc ops (view (rds_db r)))"
    and "st = OK \<Longrightarrow> \<forall>op \<in> set ops. lists_op op \<Longrightarrow> cf \<noteq> kMetaCF \<Longrightarrow> cf \<noteq> kListsDataCF \<Longrightarrow> cf \<noteq> kZsetsScoreCF \<Longrightarrow>
      view (rds_db r') cf = view (rds_db r) cf"
    and "st \<noteq> OK \<Longrightarrow> view (rds_db r') = view (rds_db r)"
    and "rds_statistics_store r' = rds_statistics_store r"
    and "db_healthy (env_db env) view \<Longrightarrow> st = OK"
proof -
  from assms obtain db where db: "db_Write (env_db env) (rds_db r) ops = (st, db)" "r' = r\<lparr>rds_db := db\<rparr>"
    by (auto simp: redis_Write_def split: prod.splits)
  show "st = OK \<Longrightarrow> meta_of (view (rds_db r')) = meta_of (apply_batch sc ops (view (rds_db r))) \<and>
      elem_of (view (rds_db r')) = elem_of (apply_batch sc ops (view (rds_db r)))"
    using view_Write [of "rds_db r" ops db] db by (simp add: meta_of_def elem_of_def fun_eq_iff)
  show "st = OK \<Longrightarrow> \<forall>op \<in> set ops. lists_op op \<Longrightarrow> cf \<noteq> kMetaCF \<Longrightarrow> cf \<noteq> kListsDataCF \<Longrightarrow> cf \<noteq> kZsetsScoreCF \<Longrightarrow>
      view (rds_db r') cf = view (rds_db r) cf"
    using view_Write [of "rds_db r" ops db cf] db lists_op_frame [of ops cf] by simp
  show "st \<noteq> OK \<Longrightarrow> view (rds_db r') = view (rds_db r)"
    using Write_failed [OF db(1)] db by simp
  show "rds_statistics_store r' = rds_statistics_store r" using db by simp
  show "db_healthy (env_db env) view \<Longrightarrow> st = OK"
    using Write_healthy [of "rds_db r" ops] db by simp
qed

text \<open>
  A batch \<open>ops\<close> that only writes records of \<open>key\<close>: it changes the elements of the list and, last,
  its meta value to \<open>p\<close>. Committing it makes the list \<open>xs\<close>.
\<close>

definition key_batch :: "bytes \<Rightarrow> WriteOp list \<Rightarrow> bool" where
  "key_batch key ops \<longleftrightarrow> (\<forall>op \<in> set ops. lists_op op) \<and>
     (\<forall>m k v i. k \<noteq> key \<longrightarrow> elem_of (apply_batch sc ops m) (k, v, i) = elem_of m (k, v, i)) \<and>
     (\<forall>m k. k \<noteq> key \<longrightarrow> meta_of (apply_batch sc ops m) k = meta_of m k)"

lemma key_batch_Nil: "key_batch key []"
  by (simp add: key_batch_def)

lemma key_batch_Cons_put:
  "key_ok key \<Longrightarrow> key_batch key ops \<Longrightarrow> key_batch key (Put kListsDataCF (ListsDataKey_Encode j key v i) x # ops)"
  by (simp add: key_batch_def put_elem)

lemma key_batch_Cons_delete:
  "key_ok key \<Longrightarrow> key_batch key ops \<Longrightarrow>
   ListsDataKeyComparator_Compare sc x (ListsDataKey_Encode j key v i) = 0 \<Longrightarrow> key_batch key (Delete kListsDataCF x # ops)"
  by (simp add: key_batch_def delete_elem delete_elem_meta)

lemma key_batch_append: "key_batch key ops \<Longrightarrow> key_batch key ops' \<Longrightarrow> key_batch key (ops @ ops')"
  by (auto simp: key_batch_def)

lemma key_batch_meta: "key_ok key \<Longrightarrow> key_batch key [Put kMetaCF (BaseKey_Encode j key) x]"
  by (simp add: key_batch_def put_meta)

lemmas key_batch_intros = key_batch_Nil key_batch_Cons_put key_batch_Cons_delete key_batch_append key_batch_meta

lemma key_batch_same_except:
  assumes "key_batch key ops" and "redis_Write env ops r = (OK, r')"
  shows "same_except {key} (view (rds_db r)) (view (rds_db r'))"
  using assms(1) redis_Write_cases(1,2) [OF assms(2)] by (simp add: same_except_def key_batch_def)

lemma commit_list:
  assumes "key_ok key" and "key_batch key ops"
    and "redis_Write env (ops @ [Put kMetaCF (BaseKey_Encode j key) (pv_data p)]) r = (st, r')"
    and "pl_wf p" "pv_type p = kLists" "\<not> pv_IsStale now p"
    and "list_repr (elem_of (apply_batch sc ops (view (rds_db r)))) key p xs"
  shows "(st = OK \<longrightarrow> list_at now (view (rds_db r')) key xs) \<and>
    outcome view {key} r st r' \<and> (db_healthy (env_db env) view \<longrightarrow> st = OK)"
proof -
  note w = redis_Write_cases [OF assms(3)]
  have "list_at now (view (rds_db r')) key xs" if "st = OK"
  proof (rule list_atI [OF _ assms(4-6)])
    show "meta_of (view (rds_db r')) key = Some (pv_data p)"
      using w(1) that by (simp add: put_meta(1) [OF assms(1)])
    show "list_repr (elem_of (view (rds_db r'))) key p xs"
      using w(1) that assms(7) by (simp add: put_meta(2) [OF assms(1)])
  qed
  moreover have "same_except {key} (view (rds_db r)) (view (rds_db r'))" if "st = OK"
    using key_batch_same_except [OF key_batch_append [OF assms(2) key_batch_meta [OF assms(1)]]] assms(3) that by simp
  ultimately show ?thesis using w by (auto simp: outcome_def stats_ok_def)
qed

subsection \<open>Pushing\<close>

lemma LPush_loop_ok:
  assumes "key_ok key" and "pl_wf p" and "list_repr (elem_of m) key p xs" and "length vs \<le> unat (pl_left_index p)"
    and "LPush_loop env key (pv_version p) vs p = (p', batch)"
  shows "pl_wf p' \<and> pv_type p' = pv_type p \<and> pv_etime p' = pv_etime p \<and> pv_version p' = pv_version p \<and> key_batch key batch \<and>
    list_repr (elem_of (apply_batch sc batch m)) key p' (rev vs @ xs)"
  using assms
proof (induction vs arbitrary: p m xs p' batch)
  case Nil
  then show ?case by (simp add: key_batch_Nil)
next
  case (Cons v vs)
  let ?p = "pl_ModifyCount 1 (pl_ModifyLeftIndex 1 p)"
  let ?op = "Put kListsDataCF (lists_data_key env key (pv_version p) (pl_left_index p)) (i_val env v)"
  obtain batch' where b: "LPush_loop env key (pv_version p) vs ?p = (p', batch')" "batch = ?op # batch'"
    using Cons.prems(5) by (auto simp: Let_def split: prod.splits)
  have e: "elem_of (apply_op sc ?op m) = (elem_of m)((key, pv_version p, pl_left_index p) \<mapsto> i_val env v)"
    by (simp only: lists_data_key_def put_elem(1) [OF Cons.prems(1)])
  have left: "0 < unat (pl_left_index p)" using Cons.prems(4) by simp
  have w: "list_window (elem_of m) key (pv_version p) (pl_left_index p) (pl_right_index p) xs"
    and c: "unat (pl_count p) = length xs" using Cons.prems(3) by (auto simp: list_repr_def)
  have "list_window (elem_of (apply_op sc ?op m)) key (pv_version p) (pl_left_index p - 1) (pl_right_index p) (v # xs)"
    by (rule list_window_Cons [OF w left, where v = "i_val env v"]) (simp_all add: e)
  moreover have "unat (pl_count p + 1) = length (v # xs)"
    using c list_window_bound [OF w] left by (simp add: unat_succ)
  ultimately have "list_repr (elem_of (apply_op sc ?op m)) key ?p (v # xs)"
    by (simp add: list_repr_def)
  moreover have "pl_wf ?p" using Cons.prems(2) by (intro pl_intros)
  moreover have "length vs \<le> unat (pl_left_index ?p)"
    using Cons.prems(4) by (simp add: unat_pred [OF left])
  ultimately have "pl_wf p' \<and> pv_type p' = pv_type ?p \<and> pv_etime p' = pv_etime ?p \<and> pv_version p' = pv_version ?p \<and> key_batch key batch' \<and>
      list_repr (elem_of (apply_batch sc batch' (apply_op sc ?op m))) key p' (rev vs @ v # xs)"
    using b(1) by (intro Cons.IH [OF Cons.prems(1)]) simp_all
  moreover have "key_batch key (?op # batch')"
    if "key_batch key batch'" using key_batch_Cons_put [OF Cons.prems(1) that] by (simp add: lists_data_key_def)
  ultimately show ?case using b(2) by simp
qed

lemma RPush_loop_ok:
  assumes "key_ok key" and "pl_wf p" and "list_repr (elem_of m) key p xs" and "unat (pl_right_index p) + length vs < 2 ^ 64"
    and "RPush_loop env key (pv_version p) vs p = (p', batch)"
  shows "pl_wf p' \<and> pv_type p' = pv_type p \<and> pv_etime p' = pv_etime p \<and> pv_version p' = pv_version p \<and> key_batch key batch \<and>
    list_repr (elem_of (apply_batch sc batch m)) key p' (xs @ vs)"
  using assms
proof (induction vs arbitrary: p m xs p' batch)
  case Nil
  then show ?case by (simp add: key_batch_Nil)
next
  case (Cons v vs)
  let ?p = "pl_ModifyCount 1 (pl_ModifyRightIndex 1 p)"
  let ?op = "Put kListsDataCF (lists_data_key env key (pv_version p) (pl_right_index p)) (i_val env v)"
  obtain batch' where b: "RPush_loop env key (pv_version p) vs ?p = (p', batch')" "batch = ?op # batch'"
    using Cons.prems(5) by (auto simp: Let_def split: prod.splits)
  have e: "elem_of (apply_op sc ?op m) = (elem_of m)((key, pv_version p, pl_right_index p) \<mapsto> i_val env v)"
    by (simp only: lists_data_key_def put_elem(1) [OF Cons.prems(1)])
  have right: "unat (pl_right_index p) + 1 < 2 ^ 64" using Cons.prems(4) by simp
  have w: "list_window (elem_of m) key (pv_version p) (pl_left_index p) (pl_right_index p) xs"
    and c: "unat (pl_count p) = length xs" using Cons.prems(3) by (auto simp: list_repr_def)
  have "list_window (elem_of (apply_op sc ?op m)) key (pv_version p) (pl_left_index p) (pl_right_index p + 1) (xs @ [v])"
    by (rule list_window_snoc [OF w right, where v = "i_val env v"]) (simp_all add: e)
  moreover have "unat (pl_count p + 1) = length (xs @ [v])"
    using c list_window_bound [OF w] w right by (simp add: unat_succ list_window_def)
  ultimately have "list_repr (elem_of (apply_op sc ?op m)) key ?p (xs @ [v])"
    by (simp add: list_repr_def)
  moreover have "pl_wf ?p" using Cons.prems(2) by (intro pl_intros)
  moreover have "unat (pl_right_index ?p) + length vs < 2 ^ 64"
    using Cons.prems(4) by (simp add: unat_succ [OF right])
  ultimately have "pl_wf p' \<and> pv_type p' = pv_type ?p \<and> pv_etime p' = pv_etime ?p \<and> pv_version p' = pv_version ?p \<and> key_batch key batch' \<and>
      list_repr (elem_of (apply_batch sc batch' (apply_op sc ?op m))) key p' ((xs @ [v]) @ vs)"
    using b(1) by (intro Cons.IH [OF Cons.prems(1)]) simp_all
  moreover have "key_batch key (?op # batch')"
    if "key_batch key batch'" using key_batch_Cons_put [OF Cons.prems(1) that] by (simp add: lists_data_key_def)
  ultimately show ?case using b(2) by simp
qed

lemma LPush_new_loop_ok:
  assumes "key_ok key" and "list_window (elem_of m) key version (lmv_left_index l) (lmv_right_index l) xs"
    and "length vs \<le> unat (lmv_left_index l)" and "LPush_new_loop env key version vs l = (l', batch)"
  shows "key_batch key batch \<and> l' = l\<lparr>lmv_left_index := lmv_left_index l'\<rparr> \<and>
    list_window (elem_of (apply_batch sc batch m)) key version (lmv_left_index l') (lmv_right_index l) (rev vs @ xs)"
  using assms
proof (induction vs arbitrary: l m xs l' batch)
  case Nil
  then show ?case by (simp add: key_batch_Nil)
next
  case (Cons v vs)
  let ?l = "ListsMetaValue_ModifyLeftIndex 1 l"
  let ?op = "Put kListsDataCF (lists_data_key env key version (lmv_left_index l)) (i_val env v)"
  obtain batch' where b: "LPush_new_loop env key version vs ?l = (l', batch')" "batch = ?op # batch'"
    using Cons.prems(4) by (auto simp: Let_def split: prod.splits)
  have e: "elem_of (apply_op sc ?op m) = (elem_of m)((key, version, lmv_left_index l) \<mapsto> i_val env v)"
    by (simp only: lists_data_key_def put_elem(1) [OF Cons.prems(1)])
  have left: "0 < unat (lmv_left_index l)" using Cons.prems(3) by simp
  have "list_window (elem_of (apply_op sc ?op m)) key version (lmv_left_index l - 1) (lmv_right_index l) (v # xs)"
    by (rule list_window_Cons [OF Cons.prems(2) left, where v = "i_val env v"]) (simp_all add: e)
  moreover have "length vs \<le> unat (lmv_left_index l - 1)"
    using Cons.prems(3) by (simp add: unat_pred [OF left])
  ultimately have "key_batch key batch' \<and> l' = ?l\<lparr>lmv_left_index := lmv_left_index l'\<rparr> \<and>
      list_window (elem_of (apply_batch sc batch' (apply_op sc ?op m))) key version (lmv_left_index l') (lmv_right_index ?l) (rev vs @ v # xs)"
    using b(1) by (intro Cons.IH [OF Cons.prems(1)]) (simp_all add: ListsMetaValue_ModifyLeftIndex_def)
  moreover have "key_batch key (?op # batch')"
    if "key_batch key batch'" using key_batch_Cons_put [OF Cons.prems(1) that] by (simp add: lists_data_key_def)
  ultimately show ?case using b(2) by (simp add: ListsMetaValue_ModifyLeftIndex_def)
qed

lemma RPush_new_loop_ok:
  assumes "key_ok key" and "list_window (elem_of m) key version (lmv_left_index l) (lmv_right_index l) xs"
    and "unat (lmv_right_index l) + length vs < 2 ^ 64" and "RPush_new_loop env key version vs l = (l', batch)"
  shows "key_batch key batch \<and> l' = l\<lparr>lmv_right_index := lmv_right_index l'\<rparr> \<and>
    list_window (elem_of (apply_batch sc batch m)) key version (lmv_left_index l) (lmv_right_index l') (xs @ vs)"
  using assms
proof (induction vs arbitrary: l m xs l' batch)
  case Nil
  then show ?case by (simp add: key_batch_Nil)
next
  case (Cons v vs)
  let ?l = "ListsMetaValue_ModifyRightIndex 1 l"
  let ?op = "Put kListsDataCF (lists_data_key env key version (lmv_right_index l)) (i_val env v)"
  obtain batch' where b: "RPush_new_loop env key version vs ?l = (l', batch')" "batch = ?op # batch'"
    using Cons.prems(4) by (auto simp: Let_def split: prod.splits)
  have e: "elem_of (apply_op sc ?op m) = (elem_of m)((key, version, lmv_right_index l) \<mapsto> i_val env v)"
    by (simp only: lists_data_key_def put_elem(1) [OF Cons.prems(1)])
  have right: "unat (lmv_right_index l) + 1 < 2 ^ 64" using Cons.prems(3) by simp
  have "list_window (elem_of (apply_op sc ?op m)) key version (lmv_left_index l) (lmv_right_index l + 1) (xs @ [v])"
    by (rule list_window_snoc [OF Cons.prems(2) right, where v = "i_val env v"]) (simp_all add: e)
  moreover have "unat (lmv_right_index l + 1) + length vs < 2 ^ 64"
    using Cons.prems(3) by (simp add: unat_succ [OF right])
  ultimately have "key_batch key batch' \<and> l' = ?l\<lparr>lmv_right_index := lmv_right_index l'\<rparr> \<and>
      list_window (elem_of (apply_batch sc batch' (apply_op sc ?op m))) key version (lmv_left_index ?l) (lmv_right_index l') ((xs @ [v]) @ vs)"
    using b(1) by (intro Cons.IH [OF Cons.prems(1)]) (simp_all add: ListsMetaValue_ModifyRightIndex_def)
  moreover have "key_batch key (?op # batch')"
    if "key_batch key batch'" using key_batch_Cons_put [OF Cons.prems(1) that] by (simp add: lists_data_key_def)
  ultimately show ?case using b(2) by (simp add: ListsMetaValue_ModifyRightIndex_def)
qed

text \<open>The meta value of a new list.\<close>

lemma new_meta_parse:
  assumes "stamp_ok (env_now env)" and "iv_user_value l = EncodeFixed64 count" "iv_type l = kLists"
    and "iv_ctime l = env_now env" "iv_etime l = 0"
  obtains p where "pv_data p = ListsMetaValue_Encode junk l" "pl_wf p" "pv_type p = kLists"
    "\<not> pv_IsStale now p" "pl_count p = count" "pv_version p = iv_version l"
    "pl_left_index p = lmv_left_index l" "pl_right_index p = lmv_right_index l"
proof -
  have z: "stamp_ok 0" by (simp add: stamp_ok_def)
  note parse = ListsMetaValue_parse [of l count True junk]
  let ?p = "the (ParsedListsMetaValue_parse True (ListsMetaValue_Encode junk l))"
  show thesis
    by (rule that [of ?p]) (use assms parse z in \<open>simp_all add: pl_wf_def pv_IsStale_def\<close>)
qed

abbreviation "new_list vs \<equiv> ListsMetaValue_UpdateVersion (env_now env)
   (ListsMetaValue_new (env_now env) (EncodeFixed64 (of_nat (length vs))))"

lemma new_list_fields:
  "iv_user_value (new_list vs) = EncodeFixed64 (of_nat (length vs))" "iv_type (new_list vs) = kLists"
  "iv_ctime (new_list vs) = env_now env" "iv_etime (new_list vs) = 0"
  "lmv_left_index (new_list vs) = InitalLeftIndex" "lmv_right_index (new_list vs) = InitalRightIndex"
  by (simp_all add: ListsMetaValue_UpdateVersion_def ListsMetaValue_new_def)

lemma list_window_new: "list_window E key version InitalLeftIndex InitalRightIndex []"
  by (simp add: list_window_def InitalLeftIndex_def InitalRightIndex_def)

lemma unat_initial: "unat InitalLeftIndex = 2 ^ 63 - 1" "unat InitalRightIndex = 2 ^ 63"
  by (simp_all add: InitalLeftIndex_def InitalRightIndex_def)

lemma window_width:
  assumes "list_window E k version left right xs"
  shows "unat (right - left - 1) = length xs"
proof -
  have "right = left + 1 + of_nat (length xs)"
    using unat_plus_of_nat [of left "1 + length xs"] list_window_bound [OF assms] assms
    by (simp add: add.assoc word_unat_eq_iff list_window_def)
  moreover have "length xs < 2 ^ 64" using list_window_bound [OF assms] by simp
  ultimately show ?thesis by (simp add: unat_of_nat)
qed

lemma commit_new:
  assumes key: "key_ok key" and now: "stamp_ok (env_now env)" and batch: "key_batch key batch"
    and l: "iv_user_value l = EncodeFixed64 (of_nat (length ys))" "iv_type l = kLists" "iv_ctime l = env_now env" "iv_etime l = 0"
    and w: "list_window (elem_of (apply_batch sc batch (view (rds_db r)))) key (iv_version l) (lmv_left_index l) (lmv_right_index l) ys"
    and wr: "redis_Write env (batch @ [Put kMetaCF (BaseKey_Encode j key) (ListsMetaValue_Encode junk l)]) r = (st, r')"
  shows "(st = OK \<longrightarrow> list_at (env_now env) (view (rds_db r')) key ys) \<and> outcome view {key} r st r' \<and>
    (db_healthy (env_db env) view \<longrightarrow> st = OK)"
proof -
  obtain p where p: "pv_data p = ListsMetaValue_Encode junk l" "pl_wf p" "pv_type p = kLists"
    "\<not> pv_IsStale (env_now env) p" "pl_count p = of_nat (length ys)" "pv_version p = iv_version l"
    "pl_left_index p = lmv_left_index l" "pl_right_index p = lmv_right_index l"
    by (rule new_meta_parse [OF now l])
  have "length ys < 2 ^ 64" using list_window_bound [OF w] by simp
  then have "list_repr (elem_of (apply_batch sc batch (view (rds_db r)))) key p ys"
    using w p by (simp add: list_repr_def unat_of_nat)
  from commit_list [OF key batch _ p(2-4) this] show ?thesis using wr p(1) by simp
qed

text \<open>The meta value a push starts from: reset when the list has expired or is empty.\<close>

definition push_meta :: "ParsedListsMetaValue \<Rightarrow> ParsedListsMetaValue" where
  "push_meta p = (if pv_IsStale (env_now env) p \<or> pl_count p = 0 then pl_InitialMetaValue (env_now env) p else p)"

lemma push_meta_ok:
  assumes "pl_wf p" "pv_type p = kLists" "meta_of m key = Some (pv_data p)"
    and "pv_IsStale (env_now env) p \<or> pl_count p = 0 \<Longrightarrow> xs = []"
    and "\<not> pv_IsStale (env_now env) p \<Longrightarrow> pl_count p \<noteq> 0 \<Longrightarrow> list_repr (elem_of m) key p xs"
  shows "pl_wf (push_meta p)" "pv_type (push_meta p) = kLists" "\<not> pv_IsStale (env_now env) (push_meta p)"
    "list_repr (elem_of m) key (push_meta p) xs"
    "unat (pl_left_index (push_meta p)) = left_room (env_now env) m key"
    "unat (pl_right_index (push_meta p)) + right_room (env_now env) m key = 2 ^ 64 - 1"
proof -
  have "unat (pl_right_index p) \<le> 18446744073709551615"
    using unat_u64(2) [of "pl_right_index p"] by linarith
  then show "pl_wf (push_meta p)" "pv_type (push_meta p) = kLists" "\<not> pv_IsStale (env_now env) (push_meta p)"
    "list_repr (elem_of m) key (push_meta p) xs"
    "unat (pl_left_index (push_meta p)) = left_room (env_now env) m key"
    "unat (pl_right_index (push_meta p)) + right_room (env_now env) m key = 2 ^ 64 - 1"
    using assms room_live [OF assms(3,1,2)]
    by (auto simp: push_meta_def initial_not_stale list_repr_initial unat_initial intro: pl_intros)
qed

lemma LPush_correct:
  assumes key: "key_ok key" and now: "stamp_ok (env_now env)"
    and xs: "list_at (env_now env) (view (rds_db r)) key xs"
    and room: "length vs \<le> left_room (env_now env) (view (rds_db r)) key"
  shows "\<exists>st ret r'. LPush env key vs r = Some ((st, ret), r') \<and> outcome view {key} r st r' \<and>
    (st = OK \<longrightarrow> unat ret = length xs + length vs \<and> list_at (env_now env) (view (rds_db r')) key (rev vs @ xs)) \<and>
    (db_healthy (env_db env) view \<longrightarrow> st = OK)"
  using key xs
proof (cases rule: get_meta_list [where mk = key])
  case (failed st mv)
  then show ?thesis by (auto simp: LPush_def outcome_refl)
next
  case (missing st mv)
  let ?l = "new_list vs"
  have n: "length vs < 2 ^ 63" using room room_missing [OF missing(4)] by simp
  obtain l' batch where b: "LPush_new_loop env key (iv_version ?l) vs ?l = (l', batch)" by fastforce
  have ok: "key_batch key batch" "l' = ?l\<lparr>lmv_left_index := lmv_left_index l'\<rparr>"
    "list_window (elem_of (apply_batch sc batch (view (rds_db r)))) key (iv_version ?l) (lmv_left_index l') InitalRightIndex (rev vs)"
    using LPush_new_loop_ok [OF key _ _ b, of "view (rds_db r)" "[]"] n
    by (simp_all add: new_list_fields list_window_new unat_initial)
  have lf: "iv_user_value l' = EncodeFixed64 (of_nat (length (rev vs)))" "iv_type l' = kLists" "iv_ctime l' = env_now env"
    "iv_etime l' = 0" "iv_version l' = iv_version ?l" "lmv_right_index l' = InitalRightIndex"
    by (subst ok(2), simp add: new_list_fields)+
  obtain st' r' where w: "redis_Write env (batch @ [Put kMetaCF (BaseKey_Encode (env_junk env) key)
      (ListsMetaValue_Encode (env_junk env) l')]) r = (st', r')"
    by fastforce
  have "LPush env key vs r = Some ((st', lmv_right_index l' - lmv_left_index l' - 1), r')"
    using missing(1,2) b w by (cases st) (auto simp: LPush_def Let_def base_meta_key_def)
  moreover have "unat (lmv_right_index l' - lmv_left_index l' - 1) = length vs"
    using window_width [OF ok(3)] lf(6) by simp
  ultimately show ?thesis
    using commit_new [OF key now ok(1) lf(1-4) _ w] ok(3) lf(5,6) missing(3) by auto
next
  case (present p)
  note q = push_meta_ok [OF present(2,3,4,5,6)]
  obtain q' batch where b: "LPush_loop env key (pv_version (push_meta p)) vs (push_meta p) = (q', batch)" by fastforce
  have ok: "pl_wf q'" "pv_type q' = kLists" "\<not> pv_IsStale (env_now env) q'" "key_batch key batch"
    "list_repr (elem_of (apply_batch sc batch (view (rds_db r)))) key q' (rev vs @ xs)"
    using LPush_loop_ok [OF key q(1,4) _ b] q room by (auto simp: pv_IsStale_def)
  obtain st' r' where w: "redis_Write env (batch @ [Put kMetaCF (BaseKey_Encode (env_junk env) key) (pv_data q')]) r = (st', r')"
    by fastforce
  have "LPush env key vs r = Some ((st', pl_count q'), r')"
    using present(1) pl_wf_D [OF present(2)] b w
    by (simp add: LPush_def Let_def base_meta_key_def push_meta_def [symmetric])
  moreover have "unat (pl_count q') = length xs + length vs" using ok(5) by (simp add: list_repr_def)
  ultimately show ?thesis
    using commit_list [OF key ok(4) w ok(1-3,5)] by auto
qed

lemma RPush_correct:
  assumes key: "key_ok key" and now: "stamp_ok (env_now env)"
    and xs: "list_at (env_now env) (view (rds_db r)) key xs"
    and room: "length vs \<le> right_room (env_now env) (view (rds_db r)) key"
  shows "\<exists>st ret r'. RPush env key vs r = Some ((st, ret), r') \<and> outcome view {key} r st r' \<and>
    (st = OK \<longrightarrow> unat ret = length xs + length vs \<and> list_at (env_now env) (view (rds_db r')) key (xs @ vs)) \<and>
    (db_healthy (env_db env) view \<longrightarrow> st = OK)"
  using key xs
proof (cases rule: get_meta_list [where mk = key])
  case (failed st mv)
  then show ?thesis by (auto simp: RPush_def outcome_refl)
next
  case (missing st mv)
  let ?l = "new_list vs"
  have n: "length vs < 2 ^ 63" using room room_missing [OF missing(4)] by simp
  obtain l' batch where b: "RPush_new_loop env key (iv_version ?l) vs ?l = (l', batch)" by fastforce
  have ok: "key_batch key batch" "l' = ?l\<lparr>lmv_right_index := lmv_right_index l'\<rparr>"
    "list_window (elem_of (apply_batch sc batch (view (rds_db r)))) key (iv_version ?l) InitalLeftIndex (lmv_right_index l') vs"
    using RPush_new_loop_ok [OF key _ _ b, of "view (rds_db r)" "[]"] n
    by (simp_all add: new_list_fields list_window_new unat_initial)
  have lf: "iv_user_value l' = EncodeFixed64 (of_nat (length vs))" "iv_type l' = kLists" "iv_ctime l' = env_now env"
    "iv_etime l' = 0" "iv_version l' = iv_version ?l" "lmv_left_index l' = InitalLeftIndex"
    by (subst ok(2), simp add: new_list_fields)+
  obtain st' r' where w: "redis_Write env (batch @ [Put kMetaCF (BaseKey_Encode (env_junk env) key)
      (ListsMetaValue_Encode (env_junk env) l')]) r = (st', r')"
    by fastforce
  have "RPush env key vs r = Some ((st', lmv_right_index l' - lmv_left_index l' - 1), r')"
    using missing(1,2) b w by (cases st) (auto simp: RPush_def Let_def base_meta_key_def)
  moreover have "unat (lmv_right_index l' - lmv_left_index l' - 1) = length vs"
    using window_width [OF ok(3)] lf(6) by simp
  ultimately show ?thesis
    using commit_new [OF key now ok(1) lf(1-4) _ w] ok(3) lf(5,6) missing(3) by auto
next
  case (present p)
  note q = push_meta_ok [OF present(2,3,4,5,6)]
  obtain q' batch where b: "RPush_loop env key (pv_version (push_meta p)) vs (push_meta p) = (q', batch)" by fastforce
  have ok: "pl_wf q'" "pv_type q' = kLists" "\<not> pv_IsStale (env_now env) q'" "key_batch key batch"
    "list_repr (elem_of (apply_batch sc batch (view (rds_db r)))) key q' (xs @ vs)"
    using RPush_loop_ok [OF key q(1,4) _ b] q room by (auto simp: pv_IsStale_def)
  obtain st' r' where w: "redis_Write env (batch @ [Put kMetaCF (BaseKey_Encode (env_junk env) key) (pv_data q')]) r = (st', r')"
    by fastforce
  have "RPush env key vs r = Some ((st', pl_count q'), r')"
    using present(1) pl_wf_D [OF present(2)] b w
    by (simp add: RPush_def Let_def base_meta_key_def push_meta_def [symmetric])
  moreover have "unat (pl_count q') = length xs + length vs" using ok(5) by (simp add: list_repr_def)
  ultimately show ?thesis
    using commit_list [OF key ok(4) w ok(1-3,5)] by auto
qed

text \<open>The two orders of the updates of count and index agree.\<close>

lemma ModifyLeft_ModifyCount:
  "pl_wf p \<Longrightarrow> pl_ModifyLeftIndex i (pl_ModifyCount c p) = pl_ModifyCount c (pl_ModifyLeftIndex i p)"
  by (cases p) (auto simp: pl_ModifyLeftIndex_def pl_ModifyCount_def poke_def pl_wf_iff intro!: memcpy_at_commute)

lemma ModifyRight_ModifyCount:
  "pl_wf p \<Longrightarrow> pl_ModifyRightIndex i (pl_ModifyCount c p) = pl_ModifyCount c (pl_ModifyRightIndex i p)"
  by (cases p) (auto simp: pl_ModifyRightIndex_def pl_ModifyCount_def poke_def pl_wf_iff intro!: memcpy_at_commute)

lemma LPushx_loop_eq: "pl_wf p \<Longrightarrow> LPushx_loop env key version vs p = LPush_loop env key version vs p"
  by (induction vs arbitrary: p) (simp_all add: ModifyLeft_ModifyCount pl_intros)

lemma RPushx_loop_eq: "pl_wf p \<Longrightarrow> RPushx_loop env key version vs p = RPush_loop env key version vs p"
  by (induction vs arbitrary: p) (simp_all add: ModifyRight_ModifyCount pl_intros)

lemma LPushx_correct:
  assumes key: "key_ok key" and xs: "list_at (env_now env) (view (rds_db r)) key xs"
    and room: "length vs \<le> left_room (env_now env) (view (rds_db r)) key"
  shows "\<exists>st ret r'. LPushx env key vs r = Some ((st, ret), r') \<and> outcome view {key} r st r' \<and>
    (st = OK \<longrightarrow> xs \<noteq> [] \<and> unat ret = length xs + length vs \<and> list_at (env_now env) (view (rds_db r')) key (rev vs @ xs)) \<and>
    (db_healthy (env_db env) view \<longrightarrow> (if xs = [] then is_NotFound st else st = OK))"
  using key xs
proof (cases rule: get_meta_list [where mk = key])
  case (present p)
  show ?thesis
  proof (cases "pv_IsStale (env_now env) p \<or> pl_count p = 0")
    case True
    then show ?thesis using present pl_wf_D [OF present(2)] by (auto simp: LPushx_def outcome_refl)
  next
    case False
    then have rep: "list_repr (elem_of (view (rds_db r))) key p xs" and l: "length vs \<le> unat (pl_left_index p)"
      using present(6) room room_live [OF present(4,2,3)] by auto
    obtain q' batch where b: "LPush_loop env key (pv_version p) vs p = (q', batch)" by fastforce
    have ok: "pl_wf q'" "pv_type q' = kLists" "\<not> pv_IsStale (env_now env) q'" "key_batch key batch"
      "list_repr (elem_of (apply_batch sc batch (view (rds_db r)))) key q' (rev vs @ xs)"
      using LPush_loop_ok [OF key present(2) rep l b] present(3) False by (auto simp: pv_IsStale_def)
    obtain st' r' where w: "redis_Write env (batch @ [Put kMetaCF (BaseKey_Encode (env_junk env) key) (pv_data q')]) r = (st', r')"
      by fastforce
    have "LPushx env key vs r = Some ((st', pl_count q'), r')"
      using present(1) pl_wf_D [OF present(2)] b w False LPushx_loop_eq [OF present(2)]
      by (simp add: LPushx_def Let_def base_meta_key_def)
    moreover have "unat (pl_count q') = length xs + length vs" "xs \<noteq> []"
      using ok(5) rep False by (auto simp: list_repr_def unat_eq_zero)
    ultimately show ?thesis
      using commit_list [OF key ok(4) w ok(1-3,5)] by auto
  qed
qed (auto simp: LPushx_def outcome_refl)

lemma RPushx_correct:
  assumes key: "key_ok key" and xs: "list_at (env_now env) (view (rds_db r)) key xs"
    and room: "length vs \<le> right_room (env_now env) (view (rds_db r)) key"
  shows "\<exists>st ret r'. RPushx env key vs r = Some ((st, ret), r') \<and> outcome view {key} r st r' \<and>
    (st = OK \<longrightarrow> xs \<noteq> [] \<and> unat ret = length xs + length vs \<and> list_at (env_now env) (view (rds_db r')) key (xs @ vs)) \<and>
    (db_healthy (env_db env) view \<longrightarrow> (if xs = [] then is_NotFound st else st = OK))"
  using key xs
proof (cases rule: get_meta_list [where mk = key])
  case (present p)
  show ?thesis
  proof (cases "pv_IsStale (env_now env) p \<or> pl_count p = 0")
    case True
    then show ?thesis using present pl_wf_D [OF present(2)] by (auto simp: RPushx_def outcome_refl)
  next
    case False
    then have rep: "list_repr (elem_of (view (rds_db r))) key p xs" and "length vs \<le> 2 ^ 64 - 1 - unat (pl_right_index p)"
      using present(6) room room_live [OF present(4,2,3)] by auto
    then have l: "unat (pl_right_index p) + length vs < 2 ^ 64"
      using unat_u64(1) [of "pl_right_index p"] by linarith
    obtain q' batch where b: "RPush_loop env key (pv_version p) vs p = (q', batch)" by fastforce
    have ok: "pl_wf q'" "pv_type q' = kLists" "\<not> pv_IsStale (env_now env) q'" "key_batch key batch"
      "list_repr (elem_of (apply_batch sc batch (view (rds_db r)))) key q' (xs @ vs)"
      using RPush_loop_ok [OF key present(2) rep l b] present(3) False by (auto simp: pv_IsStale_def)
    obtain st' r' where w: "redis_Write env (batch @ [Put kMetaCF (BaseKey_Encode (env_junk env) key) (pv_data q')]) r = (st', r')"
      by fastforce
    have "RPushx env key vs r = Some ((st', pl_count q'), r')"
      using present(1) pl_wf_D [OF present(2)] b w False RPushx_loop_eq [OF present(2)]
      by (simp add: RPushx_def Let_def base_meta_key_def)
    moreover have "unat (pl_count q') = length xs + length vs" "xs \<noteq> []"
      using ok(5) rep False by (auto simp: list_repr_def unat_eq_zero)
    ultimately show ?thesis
      using commit_list [OF key ok(4) w ok(1-3,5)] by auto
  qed
qed (auto simp: RPushx_def outcome_refl)

subsection \<open>Iterating over a list\<close>

abbreviation "ecmp \<equiv> ListsDataKeyComparator_Compare sc"
abbreviation "ekey \<equiv> ListsDataKey_Encode (\<lambda>_. 0)"

lemma ecmp_sort_key: "ecmp a b < 0 \<longleftrightarrow> lists_sort_key a < lists_sort_key b"
  "ecmp a b = 0 \<longleftrightarrow> lists_sort_key a = lists_sort_key b"
  "ecmp a b \<le> 0 \<longleftrightarrow> lists_sort_key a \<le> lists_sort_key b"
  using lists_compare_sort_key [of a b] by (auto simp: order_le_less)

text \<open>Between two consecutive indexes there is no other key.\<close>

lemma index_adjacent:
  fixes a version :: u64 and h :: bytes
  assumes "unat a + 1 < 2 ^ 64" and "(h, Some (version, Some a)) < y"
  shows "\<not> y < (h, Some (version, Some (a + 1)))"
proof -
  have "\<not> i < a + 1" if "a < i" for i
    using that assms(1) by (simp add: word_less_nat_alt unat_succ)
  then show ?thesis using assms(2)
    by (cases y; cases "snd y") (auto simp: less_option_def order_le_less split: option.splits dest: less_asym leD)
qed

lemma elem_scan_split:
  assumes "key_ok key" and "elem_of (view s) (key, version, a) = Some v"
  obtains k' l1 l2 where "it_SeekToFirst (env_db env) s kListsDataCF = l1 @ (k', v) # l2"
    and "lists_sort_key k' = lists_sort_key (ekey key version a)"
    and "\<And>x. x \<in> set l1 \<Longrightarrow> lists_sort_key (fst x) < lists_sort_key (ekey key version a)"
    and "\<And>x. x \<in> set l2 \<Longrightarrow> lists_sort_key (ekey key version a) < lists_sort_key (fst x)"
proof -
  have ok: "comparator_ok (cf_compare sc kListsDataCF)" by (simp add: lists_comparator_ok)
  have "view s kListsDataCF (ekey key version a) = Some v"
    using assms by (simp add: elem_of_def)
  then obtain k' where k': "(k', v) \<in> set (it_SeekToFirst (env_db env) s kListsDataCF)" "ecmp (ekey key version a) k' = 0"
    using scan_complete [OF ok] by auto
  then obtain l1 l2 where l: "it_SeekToFirst (env_db env) s kListsDataCF = l1 @ (k', v) # l2"
    by (meson split_list)
  have "sorted_wrt (\<lambda>x y. ecmp (fst x) (fst y) < 0) (l1 @ (k', v) # l2)"
    using scan_sorted [OF ok, of s] l by simp
  then show thesis
    using that [OF l] k'(2) by (auto simp: sorted_wrt_append ecmp_sort_key)
qed

lemma dropWhile_split: "(\<And>x. x \<in> set l1 \<Longrightarrow> P x) \<Longrightarrow> (l2 \<noteq> [] \<Longrightarrow> \<not> P (hd l2)) \<Longrightarrow> dropWhile P (l1 @ l2) = l2"
  by (cases l2) (auto simp: dropWhile_append)

lemma takeWhile_split: "(\<And>x. x \<in> set l1 \<Longrightarrow> P x) \<Longrightarrow> (l2 \<noteq> [] \<Longrightarrow> \<not> P (hd l2)) \<Longrightarrow> takeWhile P (l1 @ l2) = l1"
  by (cases l2) (auto simp: takeWhile_append)

lemma seek_step:
  assumes "key_ok key" and "elem_of (view s) (key, version, a) = Some v"
  shows "\<exists>k' rest. it_Seek (env_db env) s kListsDataCF (ekey key version a) = (k', v) # rest \<and> ecmp k' (ekey key version a) = 0 \<and>
    (unat a + 1 < 2 ^ 64 \<longrightarrow> rest = it_Seek (env_db env) s kListsDataCF (ekey key version (a + 1)))"
proof -
  obtain k' l1 l2 where l: "it_SeekToFirst (env_db env) s kListsDataCF = l1 @ (k', v) # l2"
    and k': "lists_sort_key k' = lists_sort_key (ekey key version a)"
    and l1: "\<And>x. x \<in> set l1 \<Longrightarrow> lists_sort_key (fst x) < lists_sort_key (ekey key version a)"
    and l2: "\<And>x. x \<in> set l2 \<Longrightarrow> lists_sort_key (ekey key version a) < lists_sort_key (fst x)"
    by (rule elem_scan_split [OF assms]) blast
  have sk: "it_Seek (env_db env) s kListsDataCF k = dropWhile (\<lambda>x. ecmp (fst x) k < 0) (l1 @ (k', v) # l2)" for k
    using seek [of kListsDataCF s k] l by (simp add: lists_comparator_ok)
  have "it_Seek (env_db env) s kListsDataCF (ekey key version a) = (k', v) # l2"
    unfolding sk using l1 k' by (intro dropWhile_split) (auto simp: ecmp_sort_key)
  moreover have "it_Seek (env_db env) s kListsDataCF (ekey key version (a + 1)) = l2" if "unat a + 1 < 2 ^ 64"
  proof -
    have "lists_sort_key (ekey key version a) < lists_sort_key (ekey key version (a + 1))"
      using that by (simp add: lists_sort_key_Encode [OF assms(1)] word_less_nat_alt unat_succ)
    moreover have "\<not> lists_sort_key (fst x) < lists_sort_key (ekey key version (a + 1))" if "x \<in> set l2" for x
      using index_adjacent [OF \<open>unat a + 1 < 2 ^ 64\<close>] l2 [OF that] by (simp add: lists_sort_key_Encode [OF assms(1)])
    ultimately have "dropWhile (\<lambda>x. ecmp (fst x) (ekey key version (a + 1)) < 0) ((l1 @ [(k', v)]) @ l2) = l2"
      using less_trans [OF l1, of _ "lists_sort_key (ekey key version (a + 1))"] k' hd_in_set [of l2]
      by (intro dropWhile_split) (auto simp: ecmp_sort_key)
    then show ?thesis unfolding sk by simp
  qed
  ultimately show ?thesis using k' by (auto simp: ecmp_sort_key)
qed

lemma seek_prev_step:
  assumes "key_ok key" and "elem_of (view s) (key, version, a) = Some v"
  shows "\<exists>k' rest. it_SeekForPrev (env_db env) s kListsDataCF (ekey key version a) = (k', v) # rest \<and> ecmp k' (ekey key version a) = 0 \<and>
    it_SeekPrev (env_db env) s kListsDataCF (ekey key version a) = (k', v) # rest \<and>
    (0 < unat a \<longrightarrow> rest = it_SeekForPrev (env_db env) s kListsDataCF (ekey key version (a - 1)))"
proof -
  obtain k' l1 l2 where l: "it_SeekToFirst (env_db env) s kListsDataCF = l1 @ (k', v) # l2"
    and k': "lists_sort_key k' = lists_sort_key (ekey key version a)"
    and l1: "\<And>x. x \<in> set l1 \<Longrightarrow> lists_sort_key (fst x) < lists_sort_key (ekey key version a)"
    and l2: "\<And>x. x \<in> set l2 \<Longrightarrow> lists_sort_key (ekey key version a) < lists_sort_key (fst x)"
    by (rule elem_scan_split [OF assms]) blast
  have sk: "it_SeekForPrev (env_db env) s kListsDataCF k = rev (takeWhile (\<lambda>x. ecmp (fst x) k \<le> 0) (l1 @ (k', v) # l2))" for k
    using seek_for_prev [of kListsDataCF s k] l by (simp add: lists_comparator_ok)
  have "takeWhile (\<lambda>x. ecmp (fst x) (ekey key version a) \<le> 0) ((l1 @ [(k', v)]) @ l2) = l1 @ [(k', v)]"
    using l1 l2 [OF hd_in_set] k' by (intro takeWhile_split) (auto simp: ecmp_sort_key not_le less_imp_le)
  then have fp: "it_SeekForPrev (env_db env) s kListsDataCF (ekey key version a) = (k', v) # rev l1"
    unfolding sk by simp
  have "it_SeekPrev (env_db env) s kListsDataCF (ekey key version a) = (k', v) # rev l1"
  proof -
    have "it_Seek (env_db env) s kListsDataCF (ekey key version a) = (k', v) # l2"
      using seek [of kListsDataCF s] l l1 k' by (simp add: lists_comparator_ok ecmp_sort_key dropWhile_split)
    moreover have "takeWhile (\<lambda>x. ecmp (fst x) (ekey key version a) < 0) (l1 @ (k', v) # l2) = l1"
      using l1 k' by (intro takeWhile_split) (auto simp: ecmp_sort_key)
    ultimately show ?thesis
      using seek_prev [of kListsDataCF s "ekey key version a"] l by (simp add: lists_comparator_ok)
  qed
  moreover have "it_SeekForPrev (env_db env) s kListsDataCF (ekey key version (a - 1)) = rev l1" if "0 < unat a"
  proof -
    have b: "unat (a - 1) + 1 < 2 ^ 64" "a - 1 + 1 = a" using that unat_pred [OF that] unat_u64(1) [of a] by simp_all
    have "lists_sort_key (ekey key version (a - 1)) < lists_sort_key (ekey key version a)"
      using that by (simp add: lists_sort_key_Encode [OF assms(1)] word_less_nat_alt unat_pred)
    moreover have "lists_sort_key (fst x) \<le> lists_sort_key (ekey key version (a - 1))" if "x \<in> set l1" for x
      using index_adjacent [OF b(1)] l1 [OF that] b(2) by (simp add: lists_sort_key_Encode [OF assms(1)] not_less [symmetric]) blast
    ultimately have "takeWhile (\<lambda>x. ecmp (fst x) (ekey key version (a - 1)) \<le> 0) (l1 @ (k', v) # l2) = l1"
      using k' by (intro takeWhile_split) (auto simp: ecmp_sort_key not_le)
    then show ?thesis unfolding sk by simp
  qed
  ultimately show ?thesis using fp k' by (auto simp: ecmp_sort_key)
qed

end

end
