(* ===== verification/ListsCommands.thy ===== *)
theory ListsCommands
  imports ListsCorrect
begin

text \<open>
  Correctness of the list commands that iterate over the elements: reading, popping, trimming,
  inserting, removing and moving, each against the function on lists a Redis client expects. The
  iterators of the database are used through the laws of the locale \<open>rocksdb\<close> only.
\<close>

section \<open>What a client expects\<close>

definition redis_index :: "int \<Rightarrow> 'a list \<Rightarrow> nat option" where
  "redis_index i xs = (let j = (if i < 0 then int (length xs) + i else i)
     in if 0 \<le> j \<and> j < int (length xs) then Some (nat j) else None)"

definition redis_range :: "int \<Rightarrow> int \<Rightarrow> 'a list \<Rightarrow> 'a list" where
  "redis_range start stop xs =
     (let n = int (length xs);
          s = max 0 (if start < 0 then n + start else start);
          e = min (n - 1) (if stop < 0 then n + stop else stop)
      in take (nat (e + 1 - s)) (drop (nat s) xs))"

text \<open>The offset \<open>i\<close> of a list of \<open>n\<close> elements can be added to its indexes without wrap-around.\<close>

definition index_fits :: "u64 \<Rightarrow> contents \<Rightarrow> bytes \<Rightarrow> nat \<Rightarrow> i64 \<Rightarrow> bool" where
  "index_fits now m key n i \<longleftrightarrow>
     - int (left_room now m key) - int n - 1 \<le> sint i \<and> sint i \<le> int (right_room now m key) + int n"

section \<open>Index arithmetic\<close>

lemma uint_plus_sint:
  fixes x y :: u64
  assumes "0 \<le> uint x + sint y" and "uint x + sint y < 2 ^ 64"
  shows "uint (x + y) = uint x + sint y"
proof -
  have "x + y = word_of_int (uint x + sint y)" by simp
  then have "uint (x + y) = take_bit 64 (uint x + sint y)" by (simp only: uint_word_of_int_eq) simp
  then show ?thesis using assms by (simp add: take_bit_int_eq_self)
qed

lemma uint_u64 [simp]: "uint (x :: u64) < 2 ^ 64" "uint (x :: u64) < 18446744073709551616"
  using uint_lt2p [of x] by simp_all

lemma window_uint:
  assumes "list_window E k version left right xs"
  shows "uint right = uint left + 1 + int (length xs)" "uint (left + 1) = uint left + 1" "uint (right - 1) = uint right - 1"
proof -
  have "unat right = unat left + 1 + length xs" using assms by (simp add: list_window_def)
  from arg_cong [OF this, of int] show r: "uint right = uint left + 1 + int (length xs)" by simp
  show "uint (left + 1) = uint left + 1"
    using uint_plus_sint [of left 1] r uint_u64(1) [of right] by simp
  have "0 < unat right" using assms by (simp add: list_window_def)
  from arg_cong [OF unat_pred [OF this], of int] this show "uint (right - 1) = uint right - 1" by (simp add: of_nat_diff)
qed

lemma window_word:
  assumes "list_window E k version left right xs" and "j < length xs" and "uint i = uint left + 1 + int j"
  shows "i = left + 1 + of_nat j"
proof -
  have "uint i = uint (left + 1 + of_nat j)" using arg_cong [OF window_index [OF assms(1,2)], of int] assms(3) by simp
  then show ?thesis by (simp only: word_uint_eq_iff)
qed

text \<open>The window computed from the offsets is the expected range.\<close>

lemma sublist_window_ok:
  assumes w: "list_window E k (pv_version p) (pl_left_index p) (pl_right_index p) xs" and ne: "xs \<noteq> []"
    and room: "unat (pl_left_index p) = left_room now m key" "unat (pl_right_index p) + right_room now m key = 2 ^ 64 - 1"
    and fits: "index_fits now m key (length xs) start" "index_fits now m key (length xs) stop"
  shows "case sublist_window p start stop of None \<Rightarrow> redis_range (sint start) (sint stop) xs = []
    | Some (l, r) \<Rightarrow> \<exists>a b. a \<le> b \<and> b < length xs \<and> l = pl_left_index p + 1 + of_nat a \<and> r = pl_left_index p + 1 + of_nat b \<and>
        redis_range (sint start) (sint stop) xs = take (b + 1 - a) (drop a xs)"
proof -
  let ?L = "pl_left_index p" and ?R = "pl_right_index p" and ?n = "int (length xs)"
  note u = window_uint [OF w]
  have rm: "uint ?L = int (left_room now m key)" "uint ?R + int (right_room now m key) = 2 ^ 64 - 1"
    using arg_cong [OF room(1), of int] arg_cong [OF room(2), of int] by simp_all
  define bound where "bound i = (if sint i \<ge> 0 then ?L + 1 + i else ?R - 1 + i + 1)" for i
  define off where "off i = (if i < 0 then ?n + i else i)" for i
  have bound: "uint (bound i) = uint ?L + 1 + off (sint i)" if "index_fits now m key (length xs) i" for i
  proof (cases "sint i \<ge> 0")
    case True
    then show ?thesis
      using uint_plus_sint [of "?L + 1" i] u rm that by (simp add: bound_def off_def index_fits_def)
  next
    case False
    have "?R - 1 + i + 1 = ?R + i" by simp
    then show ?thesis
      using uint_plus_sint [of ?R i] u rm that False by (simp add: bound_def off_def index_fits_def)
  qed
  note b1 = bound [OF fits(1)] and b2 = bound [OF fits(2)]
  have sw: "sublist_window p start stop = (if bound start > bound stop \<or> bound start > ?R - 1 \<or> bound stop < ?L + 1 then None
      else Some (if bound start < ?L + 1 then ?L + 1 else bound start, if bound stop > ?R - 1 then ?R - 1 else bound stop))"
    by (simp add: sublist_window_def bound_def Let_def)
  define S T where "S = off (sint start)" and "T = off (sint stop)"
  have cmp: "bound start > bound stop \<longleftrightarrow> S > T" "bound start > ?R - 1 \<longleftrightarrow> S > ?n - 1" "bound stop < ?L + 1 \<longleftrightarrow> T < 0"
      "bound start < ?L + 1 \<longleftrightarrow> S < 0" "bound stop > ?R - 1 \<longleftrightarrow> T > ?n - 1"
    unfolding word_less_def b1 b2 S_def T_def u by linarith+
  have rr: "redis_range (sint start) (sint stop) xs = take (nat (min (?n - 1) T + 1 - max 0 S)) (drop (nat (max 0 S)) xs)"
    by (simp add: redis_range_def off_def Let_def S_def T_def)
  have n: "0 < ?n" using ne by simp
  show ?thesis
  proof (cases "S > T \<or> S > ?n - 1 \<or> T < 0")
    case True
    then have "nat (min (?n - 1) T + 1 - max 0 S) = 0" using n by linarith
    then show ?thesis using True rr by (simp add: sw cmp)
  next
    case False
    let ?a = "nat (max 0 S)" and ?b = "nat (min (?n - 1) T)"
    have ab: "?a \<le> ?b" "?b < length xs" "nat (min (?n - 1) T + 1 - max 0 S) = ?b + 1 - ?a" using False n by linarith+
    have "(if S < 0 then ?L + 1 else bound start) = ?L + 1 + of_nat ?a"
      by (rule window_word [OF w]) (use ab b1 u in \<open>auto simp: S_def [symmetric]\<close>)
    moreover have "(if T > ?n - 1 then ?R - 1 else bound stop) = ?L + 1 + of_nat ?b"
      by (rule window_word [OF w]) (use ab b2 u False in \<open>auto simp: T_def [symmetric]\<close>)
    ultimately have sw': "sublist_window p start stop = Some (?L + 1 + of_nat ?a, ?L + 1 + of_nat ?b)"
      using False by (simp only: sw cmp if_False)
    have "redis_range (sint start) (sint stop) xs = take (?b + 1 - ?a) (drop ?a xs)"
      by (simp only: rr ab(3))
    then show ?thesis unfolding sw' option.case prod.case using ab(1,2) by blast
  qed
qed

text \<open>The index computed by \<open>LIndex\<close> and \<open>LSet\<close>.\<close>

definition target_index :: "ParsedListsMetaValue \<Rightarrow> i64 \<Rightarrow> u64" where
  "target_index p i = (if sint i \<ge> 0 then pl_left_index p + i + 1 else pl_right_index p + i)"

lemma target_index_ok:
  assumes w: "list_window E k (pv_version p) (pl_left_index p) (pl_right_index p) xs"
    and room: "unat (pl_left_index p) = left_room now m key" "unat (pl_right_index p) + right_room now m key = 2 ^ 64 - 1"
    and fits: "index_fits now m key (length xs) i"
  shows "case redis_index (sint i) xs of
      None \<Rightarrow> \<not> (pl_left_index p < target_index p i \<and> target_index p i < pl_right_index p)
    | Some j \<Rightarrow> j < length xs \<and> pl_left_index p < target_index p i \<and> target_index p i < pl_right_index p \<and>
        target_index p i = pl_left_index p + 1 + of_nat j"
proof -
  let ?L = "pl_left_index p" and ?R = "pl_right_index p" and ?n = "int (length xs)"
  note u = window_uint [OF w]
  have rm: "uint ?L = int (left_room now m key)" "uint ?R + int (right_room now m key) = 2 ^ 64 - 1"
    using arg_cong [OF room(1), of int] arg_cong [OF room(2), of int] by simp_all
  define j where "j = (if sint i < 0 then ?n + sint i else sint i)"
  have t: "uint (target_index p i) = uint ?L + 1 + j"
  proof (cases "sint i \<ge> 0")
    case True
    then have "target_index p i = ?L + 1 + i" by (simp add: target_index_def)
    then show ?thesis
      using uint_plus_sint [of "?L + 1" i] u rm fits True by (simp add: j_def index_fits_def)
  next
    case False
    then have "target_index p i = ?R + i" by (simp add: target_index_def)
    then show ?thesis
      using uint_plus_sint [of ?R i] u rm fits False by (simp add: j_def index_fits_def)
  qed
  then have cmp: "?L < target_index p i \<longleftrightarrow> 0 \<le> j" "target_index p i < ?R \<longleftrightarrow> j < ?n"
    unfolding word_less_def u by linarith+
  have ri: "redis_index (sint i) xs = (if 0 \<le> j \<and> j < ?n then Some (nat j) else None)"
    by (simp add: redis_index_def j_def Let_def)
  show ?thesis
  proof (cases "0 \<le> j \<and> j < ?n")
    case True
    have "target_index p i = ?L + 1 + of_nat (nat j)"
      by (rule window_word [OF w]) (use True t in auto)
    moreover have "nat j < length xs" using True by linarith
    ultimately show ?thesis using True cmp by (simp only: ri if_True option.case simp_thms)
  next
    case False
    then have "redis_index (sint i) xs = None" unfolding ri by simp
    then show ?thesis using False cmp by simp
  qed
qed

section \<open>Entries of a window\<close>

text \<open>What an iterator yields from an index on: records of consecutive indexes holding \<open>xs\<close>, then anything.\<close>

fun forward_entries :: "(bytes \<Rightarrow> bytes \<Rightarrow> int) \<Rightarrow> bytes \<Rightarrow> u64 \<Rightarrow> u64 \<Rightarrow> (bytes \<times> bytes) list \<Rightarrow> bytes list \<Rightarrow> bool" where
  "forward_entries sc key version i es [] \<longleftrightarrow> True"
| "forward_entries sc key version i [] (x # xs) \<longleftrightarrow> False"
| "forward_entries sc key version i ((k, v) # es) (x # xs) \<longleftrightarrow>
     ListsDataKeyComparator_Compare sc k (ListsDataKey_Encode (\<lambda>_. 0) key version i) = 0 \<and>
     24 \<le> length v \<and> ParsedBaseDataValue_UserValue v = x \<and> forward_entries sc key version (i + 1) es xs"

fun backward_entries :: "(bytes \<Rightarrow> bytes \<Rightarrow> int) \<Rightarrow> bytes \<Rightarrow> u64 \<Rightarrow> u64 \<Rightarrow> (bytes \<times> bytes) list \<Rightarrow> bytes list \<Rightarrow> bool" where
  "backward_entries sc key version i es [] \<longleftrightarrow> True"
| "backward_entries sc key version i [] (x # xs) \<longleftrightarrow> False"
| "backward_entries sc key version i ((k, v) # es) (x # xs) \<longleftrightarrow>
     ListsDataKeyComparator_Compare sc k (ListsDataKey_Encode (\<lambda>_. 0) key version i) = 0 \<and>
     24 \<le> length v \<and> ParsedBaseDataValue_UserValue v = x \<and> backward_entries sc key version (i - 1) es xs"

lemma forward_entries_ConsE:
  assumes "forward_entries sc key version i es (x # xs)"
  obtains k v es' where "es = (k, v) # es'"
    "ListsDataKeyComparator_Compare sc k (ListsDataKey_Encode (\<lambda>_. 0) key version i) = 0"
    "24 \<le> length v" "ParsedBaseDataValue_UserValue v = x" "forward_entries sc key version (i + 1) es' xs"
  using assms by (cases es) auto

lemma backward_entries_ConsE:
  assumes "backward_entries sc key version i es (x # xs)"
  obtains k v es' where "es = (k, v) # es'"
    "ListsDataKeyComparator_Compare sc k (ListsDataKey_Encode (\<lambda>_. 0) key version i) = 0"
    "24 \<le> length v" "ParsedBaseDataValue_UserValue v = x" "backward_entries sc key version (i - 1) es' xs"
  using assms by (cases es) auto

lemma forward_entries_take: "forward_entries sc key version i es xs \<Longrightarrow> forward_entries sc key version i es (take n xs)"
  by (induction sc key version i es xs arbitrary: n rule: forward_entries.induct) (auto simp: take_Cons split: nat.split)

lemma LRange_loop_ok:
  assumes "forward_entries sc key version i es xs" and "unat r + 1 - unat i \<le> length xs" and "unat r + 1 < 2 ^ 64"
  shows "LRange_loop es i r = take (unat r + 1 - unat i) xs"
  using assms
proof (induction sc key version i es xs rule: forward_entries.induct)
  case (1 sc key version i es)
  then have "\<not> i \<le> r" by (simp add: word_le_nat_alt)
  then show ?case by (cases es) auto
next
  case (3 sc key version i k v es x xs)
  show ?case
  proof (cases "i \<le> r")
    case True
    then have i: "unat i \<le> unat r" by (simp add: word_le_nat_alt)
    then have "unat (i + 1) = unat i + 1" using 3(4) by (simp add: unat_succ)
    moreover have "unat r + 1 - unat i = Suc (unat r - unat i)" using i by simp
    ultimately show ?thesis using 3 True by simp
  next
    case False
    then have "unat r + 1 - unat i = 0" by (simp add: word_le_nat_alt)
    then show ?thesis using False by simp
  qed
qed simp

context engine
begin

lemma lists_data_key_ekey: "key_ok key \<Longrightarrow> lists_data_key env key version i = ekey key version i"
  by (simp add: lists_data_key_def ListsDataKey_Encode_layout)

text \<open>Seeking to an element of a list yields the rest of the list in order.\<close>

lemma seek_window:
  assumes key: "key_ok key" and w: "list_window (elem_of (view s)) key version left right xs" and n: "n \<le> length xs"
  shows "forward_entries sc key version (left + 1 + of_nat n)
    (it_Seek (env_db env) s kListsDataCF (lists_data_key env key version (left + 1 + of_nat n))) (drop n xs)"
  using n
proof (induction rule: inc_induct)
  case (step n)
  obtain v where v: "elem_of (view s) (key, version, left + 1 + of_nat n) = Some v" "24 \<le> length v"
    "ParsedBaseDataValue_UserValue v = xs ! n"
    using list_window_nth [OF w step(2)] by blast
  have "unat (left + 1 + of_nat n) + 1 < 2 ^ 64"
    using window_index [OF w step(2)] list_window_bound [OF w] step(2) by simp
  then obtain k' where "it_Seek (env_db env) s kListsDataCF (ekey key version (left + 1 + of_nat n)) =
      (k', v) # it_Seek (env_db env) s kListsDataCF (ekey key version (left + 1 + of_nat n + 1))"
    and "ecmp k' (ekey key version (left + 1 + of_nat n)) = 0"
    using seek_step [OF key v(1)] by blast
  then show ?case
    using step v Cons_nth_drop_Suc [OF step(2), symmetric]
    by (simp add: lists_data_key_ekey [OF key] add.assoc)
qed simp

text \<open>Seeking backward yields the elements before in reverse order; both ways of seeking agree.\<close>

lemma seek_window_back:
  assumes key: "key_ok key" and w: "list_window (elem_of (view s)) key version left right xs" and n: "n < length xs"
  shows "backward_entries sc key version (left + 1 + of_nat n)
      (it_SeekForPrev (env_db env) s kListsDataCF (lists_data_key env key version (left + 1 + of_nat n))) (rev (take (Suc n) xs))"
    and "it_SeekPrev (env_db env) s kListsDataCF (lists_data_key env key version (left + 1 + of_nat n)) =
      it_SeekForPrev (env_db env) s kListsDataCF (lists_data_key env key version (left + 1 + of_nat n))"
proof -
  have step: "\<exists>k' v. it_SeekForPrev (env_db env) s kListsDataCF (ekey key version (left + 1 + of_nat j)) =
      (k', v) # it_SeekForPrev (env_db env) s kListsDataCF (ekey key version (left + of_nat j)) \<and>
      ecmp k' (ekey key version (left + 1 + of_nat j)) = 0 \<and> 24 \<le> length v \<and> ParsedBaseDataValue_UserValue v = xs ! j \<and>
      it_SeekPrev (env_db env) s kListsDataCF (ekey key version (left + 1 + of_nat j)) =
      it_SeekForPrev (env_db env) s kListsDataCF (ekey key version (left + 1 + of_nat j))"
    if j: "j < length xs" for j
  proof -
    obtain v where v: "elem_of (view s) (key, version, left + 1 + of_nat j) = Some v" "24 \<le> length v"
      "ParsedBaseDataValue_UserValue v = xs ! j"
      using list_window_nth [OF w j] by blast
    have "0 < unat (left + 1 + of_nat j)" using window_index [OF w j] by simp
    moreover have "left + 1 + of_nat j - 1 = left + of_nat j" by simp
    ultimately show ?thesis using seek_prev_step [OF key v(1)] v(2,3) by fastforce
  qed
  show "it_SeekPrev (env_db env) s kListsDataCF (lists_data_key env key version (left + 1 + of_nat n)) =
      it_SeekForPrev (env_db env) s kListsDataCF (lists_data_key env key version (left + 1 + of_nat n))"
    using step [OF n] by (auto simp: lists_data_key_ekey [OF key])
  show "backward_entries sc key version (left + 1 + of_nat n)
      (it_SeekForPrev (env_db env) s kListsDataCF (lists_data_key env key version (left + 1 + of_nat n))) (rev (take (Suc n) xs))"
    using n
  proof (induction n)
    case 0
    then show ?case using step [of 0] by (auto simp: lists_data_key_ekey [OF key] take_Suc_conv_app_nth)
  next
    case (Suc n)
    show ?case
      using step [of "Suc n"] Suc by (auto simp: lists_data_key_ekey [OF key] take_Suc_conv_app_nth [of "Suc n"] ac_simps)
  qed
qed

end

end
