(* ===== verification/ListsOps.thy ===== *)
theory ListsOps
  imports ListsCommands
begin

text \<open>
  Correctness of reading, popping, setting and trimming: each command against the list function of
  \<open>ListsCommands\<close>.
\<close>

lemma StripSuffix_ok: "24 \<le> length v \<Longrightarrow> ParsedBaseDataValue_StripSuffix v = Some (ParsedBaseDataValue_UserValue v)"
  by (simp add: ParsedBaseDataValue_StripSuffix_def ParsedBaseDataValue_UserValue_def kBaseDataValueSuffixLength_def)

text \<open>A part of a window, when the records of the part are kept.\<close>

lemma list_window_slice:
  assumes w: "list_window E k version left right xs" and ab: "a \<le> b" "b \<le> length xs"
    and keep: "\<And>j. a \<le> j \<Longrightarrow> j < b \<Longrightarrow> E' (k, version, left + 1 + of_nat j) = E (k, version, left + 1 + of_nat j)"
  shows "list_window E' k version (left + of_nat a) (left + 1 + of_nat b) (take (b - a) (drop a xs))"
  unfolding list_window_def
proof (intro conjI allI impI)
  have "unat (left + of_nat a) = unat left + a" "unat (left + of_nat (1 + b)) = unat left + (1 + b)"
    using list_window_bound [OF w] ab by (intro unat_plus_of_nat; simp)+
  then show "unat (left + 1 + of_nat b) = unat (left + of_nat a) + 1 + length (take (b - a) (drop a xs))"
    using ab by (simp add: add.assoc)
  fix j assume "j < length (take (b - a) (drop a xs))"
  then have j: "a + j < b" "a + j < length xs" using ab by auto
  have i: "left + of_nat a + 1 + of_nat j = left + 1 + of_nat (a + j)" by (simp add: ac_simps)
  show "\<exists>v. E' (k, version, left + of_nat a + 1 + of_nat j) = Some v \<and> 24 \<le> length v \<and>
      ParsedBaseDataValue_UserValue v = take (b - a) (drop a xs) ! j"
    using list_window_nth [OF w j(2)] keep [of "a + j"] j unfolding i by (auto simp: add.commute)
qed

lemma list_window_right: "list_window E k version left right xs \<Longrightarrow> right = left + 1 + of_nat (length xs)"
  using unat_plus_of_nat [of left "1 + length xs"] list_window_bound [of E k version left right xs]
  by (simp add: add.assoc word_unat_eq_iff list_window_def)

text \<open>The records outside the indexes of a window are irrelevant.\<close>

lemma window_index_inject:
  assumes "list_window E k version left right xs" and "i < length xs" and "j < length xs"
  shows "left + 1 + of_nat i = left + 1 + of_nat j \<longleftrightarrow> i = j"
  using window_index [OF assms(1,2)] window_index [OF assms(1,3)] by (metis add_left_cancel)

lemma list_window_update:
  assumes w: "list_window E k version left right xs" and j: "j < length xs" and v: "24 \<le> length v"
  shows "list_window (E((k, version, left + 1 + of_nat j) \<mapsto> v)) k version left right (xs[j := ParsedBaseDataValue_UserValue v])"
  using w v window_index_inject [OF w _ j] by (simp add: list_window_def nth_list_update)

lemma unat_of_nat_u64: "n < 2 ^ 64 \<Longrightarrow> unat (of_nat n :: u64) = n"
  by (simp add: unat_of_nat)

lemma word_succ_le:
  fixes i j l :: u64
  assumes "i < l"
  shows "i \<le> j \<longleftrightarrow> j = i \<or> i + 1 \<le> j"
proof -
  have "unat i < unat l" using assms by (simp add: word_less_nat_alt)
  then have "unat (i + 1) = unat i + 1" using unat_u64(1) [of l] by (intro unat_succ) linarith
  then show ?thesis by (auto simp: word_le_nat_alt word_unat_eq_iff)
qed

lemma word_pred_ge:
  fixes i j l :: u64
  assumes "l < i"
  shows "j \<le> i \<longleftrightarrow> j = i \<or> j \<le> i - 1"
proof -
  have "0 < unat i" using assms by (auto simp: word_less_nat_alt)
  moreover from this have "unat (i - 1) = unat i - 1" by (rule unat_pred)
  ultimately show ?thesis by (auto simp: word_le_nat_alt word_unat_eq_iff)
qed

context engine
begin

text \<open>A list key is gone, live, or could not be read.\<close>

lemma get_list [consumes 2, case_names missing stale live failed]:
  assumes key: "key_ok key" and xs: "list_at (env_now env) (view s) key xs"
  obtains (missing) st mv where "get_meta env kLists key mk s = Some (Inr (st, mv))" "is_NotFound st" "st \<noteq> OK" "xs = []"
  | (stale) p where "get_meta env kLists key mk s = Some (Inr (OK, pv_data p))"
      "ParsedListsMetaValue_parse True (pv_data p) = Some p" "pv_IsStale (env_now env) p \<or> pl_count p = 0" "xs = []"
  | (live) p where "get_meta env kLists key mk s = Some (Inr (OK, pv_data p))"
      "ParsedListsMetaValue_parse True (pv_data p) = Some p" "\<not> pv_IsStale (env_now env) p" "pl_count p \<noteq> 0"
      "pl_wf p" "pv_type p = kLists" "meta_of (view s) key = Some (pv_data p)" "xs \<noteq> []"
      "list_window (elem_of (view s)) key (pv_version p) (pl_left_index p) (pl_right_index p) xs"
      "unat (pl_count p) = length xs" "unat (pl_left_index p) = left_room (env_now env) (view s) key"
      "unat (pl_right_index p) + right_room (env_now env) (view s) key = 2 ^ 64 - 1"
  | (failed) st mv where "get_meta env kLists key mk s = Some (Inr (st, mv))" "st \<noteq> OK" "\<not> is_NotFound st"
      "\<not> db_healthy (env_db env) view"
  using key xs
proof (cases rule: get_meta_list [where mk = mk])
  case (present p)
  show thesis
  proof (cases "pv_IsStale (env_now env) p \<or> pl_count p = 0")
    case False
    then have "list_repr (elem_of (view s)) key p xs" using present(6) by simp
    moreover from this have "xs \<noteq> []" using False by (auto simp: list_repr_def unat_eq_zero)
    moreover have "push_meta p = p" using False by (simp add: push_meta_def)
    ultimately show thesis
      using live [of p] present(1-4) False pl_wf_D [OF present(2)] push_meta_ok(5,6) [OF present(2,3,4,5,6)]
      by (auto simp: list_repr_def)
  qed (use present stale pl_wf_D [OF present(2)] in auto)
next
  case (missing st mv)
  then show thesis using that(1) by (cases st) auto
qed (use that(4) in auto)

text \<open>Committing a batch that holds the meta value anywhere.\<close>

lemma commit_ops:
  assumes "key_batch key ops" and "redis_Write env ops r = (st, r')"
    and "meta_of (apply_batch sc ops (view (rds_db r))) key = Some (pv_data p)"
    and "pl_wf p" "pv_type p = kLists" "\<not> pv_IsStale now p"
    and "list_repr (elem_of (apply_batch sc ops (view (rds_db r)))) key p xs"
  shows "(st = OK \<longrightarrow> list_at now (view (rds_db r')) key xs) \<and>
    outcome view {key} r st r' \<and> (db_healthy (env_db env) view \<longrightarrow> st = OK)"
proof -
  note w = redis_Write_cases [OF assms(2)]
  have "list_at now (view (rds_db r')) key xs" if "st = OK"
    by (rule list_atI [OF _ assms(4-6)]) (use w(1) [OF that] assms(3,7) in simp_all)
  moreover have "same_except {key} (view (rds_db r)) (view (rds_db r'))" if "st = OK"
    using key_batch_same_except assms(1,2) that by simp
  ultimately show ?thesis using w by (auto simp: outcome_def stats_ok_def)
qed

text \<open>Updating the statistics after a write changes nothing a client sees.\<close>

lemma stats_after:
  assumes "stats_ok r" and "outcome view K r st r'"
  obtains r'' where "UpdateSpecificKeyStatistics kLists key n r' = Some r''" "outcome view K r st r''"
    "rds_db r'' = rds_db r'"
proof -
  have "stats_ok r'" using assms by (simp add: outcome_def)
  then obtain r'' where "UpdateSpecificKeyStatistics kLists key n r' = Some r''" "stats_ok r''" "rds_db r'' = rds_db r'"
    using UpdateSpecificKeyStatistics_ok [of r' kLists key n] by auto
  then show thesis using that [of r''] assms(2) by (simp add: outcome_def)
qed

subsection \<open>Reading\<close>

lemma LLen_correct:
  assumes "key_ok key" and "list_at (env_now env) (view (rds_db r)) key xs"
  shows "\<exists>st n. LLen env key [] r = Some (st, n) \<and>
    (st = OK \<longrightarrow> xs \<noteq> [] \<and> unat n = length xs) \<and> (is_NotFound st \<longrightarrow> xs = [] \<and> n = 0) \<and>
    (db_healthy (env_db env) view \<longrightarrow> st = OK \<or> is_NotFound st)"
  using assms by (cases rule: get_list [where mk = key]) (auto simp: LLen_def)

lemma LIndex_correct:
  assumes key: "key_ok key" and xs: "list_at (env_now env) (view (rds_db r)) key xs"
    and fits: "index_fits (env_now env) (view (rds_db r)) key (length xs) i"
  shows "\<exists>st x. LIndex env key i r = Some (st, x) \<and>
    (st = OK \<longrightarrow> map_option (nth xs) (redis_index (sint i) xs) = Some x) \<and> (is_NotFound st \<longrightarrow> redis_index (sint i) xs = None) \<and>
    (db_healthy (env_db env) view \<longrightarrow> st = OK \<or> is_NotFound st)"
  using key xs
proof (cases rule: get_list [where mk = key])
  case (live p)
  have d: "LIndex env key i r =
      (if pl_left_index p < target_index p i \<and> target_index p i < pl_right_index p
       then (case db_Get (env_db env) (rds_db r) kListsDataCF (lists_data_key env key (pv_version p) (target_index p i)) of
         (s, element) \<Rightarrow> if s = OK then map_option (Pair s) (ParsedBaseDataValue_StripSuffix element) else Some (s, element))
       else Some (NotFound [], []))"
    using live(1-4)
    by (auto simp: LIndex_def target_index_def Let_def map_option_case split: prod.split option.split)
  note t = target_index_ok [OF live(9,11,12) fits]
  show ?thesis
  proof (cases "redis_index (sint i) xs")
    case None
    then show ?thesis using t d by auto
  next
    case (Some j)
    obtain v where v: "elem_of (view (rds_db r)) (key, pv_version p, target_index p i) = Some v" "24 \<le> length v"
      "ParsedBaseDataValue_UserValue v = xs ! j"
      using list_window_nth [OF live(9), of j] t Some by auto
    then have "view (rds_db r) kListsDataCF (lists_data_key env key (pv_version p) (target_index p i)) = Some v"
      using key by (simp add: elem_of_def lists_data_key_ekey)
    then show ?thesis
      using t d Some v
      by (cases rule: Get_cases [of "rds_db r" kListsDataCF "lists_data_key env key (pv_version p) (target_index p i)"])
        (auto simp: StripSuffix_ok)
  qed
qed (auto simp: LIndex_def redis_index_def)

lemma LRange_correct:
  assumes key: "key_ok key" and xs: "list_at (env_now env) (view (rds_db r)) key xs"
    and fits: "index_fits (env_now env) (view (rds_db r)) key (length xs) start"
      "index_fits (env_now env) (view (rds_db r)) key (length xs) stop"
  shows "\<exists>st ys. LRange env key start stop r = Some (st, ys) \<and>
    (st = OK \<longrightarrow> xs \<noteq> [] \<and> ys = redis_range (sint start) (sint stop) xs) \<and> (is_NotFound st \<longrightarrow> xs = [] \<and> ys = []) \<and>
    (db_healthy (env_db env) view \<longrightarrow> st = OK \<or> is_NotFound st)"
  using key xs
proof (cases rule: get_list [where mk = key])
  case (live p)
  note t = sublist_window_ok [OF live(9,8,11,12) fits]
  show ?thesis
  proof (cases "sublist_window p start stop")
    case None
    then show ?thesis using t live by (auto simp: LRange_def)
  next
    case (Some lr)
    then obtain a b where ab: "a \<le> b" "b < length xs"
      and lr: "lr = (pl_left_index p + 1 + of_nat a, pl_left_index p + 1 + of_nat b)"
      and rr: "redis_range (sint start) (sint stop) xs = take (b + 1 - a) (drop a xs)"
      using t by (auto split: prod.splits)
    have i: "unat (pl_left_index p + 1 + of_nat a) = unat (pl_left_index p) + 1 + a"
      "unat (pl_left_index p + 1 + of_nat b) = unat (pl_left_index p) + 1 + b"
      using window_index [OF live(9)] ab by simp_all
    have "LRange_loop (it_Seek (env_db env) (rds_db r) kListsDataCF
        (lists_data_key env key (pv_version p) (pl_left_index p + 1 + of_nat a)))
        (pl_left_index p + 1 + of_nat a) (pl_left_index p + 1 + of_nat b) = take (b + 1 - a) (drop a xs)"
      using LRange_loop_ok [OF seek_window [OF key live(9), of a], of "pl_left_index p + 1 + of_nat b"] ab
        list_window_bound [OF live(9)] unfolding i by simp
    then show ?thesis using live Some lr rr by (auto simp: LRange_def)
  qed
qed (auto simp: LRange_def)

subsection \<open>Popping\<close>

lemma pop_stop_index_ok:
  assumes "0 \<le> sint count" and "unat size_w \<le> 2 ^ 31"
  shows "pop_stop_index count size_w = int (min (nat (sint count)) (unat size_w)) - 1"
proof -
  have "int (unat size_w) \<le> 2 ^ 31" using of_nat_mono [OF assms(2), where 'a = int] by simp
  then have s: "sint size_w = int (unat size_w)"
    using signed_take_bit_int_eq_self [of 63 "uint size_w"] order_trans [of "- (2 ^ 63)" 0 "uint size_w"] by (simp add: sint_uint)
  have x: "(if sint count \<le> sint size_w then sint count - 1 else sint size_w - 1) =
      int (min (nat (sint count)) (unat size_w)) - 1"
    unfolding s using assms(1) by (simp only: min_def split: if_split) linarith
  have trunc: "sint (word_of_int x :: i32) = x" if "- 1 \<le> x" "x < 2 ^ 31" for x
    using that by (simp add: sint_sbintrunc' signed_take_bit_int_eq_self_iff)
  have "int (min (nat (sint count)) (unat size_w)) \<le> 2 ^ 31"
    using of_nat_mono [OF min.coboundedI2 [OF assms(2)], where 'a = int] by simp
  then show ?thesis
    unfolding pop_stop_index_def Let_def x by (intro trunc) simp_all
qed

lemma LPop_loop_ok:
  assumes "key_ok key" and "pl_wf p" and "list_repr (elem_of m) key p xs"
    and "forward_entries sc key (pv_version p) (pl_left_index p + 1) es xs" and "n \<le> length xs"
    and "LPop_loop es cur (cur + int n - 1) p = (ys, batch, p', statistic)"
  shows "ys = take n xs \<and> pl_wf p' \<and> pv_type p' = pv_type p \<and> pv_etime p' = pv_etime p \<and> key_batch key batch \<and>
    list_repr (elem_of (apply_batch sc batch m)) key p' (drop n xs)"
  using assms
proof (induction n arbitrary: es cur p xs m ys batch p' statistic)
  case 0
  then show ?case by (cases es) (auto simp: key_batch_Nil)
next
  case (Suc n)
  then obtain x xs' where xs: "xs = x # xs'" by (cases xs) auto
  obtain k v es' where es: "es = (k, v) # es'" and k: "ecmp k (ekey key (pv_version p) (pl_left_index p + 1)) = 0"
    and v: "ParsedBaseDataValue_UserValue v = x"
    and es': "forward_entries sc key (pv_version p) (pl_left_index p + 1 + 1) es' xs'"
    using Suc.prems(4) xs by (auto elim: forward_entries_ConsE)
  let ?q = "pl_ModifyLeftIndex (- 1) (pl_ModifyCount (- 1) p)" and ?op = "Delete kListsDataCF k"
  obtain ys' batch' statistic' where rec: "LPop_loop es' (cur + 1) (cur + 1 + int n - 1) ?q = (ys', batch', p', statistic')"
    and out: "ys = x # ys'" "batch = ?op # batch'"
    using Suc.prems(6) es v by (auto split: prod.splits)
  have q: "pl_wf ?q" using Suc.prems(2) by (intro pl_intros)
  have w: "list_window (elem_of m) key (pv_version p) (pl_left_index p) (pl_right_index p) (x # xs')"
    and c: "unat (pl_count p) = length (x # xs')"
    using Suc.prems(3) xs by (simp_all add: list_repr_def)
  have "elem_of (apply_op sc ?op m) = (elem_of m)((key, pv_version p, pl_left_index p + 1) := None)"
    using delete_elem [OF Suc.prems(1) k] .
  moreover have "pl_left_index p + 1 + of_nat j \<noteq> pl_left_index p + 1" if "1 \<le> j" "j < Suc (length xs')" for j
    using window_index_inject [OF w, of j 0] that by simp
  ultimately have "list_window (elem_of (apply_op sc ?op m)) key (pv_version p) (pl_left_index p + 1) (pl_right_index p) xs'"
    using list_window_slice [OF w, of 1 "Suc (length xs')" "elem_of (apply_op sc ?op m)"] list_window_right [OF w] by simp
  moreover have "unat (pl_count p - 1) = length xs'" using unat_pred [of "pl_count p"] c by simp
  ultimately have r: "list_repr (elem_of (apply_op sc ?op m)) key ?q xs'"
    by (simp add: list_repr_def)
  have e: "forward_entries sc key (pv_version ?q) (pl_left_index ?q + 1) es' xs'" using es' by simp
  have "ys' = take n xs' \<and> pl_wf p' \<and> pv_type p' = pv_type ?q \<and> pv_etime p' = pv_etime ?q \<and> key_batch key batch' \<and>
      list_repr (elem_of (apply_batch sc batch' (apply_op sc ?op m))) key p' (drop n xs')"
    using Suc.IH [OF Suc.prems(1) q r e _ rec] Suc.prems(5) xs by simp
  then show ?case
    using out xs key_batch_Cons_delete [OF Suc.prems(1) _ k] by simp
qed

lemma RPop_loop_ok:
  assumes "key_ok key" and "pl_wf p" and "list_repr (elem_of m) key p xs"
    and "backward_entries sc key (pv_version p) (pl_right_index p - 1) es (rev xs)" and "n \<le> length xs"
    and "RPop_loop es cur (cur + int n - 1) p = (ys, batch, p', statistic)"
  shows "ys = take n (rev xs) \<and> pl_wf p' \<and> pv_type p' = pv_type p \<and> pv_etime p' = pv_etime p \<and> key_batch key batch \<and>
    list_repr (elem_of (apply_batch sc batch m)) key p' (take (length xs - n) xs)"
  using assms
proof (induction n arbitrary: es cur p xs m ys batch p' statistic)
  case 0
  then show ?case by (cases es) (auto simp: key_batch_Nil)
next
  case (Suc n)
  then obtain x xs' where xs: "xs = xs' @ [x]" by (cases xs rule: rev_cases) auto
  obtain k v es' where es: "es = (k, v) # es'" and k: "ecmp k (ekey key (pv_version p) (pl_right_index p - 1)) = 0"
    and v: "ParsedBaseDataValue_UserValue v = x"
    and es': "backward_entries sc key (pv_version p) (pl_right_index p - 1 - 1) es' (rev xs')"
    using Suc.prems(4) xs by (auto elim: backward_entries_ConsE)
  let ?q = "pl_ModifyRightIndex (- 1) (pl_ModifyCount (- 1) p)" and ?op = "Delete kListsDataCF k"
  obtain ys' batch' statistic' where rec: "RPop_loop es' (cur + 1) (cur + 1 + int n - 1) ?q = (ys', batch', p', statistic')"
    and out: "ys = x # ys'" "batch = ?op # batch'"
    using Suc.prems(6) es v by (auto split: prod.splits)
  have q: "pl_wf ?q" using Suc.prems(2) by (intro pl_intros)
  have w: "list_window (elem_of m) key (pv_version p) (pl_left_index p) (pl_right_index p) (xs' @ [x])"
    and c: "unat (pl_count p) = length (xs' @ [x])"
    using Suc.prems(3) xs by (simp_all add: list_repr_def)
  have right: "pl_right_index p - 1 = pl_left_index p + 1 + of_nat (length xs')"
    using list_window_right [OF w] by simp
  have "elem_of (apply_op sc ?op m) = (elem_of m)((key, pv_version p, pl_left_index p + 1 + of_nat (length xs')) := None)"
    using delete_elem [OF Suc.prems(1) k] unfolding right .
  moreover have "pl_left_index p + 1 + of_nat j \<noteq> pl_left_index p + 1 + of_nat (length xs')" if "j < length xs'" for j
    using window_index_inject [OF w, of j "length xs'"] that by simp
  ultimately have "list_window (elem_of (apply_op sc ?op m)) key (pv_version p) (pl_left_index p) (pl_right_index p - 1) xs'"
    unfolding right using list_window_slice [OF w, of 0 "length xs'" "elem_of (apply_op sc ?op m)"] by simp
  moreover have "unat (pl_count p - 1) = length xs'" using unat_pred [of "pl_count p"] c by simp
  ultimately have r: "list_repr (elem_of (apply_op sc ?op m)) key ?q xs'"
    by (simp add: list_repr_def)
  have e: "backward_entries sc key (pv_version ?q) (pl_right_index ?q - 1) es' (rev xs')" using es' by simp
  have "ys' = take n (rev xs') \<and> pl_wf p' \<and> pv_type p' = pv_type ?q \<and> pv_etime p' = pv_etime ?q \<and> key_batch key batch' \<and>
      list_repr (elem_of (apply_batch sc batch' (apply_op sc ?op m))) key p' (take (length xs' - n) xs')"
    using Suc.IH [OF Suc.prems(1) q r e _ rec] Suc.prems(5) xs by simp
  then show ?case
    using out xs key_batch_Cons_delete [OF Suc.prems(1) _ k] by simp
qed

text \<open>The tail shared by the popping commands: commit the loop's batch and update the statistics.\<close>

lemma commit_stats:
  assumes "stats_ok r" and "key_batch key ops"
    and "meta_of (apply_batch sc ops (view (rds_db r))) key = Some (pv_data q)"
    and "pl_wf q" "pv_type q = kLists" "\<not> pv_IsStale (env_now env) q"
    and "list_repr (elem_of (apply_batch sc ops (view (rds_db r)))) key q ys"
  shows "\<exists>st r1 r'. redis_Write env ops r = (st, r1) \<and>
    UpdateSpecificKeyStatistics kLists key n r1 = Some r' \<and> outcome view {key} r st r' \<and>
    (st = OK \<longrightarrow> list_at (env_now env) (view (rds_db r')) key ys) \<and> (db_healthy (env_db env) view \<longrightarrow> st = OK)"
proof -
  obtain st r1 where w: "redis_Write env ops r = (st, r1)" by fastforce
  note c = commit_ops [OF assms(2) w assms(3-7)]
  obtain r' where "UpdateSpecificKeyStatistics kLists key n r1 = Some r'" "outcome view {key} r st r'" "rds_db r' = rds_db r1"
    using c assms(1) by (blast elim: stats_after)
  then show ?thesis using c w by auto
qed

lemma pop_commit:
  assumes key: "key_ok key" and stats: "stats_ok r" and b: "key_batch key batch" and q: "pl_wf q" "pv_type q = kLists" "\<not> pv_IsStale (env_now env) q"
    and rep: "list_repr (elem_of (apply_batch sc batch (view (rds_db r)))) key q ys"
  shows "\<exists>st r1 r'. redis_Write env (batch @ [Put kMetaCF (base_meta_key env key) (pv_data q)]) r = (st, r1) \<and>
    UpdateSpecificKeyStatistics kLists key n r1 = Some r' \<and> outcome view {key} r st r' \<and>
    (st = OK \<longrightarrow> list_at (env_now env) (view (rds_db r')) key ys) \<and> (db_healthy (env_db env) view \<longrightarrow> st = OK)"
  unfolding base_meta_key_def
  by (rule commit_stats [OF stats _ _ q])
    (use b rep in \<open>simp_all add: key_batch_append key_batch_meta key put_meta [OF key]\<close>)

lemma LPop_correct:
  assumes key: "key_ok key" and xs: "list_at (env_now env) (view (rds_db r)) key xs" and stats: "stats_ok r"
    and count: "0 \<le> sint count" "length xs \<le> 2 ^ 31"
  shows "\<exists>st ys r'. LPop env key count r = Some ((st, ys), r') \<and> outcome view {key} r st r' \<and>
    (st = OK \<longrightarrow> xs \<noteq> [] \<and> ys = take (nat (sint count)) xs \<and> list_at (env_now env) (view (rds_db r')) key (drop (nat (sint count)) xs)) \<and>
    (db_healthy (env_db env) view \<longrightarrow> (if xs = [] then is_NotFound st else st = OK))"
  using key xs
proof (cases rule: get_list [where mk = key])
  case (live p)
  let ?es = "it_Seek (env_db env) (rds_db r) kListsDataCF (lists_data_key env key (pv_version p) (pl_left_index p + 1))"
  let ?n = "min (nat (sint count)) (length xs)"
  obtain ys batch q statistic where l: "LPop_loop ?es 0 (0 + int ?n - 1) p = (ys, batch, q, statistic)" by (rule prod_cases4)
  have e: "forward_entries sc key (pv_version p) (pl_left_index p + 1) ?es xs"
    using seek_window [OF key live(9), of 0] by simp
  have rep: "list_repr (elem_of (view (rds_db r))) key p xs" using live by (simp add: list_repr_def)
  have ok: "ys = take ?n xs" "pl_wf q" "pv_type q = kLists" "\<not> pv_IsStale (env_now env) q" "key_batch key batch"
    "list_repr (elem_of (apply_batch sc batch (view (rds_db r)))) key q (drop ?n xs)"
    using LPop_loop_ok [OF key live(5) rep e _ l] live by (auto simp: pv_IsStale_def)
  have n: "take ?n xs = take (nat (sint count)) xs" "drop ?n xs = drop (nat (sint count)) xs" by (simp_all add: min_def)
  have stop: "pop_stop_index count (pl_count p) = 0 + int ?n - 1"
    using pop_stop_index_ok [of count "pl_count p"] count live(10) by simp
  show ?thesis
    using pop_commit [OF key stats ok(5,2,3,4,6), of "ucast statistic"] l ok(1) live n stop
    by (auto simp: LPop_def Let_def)
qed (auto simp: LPop_def outcome_refl)

lemma RPop_correct:
  assumes key: "key_ok key" and xs: "list_at (env_now env) (view (rds_db r)) key xs" and stats: "stats_ok r"
    and count: "0 \<le> sint count" "length xs \<le> 2 ^ 31"
  shows "\<exists>st ys r'. RPop env key count r = Some ((st, ys), r') \<and> outcome view {key} r st r' \<and>
    (st = OK \<longrightarrow> xs \<noteq> [] \<and> ys = take (nat (sint count)) (rev xs) \<and>
       list_at (env_now env) (view (rds_db r')) key (take (length xs - nat (sint count)) xs)) \<and>
    (db_healthy (env_db env) view \<longrightarrow> (if xs = [] then is_NotFound st else st = OK))"
  using key xs
proof (cases rule: get_list [where mk = key])
  case (live p)
  let ?es = "it_SeekForPrev (env_db env) (rds_db r) kListsDataCF (lists_data_key env key (pv_version p) (pl_right_index p - 1))"
  let ?n = "min (nat (sint count)) (length xs)"
  obtain ys batch q statistic where l: "RPop_loop ?es 0 (0 + int ?n - 1) p = (ys, batch, q, statistic)" by (rule prod_cases4)
  have len: "length xs - 1 < length xs" "Suc (length xs - 1) = length xs" using live(8) by simp_all
  have right: "pl_left_index p + 1 + of_nat (length xs - 1) = pl_right_index p - 1"
    unfolding list_window_right [OF live(9)] using live(8) by (simp add: of_nat_diff Suc_leI)
  have e: "backward_entries sc key (pv_version p) (pl_right_index p - 1) ?es (rev xs)"
    using seek_window_back(1) [OF key live(9) len(1)] len unfolding right by simp
  have rep: "list_repr (elem_of (view (rds_db r))) key p xs" using live by (simp add: list_repr_def)
  have ok: "ys = take ?n (rev xs)" "pl_wf q" "pv_type q = kLists" "\<not> pv_IsStale (env_now env) q" "key_batch key batch"
    "list_repr (elem_of (apply_batch sc batch (view (rds_db r)))) key q (take (length xs - ?n) xs)"
    using RPop_loop_ok [OF key live(5) rep e _ l] live by (auto simp: pv_IsStale_def)
  have n: "take ?n (rev xs) = take (nat (sint count)) (rev xs)" "length xs - ?n = length xs - nat (sint count)"
    by (auto simp: min_def)
  have stop: "pop_stop_index count (pl_count p) = 0 + int ?n - 1"
    using pop_stop_index_ok [of count "pl_count p"] count live(10) by simp
  show ?thesis
    using pop_commit [OF key stats ok(5,2,3,4,6), of "ucast statistic"] l ok(1) live n stop
    by (auto simp: RPop_def Let_def)
qed (auto simp: RPop_def outcome_refl)

subsection \<open>Setting and trimming\<close>

lemma LSet_correct:
  assumes key: "key_ok key" and xs: "list_at (env_now env) (view (rds_db r)) key xs" and stats: "stats_ok r"
    and fits: "index_fits (env_now env) (view (rds_db r)) key (length xs) i"
  shows "\<exists>st r'. LSet env key i v r = Some (st, r') \<and> outcome view {key} r st r' \<and>
    (st = OK \<longrightarrow> (\<exists>j. redis_index (sint i) xs = Some j \<and> list_at (env_now env) (view (rds_db r')) key (xs[j := v]))) \<and>
    (db_healthy (env_db env) view \<longrightarrow> (if xs = [] then is_NotFound st
       else if redis_index (sint i) xs = None then st = Corruption ''index out of range'' else st = OK))"
  using key xs
proof (cases rule: get_list [where mk = key])
  case (live p)
  let ?t = "target_index p i"
  let ?op = "Put kListsDataCF (ListsDataKey_Encode (env_junk env) key (pv_version p) ?t) (i_val env v)"
  have range: "(?t \<le> pl_left_index p \<or> pl_right_index p \<le> ?t) = (\<not> (pl_left_index p < ?t \<and> ?t < pl_right_index p))"
    by auto
  have d: "LSet env key i v r =
      (if \<not> (pl_left_index p < ?t \<and> ?t < pl_right_index p) then Some (Corruption ''index out of range'', r)
       else (case redis_Write env [?op] r of
         (st, r') \<Rightarrow> map_option (Pair st) (UpdateSpecificKeyStatistics kLists key 1 r')))"
    unfolding range [symmetric] using live(1-4)
    by (auto simp: LSet_def target_index_def Let_def map_option_case lists_data_key_def split: prod.split option.split)
  note t = target_index_ok [OF live(9,11,12) fits]
  show ?thesis
  proof (cases "redis_index (sint i) xs")
    case None
    then show ?thesis using t d live(8) by (auto simp: outcome_refl)
  next
    case (Some j)
    have b: "key_batch key [?op]" by (intro key_batch_intros key)
    have "list_window (elem_of (apply_op sc ?op (view (rds_db r)))) key (pv_version p) (pl_left_index p) (pl_right_index p) (xs[j := v])"
      using list_window_update [OF live(9), of j "i_val env v"] t Some by (simp add: put_elem [OF key])
    then have "list_repr (elem_of (apply_batch sc [?op] (view (rds_db r)))) key p (xs[j := v])"
      using live(10) by (simp add: list_repr_def)
    moreover have "meta_of (apply_batch sc [?op] (view (rds_db r))) key = Some (pv_data p)"
      using live(7) by (simp add: put_elem [OF key])
    ultimately show ?thesis
      using commit_stats [OF stats b, of p "xs[j := v]" 1] live(3,5,6,8) d t Some by auto
  qed
qed (auto simp: LSet_def outcome_refl)

text \<open>The deletion loops clear exactly the indexes they run over.\<close>

lemma LTrim_left_loop_ok:
  assumes "key_ok key"
  shows "key_batch key (LTrim_left_loop env key version i l) \<and>
    meta_of (apply_batch sc (LTrim_left_loop env key version i l) m) = meta_of m \<and>
    (\<forall>j. elem_of (apply_batch sc (LTrim_left_loop env key version i l) m) (key, version, j) =
      (if i \<le> j \<and> j < l then None else elem_of m (key, version, j)))"
proof (induction "unat l - unat i" arbitrary: i m rule: less_induct)
  case less
  show ?case
  proof (cases "i < l")
    case True
    let ?op = "Delete kListsDataCF (ListsDataKey_Encode (env_junk env) key version i)"
    have u: "LTrim_left_loop env key version i l = ?op # LTrim_left_loop env key version (i + 1) l"
      using True by (subst LTrim_left_loop.simps) (simp add: lists_data_key_def)
    have e: "ecmp (ListsDataKey_Encode (env_junk env) key version i) (ListsDataKey_Encode (env_junk env) key version i) = 0"
      by (simp add: lists_key_equal assms)
    have "unat i < unat l" using True by (simp add: word_less_nat_alt)
    moreover from this have "unat (i + 1) = unat i + 1" using unat_u64(1) [of l] by (intro unat_succ) linarith
    ultimately have "unat l - unat (i + 1) < unat l - unat i" by simp
    note IH = less [OF this, of "apply_op sc ?op m"]
    show ?thesis unfolding u
      using IH True word_succ_le [OF True] key_batch_Cons_delete [OF assms _ e]
      by (auto simp: delete_elem [OF assms e] delete_elem_meta)
  next
    case False
    then show ?thesis by (subst (1 2 3) LTrim_left_loop.simps) (auto simp: key_batch_Nil)
  qed
qed

lemma LTrim_right_loop_ok:
  assumes "key_ok key"
  shows "key_batch key (LTrim_right_loop env key version i l) \<and>
    meta_of (apply_batch sc (LTrim_right_loop env key version i l) m) = meta_of m \<and>
    (\<forall>j. elem_of (apply_batch sc (LTrim_right_loop env key version i l) m) (key, version, j) =
      (if l < j \<and> j \<le> i then None else elem_of m (key, version, j)))"
proof (induction "unat i" arbitrary: i m rule: less_induct)
  case less
  show ?case
  proof (cases "l < i")
    case True
    let ?op = "Delete kListsDataCF (ListsDataKey_Encode (env_junk env) key version i)"
    have u: "LTrim_right_loop env key version i l = ?op # LTrim_right_loop env key version (i - 1) l"
      using True by (subst LTrim_right_loop.simps) (simp add: lists_data_key_def)
    have e: "ecmp (ListsDataKey_Encode (env_junk env) key version i) (ListsDataKey_Encode (env_junk env) key version i) = 0"
      by (simp add: lists_key_equal assms)
    have "0 < unat i" using True by (auto simp: word_less_nat_alt)
    then have "unat (i - 1) < unat i" using unat_pred by simp
    note IH = less [OF this, of "apply_op sc ?op m"]
    show ?thesis unfolding u
      using IH True word_pred_ge [OF True] key_batch_Cons_delete [OF assms _ e]
      by (auto simp: delete_elem [OF assms e] delete_elem_meta)
  next
    case False
    then show ?thesis by (subst (1 2 3) LTrim_right_loop.simps) (auto simp: key_batch_Nil)
  qed
qed

lemma LTrim_correct:
  assumes key: "key_ok key" and xs: "list_at (env_now env) (view (rds_db r)) key xs" and stats: "stats_ok r"
    and fits: "index_fits (env_now env) (view (rds_db r)) key (length xs) start"
      "index_fits (env_now env) (view (rds_db r)) key (length xs) stop"
  shows "\<exists>st r'. LTrim env key start stop r = Some (st, r') \<and> outcome view {key} r st r' \<and>
    (st = OK \<longrightarrow> xs \<noteq> [] \<and> list_at (env_now env) (view (rds_db r')) key (redis_range (sint start) (sint stop) xs)) \<and>
    (db_healthy (env_db env) view \<longrightarrow> (if xs = [] then is_NotFound st else st = OK))"
  using key xs
proof (cases rule: get_list [where mk = key])
  case (live p)
  note t = sublist_window_ok [OF live(9,8,11,12) fits]
  show ?thesis
  proof (cases "sublist_window p start stop")
    case None
    let ?q = "pl_InitialMetaValue (env_now env) p"
    let ?ops = "[Put kMetaCF (BaseKey_Encode (env_junk env) key) (pv_data ?q)]"
    have "\<exists>st r1 r'. redis_Write env ?ops r = (st, r1) \<and> UpdateSpecificKeyStatistics kLists key 0 r1 = Some r' \<and>
        outcome view {key} r st r' \<and> (st = OK \<longrightarrow> list_at (env_now env) (view (rds_db r')) key []) \<and>
        (db_healthy (env_db env) view \<longrightarrow> st = OK)"
      by (rule commit_stats [OF stats, where q = ?q])
        (use live key in \<open>simp_all add: put_meta [OF key] list_repr_initial initial_not_stale pl_intros key_batch_meta\<close>)
    then show ?thesis
      using t None live by (auto simp: LTrim_def Let_def base_meta_key_def)
  next
    case (Some lr)
    let ?L = "pl_left_index p" and ?R = "pl_right_index p"
    obtain a b where ab: "a \<le> b" "b < length xs" and lr: "lr = (?L + 1 + of_nat a, ?L + 1 + of_nat b)"
      and rr: "redis_range (sint start) (sint stop) xs = take (b + 1 - a) (drop a xs)"
      using t Some by (auto split: prod.splits)
    define left right where "left = LTrim_left_loop env key (pv_version p) (?L + 1) (?L + 1 + of_nat a)"
      and "right = LTrim_right_loop env key (pv_version p) (?R - 1) (?L + 1 + of_nat b)"
    define q where "q = pl_ModifyCount (- ((?L + 1 + of_nat a - (?L + 1)) + (?R - 1 - (?L + 1 + of_nat b))))
      (pl_ModifyRightIndex (- (?R - 1 - (?L + 1 + of_nat b))) (pl_ModifyLeftIndex (- (?L + 1 + of_nat a - (?L + 1))) p))"
    let ?ops = "Put kMetaCF (BaseKey_Encode (env_junk env) key) (pv_data q) # left @ right"
    let ?m = "apply_batch sc ?ops (view (rds_db r))"
    note ll = LTrim_left_loop_ok [OF key, of "pv_version p" "?L + 1" "?L + 1 + of_nat a", folded left_def]
      and rl = LTrim_right_loop_ok [OF key, of "pv_version p" "?R - 1" "?L + 1 + of_nat b", folded right_def]
    have elem: "elem_of ?m (key, pv_version p, ?L + 1 + of_nat j) = elem_of (view (rds_db r)) (key, pv_version p, ?L + 1 + of_nat j)"
      if "a \<le> j" "j < b + 1" for j
    proof -
      have "unat (?L + 1 + of_nat j) = unat ?L + 1 + j" "unat (?L + 1 + of_nat a) = unat ?L + 1 + a" "unat (?L + 1 + of_nat b) = unat ?L + 1 + b"
        using window_index [OF live(9)] ab that by simp_all
      then have "\<not> ?L + 1 + of_nat j < ?L + 1 + of_nat a" "\<not> ?L + 1 + of_nat b < ?L + 1 + of_nat j"
        using that by (simp_all add: word_less_nat_alt)
      then show ?thesis using ll rl by (simp add: put_meta [OF key])
    qed
    have R: "?R - 1 - (?L + 1 + of_nat b) = of_nat (length xs - 1 - b)"
      unfolding list_window_right [OF live(9)] using ab by (simp add: of_nat_diff)
    have cnt: "pl_count p = of_nat (length xs)" unfolding live(10) [symmetric] by simp
    have len: "length xs < 2 ^ 64" using list_window_bound [OF live(9)] by simp
    have "pl_count q = of_nat (b + 1 - a)"
      using ab by (simp add: q_def cnt R of_nat_diff)
    moreover have "unat (of_nat (b + 1 - a) :: u64) = b + 1 - a"
      using ab len by (intro unat_of_nat_u64) linarith
    ultimately have count: "unat (pl_count q) = b + 1 - a" by (simp only:)
    have "pl_left_index q = ?L + of_nat a" by (simp add: q_def)
    moreover have "pl_right_index q = ?L + 1 + of_nat (b + 1)" by (simp add: q_def)
    ultimately have rep: "list_repr (elem_of ?m) key q (take (b + 1 - a) (drop a xs))"
      using list_window_slice [OF live(9), of a "b + 1" "elem_of ?m"] elem ab count
      by (simp add: list_repr_def q_def)
    have "key_batch key ?ops"
      using key_batch_append [OF key_batch_meta [OF key] key_batch_append] ll rl by fastforce
    moreover have "meta_of ?m key = Some (pv_data q)" using ll rl by (simp add: put_meta [OF key])
    moreover have "pl_wf q" using live(5) by (simp add: q_def pl_intros)
    moreover have "pv_type q = kLists" "\<not> pv_IsStale (env_now env) q" using live(3,6) by (auto simp: q_def pv_IsStale_def)
    ultimately obtain st r1 r' where w: "redis_Write env ?ops r = (st, r1)"
        "UpdateSpecificKeyStatistics kLists key (ucast (of_nat (length left) + of_nat (length right) :: u32)) r1 = Some r'"
      and c: "outcome view {key} r st r'" "st = OK \<longrightarrow> list_at (env_now env) (view (rds_db r')) key (take (b + 1 - a) (drop a xs))"
        "db_healthy (env_db env) view \<longrightarrow> st = OK"
      using commit_stats [OF stats _ _ _ _ _ rep] by blast
    have "LTrim env key start stop r = Some (st, r')"
      using live(3,4)
      by (simp only: LTrim_def Let_def base_meta_key_def live(1,2) Some lr w bind.bind_lunit option.case prod.case sum.case
          if_True if_False simp_thms q_def [symmetric] left_def [symmetric] right_def [symmetric])
    then show ?thesis using c rr live(8) by auto
  qed
next
  case (stale p)
  then show ?thesis by (cases "pv_IsStale (env_now env) p") (simp_all add: LTrim_def Let_def outcome_refl)
qed (auto simp: LTrim_def outcome_refl)

end

end
