(* ===== verification/ListsMove.thy ===== *)
theory ListsMove
  imports ListsOps
begin

text \<open>
  Correctness of \<open>LInsert\<close>, which rewrites one side of the list: the elements between the position and
  the nearer end are moved by one index.
\<close>

section \<open>What a client expects\<close>

fun redis_insert :: "BeforeOrAfter \<Rightarrow> 'a \<Rightarrow> 'a \<Rightarrow> 'a list \<Rightarrow> 'a list option" where
  "redis_insert ba pivot v [] = None"
| "redis_insert ba pivot v (x # xs) =
     (if x = pivot then Some (case ba of Before \<Rightarrow> v # x # xs | After \<Rightarrow> x # v # xs)
      else map_option (Cons x) (redis_insert ba pivot v xs))"

subsection \<open>Insertion at a position\<close>

abbreviation pivot_pos :: "'a \<Rightarrow> 'a list \<Rightarrow> nat" where
  "pivot_pos pivot xs \<equiv> length (takeWhile (\<lambda>x. x \<noteq> pivot) xs)"

definition insert_pos :: "BeforeOrAfter \<Rightarrow> 'a \<Rightarrow> 'a list \<Rightarrow> nat" where
  "insert_pos ba pivot xs = (if ba = After then Suc (pivot_pos pivot xs) else pivot_pos pivot xs)"

lemma pivot_pos_less: "pivot \<in> set xs \<Longrightarrow> pivot_pos pivot xs < length xs"
  by (induction xs) auto

lemma redis_insert_pos:
  "redis_insert ba pivot v xs =
    (if pivot \<in> set xs then Some (take (insert_pos ba pivot xs) xs @ v # drop (insert_pos ba pivot xs) xs) else None)"
  by (induction xs) (auto simp: insert_pos_def split: BeforeOrAfter.splits)

text \<open>Inserting by moving the elements before the position one index down, or those from it on one up.\<close>

lemma list_window_insert_left:
  assumes w: "list_window E k version left right xs" and room: "0 < unat left" and c: "c \<le> length xs"
    and front: "\<And>j. j < c \<Longrightarrow> \<exists>u. E' (k, version, left + of_nat j) = Some u \<and> 24 \<le> length u \<and> ParsedBaseDataValue_UserValue u = xs ! j"
    and new: "\<exists>u. E' (k, version, left + of_nat c) = Some u \<and> 24 \<le> length u \<and> ParsedBaseDataValue_UserValue u = v"
    and rest: "\<And>j. c \<le> j \<Longrightarrow> j < length xs \<Longrightarrow> E' (k, version, left + 1 + of_nat j) = E (k, version, left + 1 + of_nat j)"
  shows "list_window E' k version (left - 1) right (take c xs @ v # drop c xs)"
  unfolding list_window_def
proof (intro conjI allI impI)
  show "unat right = unat (left - 1) + 1 + length (take c xs @ v # drop c xs)"
    using w c room by (simp add: list_window_def unat_pred)
  fix j assume j: "j < length (take c xs @ v # drop c xs)"
  have i: "left - 1 + 1 + of_nat j = left + of_nat j" by simp
  consider "j < c" | "j = c" | "c < j" by linarith
  then show "\<exists>u. E' (k, version, left - 1 + 1 + of_nat j) = Some u \<and> 24 \<le> length u \<and>
      ParsedBaseDataValue_UserValue u = (take c xs @ v # drop c xs) ! j"
  proof cases
    case 1
    then show ?thesis unfolding i using front [of j] c by (simp add: nth_append)
  next
    case 2
    then show ?thesis unfolding i using new c by (simp add: nth_append)
  next
    case 3
    then obtain l where l: "j = Suc l" "c \<le> l" "l < length xs" using j c by (cases j) auto
    have "left + of_nat j = left + 1 + of_nat l" using l by simp
    moreover have "(take c xs @ v # drop c xs) ! j = xs ! l" using l c by (simp add: nth_append Suc_diff_le)
    moreover obtain u where "E (k, version, left + 1 + of_nat l) = Some u" "24 \<le> length u" "ParsedBaseDataValue_UserValue u = xs ! l"
      using list_window_nth [OF w l(3)] by blast
    ultimately show ?thesis unfolding i using rest [OF l(2,3)] by (simp only: simp_thms option.inject)
  qed
qed

lemma list_window_insert_right:
  assumes w: "list_window E k version left right xs" and room: "unat right + 1 < 2 ^ 64" and c: "c \<le> length xs"
    and front: "\<And>j. j < c \<Longrightarrow> E' (k, version, left + 1 + of_nat j) = E (k, version, left + 1 + of_nat j)"
    and new: "\<exists>u. E' (k, version, left + 1 + of_nat c) = Some u \<and> 24 \<le> length u \<and> ParsedBaseDataValue_UserValue u = v"
    and rest: "\<And>j. c \<le> j \<Longrightarrow> j < length xs \<Longrightarrow>
      \<exists>u. E' (k, version, left + 2 + of_nat j) = Some u \<and> 24 \<le> length u \<and> ParsedBaseDataValue_UserValue u = xs ! j"
  shows "list_window E' k version left (right + 1) (take c xs @ v # drop c xs)"
  unfolding list_window_def
proof (intro conjI allI impI)
  show "unat (right + 1) = unat left + 1 + length (take c xs @ v # drop c xs)"
    using w c room by (simp add: list_window_def unat_succ)
  fix j assume j: "j < length (take c xs @ v # drop c xs)"
  consider "j < c" | "j = c" | "c < j" by linarith
  then show "\<exists>u. E' (k, version, left + 1 + of_nat j) = Some u \<and> 24 \<le> length u \<and>
      ParsedBaseDataValue_UserValue u = (take c xs @ v # drop c xs) ! j"
  proof cases
    case 1
    then show ?thesis using front [of j] list_window_nth [OF w, of j] c by (auto simp: nth_append)
  next
    case 2
    then show ?thesis using new c by (simp add: nth_append)
  next
    case 3
    then obtain l where l: "j = Suc l" "c \<le> l" "l < length xs" using j c by (cases j) auto
    have "left + 1 + of_nat j = left + 2 + of_nat l" using l by simp
    moreover have "(take c xs @ v # drop c xs) ! j = xs ! l" using l c by (simp add: nth_append Suc_diff_le)
    ultimately show ?thesis using rest [OF l(2,3)] by (simp only:)
  qed
qed

subsection \<open>The loops of LInsert\<close>

lemma LInsert_find_loop_ok:
  assumes "forward_entries sc key version i es xs" and "unat right = unat i + length xs"
  shows "LInsert_find_loop pivot es i right = (if pivot \<in> set xs then Some (i + of_nat (pivot_pos pivot xs)) else None)"
  using assms
proof (induction sc key version i es xs rule: forward_entries.induct)
  case (1 sc key version i es)
  then have "\<not> i < right" by (simp add: word_less_nat_alt)
  then show ?case by (cases es) auto
next
  case (3 sc key version i k v es x xs)
  have "i < right" using 3(3) by (simp add: word_less_nat_alt)
  moreover have "unat (i + 1) = unat i + 1" using 3(3) unat_u64(1) [of right] by (intro unat_succ) simp
  ultimately show ?case using 3 by (auto simp: ac_simps)
qed simp

lemma LInsert_first_half_loop_ok:
  assumes "forward_entries sc key version i es xs" and "unat i + length xs < 2 ^ 64" and "j < length xs"
  shows "LInsert_first_half_loop ba (i + of_nat j) es i = take (if ba = After then Suc j else j) xs"
  using assms
proof (induction j arbitrary: i es xs)
  case 0
  then show ?case by (cases xs) (auto elim!: forward_entries_ConsE)
next
  case (Suc j)
  then obtain x xs' where xs: "xs = x # xs'" by (cases xs) auto
  obtain k v es' where es: "es = (k, v) # es'" "ParsedBaseDataValue_UserValue v = x" "forward_entries sc key version (i + 1) es' xs'"
    using Suc.prems(1) xs by (auto elim: forward_entries_ConsE)
  have u: "unat (i + of_nat (Suc j)) = unat i + Suc j"
    using Suc.prems(2,3) by (intro unat_plus_of_nat) simp
  then have "i \<le> i + of_nat (Suc j)" by (simp add: word_le_nat_alt del: of_nat_Suc)
  moreover have "i \<noteq> i + of_nat (Suc j)"
    by (rule notI, drule arg_cong [where f = unat]) (use u in \<open>simp del: of_nat_Suc\<close>)
  ultimately have step: "LInsert_first_half_loop ba (i + of_nat (Suc j)) es i = x # LInsert_first_half_loop ba (i + of_nat (Suc j)) es' (i + 1)"
    using es by (simp del: of_nat_Suc)
  have "unat (i + 1) + length xs' < 2 ^ 64" using Suc.prems(2) xs by (simp add: unat_succ)
  then have IH: "LInsert_first_half_loop ba (i + 1 + of_nat j) es' (i + 1) = take (if ba = After then Suc j else j) xs'"
    using Suc.IH [OF es(3)] Suc.prems(3) xs by simp
  have eq: "i + of_nat (Suc j) = i + 1 + of_nat j" by simp
  from step have "LInsert_first_half_loop ba (i + of_nat (Suc j)) es i = x # take (if ba = After then Suc j else j) xs'"
    by (simp only: eq IH)
  also have "\<dots> = take (if ba = After then Suc (Suc j) else Suc j) xs" using xs by simp
  finally show ?case .
qed

lemma LInsert_after_half_loop_rest:
  assumes "forward_entries sc key version i es xs" and "unat right = unat i + length xs" and "pivot_index < i"
  shows "LInsert_after_half_loop ba pivot_index right es i = xs"
  using assms
proof (induction sc key version i es xs rule: forward_entries.induct)
  case (1 sc key version i es)
  then have "\<not> i < right" by (simp add: word_less_nat_alt)
  then show ?case by (cases es) auto
next
  case (3 sc key version i k v es x xs)
  have "i < right" using 3(3) by (simp add: word_less_nat_alt)
  moreover have s: "unat (i + 1) = unat i + 1" using 3(3) unat_u64(1) [of right] by (intro unat_succ) simp
  moreover have "pivot_index < i + 1" using 3(4) s by (simp add: word_less_nat_alt)
  ultimately show ?case using 3 by auto
qed simp

lemma LInsert_after_half_loop_ok:
  assumes "forward_entries sc key version i es (x # xs)" and "unat right = unat i + length (x # xs)"
  shows "LInsert_after_half_loop ba i right es i = (if ba = After then xs else x # xs)"
proof -
  obtain k v es' where es: "es = (k, v) # es'" "ParsedBaseDataValue_UserValue v = x" "forward_entries sc key version (i + 1) es' xs"
    using assms(1) by (auto elim: forward_entries_ConsE)
  have "i < right" using assms(2) by (simp add: word_less_nat_alt)
  moreover have s: "unat (i + 1) = unat i + 1" using assms(2) unat_u64(1) [of right] by (intro unat_succ) simp
  moreover have "i < i + 1" using s by (simp add: word_less_nat_alt)
  ultimately show ?thesis
    using es LInsert_after_half_loop_rest [OF es(3), of right i ba] assms(2) by (cases ba) simp_all
qed

lemma stale_setters [simp]:
  "pv_IsStale now (pl_ModifyCount c p) = pv_IsStale now p" "pv_IsStale now (pl_ModifyLeftIndex i p) = pv_IsStale now p"
  "pv_IsStale now (pl_ModifyRightIndex i p) = pv_IsStale now p"
  by (simp_all add: pv_IsStale_def)

lemma sint_count_i32:
  fixes w :: u64
  assumes "unat w = n" and "n < 2 ^ 31"
  shows "sint (scast (ucast w :: i32) :: i64) = int n"
proof -
  have "uint (ucast w :: i32) = uint w mod 2 ^ 32" by (simp add: unsigned_ucast_eq take_bit_eq_mod)
  also have "uint w = int n" using assms(1) by (metis of_nat_unat)
  finally have u: "uint (ucast w :: i32) = int n" using assms(2) by simp
  then have s: "sint (ucast w :: i32) = int n"
    using assms(2) signed_take_bit_int_eq_self [of 31 "int n"] by (simp add: sint_uint u)
  have "sint (scast (ucast w :: i32) :: i64) = signed_take_bit 63 (sint (ucast w :: i32))"
    by (simp add: signed_scast_eq)
  then show ?thesis
    using assms(2) signed_take_bit_int_eq_self [of 63 "int n"] by (simp add: s)
qed

context engine
begin

lemma put_nodes_ok:
  assumes key: "key_ok key" and "unat i + length vs \<le> 2 ^ 64"
  shows "key_batch key (put_nodes env key version i vs) \<and>
    meta_of (apply_batch sc (put_nodes env key version i vs) m) = meta_of m \<and>
    (\<forall>j. elem_of (apply_batch sc (put_nodes env key version i vs) m) (key, version, j) =
      (if unat i \<le> unat j \<and> unat j < unat i + length vs then Some (i_val env (vs ! (unat j - unat i))) else elem_of m (key, version, j)))"
  using assms(2)
proof (induction vs arbitrary: i m)
  case Nil
  then show ?case by (auto simp: key_batch_Nil)
next
  case (Cons v vs)
  let ?op = "Put kListsDataCF (ListsDataKey_Encode (env_junk env) key version i) (i_val env v)"
  have u: "put_nodes env key version i (v # vs) = ?op # put_nodes env key version (i + 1) vs"
    by (simp add: lists_data_key_def)
  show ?case
  proof (cases "vs = []")
    case True
    then show ?thesis unfolding u using key_batch_Cons_put [OF key key_batch_Nil]
      by (auto simp: put_elem [OF key] word_unat_eq_iff)
  next
    case False
    then have "1 \<le> length vs" by (simp add: Suc_leI)
    then have "unat i + 1 < 2 ^ 64" using Cons.prems by (simp only: list.size)
    then have s: "unat (i + 1) = unat i + 1" by (rule unat_succ)
    then have "unat (i + 1) + length vs \<le> 2 ^ 64" using Cons.prems by simp
    note IH = Cons.IH [OF this, of "apply_op sc ?op m"]
    have "elem_of (apply_batch sc (put_nodes env key version i (v # vs)) m) (key, version, j) =
        (if unat i \<le> unat j \<and> unat j < unat i + length (v # vs) then Some (i_val env ((v # vs) ! (unat j - unat i)))
         else elem_of m (key, version, j))" for j
      unfolding u using IH s
      by (cases "unat j = unat i") (auto simp: put_elem [OF key] word_unat_eq_iff nth_Cons')
    then show ?thesis
      unfolding u using IH key_batch_Cons_put [OF key] by (simp add: put_elem [OF key])
  qed
qed

text \<open>Both ways of making place give the list with the new element.\<close>

lemma insert_batch:
  assumes key: "key_ok key" and w: "list_window (elem_of m) key version left right xs" and c: "c \<le> length xs"
    and room: "0 < unat left" "unat right + 1 < 2 ^ 64"
  shows "list_window ((elem_of (apply_batch sc (put_nodes env key version left (take c xs)) m))
      ((key, version, left + of_nat c) \<mapsto> i_val env v)) key version (left - 1) right (take c xs @ v # drop c xs)"
    and "list_window ((elem_of (apply_batch sc (put_nodes env key version (left + 1 + of_nat c + 1) (drop c xs)) m))
      ((key, version, left + 1 + of_nat c) \<mapsto> i_val env v)) key version left (right + 1) (take c xs @ v # drop c xs)"
proof -
  have b: "unat right = unat left + 1 + length xs" using w by (simp add: list_window_def)
  have i: "unat (left + of_nat j) = unat left + j" if "j \<le> length xs + 2" for j
    using that b room by (intro unat_plus_of_nat) simp
  have i1: "left + 1 + of_nat j = left + of_nat (Suc j)" for j by simp
  have i2: "left + 2 + of_nat j = left + of_nat (Suc (Suc j))" for j by simp
  have i3: "left + 1 + of_nat c + 1 = left + of_nat (Suc (Suc c))" by simp
  have e: "elem_of (apply_batch sc (put_nodes env key version left (take c xs)) m) (key, version, j) =
      (if unat left \<le> unat j \<and> unat j < unat left + c then Some (i_val env (xs ! (unat j - unat left))) else elem_of m (key, version, j))" for j
    using put_nodes_ok [OF key, of left "take c xs" version m] b room c by auto
  show "list_window ((elem_of (apply_batch sc (put_nodes env key version left (take c xs)) m))
      ((key, version, left + of_nat c) \<mapsto> i_val env v)) key version (left - 1) right (take c xs @ v # drop c xs)"
    by (rule list_window_insert_left [OF w room(1) c])
      (use c i in \<open>auto simp: e i1 word_unat_eq_iff simp del: of_nat_Suc\<close>)
  have e: "elem_of (apply_batch sc (put_nodes env key version (left + of_nat (Suc (Suc c))) (drop c xs)) m) (key, version, j) =
      (if unat left + 2 + c \<le> unat j \<and> unat j < unat left + 2 + length xs then Some (i_val env (xs ! (unat j - unat left - 2)))
       else elem_of m (key, version, j))" for j
    using put_nodes_ok [OF key, of "left + of_nat (Suc (Suc c))" "drop c xs" version m] b room c i [of "Suc (Suc c)"]
    by (auto simp del: of_nat_Suc)
  show "list_window ((elem_of (apply_batch sc (put_nodes env key version (left + 1 + of_nat c + 1) (drop c xs)) m))
      ((key, version, left + 1 + of_nat c) \<mapsto> i_val env v)) key version left (right + 1) (take c xs @ v # drop c xs)"
    unfolding i3
    by (rule list_window_insert_right [OF w room(2) c])
      (use c i in \<open>auto simp: e i1 i2 word_unat_eq_iff simp del: of_nat_Suc\<close>)
qed

lemma insert_commit:
  assumes key: "key_ok key" and q: "pl_wf q" "pv_type q = kLists" "\<not> pv_IsStale (env_now env) q" "pv_version q = version"
    and b: "key_batch key batch"
    and w: "list_window ((elem_of (apply_batch sc batch (view (rds_db r))))((key, version, t) \<mapsto> i_val env v))
      key version (pl_left_index q) (pl_right_index q) ys" and count: "unat (pl_count q) = length ys"
    and wr: "redis_Write env (batch @ [Put kMetaCF (base_meta_key env key) (pv_data q),
      Put kListsDataCF (lists_data_key env key version t) (i_val env v)]) r = (st, r')"
  shows "(st = OK \<longrightarrow> list_at (env_now env) (view (rds_db r')) key ys) \<and> outcome view {key} r st r' \<and>
    (db_healthy (env_db env) view \<longrightarrow> st = OK)"
proof (rule commit_ops [OF _ wr, where p = q])
  have "key_batch key [Put kMetaCF (base_meta_key env key) (pv_data q)]"
    "key_batch key [Put kListsDataCF (lists_data_key env key version t) (i_val env v)]"
    unfolding base_meta_key_def lists_data_key_def by (intro key_batch_intros key)+
  then show "key_batch key (batch @ [Put kMetaCF (base_meta_key env key) (pv_data q),
      Put kListsDataCF (lists_data_key env key version t) (i_val env v)])"
    using key_batch_append [OF b key_batch_append] by fastforce
qed (use w count q in \<open>simp_all add: base_meta_key_def lists_data_key_def put_meta [OF key] put_elem [OF key] list_repr_def q(4)\<close>)

lemma LInsert_correct:
  assumes key: "key_ok key" and xs: "list_at (env_now env) (view (rds_db r)) key xs"
    and room: "0 < left_room (env_now env) (view (rds_db r)) key" "0 < right_room (env_now env) (view (rds_db r)) key"
    and len: "length xs + 1 < 2 ^ 31"
  shows "\<exists>st ret r'. LInsert env key ba pivot v r = Some ((st, ret), r') \<and> outcome view {key} r st r' \<and>
    (st = OK \<longrightarrow> (\<exists>ys. redis_insert ba pivot v xs = Some ys \<and> sint ret = int (length ys) \<and>
       list_at (env_now env) (view (rds_db r')) key ys)) \<and>
    (db_healthy (env_db env) view \<longrightarrow> (if redis_insert ba pivot v xs = None then is_NotFound st else st = OK))"
  using key xs
proof (cases rule: get_list [where mk = key])
  case (live p)
  let ?L = "pl_left_index p" and ?R = "pl_right_index p"
  let ?seek = "\<lambda>i. it_Seek (env_db env) (rds_db r) kListsDataCF (lists_data_key env key (pv_version p) i)"
  have rm: "0 < unat ?L" "unat ?R + 1 < 2 ^ 64" using live(11,12) room by simp_all
  have R: "unat ?R = unat ?L + 1 + length xs" using live(9) by (simp add: list_window_def)
  have L1: "unat (?L + 1) = unat ?L + 1" using R rm by (intro unat_succ) simp
  have e0: "forward_entries sc key (pv_version p) (?L + 1) (?seek (?L + 1)) xs"
    using seek_window [OF key live(9), of 0] by simp
  have find: "LInsert_find_loop pivot (?seek (?L + 1)) (?L + 1) ?R =
      (if pivot \<in> set xs then Some (?L + 1 + of_nat (pivot_pos pivot xs)) else None)"
    using LInsert_find_loop_ok [OF e0] R L1 by simp
  show ?thesis
  proof (cases "pivot \<in> set xs")
    case False
    then show ?thesis using live find by (auto simp: LInsert_def Let_def redis_insert_pos outcome_refl)
  next
    case True
    define j where "j = pivot_pos pivot xs"
    define c where "c = insert_pos ba pivot xs"
    have j: "j < length xs" unfolding j_def by (rule pivot_pos_less [OF True])
    have c: "c = (if ba = After then Suc j else j)" "c \<le> length xs" using j by (auto simp: c_def j_def insert_pos_def)
    have pos: "redis_insert ba pivot v xs = Some (take c xs @ v # drop c xs)" using True by (simp add: redis_insert_pos c_def)
    define ys where "ys = take c xs @ v # drop c xs"
    have ys: "length ys = length xs + 1" using c by (simp add: ys_def)
    have cnt: "unat (pl_count p + 1) = length ys" using live(10) ys len by (simp add: unat_succ)
    have ret: "sint (scast (ucast (pl_count p + 1) :: i32) :: i64) = int (length ys)"
      using sint_count_i32 [OF cnt] len ys by simp
    have first: "LInsert_first_half_loop ba (?L + 1 + of_nat j) (?seek (?L + 1)) (?L + 1) = take c xs"
      using LInsert_first_half_loop_ok [OF e0 _ j] c(1) L1 R unat_u64(1) [of ?R] by simp
    have ei: "forward_entries sc key (pv_version p) (?L + 1 + of_nat j) (?seek (?L + 1 + of_nat j)) (xs ! j # drop (Suc j) xs)"
      using seek_window [OF key live(9), of j] j by (simp add: Cons_nth_drop_Suc)
    have after: "LInsert_after_half_loop ba (?L + 1 + of_nat j) ?R (?seek (?L + 1 + of_nat j)) (?L + 1 + of_nat j) = drop c xs"
      using LInsert_after_half_loop_ok [OF ei, of ?R ba] window_index [OF live(9) j] R j c(1) by (simp add: Cons_nth_drop_Suc)
    have t: "(if ba = Before then ?L + 1 + of_nat j - 1 else ?L + 1 + of_nat j) = ?L + of_nat c"
      "(if ba = Before then ?L + 1 + of_nat j else ?L + 1 + of_nat j + 1) = ?L + 1 + of_nat c"
      using c(1) by (cases ba; simp)+
    note d = LInsert_def [of env key ba pivot v r] live(1,2) find
    note win = insert_batch [OF key live(9) c(2) rm, of v, folded ys_def]
    show ?thesis
    proof (cases "?L + 1 + of_nat j \<le> ?L + (?R - ?L) div 2")
      case le: True
      let ?q = "pl_ModifyCount 1 (pl_ModifyLeftIndex 1 p)"
      let ?batch = "put_nodes env key (pv_version p) ?L (take c xs)"
      obtain st r' where wr: "redis_Write env (?batch @ [Put kMetaCF (base_meta_key env key) (pv_data ?q),
          Put kListsDataCF (lists_data_key env key (pv_version p) (?L + of_nat c)) (i_val env v)]) r = (st, r')"
        by fastforce
      have "LInsert env key ba pivot v r = Some ((st, scast (ucast (pl_count ?q) :: i32)), r')"
        using live(3,4) True le by (simp only: d Let_def bind.bind_lunit option.case prod.case sum.case
            if_True if_False simp_thms j_def [symmetric] first t wr)
      moreover have "key_batch key ?batch" using put_nodes_ok [OF key, of ?L "take c xs"] R rm c(2) by simp
      moreover have "list_window ((elem_of (apply_batch sc ?batch (view (rds_db r))))
          ((key, pv_version p, ?L + of_nat c) \<mapsto> i_val env v)) key (pv_version p) (pl_left_index ?q) (pl_right_index ?q) ys"
        using win(1) by simp
      moreover from calculation(2,3) have "(st = OK \<longrightarrow> list_at (env_now env) (view (rds_db r')) key ys) \<and> outcome view {key} r st r' \<and>
          (db_healthy (env_db env) view \<longrightarrow> st = OK)"
        by (intro insert_commit [OF key _ _ _ _ _ _ _ wr]) (use live(3,5,6) cnt in \<open>simp_all add: pl_intros\<close>)
      ultimately show ?thesis using ret pos [folded ys_def] by auto
    next
      case gt: False
      let ?q = "pl_ModifyCount 1 (pl_ModifyRightIndex 1 p)"
      let ?batch = "put_nodes env key (pv_version p) (?L + 1 + of_nat c + 1) (drop c xs)"
      obtain st r' where wr: "redis_Write env (?batch @ [Put kMetaCF (base_meta_key env key) (pv_data ?q),
          Put kListsDataCF (lists_data_key env key (pv_version p) (?L + 1 + of_nat c)) (i_val env v)]) r = (st, r')"
        by fastforce
      have "LInsert env key ba pivot v r = Some ((st, scast (ucast (pl_count ?q) :: i32)), r')"
        using live(3,4) True gt by (simp only: d Let_def bind.bind_lunit option.case prod.case sum.case
            if_True if_False simp_thms j_def [symmetric] after t wr)
      moreover have "unat (?L + of_nat (c + 2)) = unat ?L + (c + 2)" using R rm c(2) by (intro unat_plus_of_nat) simp
      then have "key_batch key ?batch" using put_nodes_ok [OF key, of "?L + 1 + of_nat c + 1" "drop c xs"] R rm c(2)
        by (simp add: ac_simps)
      moreover have "list_window ((elem_of (apply_batch sc ?batch (view (rds_db r))))
          ((key, pv_version p, ?L + 1 + of_nat c) \<mapsto> i_val env v)) key (pv_version p) (pl_left_index ?q) (pl_right_index ?q) ys"
        using win(2) by simp
      moreover from calculation(2,3) have "(st = OK \<longrightarrow> list_at (env_now env) (view (rds_db r')) key ys) \<and> outcome view {key} r st r' \<and>
          (db_healthy (env_db env) view \<longrightarrow> st = OK)"
        by (intro insert_commit [OF key _ _ _ _ _ _ _ wr]) (use live(3,5,6) cnt in \<open>simp_all add: pl_intros\<close>)
      ultimately show ?thesis using ret pos [folded ys_def] by auto
    qed
  qed
qed (auto simp: LInsert_def outcome_refl)

end

end
