(* ===== verification/ListsRem.thy ===== *)
theory ListsRem
  imports ListsMove
begin

text \<open>
  Correctness of \<open>LRem\<close>: it collects the indexes of the matching elements, moves the elements of the
  shorter side over them and deletes the freed indexes at that end.
\<close>

section \<open>What a client expects\<close>

fun remove_first :: "nat \<Rightarrow> 'a \<Rightarrow> 'a list \<Rightarrow> 'a list" where
  "remove_first 0 v xs = xs"
| "remove_first (Suc n) v [] = []"
| "remove_first (Suc n) v (x # xs) = (if x = v then remove_first n v xs else x # remove_first (Suc n) v xs)"

definition redis_rem :: "int \<Rightarrow> 'a \<Rightarrow> 'a list \<Rightarrow> 'a list" where
  "redis_rem count v xs =
     (if count = 0 then filter (\<lambda>x. x \<noteq> v) xs
      else if count > 0 then remove_first (nat count) v xs
      else rev (remove_first (nat (- count)) v (rev xs)))"

text \<open>The positions, from \<open>k\<close> on, of the first \<open>n\<close> matches.\<close>

fun match_positions :: "nat \<Rightarrow> 'a \<Rightarrow> nat \<Rightarrow> 'a list \<Rightarrow> nat list" where
  "match_positions n v k [] = []"
| "match_positions n v k (x # xs) =
     (if n = 0 then [] else if x = v then k # match_positions (n - 1) v (Suc k) xs else match_positions n v (Suc k) xs)"

lemma match_positions_0 [simp]: "match_positions 0 v k xs = []"
  by (cases xs) auto

lemma length_match_positions: "length (match_positions n v k xs) = min n (count_list xs v)"
  by (induction n v k xs rule: match_positions.induct) auto

lemma hd_match_positions:
  "match_positions n v k xs \<noteq> [] \<Longrightarrow> hd (match_positions n v k xs) = k + length (takeWhile (\<lambda>x. x \<noteq> v) xs)"
  by (induction n v k xs rule: match_positions.induct) auto

lemma last_match_positions:
  "match_positions n v k xs \<noteq> [] \<Longrightarrow> \<exists>l < length xs. last (match_positions n v k xs) = k + l \<and>
     count_list (take (Suc l) xs) v = length (match_positions n v k xs)"
proof (induction n v k xs rule: match_positions.induct)
  case (2 n v k x xs)
  then have n: "n \<noteq> 0" by (cases "n = 0") auto
  show ?case
  proof (cases "x = v")
    case True
    show ?thesis
    proof (cases "match_positions (n - 1) v (Suc k) xs = []")
      case True': True
      then show ?thesis using n True by auto
    next
      case False
      then obtain l where "l < length xs" "last (match_positions (n - 1) v (Suc k) xs) = Suc k + l"
        "count_list (take (Suc l) xs) v = length (match_positions (n - 1) v (Suc k) xs)"
        using 2(1) n True by auto
      then show ?thesis using n True False by (intro exI [of _ "Suc l"]) auto
    qed
  next
    case False
    then obtain l where "l < length xs" "last (match_positions n v (Suc k) xs) = Suc k + l"
      "count_list (take (Suc l) xs) v = length (match_positions n v (Suc k) xs)"
      using 2 n by auto
    then show ?thesis using n False by (intro exI [of _ "Suc l"]) auto
  qed
qed simp

lemma remove_first_min: "remove_first n v xs = remove_first (min n (count_list xs v)) v xs"
proof (induction n v xs rule: remove_first.induct)
  case (3 n v x xs)
  have "remove_first (min (Suc n) (Suc (count_list xs v))) v (v # xs) = remove_first (min n (count_list xs v)) v xs"
    by simp
  moreover have "remove_first (min (Suc n) (count_list xs v)) v (x # xs) = x # remove_first (min (Suc n) (count_list xs v)) v xs" if "x \<noteq> v"
    using that by (cases "min (Suc n) (count_list xs v)") auto
  ultimately show ?case using 3 by auto
qed auto

lemma remove_first_all: "count_list xs v \<le> n \<Longrightarrow> remove_first n v xs = filter (\<lambda>x. x \<noteq> v) xs"
proof (induction n v xs rule: remove_first.induct)
  case (1 v xs)
  then show ?case by (induction xs) (auto split: if_splits)
qed (auto split: if_splits)

lemma remove_first_append:
  "remove_first n v (xs @ ys) = remove_first n v xs @ remove_first (n - count_list xs v) v ys"
proof (induction n v xs rule: remove_first.induct)
  case (2 n v)
  then show ?case by (cases "n - count_list [] v") auto
qed auto

lemma length_remove_first: "length (remove_first n v xs) = length xs - min n (count_list xs v)"
proof (induction n v xs rule: remove_first.induct)
  case (3 n v x xs)
  then show ?case using count_le_length [of xs v] by auto
qed auto

text \<open>Removing from the first match on, or up to the last removed match, gives the same list.\<close>

lemma remove_from_first_match:
  assumes "match_positions n v 0 xs \<noteq> []"
  defines "f \<equiv> hd (match_positions n v 0 xs)"
  shows "take f xs @ remove_first (length (match_positions n v 0 xs)) v (drop f xs) = remove_first n v xs"
proof -
  have f: "f = length (takeWhile (\<lambda>x. x \<noteq> v) xs)" unfolding f_def using hd_match_positions [OF assms(1)] by simp
  then have t: "take f xs = takeWhile (\<lambda>x. x \<noteq> v) xs" by (simp add: takeWhile_eq_take [symmetric])
  then have none: "count_list (take f xs) v = 0" by (auto simp: count_list_0_iff dest: set_takeWhileD)
  have "remove_first n v xs = remove_first (min n (count_list xs v)) v (take f xs @ drop f xs)"
    by (simp add: remove_first_min [symmetric])
  also have "\<dots> = take f xs @ remove_first (min n (count_list xs v)) v (drop f xs)"
    unfolding remove_first_append using none remove_first_min [of "min n (count_list xs v)" v "take f xs"] by simp
  finally show ?thesis by (simp add: length_match_positions)
qed

lemma remove_to_last_match:
  assumes "match_positions n v 0 xs \<noteq> []"
  defines "l \<equiv> last (match_positions n v 0 xs)"
  shows "filter (\<lambda>x. x \<noteq> v) (take (Suc l) xs) @ drop (Suc l) xs = remove_first n v xs"
    and "count_list (take (Suc l) xs) v = length (match_positions n v 0 xs)" and "l < length xs"
proof -
  show c: "count_list (take (Suc l) xs) v = length (match_positions n v 0 xs)" and "l < length xs"
    using last_match_positions [OF assms(1)] by (auto simp: l_def)
  have "remove_first n v xs = remove_first (length (match_positions n v 0 xs)) v (take (Suc l) xs @ drop (Suc l) xs)"
    by (simp add: length_match_positions remove_first_min [symmetric])
  also have "\<dots> = filter (\<lambda>x. x \<noteq> v) (take (Suc l) xs) @ drop (Suc l) xs"
    unfolding remove_first_append using c remove_first_all [of "take (Suc l) xs" v] by simp
  finally show "filter (\<lambda>x. x \<noteq> v) (take (Suc l) xs) @ drop (Suc l) xs = remove_first n v xs" ..
qed

lemma match_positions_less: "j \<in> set (match_positions n v k xs) \<Longrightarrow> k \<le> j \<and> j < k + length xs"
  by (induction n v k xs rule: match_positions.induct) (auto split: if_splits)

lemma match_positions_empty: "match_positions n v k xs = [] \<longleftrightarrow> n = 0 \<or> v \<notin> set xs"
  using length_match_positions [of n v k xs] by (auto simp: count_list_0_iff min_def split: if_splits)

lemma unat_abs_count:
  fixes count :: i64
  shows "0 \<le> sint count \<Longrightarrow> unat count = nat (sint count)" "sint count < 0 \<Longrightarrow> unat (- count) = nat (- sint count)"
proof -
  have r: "- (2 ^ 63) \<le> sint count" "sint count < 2 ^ 63"
    using sint_ge [of count] sint_lt [of count] by simp_all
  have u: "uint (word_of_int x :: u64) = x" if "0 \<le> x" "x < 2 ^ 64" for x
    using that by (simp add: uint_word_of_int)
  show "unat count = nat (sint count)" if "0 \<le> sint count"
    using u [of "sint count"] that r by (simp add: unat_eq_nat_uint)
  show "unat (- count) = nat (- sint count)" if "sint count < 0"
    using u [of "- sint count"] that r by (simp add: unat_eq_nat_uint)
qed

text \<open>
  The positions of the removed elements, first and last, for either direction: removing \<open>n\<close> matches from
  the left of the last one or from the right of the first one gives the expected list.
\<close>

definition rem_span :: "int \<Rightarrow> 'a \<Rightarrow> 'a list \<Rightarrow> nat \<Rightarrow> nat \<Rightarrow> nat \<Rightarrow> bool" where
  "rem_span count v xs n f l \<longleftrightarrow> f < length xs \<and> l < length xs \<and>
     n \<le> count_list (take (Suc l) xs) v \<and> n \<le> count_list (drop f xs) v \<and>
     rev (remove_first n v (rev (take (Suc l) xs))) @ drop (Suc l) xs = redis_rem count v xs \<and>
     take f xs @ remove_first n v (drop f xs) = redis_rem count v xs"

lemma count_list_drop_first:
  assumes "match_positions n v 0 xs \<noteq> []"
  shows "count_list (drop (hd (match_positions n v 0 xs)) xs) v = count_list xs v" "hd (match_positions n v 0 xs) < length xs"
proof -
  let ?f = "hd (match_positions n v 0 xs)"
  have f: "?f = length (takeWhile (\<lambda>x. x \<noteq> v) xs)" using hd_match_positions [OF assms] by simp
  have "count_list xs v = count_list (take ?f xs) v + count_list (drop ?f xs) v"
    by (simp add: count_list_append [symmetric])
  moreover have "count_list (take ?f xs) v = 0"
    unfolding f by (auto simp: takeWhile_eq_take [symmetric] count_list_0_iff dest: set_takeWhileD)
  ultimately show c: "count_list (drop ?f xs) v = count_list xs v" by simp
  show "?f < length xs"
  proof (rule ccontr)
    assume "\<not> ?f < length xs"
    then have "count_list xs v = 0" using c by simp
    then show False using assms length_match_positions [of n v 0 xs] by simp
  qed
qed

lemma rem_span_forward:
  assumes "match_positions n v 0 xs \<noteq> []" and "0 \<le> count" and "if count = 0 then length xs \<le> n else n = nat count"
  shows "rem_span count v xs (length (match_positions n v 0 xs)) (hd (match_positions n v 0 xs)) (last (match_positions n v 0 xs))"
proof -
  let ?n = "length (match_positions n v 0 xs)"
  have "count_list xs v \<le> n" if "count = 0" using that assms(3) count_le_length [of xs v] by simp
  then have rem: "redis_rem count v xs = remove_first n v xs"
    using assms(2,3) by (auto simp: redis_rem_def remove_first_all)
  note last = remove_to_last_match [OF assms(1)]
  have "rev (remove_first ?n v (rev (take (Suc (last (match_positions n v 0 xs))) xs))) =
      filter (\<lambda>x. x \<noteq> v) (take (Suc (last (match_positions n v 0 xs))) xs)"
    using last(2) by (subst remove_first_all) (simp_all add: count_list_rev rev_filter)
  then show ?thesis
    using last rem remove_from_first_match [OF assms(1)] count_list_drop_first [OF assms(1)] length_match_positions [of n v 0 xs]
    by (simp add: rem_span_def)
qed

lemma rem_span_backward:
  assumes "match_positions n v 0 (rev xs) \<noteq> []" and "count < 0" and "n = nat (- count)"
  defines "P \<equiv> match_positions n v 0 (rev xs)"
  shows "rem_span count v xs (length P) (length xs - 1 - last P) (length xs - 1 - hd P)"
proof -
  have ne: "match_positions n v 0 (rev xs) \<noteq> []" by (rule assms(1))
  have rem: "redis_rem count v xs = rev (remove_first n v (rev xs))" using assms(2,3) by (simp add: redis_rem_def)
  note last = remove_to_last_match [OF ne, folded P_def] and hd = count_list_drop_first [OF ne, folded P_def]
  have l: "Suc (length xs - 1 - hd P) = length xs - hd P" "length xs - 1 - last P = length xs - Suc (last P)" "xs \<noteq> []"
    using hd(2) last(3) by auto
  have t: "rev (take (length xs - hd P) xs) = drop (hd P) (rev xs)" "drop (length xs - hd P) xs = rev (take (hd P) (rev xs))"
    using hd(2) by (simp_all add: rev_take)
  have d: "drop (length xs - Suc (last P)) xs = rev (take (Suc (last P)) (rev xs))"
      "take (length xs - Suc (last P)) xs = rev (drop (Suc (last P)) (rev xs))"
    by (simp_all add: rev_take rev_drop)
  have "remove_first (length P) v (rev (take (Suc (last P)) (rev xs))) = rev (filter (\<lambda>x. x \<noteq> v) (take (Suc (last P)) (rev xs)))"
    using last(2) by (subst remove_first_all) (simp_all add: count_list_rev rev_filter)
  then have "take (length xs - Suc (last P)) xs @ remove_first (length P) v (drop (length xs - Suc (last P)) xs) = redis_rem count v xs"
    unfolding d rem last(1) [symmetric] by simp
  moreover have "rev (remove_first (length P) v (rev (take (length xs - hd P) xs))) @ drop (length xs - hd P) xs = redis_rem count v xs"
    unfolding t rem remove_from_first_match [OF ne, folded P_def, symmetric] by simp
  moreover have "length P \<le> count_list (take (length xs - hd P) xs) v"
    using hd(1) length_match_positions [of n v 0 "rev xs"] count_list_rev [of "take (length xs - hd P) xs" v]
    unfolding t by (simp add: P_def)
  moreover have "length P \<le> count_list (drop (length xs - Suc (last P)) xs) v"
    unfolding d using last(2) by (simp add: count_list_rev)
  ultimately show ?thesis using l by (simp add: rem_span_def)
qed

section \<open>The loops of LRem\<close>

lemma index_notin:
  assumes w: "list_window E k version left right xs" and j: "j < length xs"
    and "\<And>i. i \<in> A \<Longrightarrow> f i = left + 1 + of_nat (g i) \<and> g i < length xs \<and> g i \<noteq> j"
  shows "left + 1 + of_nat j \<notin> f ` A"
proof
  assume "left + 1 + of_nat j \<in> f ` A"
  then obtain i where i: "i \<in> A" "left + 1 + of_nat j = f i" by blast
  then show False using assms(3) [OF i(1)] window_index_inject [OF w j, of "g i"] by metis
qed

context engine
begin

lemma LRem_forward_loop_ok:
  assumes "forward_entries sc key version i es xs" and "unat stop + 1 = unat i + length xs" and "unat stop + 1 < 2 ^ 64"
    and "i = b + of_nat k" and "if all then length xs \<le> n else n = unat rest"
  shows "LRem_forward_loop env v all es i stop rest = map (\<lambda>j. b + of_nat j) (match_positions n v k xs)"
  using assms
proof (induction xs arbitrary: i es k n rest)
  case Nil
  then have "\<not> i \<le> stop" by (simp add: word_le_nat_alt)
  then show ?case by (cases es) auto
next
  case (Cons x xs)
  obtain k' u es' where es: "es = (k', u) # es'" "ParsedBaseDataValue_UserValue u = x" "forward_entries sc key version (i + 1) es' xs"
    using Cons.prems(1) by (auto elim: forward_entries_ConsE)
  have le: "i \<le> stop" using Cons.prems(2) by (simp add: word_le_nat_alt)
  have "unat (i + 1) = unat i + 1" using Cons.prems(2,3) by (intro unat_succ) simp
  then have stop: "unat stop + 1 = unat (i + 1) + length xs" using Cons.prems(2) by simp
  have i: "i + 1 = b + of_nat (Suc k)" using Cons.prems(4) by simp
  note IH = Cons.IH [OF es(3) stop Cons.prems(3) i]
  have r: "unat (rest - 1) = unat rest - 1" if "rest \<noteq> 0"
    using that by (simp add: unat_minus_one)
  show ?case
  proof (cases "\<not> all \<and> rest = 0")
    case True
    then show ?thesis using es Cons.prems(5) by simp
  next
    case False
    then have n: "n \<noteq> 0" using Cons.prems(5) by (auto simp: unat_gt_0 split: if_splits)
    show ?thesis
    proof (cases "x = v")
      case True
      have "if all then length xs \<le> n - 1 else n - 1 = unat (if all then rest else rest - 1)"
        using Cons.prems(5) False r by (auto split: if_splits)
      from IH [OF this] show ?thesis using es le False True n Cons.prems(4) by simp
    next
      case False': False
      have "if all then length xs \<le> n else n = unat rest" using Cons.prems(5) by (auto split: if_splits)
      from IH [OF this] show ?thesis using es le False False' n by auto
    qed
  qed
qed

lemma LRem_backward_loop_ok:
  assumes "backward_entries sc key version i es xs" and "unat i + 1 = unat start + length xs" and "0 < unat start"
    and "i = b - of_nat k"
  shows "LRem_backward_loop env v es i start rest = map (\<lambda>j. b - of_nat j) (match_positions (unat rest) v k xs)"
  using assms
proof (induction xs arbitrary: i es k rest)
  case Nil
  then have "\<not> start \<le> i" by (simp add: word_le_nat_alt)
  then show ?case by (cases es) auto
next
  case (Cons x xs)
  obtain k' u es' where es: "es = (k', u) # es'" "ParsedBaseDataValue_UserValue u = x" "backward_entries sc key version (i - 1) es' xs"
    using Cons.prems(1) by (auto elim: backward_entries_ConsE)
  have le: "start \<le> i" using Cons.prems(2) by (simp add: word_le_nat_alt)
  have "0 < unat i" using Cons.prems(2,3) by simp
  then have "unat (i - 1) = unat i - 1" by (rule unat_pred)
  then have start: "unat (i - 1) + 1 = unat start + length xs" using Cons.prems(2,3) by simp
  have i: "i - 1 = b - of_nat (Suc k)" using Cons.prems(4) by simp
  note IH = Cons.IH [OF es(3) start Cons.prems(3) i]
  have r: "unat (rest - 1) = unat rest - 1" if "rest \<noteq> 0"
    using that by (simp add: unat_minus_one)
  show ?case
  proof (cases "rest = 0")
    case True
    then show ?thesis using es by simp
  next
    case False
    then have "unat rest \<noteq> 0" by (simp add: unat_eq_zero)
    then show ?thesis using es le False IH r Cons.prems(4) by auto
  qed
qed

text \<open>
  The shifting loops write the kept elements to consecutive indexes from where they start, in the order
  they are visited, and nothing else.
\<close>

lemma LRem_shift_right_loop_ok:
  assumes key: "key_ok key" and "backward_entries sc key version i es xs" and "unat i + 1 = unat start + length xs"
    and "0 < unat start" and "unat i \<le> unat left"
  shows "let batch = LRem_shift_right_loop env key version v es i start rest left; ys = remove_first (unat rest) v xs in
    key_batch key batch \<and> meta_of (apply_batch sc batch m) = meta_of m \<and>
    (\<forall>j < length ys. \<exists>u. elem_of (apply_batch sc batch m) (key, version, left - of_nat j) = Some u \<and> 24 \<le> length u \<and>
       ParsedBaseDataValue_UserValue u = ys ! j) \<and>
    (\<forall>h. unat left < unat h \<or> unat h + length ys \<le> unat left \<longrightarrow>
       elem_of (apply_batch sc batch m) (key, version, h) = elem_of m (key, version, h))"
  using assms(2-5)
proof (induction xs arbitrary: i es rest left m)
  case Nil
  then have "\<not> start \<le> i" by (simp add: word_le_nat_alt)
  then have "LRem_shift_right_loop env key version v es i start rest left = []" by (cases es) auto
  then show ?case by (cases "unat rest") (simp_all add: key_batch_Nil)
next
  case (Cons x xs)
  obtain k' u es' where es: "es = (k', u) # es'" "24 \<le> length u" "ParsedBaseDataValue_UserValue u = x"
      "backward_entries sc key version (i - 1) es' xs"
    using Cons.prems(1) by (auto elim: backward_entries_ConsE)
  have le: "start \<le> i" using Cons.prems(2) by (simp add: word_le_nat_alt)
  have i0: "0 < unat i" using Cons.prems(2,3) by simp
  note i = unat_pred [OF i0] i0
  then have start: "unat (i - 1) + 1 = unat start + length xs" using Cons.prems(2,3) by simp
  note IH = Cons.IH [OF es(4) start Cons.prems(3)]
  show ?case
  proof (cases "x = v \<and> rest \<noteq> 0")
    case True
    then have "unat rest = Suc (unat (rest - 1))" by (simp add: unat_minus_one unat_eq_zero [symmetric])
    moreover have "LRem_shift_right_loop env key version v es i start rest left =
        LRem_shift_right_loop env key version v es' (i - 1) start (rest - 1) left"
      using es le True by (simp add: word_neq_0_conv)
    ultimately show ?thesis using IH [of left "rest - 1" m] True i Cons.prems(4) by simp
  next
    case False
    let ?op = "Put kListsDataCF (ListsDataKey_Encode (env_junk env) key version left) u"
    let ?batch = "LRem_shift_right_loop env key version v es' (i - 1) start rest (left - 1)"
    let ?ys = "remove_first (unat rest) v xs"
    have b: "LRem_shift_right_loop env key version v es i start rest left = ?op # ?batch"
      using es le False by (auto simp: lists_data_key_def word_neq_0_conv)
    have ys: "remove_first (unat rest) v (x # xs) = x # ?ys"
      using False by (cases "unat rest") (auto simp: unat_eq_zero)
    have l0: "0 < unat left" using i(2) Cons.prems(4) by simp
    note l = unat_pred [OF l0] l0
    have "unat (i - 1) \<le> unat (left - 1)" using i l Cons.prems(4) by simp
    note IH = IH [OF this, of rest "apply_op sc ?op m", unfolded Let_def]
    have len: "length ?ys \<le> unat i - 1"
      using length_remove_first [of "unat rest" v xs] Cons.prems(2,3) by simp
    have e: "\<exists>w. elem_of (apply_batch sc (?op # ?batch) m) (key, version, left - of_nat j) = Some w \<and> 24 \<le> length w \<and>
        ParsedBaseDataValue_UserValue w = (x # ?ys) ! j" if "j < length (x # ?ys)" for j
    proof (cases j)
      case 0
      then show ?thesis using IH l es by (simp add: put_elem [OF key])
    next
      case (Suc j')
      have eq: "left - of_nat j = left - 1 - of_nat j'" using Suc by simp
      have "j' < length ?ys" "(x # ?ys) ! j = ?ys ! j'" using that Suc by simp_all
      then show ?thesis unfolding eq using IH by simp
    qed
    have f: "elem_of (apply_batch sc (?op # ?batch) m) (key, version, h) = elem_of m (key, version, h)"
      if "unat left < unat h \<or> unat h + length (x # ?ys) \<le> unat left" for h
      using IH that l by (auto simp: put_elem [OF key])
    show ?thesis
      unfolding b ys Let_def using IH key_batch_Cons_put [OF key] e f by (simp add: put_elem [OF key])
  qed
qed

lemma LRem_shift_left_loop_ok:
  assumes key: "key_ok key" and "forward_entries sc key version i es xs" and "unat stop + 1 = unat i + length xs"
    and "unat stop + 1 < 2 ^ 64" and "unat right \<le> unat i"
  shows "let batch = LRem_shift_left_loop env key version v es i stop rest right; ys = remove_first (unat rest) v xs in
    key_batch key batch \<and> meta_of (apply_batch sc batch m) = meta_of m \<and>
    (\<forall>j < length ys. \<exists>u. elem_of (apply_batch sc batch m) (key, version, right + of_nat j) = Some u \<and> 24 \<le> length u \<and>
       ParsedBaseDataValue_UserValue u = ys ! j) \<and>
    (\<forall>h. unat h < unat right \<or> unat right + length ys \<le> unat h \<longrightarrow>
       elem_of (apply_batch sc batch m) (key, version, h) = elem_of m (key, version, h))"
  using assms(2-5)
proof (induction xs arbitrary: i es rest right m)
  case Nil
  then have "\<not> i \<le> stop" by (simp add: word_le_nat_alt)
  then have "LRem_shift_left_loop env key version v es i stop rest right = []" by (cases es) auto
  then show ?case by (cases "unat rest") (simp_all add: key_batch_Nil)
next
  case (Cons x xs)
  obtain k' u es' where es: "es = (k', u) # es'" "24 \<le> length u" "ParsedBaseDataValue_UserValue u = x"
      "forward_entries sc key version (i + 1) es' xs"
    using Cons.prems(1) by (auto elim: forward_entries_ConsE)
  have le: "i \<le> stop" using Cons.prems(2) by (simp add: word_le_nat_alt)
  have i: "unat (i + 1) = unat i + 1" using Cons.prems(2,3) by (intro unat_succ) simp
  then have stop: "unat stop + 1 = unat (i + 1) + length xs" using Cons.prems(2) by simp
  note IH = Cons.IH [OF es(4) stop Cons.prems(3)]
  show ?case
  proof (cases "x = v \<and> rest \<noteq> 0")
    case True
    then have "unat rest = Suc (unat (rest - 1))" by (simp add: unat_minus_one unat_eq_zero [symmetric])
    moreover have "LRem_shift_left_loop env key version v es i stop rest right =
        LRem_shift_left_loop env key version v es' (i + 1) stop (rest - 1) right"
      using es le True by (simp add: word_neq_0_conv)
    ultimately show ?thesis using IH [of right "rest - 1" m] True i Cons.prems(4) by simp
  next
    case False
    let ?op = "Put kListsDataCF (ListsDataKey_Encode (env_junk env) key version right) u"
    let ?batch = "LRem_shift_left_loop env key version v es' (i + 1) stop rest (right + 1)"
    let ?ys = "remove_first (unat rest) v xs"
    have b: "LRem_shift_left_loop env key version v es i stop rest right = ?op # ?batch"
      using es le False by (auto simp: lists_data_key_def word_neq_0_conv)
    have ys: "remove_first (unat rest) v (x # xs) = x # ?ys"
      using False by (cases "unat rest") (auto simp: unat_eq_zero)
    have l: "unat (right + 1) = unat right + 1" using Cons.prems(2-4) by (intro unat_succ) simp
    have "unat (right + 1) \<le> unat (i + 1)" using i l Cons.prems(4) by simp
    note IH = IH [OF this, of rest "apply_op sc ?op m", unfolded Let_def]
    have e: "\<exists>w. elem_of (apply_batch sc (?op # ?batch) m) (key, version, right + of_nat j) = Some w \<and> 24 \<le> length w \<and>
        ParsedBaseDataValue_UserValue w = (x # ?ys) ! j" if "j < length (x # ?ys)" for j
    proof (cases j)
      case 0
      then show ?thesis using IH l es by (simp add: put_elem [OF key])
    next
      case (Suc j')
      have eq: "right + of_nat j = right + 1 + of_nat j'" using Suc by simp
      have "j' < length ?ys" "(x # ?ys) ! j = ?ys ! j'" using that Suc by simp_all
      then show ?thesis unfolding eq using IH by simp
    qed
    have f: "elem_of (apply_batch sc (?op # ?batch) m) (key, version, h) = elem_of m (key, version, h)"
      if "unat h < unat right \<or> unat right + length (x # ?ys) \<le> unat h" for h
      using IH that l by (auto simp: put_elem [OF key])
    show ?thesis
      unfolding b ys Let_def using IH key_batch_Cons_put [OF key] e f by (simp add: put_elem [OF key])
  qed
qed

text \<open>Deleting a list of indexes.\<close>

lemma delete_indexes:
  assumes key: "key_ok key"
  shows "key_batch key (map (\<lambda>i. Delete kListsDataCF (lists_data_key env key version i)) is) \<and>
    meta_of (apply_batch sc (map (\<lambda>i. Delete kListsDataCF (lists_data_key env key version i)) is) m) = meta_of m \<and>
    (\<forall>h. elem_of (apply_batch sc (map (\<lambda>i. Delete kListsDataCF (lists_data_key env key version i)) is) m) (key, version, h) =
      (if h \<in> set is then None else elem_of m (key, version, h)))"
proof (induction "is" arbitrary: m)
  case (Cons i "is")
  have e: "ecmp (ListsDataKey_Encode (env_junk env) key version i) (ListsDataKey_Encode (env_junk env) key version i) = 0"
    by (simp add: lists_key_equal key)
  show ?case
    using Cons [of "apply_op sc (Delete kListsDataCF (lists_data_key env key version i)) m"] key_batch_Cons_delete [OF key _ e]
    by (auto simp: lists_data_key_def delete_elem [OF key e] delete_elem_meta)
qed (simp add: key_batch_Nil)

section \<open>The batches of LRem\<close>

text \<open>Moving the elements up to position \<open>l\<close> over the \<open>n\<close> removed ones and freeing the first \<open>n\<close> indexes.\<close>

lemma rem_left_batch:
  assumes key: "key_ok key" and w: "list_window (elem_of (view s)) key version left right xs" and l: "l < length xs"
    and n: "n \<le> count_list (take (Suc l) xs) v"
  defines "batch \<equiv> LRem_shift_right_loop env key version v
      (it_SeekPrev (env_db env) s kListsDataCF (lists_data_key env key version (left + 1 + of_nat l)))
      (left + 1 + of_nat l) (left + 1) (of_nat n) (left + 1 + of_nat l)"
    and "deletes \<equiv> map (\<lambda>i. Delete kListsDataCF (lists_data_key env key version i)) (map (\<lambda>i. left + of_nat i + 1) [0..<n])"
    and "ys \<equiv> rev (remove_first n v (rev (take (Suc l) xs))) @ drop (Suc l) xs"
  shows "key_batch key batch" and "key_batch key deletes" and "meta_of (apply_batch sc deletes m) = meta_of m"
    and "list_window (elem_of (apply_batch sc (batch @ [Put kMetaCF mk mv] @ deletes) (view s))) key version (left + of_nat n) right ys"
    and "length ys = length xs - n"
proof -
  let ?m = "apply_batch sc (batch @ [Put kMetaCF mk mv] @ deletes) (view s)" and ?ys = "remove_first n v (rev (take (Suc l) xs))"
  have b: "unat left + 1 + length xs < 2 ^ 64" by (rule list_window_bound [OF w])
  have nl: "n \<le> Suc l" using n count_le_length [of "take (Suc l) xs" v] l by simp
  have un: "unat (of_nat n :: u64) = n" using nl l b by (intro unat_of_nat_u64) linarith
  have e: "backward_entries sc key version (left + 1 + of_nat l)
      (it_SeekPrev (env_db env) s kListsDataCF (lists_data_key env key version (left + 1 + of_nat l))) (rev (take (Suc l) xs))"
    using seek_window_back [OF key w l] by simp
  have u: "unat (left + 1 + of_nat l) = unat left + 1 + l" by (rule window_index [OF w l])
  have u1: "unat (left + 1) = unat left + 1" using b by (intro unat_succ) linarith
  have sh: "key_batch key batch" "meta_of (apply_batch sc batch m) = meta_of m"
      "j < length ?ys \<Longrightarrow> \<exists>u. elem_of (apply_batch sc batch m) (key, version, left + 1 + of_nat l - of_nat j) = Some u \<and> 24 \<le> length u \<and>
         ParsedBaseDataValue_UserValue u = ?ys ! j"
      "unat left + 1 + l < unat h \<Longrightarrow> elem_of (apply_batch sc batch m) (key, version, h) = elem_of m (key, version, h)" for j h m
    using LRem_shift_right_loop_ok [OF key e, of "left + 1" "left + 1 + of_nat l" v "of_nat n" m] u u1 l
    by (simp_all add: batch_def Let_def un)
  have del: "key_batch key deletes" "meta_of (apply_batch sc deletes m) = meta_of m"
      "elem_of (apply_batch sc deletes m) (key, version, h) =
        (if h \<in> (\<lambda>i. left + of_nat i + 1) ` {0..<n} then None else elem_of m (key, version, h))" for h m
    using delete_indexes [OF key, of version "map (\<lambda>i. left + of_nat i + 1) [0..<n]" m] by (simp_all add: deletes_def)
  show "key_batch key batch" "key_batch key deletes" "meta_of (apply_batch sc deletes m) = meta_of m"
    by (rule sh(1) del(1,2))+
  have len: "length ?ys = Suc l - n" using n l by (simp add: length_remove_first min_absorb1)
  then show ly: "length ys = length xs - n" using nl l by (simp add: ys_def)
  have elem: "elem_of ?m (key, version, left + 1 + of_nat (n + j)) = elem_of (apply_batch sc batch (view s)) (key, version, left + 1 + of_nat (n + j))"
    if j: "n + j < length xs" for j
  proof -
    have "left + 1 + of_nat (n + j) \<notin> (\<lambda>i. left + of_nat i + 1) ` {0..<n}"
      by (rule index_notin [OF w j, where g = "\<lambda>i. i"]) (use j in auto)
    then show ?thesis by (simp add: del put_meta [OF key] del: of_nat_add)
  qed
  show "list_window (elem_of ?m) key version (left + of_nat n) right ys"
    unfolding list_window_def
  proof (intro conjI allI impI)
    have "unat (left + of_nat n) = unat left + n" using nl l b by (intro unat_plus_of_nat) linarith
    then show "unat right = unat (left + of_nat n) + 1 + length ys"
      using w ly nl l by (simp add: list_window_def)
    fix j assume "j < length ys"
    then have j: "n + j < length xs" using ly by simp
    have i: "left + of_nat n + 1 + of_nat j = left + 1 + of_nat (n + j)" by (simp add: ac_simps)
    show "\<exists>u. elem_of ?m (key, version, left + of_nat n + 1 + of_nat j) = Some u \<and> 24 \<le> length u \<and>
        ParsedBaseDataValue_UserValue u = ys ! j"
      unfolding i elem [OF j]
    proof (cases "j < length ?ys")
      case True
      define j' where "j' = length ?ys - 1 - j"
      have j': "j' < length ?ys" "l = n + j + j'" using True len nl by (auto simp: j'_def)
      have "left + 1 + of_nat l - of_nat j' = left + 1 + of_nat (n + j)" unfolding j'(2) by simp
      moreover have "ys ! j = ?ys ! j'" using True by (simp add: ys_def nth_append rev_nth j'_def)
      ultimately show "\<exists>u. elem_of (apply_batch sc batch (view s)) (key, version, left + 1 + of_nat (n + j)) = Some u \<and> 24 \<le> length u \<and>
          ParsedBaseDataValue_UserValue u = ys ! j" using sh(3) [OF j'(1), of "view s"] by (simp only:)
    next
      case False
      have "unat (left + 1 + of_nat (n + j)) = unat left + 1 + (n + j)" by (rule window_index [OF w j])
      then have "unat left + 1 + l < unat (left + 1 + of_nat (n + j))" using False len nl by linarith
      moreover have "(rev ?ys @ drop (Suc l) xs) ! j = xs ! (Suc l + (j - length ?ys))" using False l by (simp add: nth_append)
      moreover have "Suc l + (j - length ?ys) = n + j" using False len nl by linarith
      ultimately show "\<exists>u. elem_of (apply_batch sc batch (view s)) (key, version, left + 1 + of_nat (n + j)) = Some u \<and> 24 \<le> length u \<and>
          ParsedBaseDataValue_UserValue u = ys ! j"
        using sh(4) list_window_nth [OF w j] unfolding ys_def by metis
    qed
  qed
qed

text \<open>Moving the elements from position \<open>f\<close> on over the \<open>n\<close> removed ones and freeing the last \<open>n\<close> indexes.\<close>

lemma rem_right_batch:
  assumes key: "key_ok key" and w: "list_window (elem_of (view s)) key version left right xs" and f: "f < length xs"
    and n: "n \<le> count_list (drop f xs) v"
  defines "batch \<equiv> LRem_shift_left_loop env key version v
      (it_Seek (env_db env) s kListsDataCF (lists_data_key env key version (left + 1 + of_nat f)))
      (left + 1 + of_nat f) (right - 1) (of_nat n) (left + 1 + of_nat f)"
    and "deletes \<equiv> map (\<lambda>i. Delete kListsDataCF (lists_data_key env key version i)) (map (\<lambda>i. right - of_nat i - 1) [0..<n])"
    and "ys \<equiv> take f xs @ remove_first n v (drop f xs)"
  shows "key_batch key batch" and "key_batch key deletes" and "meta_of (apply_batch sc deletes m) = meta_of m"
    and "list_window (elem_of (apply_batch sc (batch @ [Put kMetaCF mk mv] @ deletes) (view s))) key version left (right - of_nat n) ys"
    and "length ys = length xs - n"
proof -
  let ?m = "apply_batch sc (batch @ [Put kMetaCF mk mv] @ deletes) (view s)" and ?ys = "remove_first n v (drop f xs)"
  have b: "unat left + 1 + length xs < 2 ^ 64" by (rule list_window_bound [OF w])
  have R: "unat right = unat left + 1 + length xs" using w by (simp add: list_window_def)
  have nl: "n \<le> length xs - f" using n count_le_length [of "drop f xs" v] by simp
  have un: "unat (of_nat n :: u64) = n" using nl b by (intro unat_of_nat_u64) linarith
  have e: "forward_entries sc key version (left + 1 + of_nat f)
      (it_Seek (env_db env) s kListsDataCF (lists_data_key env key version (left + 1 + of_nat f))) (drop f xs)"
    using seek_window [OF key w, of f] f by simp
  have u: "unat (left + 1 + of_nat f) = unat left + 1 + f" by (rule window_index [OF w f])
  have r1: "unat (right - 1) = unat left + length xs" using unat_pred [of right] R by simp
  have sh: "key_batch key batch" "meta_of (apply_batch sc batch m) = meta_of m"
      "j < length ?ys \<Longrightarrow> \<exists>u. elem_of (apply_batch sc batch m) (key, version, left + 1 + of_nat f + of_nat j) = Some u \<and> 24 \<le> length u \<and>
         ParsedBaseDataValue_UserValue u = ?ys ! j"
      "unat h < unat left + 1 + f \<Longrightarrow> elem_of (apply_batch sc batch m) (key, version, h) = elem_of m (key, version, h)" for j h m
    using LRem_shift_left_loop_ok [OF key e, of "right - 1" "left + 1 + of_nat f" v "of_nat n" m] u r1 f b
    by (simp_all add: batch_def Let_def un)
  have del: "key_batch key deletes" "meta_of (apply_batch sc deletes m) = meta_of m"
      "elem_of (apply_batch sc deletes m) (key, version, h) =
        (if h \<in> (\<lambda>i. right - of_nat i - 1) ` {0..<n} then None else elem_of m (key, version, h))" for h m
    using delete_indexes [OF key, of version "map (\<lambda>i. right - of_nat i - 1) [0..<n]" m] by (simp_all add: deletes_def)
  show "key_batch key batch" "key_batch key deletes" "meta_of (apply_batch sc deletes m) = meta_of m"
    by (rule sh(1) del(1,2))+
  have len: "length ?ys = length xs - f - n" using n by (simp add: length_remove_first min_absorb1)
  then show ly: "length ys = length xs - n" using nl f by (simp add: ys_def)
  have right: "right - of_nat i - 1 = left + 1 + of_nat (length xs - 1 - i)" if "i < length xs" for i
    unfolding list_window_right [OF w] using that by (simp add: of_nat_diff)
  have elem: "elem_of ?m (key, version, left + 1 + of_nat j) = elem_of (apply_batch sc batch (view s)) (key, version, left + 1 + of_nat j)"
    if j: "j < length xs - n" for j
  proof -
    have "left + 1 + of_nat j \<notin> (\<lambda>i. right - of_nat i - 1) ` {0..<n}"
    proof (rule index_notin [OF w])
      fix i assume "i \<in> {0..<n}"
      then have i: "i < n" "i < length xs" using nl by auto
      then show "right - of_nat i - 1 = left + 1 + of_nat (length xs - 1 - i) \<and> length xs - 1 - i < length xs \<and> length xs - 1 - i \<noteq> j"
        using right [OF i(2)] j by linarith
    qed (use j in simp)
    then show ?thesis by (simp add: del put_meta [OF key])
  qed
  show "list_window (elem_of ?m) key version left (right - of_nat n) ys"
    unfolding list_window_def
  proof (intro conjI allI impI)
    have "right - of_nat n = left + of_nat (1 + (length xs - n))"
      unfolding list_window_right [OF w] using nl by (simp add: of_nat_diff)
    moreover have "unat (left + of_nat (1 + (length xs - n))) = unat left + (1 + (length xs - n))"
      using b by (intro unat_plus_of_nat) linarith
    ultimately show "unat (right - of_nat n) = unat left + 1 + length ys" using ly by (simp only: add.assoc)
    fix j assume "j < length ys"
    then have j: "j < length xs - n" using ly by simp
    show "\<exists>u. elem_of ?m (key, version, left + 1 + of_nat j) = Some u \<and> 24 \<le> length u \<and>
        ParsedBaseDataValue_UserValue u = ys ! j"
      unfolding elem [OF j]
    proof (cases "j < f")
      case False
      have "left + 1 + of_nat f + of_nat (j - f) = left + 1 + of_nat j" using False by (simp add: of_nat_diff)
      moreover have "ys ! j = ?ys ! (j - f)" using False f by (simp add: ys_def nth_append min_absorb2)
      moreover have "j - f < length ?ys" using j False len by linarith
      ultimately show "\<exists>u. elem_of (apply_batch sc batch (view s)) (key, version, left + 1 + of_nat j) = Some u \<and> 24 \<le> length u \<and>
          ParsedBaseDataValue_UserValue u = ys ! j" using sh(3) [of "j - f" "view s"] by (simp only: simp_thms)
    next
      case True
      then have j: "j < length xs" using f by simp
      have "unat (left + 1 + of_nat j) < unat left + 1 + f" using window_index [OF w j] True by linarith
      moreover have "ys ! j = xs ! j" using True f by (simp add: ys_def nth_append)
      ultimately show "\<exists>u. elem_of (apply_batch sc batch (view s)) (key, version, left + 1 + of_nat j) = Some u \<and> 24 \<le> length u \<and>
          ParsedBaseDataValue_UserValue u = ys ! j"
        using sh(4) list_window_nth [OF w j] by metis
    qed
  qed
qed

section \<open>LRem\<close>

definition rem_targets :: "'s redis \<Rightarrow> bytes \<Rightarrow> i64 \<Rightarrow> bytes \<Rightarrow> ParsedListsMetaValue \<Rightarrow> u64 list" where
  "rem_targets r key count v p =
     (let rest = (if sint count < 0 then - count else count);
          start_index = pl_left_index p + 1; stop_index = pl_right_index p - 1; data_key = lists_data_key env key (pv_version p)
      in if sint count \<ge> 0
         then LRem_forward_loop env v (count = 0) (it_Seek (env_db env) (rds_db r) kListsDataCF (data_key start_index)) start_index stop_index rest
         else LRem_backward_loop env v (it_SeekPrev (env_db env) (rds_db r) kListsDataCF (data_key stop_index)) stop_index start_index rest)"

lemma rem_targets_ok:
  assumes key: "key_ok key" and w: "list_window (elem_of (view (rds_db r))) key (pv_version p) (pl_left_index p) (pl_right_index p) xs"
    and ne: "xs \<noteq> []"
  shows "\<exists>P. rem_targets r key count v p = map (\<lambda>j. pl_left_index p + 1 + of_nat j) P \<and> (P = [] \<longleftrightarrow> v \<notin> set xs) \<and>
    (P \<noteq> [] \<longrightarrow> rem_span (sint count) v xs (length P) (if sint count \<ge> 0 then hd P else last P) (if sint count \<ge> 0 then last P else hd P))"
proof -
  let ?L = "pl_left_index p" and ?R = "pl_right_index p"
  have b: "unat ?L + 1 + length xs < 2 ^ 64" by (rule list_window_bound [OF w])
  have R: "unat ?R = unat ?L + 1 + length xs" using w by (simp add: list_window_def)
  have L1: "unat (?L + 1) = unat ?L + 1" using b by (intro unat_succ) linarith
  have R1: "unat (?R - 1) + 1 = unat ?R" using unat_pred [of ?R] R by simp
  have len: "length xs - 1 < length xs" "Suc (length xs - 1) = length xs" using ne by simp_all
  have pos: "?R - 1 - of_nat j = ?L + 1 + of_nat (length xs - 1 - j)" if "j < length xs" for j
    unfolding list_window_right [OF w] using that by (simp add: of_nat_diff)
  show ?thesis
  proof (cases "sint count \<ge> 0")
    case True
    define n where "n = (if count = 0 then length xs else unat count)"
    have n: "if sint count = 0 then length xs \<le> n else n = nat (sint count)"
      using unat_abs_count(1) [OF True] unat_eq_zero [of count] by (auto simp: n_def)
    have n0: "n \<noteq> 0" using ne by (simp add: n_def unat_gt_0)
    have "rem_targets r key count v p = map (\<lambda>j. ?L + 1 + of_nat j) (match_positions n v 0 xs)"
      using LRem_forward_loop_ok [OF seek_window [OF key w, of 0], of "?R - 1" "?L + 1" 0 "count = 0" n count v] True R R1 L1 b
      by (simp add: rem_targets_def Let_def n_def)
    then show ?thesis
      using rem_span_forward [OF _ True n, of v] True n0 by (intro exI [of _ "match_positions n v 0 xs"]) (auto simp: match_positions_empty)
  next
    case False
    define Q where "Q = match_positions (unat (- count)) v 0 (rev xs)"
    have "- count \<noteq> 0" using False by auto
    then have n0: "unat (- count) \<noteq> 0" by (simp add: unat_eq_zero)
    have e: "backward_entries sc key (pv_version p) (?R - 1)
        (it_SeekPrev (env_db env) (rds_db r) kListsDataCF (lists_data_key env key (pv_version p) (?R - 1))) (rev xs)"
      using seek_window_back [OF key w len(1)] pos [of 0] ne len(2) by simp
    have "rem_targets r key count v p = map (\<lambda>j. ?R - 1 - of_nat j) Q"
      using LRem_backward_loop_ok [OF e, of "?L + 1" "?R - 1" 0 v "- count"] False R R1 L1
      by (simp add: rem_targets_def Let_def Q_def)
    also have "\<dots> = map (\<lambda>j. ?L + 1 + of_nat (length xs - 1 - j)) Q"
      by (intro map_cong refl pos) (use match_positions_less [of _ "unat (- count)" v 0 "rev xs"] in \<open>auto simp: Q_def\<close>)
    also have "\<dots> = map (\<lambda>j. ?L + 1 + of_nat j) (map (\<lambda>j. length xs - 1 - j) Q)" by (simp only: map_map o_def)
    finally show ?thesis
      using rem_span_backward [of "unat (- count)" v xs "sint count", folded Q_def] False unat_abs_count(2) [of count] n0
        match_positions_empty [of "unat (- count)" v 0 "rev xs", folded Q_def]
      by (intro exI [of _ "map (\<lambda>j. length xs - 1 - j) Q"]) (auto simp: hd_map last_map)
  qed
qed

lemma LRem_correct:
  assumes key: "key_ok key" and xs: "list_at (env_now env) (view (rds_db r)) key xs"
  shows "\<exists>st ret r'. LRem env key count v r = Some ((st, ret), r') \<and> outcome view {key} r st r' \<and>
    (st = OK \<longrightarrow> v \<in> set xs \<and> unat ret = length xs - length (redis_rem (sint count) v xs) \<and>
       list_at (env_now env) (view (rds_db r')) key (redis_rem (sint count) v xs)) \<and>
    (db_healthy (env_db env) view \<longrightarrow> (if v \<in> set xs then st = OK else is_NotFound st))"
  using key xs
proof (cases rule: get_list [where mk = key])
  case (live p)
  let ?L = "pl_left_index p" and ?R = "pl_right_index p" and ?ys = "redis_rem (sint count) v xs"
  obtain P where P: "rem_targets r key count v p = map (\<lambda>j. ?L + 1 + of_nat j) P" "P = [] \<longleftrightarrow> v \<notin> set xs"
    "P \<noteq> [] \<Longrightarrow> rem_span (sint count) v xs (length P) (if sint count \<ge> 0 then hd P else last P) (if sint count \<ge> 0 then last P else hd P)"
    using rem_targets_ok [OF key live(9,8), of count v] by blast
  note d = LRem_def [of env key count v r, unfolded Let_def] live(1,2) bind.bind_lunit option.case sum.case prod.case if_False if_True
    rem_targets_def [symmetric, unfolded Let_def]
  show ?thesis
  proof (cases "v \<in> set xs")
    case False
    then have "LRem env key count v r = Some ((NotFound [], 0), r)"
      using live(3,4) P by (simp only: d) simp
    then show ?thesis using False by (simp add: outcome_refl)
  next
    case True
    then have ne: "P \<noteq> []" using P(2) by simp
    define n f l where "n = length P" and "f = (if sint count \<ge> 0 then hd P else last P)" and "l = (if sint count \<ge> 0 then last P else hd P)"
    note span = P(3) [OF ne, folded n_def f_def l_def, unfolded rem_span_def]
    have T: "hd (map (\<lambda>j. ?L + 1 + of_nat j) P) = ?L + 1 + of_nat (hd P)" "last (map (\<lambda>j. ?L + 1 + of_nat j) P) = ?L + 1 + of_nat (last P)"
        "map (\<lambda>j. ?L + 1 + of_nat j) P = [] \<longleftrightarrow> False" "length (map (\<lambda>j. ?L + 1 + of_nat j) P) = n"
      using ne by (simp_all add: hd_map last_map n_def)
    have fl: "(if sint count \<ge> 0 then ?L + 1 + of_nat (hd P) else ?L + 1 + of_nat (last P)) = ?L + 1 + of_nat f"
        "(if sint count \<ge> 0 then ?L + 1 + of_nat (last P) else ?L + 1 + of_nat (hd P)) = ?L + 1 + of_nat l"
      by (simp_all add: f_def l_def)
    have n: "n \<le> length xs" using span count_le_length [of "take (Suc l) xs" v] by simp
    have un: "unat (of_nat n :: u64) = n"
      using n list_window_bound [OF live(9)] by (intro unat_of_nat_u64) linarith
    have cnt: "unat (pl_count p - of_nat n) = length xs - n"
    proof -
      have "pl_count p = of_nat (length xs)" unfolding live(10) [symmetric] by simp
      then have "pl_count p - of_nat n = of_nat (length xs - n)" using n by (simp add: of_nat_diff)
      moreover have "unat (of_nat (length xs - n) :: u64) = length xs - n"
        using list_window_bound [OF live(9)] by (intro unat_of_nat_u64) linarith
      ultimately show ?thesis by (simp only:)
    qed
    have fin: "\<exists>st ret r'. LRem env key count v r = Some ((st, ret), r') \<and> outcome view {key} r st r' \<and>
        (st = OK \<longrightarrow> v \<in> set xs \<and> unat ret = length xs - length ?ys \<and> list_at (env_now env) (view (rds_db r')) key ?ys) \<and>
        (db_healthy (env_db env) view \<longrightarrow> (if v \<in> set xs then st = OK else is_NotFound st))"
      if run: "\<And>st r'. redis_Write env (batch @ [Put kMetaCF (base_meta_key env key) (pv_data q)] @ deletes) r = (st, r') \<Longrightarrow>
          LRem env key count v r = Some ((st, of_nat n), r')"
        and b: "key_batch key batch" "key_batch key deletes" "\<And>m. meta_of (apply_batch sc deletes m) = meta_of m"
        and q: "pl_wf q" "pv_type q = kLists" "\<not> pv_IsStale (env_now env) q" "pl_count q = pl_count p - of_nat n"
        and w: "list_window (elem_of (apply_batch sc (batch @ [Put kMetaCF (base_meta_key env key) (pv_data q)] @ deletes) (view (rds_db r))))
          key (pv_version q) (pl_left_index q) (pl_right_index q) ?ys" and len: "length ?ys = length xs - n"
      for batch q deletes
    proof -
      let ?ops = "batch @ [Put kMetaCF (base_meta_key env key) (pv_data q)] @ deletes"
      obtain st r' where wr: "redis_Write env ?ops r = (st, r')" by fastforce
      have "key_batch key ?ops"
        by (intro key_batch_append b) (simp add: base_meta_key_def key_batch_meta key)
      moreover have "meta_of (apply_batch sc ?ops (view (rds_db r))) key = Some (pv_data q)"
        by (simp add: b(3) base_meta_key_def put_meta [OF key])
      moreover have "list_repr (elem_of (apply_batch sc ?ops (view (rds_db r)))) key q ?ys"
        using w len q(4) cnt by (simp add: list_repr_def)
      ultimately show ?thesis
        using commit_ops [OF _ wr _ q(1-3)] run [OF wr] True un len n by auto
    qed
    show ?thesis
    proof (cases "?L + 1 + of_nat l - (?L + 1) \<le> ?R - 1 - (?L + 1 + of_nat f)")
      case le: True
      note batch = rem_left_batch [OF key live(9), of l n v]
      show ?thesis
      proof (rule fin)
        show "LRem env key count v r = Some ((st, of_nat n), r')"
          if "redis_Write env (LRem_shift_right_loop env key (pv_version p) v
              (it_SeekPrev (env_db env) (rds_db r) kListsDataCF (lists_data_key env key (pv_version p) (?L + 1 + of_nat l)))
              (?L + 1 + of_nat l) (?L + 1) (of_nat n) (?L + 1 + of_nat l) @
            [Put kMetaCF (base_meta_key env key) (pv_data (pl_ModifyCount (- of_nat n) (pl_ModifyLeftIndex (- of_nat n) p)))] @
            map (\<lambda>i. Delete kListsDataCF (lists_data_key env key (pv_version p) i)) (map (\<lambda>i. ?L + of_nat i + 1) [0..<n])) r = (st, r')" for st r'
          using live(3,4) le by (simp only: d P(1) T fl that simp_thms)
      qed (use batch span live(3,5,6) in \<open>simp_all add: pl_intros\<close>)
    next
      case gt: False
      note batch = rem_right_batch [OF key live(9), of f n v]
      show ?thesis
      proof (rule fin)
        show "LRem env key count v r = Some ((st, of_nat n), r')"
          if "redis_Write env (LRem_shift_left_loop env key (pv_version p) v
              (it_Seek (env_db env) (rds_db r) kListsDataCF (lists_data_key env key (pv_version p) (?L + 1 + of_nat f)))
              (?L + 1 + of_nat f) (?R - 1) (of_nat n) (?L + 1 + of_nat f) @
            [Put kMetaCF (base_meta_key env key) (pv_data (pl_ModifyCount (- of_nat n) (pl_ModifyRightIndex (- of_nat n) p)))] @
            map (\<lambda>i. Delete kListsDataCF (lists_data_key env key (pv_version p) i)) (map (\<lambda>i. ?R - of_nat i - 1) [0..<n])) r = (st, r')" for st r'
          using live(3,4) gt by (simp only: d P(1) T fl that simp_thms)
      qed (use batch span live(3,5,6) in \<open>simp_all add: pl_intros\<close>)
    qed
  qed
qed (auto simp: LRem_def outcome_refl)

end

end
