(* ===== verification/ListsKeys.thy ===== *)
theory ListsKeys
  imports ListsRem
begin

text \<open>
  Correctness of the list commands that concern whole keys: \<open>RPoplpush\<close>, which moves an element between
  two lists in one write, deletion, expiry times, and the refusal of keys of another type.
\<close>

lemma stamp_ok_sint: "stamp_ok t \<longleftrightarrow> 0 \<le> sint t"
  using bit_last_iff [of t] by (simp add: stamp_ok_def not_less)

lemma stamp_okI:
  assumes "unat t < 2 ^ 63"
  shows "stamp_ok t"
proof -
  have "int (unat t) < int (2 ^ 63)" using assms by (rule of_nat_less_iff [THEN iffD2])
  then have "sint t = uint t"
    using signed_take_bit_int_eq_self [of 63 "uint t"] order_trans [of "- (2 ^ 63)" 0 "uint t"] by (simp add: sint_uint)
  then show ?thesis by (simp add: stamp_ok_sint)
qed

text \<open>The list under a key depends on the records of that key only.\<close>

lemma list_at_cong:
  assumes "meta_of m' k = meta_of m k" and "\<And>v i. elem_of m' (k, v, i) = elem_of m (k, v, i)"
  shows "list_at now m' k xs \<longleftrightarrow> list_at now m k xs"
proof -
  have "list_repr (elem_of m') k p ys \<longleftrightarrow> list_repr (elem_of m) k p ys" for p ys
    using assms(2) by (simp add: list_repr_def list_window_def)
  then show ?thesis using assms(1) by (simp add: list_at.simps)
qed

context engine
begin

text \<open>The record of the last element of a list.\<close>

lemma get_last:
  assumes key: "key_ok key" and w: "list_window (elem_of (view s)) key version left right xs" and ne: "xs \<noteq> []"
  obtains (found) u where "db_Get (env_db env) s kListsDataCF (lists_data_key env key version (right - 1)) = (OK, u)"
      "24 \<le> length u" "ParsedBaseDataValue_UserValue u = last xs"
  | (failed) st u where "db_Get (env_db env) s kListsDataCF (lists_data_key env key version (right - 1)) = (st, u)" "st \<noteq> OK"
      "\<not> is_NotFound st" "\<not> db_healthy (env_db env) view"
proof -
  have len: "length xs - 1 < length xs" using ne by simp
  have "right - 1 = left + 1 + of_nat (length xs - 1)"
    unfolding list_window_right [OF w] using ne by (simp add: of_nat_diff Suc_leI)
  then obtain u where u: "elem_of (view s) (key, version, right - 1) = Some u" "24 \<le> length u" "ParsedBaseDataValue_UserValue u = last xs"
    using list_window_nth [OF w len] ne by (auto simp: last_conv_nth)
  then have "view s kListsDataCF (lists_data_key env key version (right - 1)) = Some u"
    using key by (simp add: elem_of_def lists_data_key_ekey)
  then show thesis
    using u found failed by (cases rule: Get_cases [of s kListsDataCF "lists_data_key env key version (right - 1)"]) auto
qed

text \<open>Taking the last element away, and putting an element in front.\<close>

lemma drop_last_window:
  assumes key: "key_ok key" and w: "list_window (elem_of m) key version left right xs" and ne: "xs \<noteq> []"
  shows "list_window (elem_of (apply_op sc (Delete kListsDataCF (ListsDataKey_Encode j key version (right - 1))) m)) key version left (right - 1) (butlast xs)"
proof -
  have i: "right - 1 = left + 1 + of_nat (length xs - 1)"
    unfolding list_window_right [OF w] using ne by (simp add: of_nat_diff Suc_leI)
  have e: "ecmp (ListsDataKey_Encode j key version (right - 1)) (ListsDataKey_Encode j key version (right - 1)) = 0"
    by (simp add: lists_key_equal key)
  have "left + 1 + of_nat j \<noteq> left + 1 + of_nat (length xs - 1)" if "j < length xs - 1" for j
    using window_index_inject [OF w, of j "length xs - 1"] that by simp
  moreover have E: "elem_of (apply_op sc (Delete kListsDataCF (ListsDataKey_Encode j key version (right - 1))) m) =
      (elem_of m)((key, version, left + 1 + of_nat (length xs - 1)) := None)"
    using delete_elem [OF key e] unfolding i .
  ultimately have "list_window (elem_of (apply_op sc (Delete kListsDataCF (ListsDataKey_Encode j key version (right - 1))) m)) key version
      (left + of_nat 0) (left + 1 + of_nat (length xs - 1)) (take (length xs - 1 - 0) (drop 0 xs))"
    unfolding E by (intro list_window_slice [OF w]) simp_all
  then show ?thesis unfolding i by (simp add: butlast_conv_take)
qed

lemma push_front_window:
  assumes "key_ok key" and "list_window (elem_of m) key version left right xs" and "0 < unat left" and "24 \<le> length u"
  shows "list_window (elem_of (apply_op sc (Put kListsDataCF (ListsDataKey_Encode j key version left) u) m)) key version (left - 1) right
    (ParsedBaseDataValue_UserValue u # xs)"
  by (rule list_window_Cons [OF assms(2,3)]) (simp_all add: put_elem [OF assms(1)] assms(4))

text \<open>The write of a command that changes the records of two keys, one after the other.\<close>

lemma two_key_write:
  assumes a: "key_batch k1 A" and b: "key_batch k2 B" and ne: "k1 \<noteq> k2"
    and w: "redis_Write env (A @ B) r = (st, r')"
    and l1: "list_at now (apply_batch sc A (view (rds_db r))) k1 xs"
    and l2: "\<And>m. meta_of m k2 = meta_of (view (rds_db r)) k2 \<Longrightarrow> (\<And>v i. elem_of m (k2, v, i) = elem_of (view (rds_db r)) (k2, v, i)) \<Longrightarrow>
      list_at now (apply_batch sc B m) k2 ys"
  shows "outcome view {k1, k2} r st r' \<and> (db_healthy (env_db env) view \<longrightarrow> st = OK) \<and>
    (st = OK \<longrightarrow> list_at now (view (rds_db r')) k1 xs \<and> list_at now (view (rds_db r')) k2 ys)"
proof -
  note c = redis_Write_cases [OF w]
  let ?m = "apply_batch sc A (view (rds_db r))"
  have fin: "meta_of (view (rds_db r')) = meta_of (apply_batch sc B ?m)" "elem_of (view (rds_db r')) = elem_of (apply_batch sc B ?m)" if "st = OK"
    using c(1) [OF that] by simp_all
  have "list_at now (view (rds_db r')) k1 xs" if "st = OK"
    using l1 b ne fin [OF that] list_at_cong [of "view (rds_db r')" k1 ?m] by (simp add: key_batch_def)
  moreover have "list_at now (view (rds_db r')) k2 ys" if "st = OK"
    using l2 [of ?m] a ne fin [OF that] list_at_cong [of "view (rds_db r')" k2 "apply_batch sc B ?m"] by (simp add: key_batch_def)
  moreover have "same_except {k1, k2} (view (rds_db r)) (view (rds_db r'))" if "st = OK"
    using a b fin [OF that] c(2) [OF that] by (auto simp: same_except_def key_batch_def)
  ultimately show ?thesis using c by (auto simp: outcome_def stats_ok_def)
qed

subsection \<open>RPoplpush\<close>

lemma same_except_refl: "same_except K m m"
  by (simp add: same_except_def)

text \<open>Rotating a list onto itself.\<close>

lemma RPoplpush_same_correct:
  assumes key: "key_ok key" and xs: "list_at (env_now env) (view (rds_db r)) key xs" and stats: "stats_ok r"
    and room: "0 < left_room (env_now env) (view (rds_db r)) key"
  shows "\<exists>st x r'. RPoplpush_same env key key r = Some ((st, x), r') \<and> outcome view {key} r st r' \<and>
    (st = OK \<longrightarrow> xs \<noteq> [] \<and> x = last xs \<and> list_at (env_now env) (view (rds_db r')) key (last xs # butlast xs)) \<and>
    (db_healthy (env_db env) view \<longrightarrow> (if xs = [] then is_NotFound st else st = OK))"
  using key xs
proof (cases rule: get_list [where mk = key])
  case (live p)
  let ?L = "pl_left_index p" and ?R = "pl_right_index p"
  note d = RPoplpush_same_def [of env key key r] live(1,2)
  from key live(9,8) show ?thesis
  proof (cases rule: get_last)
    case (found u)
    show ?thesis
    proof (cases "pl_count p = 1")
      case True
      then have "length xs = 1" using live(10) by simp
      then obtain x where "xs = [x]" by (cases xs) auto
      moreover have "RPoplpush_same env key key r = Some ((OK, ParsedBaseDataValue_UserValue u), r)"
        using live(3) True found by (simp add: d Let_def StripSuffix_ok)
      ultimately show ?thesis using found xs by (simp add: outcome_def same_except_refl)
    next
      case False
      let ?q = "pl_ModifyLeftIndex 1 (pl_ModifyRightIndex (- 1) p)"
      let ?del = "Delete kListsDataCF (ListsDataKey_Encode (env_junk env) key (pv_version p) (?R - 1))"
      let ?put = "Put kListsDataCF (ListsDataKey_Encode (env_junk env) key (pv_version p) ?L) u"
      let ?ops = "[?del, ?put, Put kMetaCF (BaseKey_Encode (env_junk env) key) (pv_data ?q)]"
      have e: "ecmp (ListsDataKey_Encode (env_junk env) key (pv_version p) (?R - 1)) (ListsDataKey_Encode (env_junk env) key (pv_version p) (?R - 1)) = 0"
        by (simp add: lists_key_equal key)
      have "list_window (elem_of (apply_op sc ?put (apply_op sc ?del (view (rds_db r))))) key (pv_version p) (?L - 1) (?R - 1) (last xs # butlast xs)"
        using push_front_window [OF key drop_last_window [OF key live(9,8)] _ found(2)] found(3) live(11) room by simp
      then have "list_repr (elem_of (apply_batch sc ?ops (view (rds_db r)))) key ?q (last xs # butlast xs)"
        using live(8,10) by (simp add: list_repr_def put_meta [OF key])
      moreover have "key_batch key ?ops"
        using key_batch_Cons_delete [OF key key_batch_Cons_put [OF key key_batch_meta [OF key]] e] .
      ultimately obtain st r1 r' where "redis_Write env ?ops r = (st, r1)" "UpdateSpecificKeyStatistics kLists key 1 r1 = Some r'"
        and c: "outcome view {key} r st r'" "st = OK \<longrightarrow> list_at (env_now env) (view (rds_db r')) key (last xs # butlast xs)"
          "db_healthy (env_db env) view \<longrightarrow> st = OK"
        using commit_stats [OF stats, of key ?ops ?q "last xs # butlast xs" 1] live(3,5,6) by (auto simp: put_meta [OF key] pl_intros)
      then have "RPoplpush_same env key key r = Some ((st, ParsedBaseDataValue_UserValue u), r')"
        using live(3,4) False found by (simp add: d Let_def StripSuffix_ok base_meta_key_def lists_data_key_def)
      then show ?thesis using c found(3) live(8) by auto
    qed
  next
    case (failed st u)
    then have "RPoplpush_same env key key r = Some ((st, []), r)" using live(3,4) by (simp add: d Let_def)
    then show ?thesis using failed by (auto simp: outcome_refl)
  qed
qed (auto simp: RPoplpush_same_def outcome_refl)

text \<open>Putting the popped element in front of another list.\<close>

lemma RPoplpush_push_correct:
  assumes src: "key_batch source A" and dst: "key_ok destination" and ne: "source \<noteq> destination"
    and now: "stamp_ok (env_now env)" and stats: "stats_ok r" and u: "24 \<le> length u"
    and l1: "list_at (env_now env) (apply_batch sc A (view (rds_db r))) source xs"
    and ys: "list_at (env_now env) (view (rds_db r)) destination ys"
    and room: "0 < left_room (env_now env) (view (rds_db r)) destination"
  shows "\<exists>st x r'. RPoplpush_push env source destination u A r = Some ((st, x), r') \<and> outcome view {source, destination} r st r' \<and>
    (st = OK \<longrightarrow> x = ParsedBaseDataValue_UserValue u \<and> list_at (env_now env) (view (rds_db r')) source xs \<and>
       list_at (env_now env) (view (rds_db r')) destination (ParsedBaseDataValue_UserValue u # ys)) \<and>
    (db_healthy (env_db env) view \<longrightarrow> st = OK)"
proof -
  let ?x = "ParsedBaseDataValue_UserValue u"
  have fin: ?thesis
    if run: "\<And>st r1. redis_Write env (A @ B) r = (st, r1) \<Longrightarrow> RPoplpush_push env source destination u A r =
        (UpdateSpecificKeyStatistics kLists source 1 r1 \<bind> (\<lambda>r'. if st = OK then Some ((st, ?x), r') else Some ((st, []), r')))"
      and B: "B = [Put kListsDataCF (ListsDataKey_Encode (env_junk env) destination (pv_version q) (pl_left_index q + 1)) u,
        Put kMetaCF (BaseKey_Encode (env_junk env) destination) (pv_data q)]"
      and q: "pl_wf q" "pv_type q = kLists" "\<not> pv_IsStale (env_now env) q" "unat (pl_count q) = length ys + 1"
      and w: "list_window (elem_of (view (rds_db r))) destination (pv_version q) (pl_left_index q + 1) (pl_right_index q) ys"
        "0 < unat (pl_left_index q + 1)" for B q
  proof -
    obtain st r1 where wr: "redis_Write env (A @ B) r = (st, r1)" by fastforce
    have b: "key_batch destination B" unfolding B by (intro key_batch_intros dst)
    have "outcome view {source, destination} r st r1 \<and> (db_healthy (env_db env) view \<longrightarrow> st = OK) \<and>
        (st = OK \<longrightarrow> list_at (env_now env) (view (rds_db r1)) source xs \<and> list_at (env_now env) (view (rds_db r1)) destination (?x # ys))"
    proof (rule two_key_write [OF src b ne wr l1])
      fix m assume m: "\<And>v i. elem_of m (destination, v, i) = elem_of (view (rds_db r)) (destination, v, i)"
      have "list_window (elem_of m) destination (pv_version q) (pl_left_index q + 1) (pl_right_index q) ys"
        using w(1) m by (simp add: list_window_def)
      from push_front_window [OF dst this w(2) u] have "list_repr (elem_of (apply_batch sc B m)) destination q (?x # ys)"
        using q(4) by (simp add: B list_repr_def put_meta [OF dst])
      then show "list_at (env_now env) (apply_batch sc B m) destination (?x # ys)"
        by (intro list_atI [OF _ q(1-3)]) (simp_all add: B put_meta [OF dst])
    qed
    moreover from this obtain r' where "UpdateSpecificKeyStatistics kLists source 1 r1 = Some r'"
      "outcome view {source, destination} r st r'" "rds_db r' = rds_db r1"
      using stats by (blast elim: stats_after)
    ultimately show ?thesis using run [OF wr] by auto
  qed
  from dst ys show ?thesis
  proof (cases rule: get_meta_list [where mk = destination])
    case (failed st mv)
    then have "RPoplpush_push env source destination u A r = Some ((st, []), r)"
      by (auto simp: RPoplpush_push_def)
    then show ?thesis using failed by (auto simp: outcome_refl)
  next
    case (missing st mv)
    let ?l = "ListsMetaValue_UpdateVersion (env_now env) (ListsMetaValue_new (env_now env) (EncodeFixed64 1))"
    let ?l' = "ListsMetaValue_ModifyLeftIndex 1 ?l"
    have l: "iv_user_value ?l = EncodeFixed64 1" "iv_type ?l = kLists" "iv_ctime ?l = env_now env" "iv_etime ?l = 0"
        "lmv_left_index ?l = InitalLeftIndex" "lmv_right_index ?l = InitalRightIndex"
      by (simp_all add: ListsMetaValue_UpdateVersion_def ListsMetaValue_new_def)
    then have l': "iv_user_value ?l' = EncodeFixed64 1" "iv_type ?l' = kLists" "iv_ctime ?l' = env_now env" "iv_etime ?l' = 0"
        "lmv_left_index ?l' = InitalLeftIndex - 1" "lmv_right_index ?l' = InitalRightIndex" "iv_version ?l' = iv_version ?l"
      by (simp_all add: ListsMetaValue_ModifyLeftIndex_def)
    obtain q where q: "pv_data q = ListsMetaValue_Encode (env_junk env) ?l'" "pl_wf q" "pv_type q = kLists" "\<not> pv_IsStale (env_now env) q"
        "pl_count q = 1" "pv_version q = iv_version ?l" "pl_left_index q = InitalLeftIndex - 1" "pl_right_index q = InitalRightIndex"
      using new_meta_parse [OF now l'(1-4), of "env_junk env" "env_now env"] l'(5-7) by auto
    show ?thesis
    proof (rule fin [OF _ refl q(2-4)])
      show "RPoplpush_push env source destination u A r = (UpdateSpecificKeyStatistics kLists source 1 r1 \<bind>
          (\<lambda>r'. if st' = OK then Some ((st', ?x), r') else Some ((st', []), r')))"
        if "redis_Write env (A @ [Put kListsDataCF (ListsDataKey_Encode (env_junk env) destination (pv_version q) (pl_left_index q + 1)) u,
          Put kMetaCF (BaseKey_Encode (env_junk env) destination) (pv_data q)]) r = (st', r1)" for st' r1
        using that missing(1,2) q l(5)
        by (cases st) (auto simp: RPoplpush_push_def Let_def lists_data_key_def base_meta_key_def StripSuffix_ok [OF u] cong: if_cong)
    qed (use missing(3) q in \<open>simp_all add: list_window_new unat_initial\<close>)
  next
    case (present p)
    note pm = push_meta_ok [OF present(2,3,4,5,6)]
    let ?q = "pl_ModifyLeftIndex 1 (pl_ModifyCount 1 (push_meta p))"
    have wp: "list_window (elem_of (view (rds_db r))) destination (pv_version (push_meta p)) (pl_left_index (push_meta p)) (pl_right_index (push_meta p)) ys"
      and cp: "unat (pl_count (push_meta p)) = length ys" using pm(4) by (simp_all add: list_repr_def)
    show ?thesis
    proof (rule fin [OF _ refl])
      show "RPoplpush_push env source destination u A r = (UpdateSpecificKeyStatistics kLists source 1 r1 \<bind>
          (\<lambda>r'. if st' = OK then Some ((st', ?x), r') else Some ((st', []), r')))"
        if "redis_Write env (A @ [Put kListsDataCF (ListsDataKey_Encode (env_junk env) destination (pv_version ?q) (pl_left_index ?q + 1)) u,
          Put kMetaCF (BaseKey_Encode (env_junk env) destination) (pv_data ?q)]) r = (st', r1)" for st' r1
        using that present(1) pl_wf_D [OF present(2)]
        by (simp add: RPoplpush_push_def Let_def lists_data_key_def base_meta_key_def push_meta_def [symmetric] StripSuffix_ok [OF u] cong: if_cong)
      have "unat (pl_count (push_meta p)) + 1 < 2 ^ 64" using cp list_window_bound [OF wp] by simp
      then show "unat (pl_count ?q) = length ys + 1" using cp by (simp add: unat_succ)
    qed (use wp pm room in \<open>simp_all add: pl_intros\<close>)
  qed
qed

lemma RPoplpush_correct:
  assumes src: "key_ok source" and dst: "key_ok destination" and now: "stamp_ok (env_now env)" and stats: "stats_ok r"
    and xs: "list_at (env_now env) (view (rds_db r)) source xs" and ys: "list_at (env_now env) (view (rds_db r)) destination ys"
    and room: "0 < left_room (env_now env) (view (rds_db r)) destination"
  shows "\<exists>st x r'. RPoplpush env source destination r = Some ((st, x), r') \<and> outcome view {source, destination} r st r' \<and>
    (st = OK \<longrightarrow> xs \<noteq> [] \<and> x = last xs \<and>
       (if source = destination then list_at (env_now env) (view (rds_db r')) source (last xs # butlast xs)
        else list_at (env_now env) (view (rds_db r')) source (butlast xs) \<and> list_at (env_now env) (view (rds_db r')) destination (last xs # ys))) \<and>
    (db_healthy (env_db env) view \<longrightarrow> (if xs = [] then is_NotFound st else st = OK))"
proof (cases "source = destination")
  case True
  then show ?thesis using RPoplpush_same_correct [OF src xs stats] room by (auto simp: RPoplpush_def)
next
  case ne: False
  from src xs show ?thesis
  proof (cases rule: get_list [where mk = source])
    case (live p)
    note d = RPoplpush_def [of env source destination r] live(1,2)
    from src live(9,8) show ?thesis
    proof (cases rule: get_last)
      case (found u)
      let ?q = "pl_ModifyRightIndex (- 1) (pl_ModifyCount (- 1) p)"
      let ?del = "Delete kListsDataCF (ListsDataKey_Encode (env_junk env) source (pv_version p) (pl_right_index p - 1))"
      let ?A = "[?del, Put kMetaCF (BaseKey_Encode (env_junk env) source) (pv_data ?q)]"
      have e: "ecmp (ListsDataKey_Encode (env_junk env) source (pv_version p) (pl_right_index p - 1))
          (ListsDataKey_Encode (env_junk env) source (pv_version p) (pl_right_index p - 1)) = 0"
        by (simp add: lists_key_equal src)
      have b: "key_batch source ?A" using key_batch_Cons_delete [OF src key_batch_meta [OF src] e] .
      have "unat (pl_count p - 1) = length xs - 1" using unat_pred [of "pl_count p"] live(8,10) by simp
      then have "list_repr (elem_of (apply_batch sc ?A (view (rds_db r)))) source ?q (butlast xs)"
        using drop_last_window [OF src live(9,8)] by (simp add: list_repr_def put_meta [OF src])
      then have l1: "list_at (env_now env) (apply_batch sc ?A (view (rds_db r))) source (butlast xs)"
        by (rule list_atI [rotated 4]) (use live(3,5,6) in \<open>simp_all add: put_meta [OF src] pl_intros\<close>)
      have "RPoplpush env source destination r = RPoplpush_push env source destination u ?A r"
        using live(3,4) ne found(1) by (simp add: d Let_def lists_data_key_def base_meta_key_def)
      then show ?thesis
        using RPoplpush_push_correct [OF b dst ne now stats found(2) l1 ys room] found(3) live(8) ne by auto
    next
      case (failed st u)
      then have "RPoplpush env source destination r = Some ((st, []), r)" using live(3,4) ne by (simp add: d Let_def)
      then show ?thesis using failed by (auto simp: outcome_refl)
    qed
  qed (use ne in \<open>auto simp: RPoplpush_def outcome_refl\<close>)
qed

subsection \<open>Expiry and deletion\<close>

text \<open>The meta value of a live list, read or handed over by the caller.\<close>

lemma live_meta:
  assumes key: "key_ok key" and xs: "list_at (env_now env) (view (rds_db r)) key xs" "xs \<noteq> []" and healthy: "db_healthy (env_db env) view"
    and pre: "prefetch = [] \<or> meta_of (view (rds_db r)) key = Some prefetch"
  obtains p where "(if prefetch = [] then get_meta env kLists key key (rds_db r) else Some (Inr (OK, prefetch))) = Some (Inr (OK, pv_data p))"
    "ParsedListsMetaValue_parse True (pv_data p) = Some p" "\<not> pv_IsStale (env_now env) p" "pl_count p \<noteq> 0" "pl_wf p" "pv_type p = kLists"
    "meta_of (view (rds_db r)) key = Some (pv_data p)" "list_repr (elem_of (view (rds_db r))) key p xs"
  using key xs(1)
proof (cases rule: get_list [where mk = key])
  case (live p)
  then show thesis using that [of p] pre by (auto simp: list_repr_def)
qed (use xs(2) healthy in auto)

text \<open>Writing only the meta value.\<close>

lemma commit_meta:
  assumes key: "key_ok key" and w: "redis_Write env [Put kMetaCF (base_meta_key env key) (pv_data q)] r = (st, r')"
  shows "outcome view {key} r st r'" "db_healthy (env_db env) view \<Longrightarrow> st = OK"
    "st = OK \<Longrightarrow> meta_of (view (rds_db r')) key = Some (pv_data q)" "st = OK \<Longrightarrow> elem_of (view (rds_db r')) = elem_of (view (rds_db r))"
proof -
  note w = w [unfolded base_meta_key_def]
  note c = redis_Write_cases [OF w]
  show "outcome view {key} r st r'"
    using c key_batch_same_except [OF key_batch_meta [OF key]] w by (auto simp: outcome_def stats_ok_def)
  show "db_healthy (env_db env) view \<Longrightarrow> st = OK" by (rule c(5))
  show "st = OK \<Longrightarrow> meta_of (view (rds_db r')) key = Some (pv_data q)" "st = OK \<Longrightarrow> elem_of (view (rds_db r')) = elem_of (view (rds_db r))"
    using c(1) by (simp_all add: put_meta [OF key])
qed

text \<open>A list with the expiry time \<open>e\<close>: the same list until then, gone afterwards.\<close>

lemma expiring_list:
  assumes "meta_of m' key = Some (pv_data (pv_SetEtime e p))" and "elem_of m' = elem_of m" and "stamp_ok e"
    and "pl_wf p" "pv_type p = kLists" "pl_count p \<noteq> 0" "list_repr (elem_of m) key p xs"
  shows "list_at t m' key (if e \<noteq> 0 \<and> e < t then [] else xs)"
proof (cases "e \<noteq> 0 \<and> e < t")
  case True
  then show ?thesis
    using list_at.expired [OF assms(1), of t] assms by (simp add: pl_intros pv_IsStale_def)
next
  case False
  moreover have "list_repr (elem_of m') key (pv_SetEtime e p) xs" using assms(2,7) by (simp add: list_repr_def)
  ultimately show ?thesis
    using list_atI [OF assms(1), of t xs] assms by (auto simp: pl_intros pv_IsStale_def)
qed

text \<open>The tail of the commands that set an expiry time; a time that is not positive removes the list.\<close>

lemma expiry_commit:
  assumes key: "key_ok key" and p: "pl_wf p" "pv_type p = kLists" "pl_count p \<noteq> 0" "list_repr (elem_of (view (rds_db r))) key p xs"
    and healthy: "db_healthy (env_db env) view" and e: "keep \<Longrightarrow> stamp_ok e \<and> e \<noteq> 0"
    and q: "q = (if keep then pv_SetEtime e p else pl_InitialMetaValue (env_now env) p)"
  shows "\<exists>r'. redis_Write env [Put kMetaCF (base_meta_key env key) (pv_data q)] r = (OK, r') \<and> outcome view {key} r OK r' \<and>
    (\<forall>t. list_at t (view (rds_db r')) key (if \<not> keep \<or> e < t then [] else xs))"
proof -
  obtain st r' where w: "redis_Write env [Put kMetaCF (base_meta_key env key) (pv_data q)] r = (st, r')" by fastforce
  note c = commit_meta [OF key w]
  have st: "st = OK" by (rule c(2) [OF healthy])
  have "list_at t (view (rds_db r')) key (if \<not> keep \<or> e < t then [] else xs)" for t
  proof (cases keep)
    case True
    then show ?thesis
      using expiring_list [of "view (rds_db r')" key e p "view (rds_db r)" xs t] c(3,4) [OF st] p e q by simp
  next
    case False
    have "list_at t (view (rds_db r')) key []"
      by (rule list_at.expired [OF c(3) [OF st]]) (use p False q in \<open>simp_all add: pl_intros\<close>)
    then show ?thesis using False by simp
  qed
  then show ?thesis using c(1) st w by auto
qed

lemma ListsExpireat_correct:
  assumes key: "key_ok key" and xs: "list_at (env_now env) (view (rds_db r)) key xs" "xs \<noteq> []" and healthy: "db_healthy (env_db env) view"
    and pre: "prefetch = [] \<or> meta_of (view (rds_db r)) key = Some prefetch"
  shows "\<exists>r'. ListsExpireat env key timestamp prefetch r = Some (OK, r') \<and> outcome view {key} r OK r' \<and>
    (\<forall>t. list_at t (view (rds_db r')) key (if \<not> 0 < sint timestamp \<or> timestamp < t then [] else xs))"
  using key xs healthy pre
proof (rule live_meta)
  fix p
  assume p: "(if prefetch = [] then get_meta env kLists key key (rds_db r) else Some (Inr (OK, prefetch))) = Some (Inr (OK, pv_data p))"
    "ParsedListsMetaValue_parse True (pv_data p) = Some p" "\<not> pv_IsStale (env_now env) p" "pl_count p \<noteq> 0" "pl_wf p" "pv_type p = kLists"
    "meta_of (view (rds_db r)) key = Some (pv_data p)" "list_repr (elem_of (view (rds_db r))) key p xs"
  have "stamp_ok timestamp \<and> timestamp \<noteq> 0" if "0 < sint timestamp" using that by (auto simp: stamp_ok_sint)
  from expiry_commit [OF key p(5,6,4,8) healthy this refl, where keep = "0 < sint timestamp"] show ?thesis
    using p(2-4) by (auto simp: ListsExpireat_def p(1) Let_def)
qed

lemma ListsExpire_correct:
  assumes key: "key_ok key" and xs: "list_at (env_now env) (view (rds_db r)) key xs" "xs \<noteq> []" and healthy: "db_healthy (env_db env) view"
    and pre: "prefetch = [] \<or> meta_of (view (rds_db r)) key = Some prefetch" and fits: "unat (env_now env) + unat ttl < 2 ^ 63 \<or> \<not> 0 < sint ttl"
  shows "\<exists>r'. ListsExpire env key ttl prefetch r = Some (OK, r') \<and> outcome view {key} r OK r' \<and>
    (\<forall>t. list_at t (view (rds_db r')) key (if \<not> 0 < sint ttl \<or> unat (env_now env) + unat ttl < unat t then [] else xs))"
  using key xs healthy pre
proof (rule live_meta)
  fix p
  assume p: "(if prefetch = [] then get_meta env kLists key key (rds_db r) else Some (Inr (OK, prefetch))) = Some (Inr (OK, pv_data p))"
    "ParsedListsMetaValue_parse True (pv_data p) = Some p" "\<not> pv_IsStale (env_now env) p" "pl_count p \<noteq> 0" "pl_wf p" "pv_type p = kLists"
    "meta_of (view (rds_db r)) key = Some (pv_data p)" "list_repr (elem_of (view (rds_db r))) key p xs"
  have sum: "unat (env_now env + ttl) = unat (env_now env) + unat ttl" if "0 < sint ttl"
    using fits that unat_plus_of_nat [of "env_now env" "unat ttl"] by simp
  have e: "stamp_ok (env_now env + ttl) \<and> env_now env + ttl \<noteq> 0" if pos: "0 < sint ttl"
  proof -
    have "0 < unat ttl" using pos unat_gt_0 [of ttl] by auto
    then have "0 < unat (env_now env + ttl)" using sum [OF pos] by simp
    moreover have "unat (env_now env + ttl) < 2 ^ 63" using sum [OF pos] fits pos by simp
    ultimately show ?thesis by (simp add: stamp_okI unat_gt_0)
  qed
  from expiry_commit [OF key p(5,6,4,8) healthy e refl, where keep = "0 < sint ttl"] obtain r' where
    w: "redis_Write env [Put kMetaCF (base_meta_key env key) (pv_data (if 0 < sint ttl then pv_SetEtime (env_now env + ttl) p
        else pl_InitialMetaValue (env_now env) p))] r = (OK, r')" "outcome view {key} r OK r'"
      "\<And>t. list_at t (view (rds_db r')) key (if \<not> 0 < sint ttl \<or> env_now env + ttl < t then [] else xs)"
    by blast
  have "ListsExpire env key ttl prefetch r = Some (OK, r')"
    using p(2-4) w(1) by (auto simp: ListsExpire_def p(1) Let_def pv_SetRelativeTimestamp_def)
  moreover have "list_at t (view (rds_db r')) key (if \<not> 0 < sint ttl \<or> unat (env_now env) + unat ttl < unat t then [] else xs)" for t
    using w(3) [of t] sum by (simp add: word_less_nat_alt split: if_splits)
  ultimately show ?thesis using w(2) by blast
qed

lemma ListsPersist_correct:
  assumes key: "key_ok key" and xs: "list_at (env_now env) (view (rds_db r)) key xs" "xs \<noteq> []" and healthy: "db_healthy (env_db env) view"
    and pre: "prefetch = [] \<or> meta_of (view (rds_db r)) key = Some prefetch"
  shows "\<exists>st r'. ListsPersist env key prefetch r = Some (st, r') \<and> outcome view {key} r st r' \<and> (st = OK \<or> is_NotFound st) \<and>
    (\<forall>t. list_at t (view (rds_db r')) key xs)"
  using key xs healthy pre
proof (rule live_meta)
  fix p
  assume p: "(if prefetch = [] then get_meta env kLists key key (rds_db r) else Some (Inr (OK, prefetch))) = Some (Inr (OK, pv_data p))"
    "ParsedListsMetaValue_parse True (pv_data p) = Some p" "\<not> pv_IsStale (env_now env) p" "pl_count p \<noteq> 0" "pl_wf p" "pv_type p = kLists"
    "meta_of (view (rds_db r)) key = Some (pv_data p)" "list_repr (elem_of (view (rds_db r))) key p xs"
  show ?thesis
  proof (cases "pv_etime p = 0")
    case True
    have "list_at t (view (rds_db r)) key xs" for t
      by (rule list_atI [OF p(7)]) (use p True in \<open>simp_all add: pv_IsStale_def\<close>)
    moreover have "ListsPersist env key prefetch r = Some (NotFound ''Not have an associated timeout'', r)"
      using p(2-4) True by (simp add: ListsPersist_def p(1))
    ultimately show ?thesis by (auto simp: outcome_refl)
  next
    case False
    obtain st r' where w: "redis_Write env [Put kMetaCF (base_meta_key env key) (pv_data (pv_SetEtime 0 p))] r = (st, r')" by fastforce
    note c = commit_meta [OF key w]
    have st: "st = OK" by (rule c(2) [OF healthy])
    have "list_at t (view (rds_db r')) key xs" for t
      using expiring_list [OF c(3,4) [OF st], of xs t] p by (simp add: stamp_ok_def)
    moreover have "ListsPersist env key prefetch r = Some (st, r')" using p(2-4) w False by (simp add: ListsPersist_def p(1))
    ultimately show ?thesis using c(1) st by auto
  qed
qed

lemma ListsDel_correct:
  assumes key: "key_ok key" and xs: "list_at (env_now env) (view (rds_db r)) key xs" "xs \<noteq> []" and healthy: "db_healthy (env_db env) view"
    and pre: "prefetch = [] \<or> meta_of (view (rds_db r)) key = Some prefetch" and stats: "stats_ok r"
  shows "\<exists>r'. ListsDel env key prefetch r = Some (OK, r') \<and> outcome view {key} r OK r' \<and> (\<forall>t. list_at t (view (rds_db r')) key [])"
  using key xs healthy pre
proof (rule live_meta)
  fix p
  assume p: "(if prefetch = [] then get_meta env kLists key key (rds_db r) else Some (Inr (OK, prefetch))) = Some (Inr (OK, pv_data p))"
    "ParsedListsMetaValue_parse True (pv_data p) = Some p" "\<not> pv_IsStale (env_now env) p" "pl_count p \<noteq> 0" "pl_wf p" "pv_type p = kLists"
    "meta_of (view (rds_db r)) key = Some (pv_data p)" "list_repr (elem_of (view (rds_db r))) key p xs"
  from expiry_commit [OF key p(5,6,4,8) healthy _ refl, of False 0] obtain r1 where
    w: "redis_Write env [Put kMetaCF (base_meta_key env key) (pv_data (pl_InitialMetaValue (env_now env) p))] r = (OK, r1)"
      "outcome view {key} r OK r1" "\<And>t. list_at t (view (rds_db r1)) key []" by auto
  obtain r' where "UpdateSpecificKeyStatistics kLists key (pl_count p) r1 = Some r'" "outcome view {key} r OK r'" "rds_db r' = rds_db r1"
    using w(2) stats by (blast elim: stats_after)
  then show ?thesis using p(2-4) w by (auto simp: ListsDel_def p(1) Let_def)
qed

subsection \<open>Keys of another type\<close>

lemma other_type_refused:
  assumes key: "key_ok key" and other: "other_type (env_now env) (view (rds_db r)) key" and healthy: "db_healthy (env_db env) view"
  shows "\<exists>msg. LIndex env key index r = Some (InvalidArgument msg, []) \<and> LLen env key [] r = Some (InvalidArgument msg, 0) \<and>
    LRange env key start stop r = Some (InvalidArgument msg, []) \<and> LPush env key vs r = Some ((InvalidArgument msg, 0), r) \<and>
    RPush env key vs r = Some ((InvalidArgument msg, 0), r) \<and> LPushx env key vs r = Some ((InvalidArgument msg, 0), r) \<and>
    RPushx env key vs r = Some ((InvalidArgument msg, 0), r) \<and> LPop env key count r = Some ((InvalidArgument msg, []), r) \<and>
    RPop env key count r = Some ((InvalidArgument msg, []), r) \<and> LSet env key index v r = Some (InvalidArgument msg, r) \<and>
    LTrim env key start stop r = Some (InvalidArgument msg, r) \<and> LInsert env key ba pivot v r = Some ((InvalidArgument msg, 0), r) \<and>
    LRem env key count v r = Some ((InvalidArgument msg, 0), r) \<and> RPoplpush env key key r = Some ((InvalidArgument msg, []), r) \<and>
    ListsDel env key [] r = Some (InvalidArgument msg, r) \<and> ListsExpire env key ttl [] r = Some (InvalidArgument msg, r)"
  using key other
proof (cases rule: get_meta_other [where mk = key])
  case (wrong msg)
  then show ?thesis
    by (intro exI [of _ msg]) (simp add: LIndex_def LLen_def LRange_def LPush_def RPush_def LPushx_def RPushx_def LPop_def RPop_def LSet_def
        LTrim_def LInsert_def LRem_def RPoplpush_def RPoplpush_same_def ListsDel_def ListsExpire_def)
qed (use healthy in simp)

end

end
