(* ===== verification/ListsTheorems.thy ===== *)
theory ListsTheorems
  imports ListsKeys
begin

text \<open>
  The list commands on the reference database, and the properties of the list commands for every
  database that keeps the contract \<open>engine\<close>.
\<close>

section \<open>The engine on the reference database\<close>

definition example_env :: "WriteOp list env" where
  "example_env = \<lparr>env_db = log_db pstd_Slice_compare, env_compare = pstd_Slice_compare, env_junk = (\<lambda>_. 9), env_now = 5\<rparr>"

abbreviation "example_view \<equiv> log_view pstd_Slice_compare"

lemma example_env_simps [simp]:
  "env_db example_env = log_db pstd_Slice_compare" "env_compare example_env = pstd_Slice_compare" "env_now example_env = 5"
  "env_junk example_env = (\<lambda>_. 9)"
  by (simp_all add: example_env_def)

interpretation reference: engine example_env example_view
  by (simp add: engine_def log_db_rocksdb [OF pstd_slice.slice_order_axioms])

lemma reference_healthy: "db_healthy (env_db example_env) example_view"
  by (simp add: log_db_healthy)

text \<open>A database holding the list of the two elements \<open>[1]\<close> and \<open>[2]\<close> under the key \<open>[7]\<close>, with a given left index.\<close>

definition example_meta :: "u64 \<Rightarrow> ListsMetaValue" where
  "example_meta left = (ListsMetaValue_new 5 (EncodeFixed64 2))\<lparr>iv_version := 3, lmv_left_index := left, lmv_right_index := left + 3\<rparr>"

definition example_store :: "u64 \<Rightarrow> WriteOp list redis" where
  "example_store left = example_redis\<lparr>rds_db :=
     [Put kListsDataCF (ListsDataKey_Encode (\<lambda>_. 9) [7] 3 (left + 1)) (i_val example_env [1]),
      Put kListsDataCF (ListsDataKey_Encode (\<lambda>_. 9) [7] 3 (left + 2)) (i_val example_env [2]),
      Put kMetaCF (BaseKey_Encode (\<lambda>_. 9) [7]) (ListsMetaValue_Encode (\<lambda>_. 9) (example_meta left))]\<rparr>"

lemma example_view_records:
  "meta_of (example_view ops) = meta_of (apply_batch pstd_Slice_compare ops (example_view []))"
  "elem_of (example_view ops) = elem_of (apply_batch pstd_Slice_compare ops (example_view []))"
  using log_view_append [OF pstd_slice.cf_comparator_ok [of kMetaCF], of "[]" ops]
    log_view_append [OF pstd_slice.cf_comparator_ok [of kListsDataCF], of "[]" ops]
  by (simp_all add: meta_of_def elem_of_def fun_eq_iff)

lemma example_view_empty: "meta_of (example_view []) k = None"
  by (simp add: meta_of_def log_view_def log_scan_def)

lemma example_key: "key_ok [7]" "key_ok [8]"
  by (simp_all add: key_ok_def)

lemma example_stats: "stats_ok example_redis" "stats_ok (example_store left)"
  unfolding stats_ok_def
  by (rule exI [of _ "[]"], simp add: example_store_def example_redis_def lru_rel_capacity LRUCache_new_ok)+

lemma example_store_meta:
  assumes "unat left + 3 < 2 ^ 64"
  obtains p where "meta_of (example_view (rds_db (example_store left))) [7] = Some (pv_data p)" "pl_wf p" "pv_type p = kLists"
    "\<not> pv_IsStale 5 p" "pl_count p = 2" "pl_left_index p = left" "list_repr (elem_of (example_view (rds_db (example_store left)))) [7] p [[1], [2]]"
proof -
  have f: "iv_user_value (example_meta left) = EncodeFixed64 2" "iv_type (example_meta left) = kLists"
      "iv_ctime (example_meta left) = env_now example_env" "iv_etime (example_meta left) = 0" "iv_version (example_meta left) = 3"
      "lmv_left_index (example_meta left) = left" "lmv_right_index (example_meta left) = left + 3"
    by (simp_all add: example_meta_def ListsMetaValue_new_def)
  have now: "stamp_ok (env_now example_env)" by (simp add: stamp_okI)
  obtain p where p: "pv_data p = ListsMetaValue_Encode (\<lambda>_. 9) (example_meta left)" "pl_wf p" "pv_type p = kLists" "\<not> pv_IsStale 5 p"
      "pl_count p = 2" "pv_version p = 3" "pl_left_index p = left" "pl_right_index p = left + 3"
    using reference.new_meta_parse [OF now f(1-4), of "\<lambda>_. 9" 5] f by auto
  let ?E = "elem_of (example_view (rds_db (example_store left)))"
  have e: "?E ([7], 3, left + 1) = Some (i_val example_env [1])" "?E ([7], 3, left + 2) = Some (i_val example_env [2])"
    unfolding example_view_records example_store_def
    by (simp_all add: pstd_slice.put_elem [OF example_key(1)] example_key pstd_slice.put_meta [OF example_key(1)])
  have "unat (left + of_nat 3) = unat left + 3" using assms by (intro unat_plus_of_nat) simp
  then have "list_window ?E [7] 3 left (left + 3) [[1], [2]]"
    using e by (auto simp: list_window_def less_Suc_eq add.assoc)
  then have "list_repr ?E [7] p [[1], [2]]" using p by (simp add: list_repr_def)
  moreover have "meta_of (example_view (rds_db (example_store left))) [7] = Some (pv_data p)"
    unfolding example_view_records example_store_def p(1)
    by (simp add: pstd_slice.put_elem [OF example_key(1)] example_key pstd_slice.put_meta [OF example_key(1)])
  ultimately show thesis using that p by blast
qed

lemma example_list_at: "unat left + 3 < 2 ^ 64 \<Longrightarrow> list_at 5 (example_view (rds_db (example_store left))) [7] [[1], [2]]"
  by (rule example_store_meta) (auto intro: list_atI)

lemma example_absent_meta:
  "meta_of (example_view (rds_db example_redis)) [7] = None" "meta_of (example_view (rds_db (example_store left))) [8] = None"
  unfolding example_view_records [of "rds_db (example_store left)"]
  by (simp_all add: example_redis_def example_view_empty example_store_def pstd_slice.put_elem [OF example_key(1)] example_key pstd_slice.put_meta [OF example_key(1)])

lemma example_absent:
  "list_at 5 (example_view (rds_db example_redis)) [7] []" "list_at 5 (example_view (rds_db (example_store left))) [8] []"
  "left_room 5 (example_view (rds_db example_redis)) [7] = 2 ^ 63 - 1" "right_room 5 (example_view (rds_db example_redis)) [7] = 2 ^ 63 - 1"
  "left_room 5 (example_view (rds_db (example_store left))) [8] = 2 ^ 63 - 1"
proof -
  note m = example_absent_meta
  show "list_at 5 (example_view (rds_db example_redis)) [7] []" "list_at 5 (example_view (rds_db (example_store left))) [8] []"
    using m by (auto intro: list_at.absent)
  show "left_room 5 (example_view (rds_db example_redis)) [7] = 2 ^ 63 - 1" "right_room 5 (example_view (rds_db example_redis)) [7] = 2 ^ 63 - 1"
    "left_room 5 (example_view (rds_db (example_store left))) [8] = 2 ^ 63 - 1"
    using m by (simp_all add: room_missing)
qed

lemma example_rooms:
  assumes "unat left + 3 < 2 ^ 64"
  shows "left_room 5 (example_view (rds_db (example_store left))) [7] = unat left"
    "right_room 5 (example_view (rds_db (example_store left))) [7] = 2 ^ 64 - 4 - unat left"
proof (atomize (full), rule example_store_meta [OF assms])
  fix p
  assume p: "meta_of (example_view (rds_db (example_store left))) [7] = Some (pv_data p)" "pl_wf p" "pv_type p = kLists"
    "\<not> pv_IsStale 5 p" "pl_count p = 2" "pl_left_index p = left" "list_repr (elem_of (example_view (rds_db (example_store left)))) [7] p [[1], [2]]"
  have "unat (pl_right_index p) = unat left + 3" using p(6,7) by (simp add: list_repr_def list_window_def)
  then show "left_room 5 (example_view (rds_db (example_store left))) [7] = unat left \<and>
      right_room 5 (example_view (rds_db (example_store left))) [7] = 2 ^ 64 - 4 - unat left"
    using room_live [OF p(1-3), of 5] p(4-6) by simp
qed

section \<open>Pushing and popping\<close>

text \<open>C5: \<open>LPUSH\<close> puts the values one by one in front of the list, creating it when it is absent or has
  expired, and returns the new length; no record of another key changes. On any error nothing changes, and there is
  none when reads and writes of the database succeed.\<close>

theorem LPush_pushes:
  assumes "engine env view" and "key_ok key" and "stamp_ok (env_now env)" and "list_at (env_now env) (view (rds_db r)) key xs"
    and "length vs \<le> left_room (env_now env) (view (rds_db r)) key"
  shows "\<exists>st ret r'. LPush env key vs r = Some ((st, ret), r') \<and> outcome view {key} r st r' \<and>
    (st = OK \<longrightarrow> unat ret = length xs + length vs \<and> list_at (env_now env) (view (rds_db r')) key (rev vs @ xs)) \<and>
    (db_healthy (env_db env) view \<longrightarrow> st = OK)"
  by (rule engine.LPush_correct [OF assms])

theorem LPush_pushes_witness:
  "\<exists>ret r'. LPush example_env [7] [[1], [2]] example_redis = Some ((OK, ret), r') \<and> unat ret = 2 \<and>
    list_at 5 (example_view (rds_db r')) [7] [[2], [1]]"
  using LPush_pushes [OF reference.engine_axioms example_key(1), of example_redis "[]" "[[1], [2]]"] example_absent(1,3) reference_healthy
  by (auto simp: stamp_okI)

text \<open>\<open>RPUSH\<close> appends the values to the list, creating it when it is absent or has expired, and returns the
  new length; no record of another key changes, and on an error nothing does.\<close>

theorem RPush_pushes:
  assumes "engine env view" and "key_ok key" and "stamp_ok (env_now env)" and "list_at (env_now env) (view (rds_db r)) key xs"
    and "length vs \<le> right_room (env_now env) (view (rds_db r)) key"
  shows "\<exists>st ret r'. RPush env key vs r = Some ((st, ret), r') \<and> outcome view {key} r st r' \<and>
    (st = OK \<longrightarrow> unat ret = length xs + length vs \<and> list_at (env_now env) (view (rds_db r')) key (xs @ vs)) \<and>
    (db_healthy (env_db env) view \<longrightarrow> st = OK)"
  by (rule engine.RPush_correct [OF assms])

theorem RPush_pushes_witness:
  "\<exists>ret r'. RPush example_env [7] [[1], [2]] example_redis = Some ((OK, ret), r') \<and> unat ret = 2 \<and>
    list_at 5 (example_view (rds_db r')) [7] [[1], [2]]"
  using RPush_pushes [OF reference.engine_axioms example_key(1), of example_redis "[]" "[[1], [2]]"] example_absent(1,4) reference_healthy
  by (auto simp: stamp_okI)

text \<open>\<open>LPUSHX\<close> and \<open>RPUSHX\<close> push like \<open>LPUSH\<close> and \<open>RPUSH\<close> but only on a list that exists; otherwise they
  report NotFound and change nothing.\<close>

theorem pushx_needs_a_list:
  assumes "engine env view" and "key_ok key" and "list_at (env_now env) (view (rds_db r)) key xs"
    and "length vs \<le> left_room (env_now env) (view (rds_db r)) key" "length vs \<le> right_room (env_now env) (view (rds_db r)) key"
  shows "(\<exists>st ret r'. LPushx env key vs r = Some ((st, ret), r') \<and> outcome view {key} r st r' \<and>
      (st = OK \<longrightarrow> xs \<noteq> [] \<and> unat ret = length xs + length vs \<and> list_at (env_now env) (view (rds_db r')) key (rev vs @ xs)) \<and>
      (db_healthy (env_db env) view \<longrightarrow> (if xs = [] then is_NotFound st else st = OK))) \<and>
    (\<exists>st ret r'. RPushx env key vs r = Some ((st, ret), r') \<and> outcome view {key} r st r' \<and>
      (st = OK \<longrightarrow> xs \<noteq> [] \<and> unat ret = length xs + length vs \<and> list_at (env_now env) (view (rds_db r')) key (xs @ vs)) \<and>
      (db_healthy (env_db env) view \<longrightarrow> (if xs = [] then is_NotFound st else st = OK)))"
  by (intro conjI engine.LPushx_correct [OF assms(1-4)] engine.RPushx_correct [OF assms(1-3,5)])

theorem pushx_needs_a_list_witness:
  "\<exists>ret r'. LPushx example_env [7] [[3]] (example_store 9) = Some ((OK, ret), r') \<and> unat ret = 3 \<and>
    list_at 5 (example_view (rds_db r')) [7] [[3], [1], [2]]"
  using pushx_needs_a_list [OF reference.engine_axioms example_key(1), of "example_store 9" "[[1], [2]]" "[[3]]"]
    example_list_at [of 9] example_rooms [of 9] reference_healthy
  by auto

text \<open>\<open>LPOP\<close> removes the first \<open>count\<close> elements (all of them when there are fewer) and returns them in
  order; what remains is the rest of the list. The loop counter of the code is a 32-bit integer, hence the bound.\<close>

theorem LPop_pops:
  assumes "engine env view" and "key_ok key" and "list_at (env_now env) (view (rds_db r)) key xs"
    and "stats_ok r" and "0 \<le> sint count" and "length xs \<le> 2 ^ 31"
  shows "\<exists>st ys r'. LPop env key count r = Some ((st, ys), r') \<and> outcome view {key} r st r' \<and>
    (st = OK \<longrightarrow> xs \<noteq> [] \<and> ys = take (nat (sint count)) xs \<and> list_at (env_now env) (view (rds_db r')) key (drop (nat (sint count)) xs)) \<and>
    (db_healthy (env_db env) view \<longrightarrow> (if xs = [] then is_NotFound st else st = OK))"
  by (rule engine.LPop_correct [OF assms])

theorem LPop_pops_witness:
  "\<exists>r'. LPop example_env [7] 1 (example_store 9) = Some ((OK, [[1]]), r') \<and> list_at 5 (example_view (rds_db r')) [7] [[2]]"
  using LPop_pops [OF reference.engine_axioms example_key(1), of "example_store 9" "[[1], [2]]" 1]
    example_list_at [of 9] example_stats reference_healthy
  by auto

text \<open>\<open>RPOP\<close> removes the last \<open>count\<close> elements and returns them from the end on.\<close>

theorem RPop_pops:
  assumes "engine env view" and "key_ok key" and "list_at (env_now env) (view (rds_db r)) key xs"
    and "stats_ok r" and "0 \<le> sint count" and "length xs \<le> 2 ^ 31"
  shows "\<exists>st ys r'. RPop env key count r = Some ((st, ys), r') \<and> outcome view {key} r st r' \<and>
    (st = OK \<longrightarrow> xs \<noteq> [] \<and> ys = take (nat (sint count)) (rev xs) \<and>
       list_at (env_now env) (view (rds_db r')) key (take (length xs - nat (sint count)) xs)) \<and>
    (db_healthy (env_db env) view \<longrightarrow> (if xs = [] then is_NotFound st else st = OK))"
  by (rule engine.RPop_correct [OF assms])

theorem RPop_pops_witness:
  "\<exists>r'. RPop example_env [7] 1 (example_store 9) = Some ((OK, [[2]]), r') \<and> list_at 5 (example_view (rds_db r')) [7] [[1]]"
  using RPop_pops [OF reference.engine_axioms example_key(1), of "example_store 9" "[[1], [2]]" 1]
    example_list_at [of 9] example_stats reference_healthy
  by auto

text \<open>C2: \<open>RPOPLPUSH\<close> moves the last element of the source to the front of the destination in one write; with
  one key it rotates the list. No third key changes.\<close>

theorem RPoplpush_moves:
  assumes "engine env view" and "key_ok source" and "key_ok destination" and "stamp_ok (env_now env)" and "stats_ok r"
    and "list_at (env_now env) (view (rds_db r)) source xs" and "list_at (env_now env) (view (rds_db r)) destination ys"
    and "0 < left_room (env_now env) (view (rds_db r)) destination"
  shows "\<exists>st x r'. RPoplpush env source destination r = Some ((st, x), r') \<and> outcome view {source, destination} r st r' \<and>
    (st = OK \<longrightarrow> xs \<noteq> [] \<and> x = last xs \<and>
       (if source = destination then list_at (env_now env) (view (rds_db r')) source (last xs # butlast xs)
        else list_at (env_now env) (view (rds_db r')) source (butlast xs) \<and> list_at (env_now env) (view (rds_db r')) destination (last xs # ys))) \<and>
    (db_healthy (env_db env) view \<longrightarrow> (if xs = [] then is_NotFound st else st = OK))"
  by (rule engine.RPoplpush_correct [OF assms])

theorem RPoplpush_moves_witness:
  "\<exists>r'. RPoplpush example_env [7] [8] (example_store 9) = Some ((OK, [2]), r') \<and>
    list_at 5 (example_view (rds_db r')) [7] [[1]] \<and> list_at 5 (example_view (rds_db r')) [8] [[2]]"
  using RPoplpush_moves [OF reference.engine_axioms example_key, of "example_store 9" "[[1], [2]]" "[]"]
    example_list_at [of 9] example_absent(2,5) example_stats reference_healthy
  by (auto simp: stamp_okI)

section \<open>Reading and changing elements\<close>

text \<open>\<open>LRANGE\<close> returns the elements between the two offsets, negative ones counting from the end and both
  clamped to the list; reading does not change the state. The offsets must not wrap around when they are added to the
  stored indexes.\<close>

theorem LRange_reads:
  assumes "engine env view" and "key_ok key" and "list_at (env_now env) (view (rds_db r)) key xs"
    and "index_fits (env_now env) (view (rds_db r)) key (length xs) start"
    and "index_fits (env_now env) (view (rds_db r)) key (length xs) stop"
  shows "\<exists>st ys. LRange env key start stop r = Some (st, ys) \<and>
    (st = OK \<longrightarrow> xs \<noteq> [] \<and> ys = redis_range (sint start) (sint stop) xs) \<and> (is_NotFound st \<longrightarrow> xs = [] \<and> ys = []) \<and>
    (db_healthy (env_db env) view \<longrightarrow> st = OK \<or> is_NotFound st)"
  by (rule engine.LRange_correct [OF assms])

theorem LRange_reads_witness:
  "LRange example_env [7] 1 (- 1) (example_store 9) = Some (OK, [[2]])"
  using LRange_reads [OF reference.engine_axioms example_key(1), of "example_store 9" "[[1], [2]]" 1 "- 1"]
    example_list_at [of 9] reference_healthy
  by (auto simp: index_fits_def redis_range_def)

text \<open>\<open>LINDEX\<close> returns the element at the offset, and NotFound exactly when there is none.\<close>

theorem LIndex_reads:
  assumes "engine env view" and "key_ok key" and "list_at (env_now env) (view (rds_db r)) key xs"
    and "index_fits (env_now env) (view (rds_db r)) key (length xs) i"
  shows "\<exists>st x. LIndex env key i r = Some (st, x) \<and>
    (st = OK \<longrightarrow> map_option (nth xs) (redis_index (sint i) xs) = Some x) \<and> (is_NotFound st \<longrightarrow> redis_index (sint i) xs = None) \<and>
    (db_healthy (env_db env) view \<longrightarrow> st = OK \<or> is_NotFound st)"
  by (rule engine.LIndex_correct [OF assms])

theorem LIndex_reads_witness:
  "LIndex example_env [7] (- 1) (example_store 9) = Some (OK, [2])"
  using LIndex_reads [OF reference.engine_axioms example_key(1), of "example_store 9" "[[1], [2]]" "- 1"]
    example_list_at [of 9] reference_healthy
  by (auto simp: index_fits_def redis_index_def)

text \<open>\<open>LSET\<close> replaces the element at the offset and no other; an offset outside the list is refused with
  \<open>index out of range\<close> and changes nothing.\<close>

theorem LSet_sets:
  assumes "engine env view" and "key_ok key" and "list_at (env_now env) (view (rds_db r)) key xs"
    and "stats_ok r" and "index_fits (env_now env) (view (rds_db r)) key (length xs) i"
  shows "\<exists>st r'. LSet env key i v r = Some (st, r') \<and> outcome view {key} r st r' \<and>
    (st = OK \<longrightarrow> (\<exists>j. redis_index (sint i) xs = Some j \<and> list_at (env_now env) (view (rds_db r')) key (xs[j := v]))) \<and>
    (db_healthy (env_db env) view \<longrightarrow> (if xs = [] then is_NotFound st
       else if redis_index (sint i) xs = None then st = Corruption ''index out of range'' else st = OK))"
  by (rule engine.LSet_correct [OF assms])

theorem LSet_sets_witness:
  "\<exists>r'. LSet example_env [7] 1 [9] (example_store 9) = Some (OK, r') \<and> list_at 5 (example_view (rds_db r')) [7] [[1], [9]]"
  using LSet_sets [OF reference.engine_axioms example_key(1), of "example_store 9" "[[1], [2]]" 1 "[9]"]
    example_list_at [of 9] example_stats reference_healthy
  by (auto simp: index_fits_def redis_index_def)

text \<open>C6: \<open>LTRIM\<close> keeps exactly the range that \<open>LRANGE\<close> with the same offsets returns; an empty range removes
  the list.\<close>

theorem LTrim_trims:
  assumes "engine env view" and "key_ok key" and "list_at (env_now env) (view (rds_db r)) key xs"
    and "stats_ok r" and "index_fits (env_now env) (view (rds_db r)) key (length xs) start"
    and "index_fits (env_now env) (view (rds_db r)) key (length xs) stop"
  shows "\<exists>st r'. LTrim env key start stop r = Some (st, r') \<and> outcome view {key} r st r' \<and>
    (st = OK \<longrightarrow> xs \<noteq> [] \<and> list_at (env_now env) (view (rds_db r')) key (redis_range (sint start) (sint stop) xs)) \<and>
    (db_healthy (env_db env) view \<longrightarrow> (if xs = [] then is_NotFound st else st = OK))"
  by (rule engine.LTrim_correct [OF assms])

theorem LTrim_trims_witness:
  "\<exists>r'. LTrim example_env [7] 1 5 (example_store 9) = Some (OK, r') \<and> list_at 5 (example_view (rds_db r')) [7] [[2]]"
  using LTrim_trims [OF reference.engine_axioms example_key(1), of "example_store 9" "[[1], [2]]" 1 5]
    example_list_at [of 9] example_rooms [of 9] example_stats reference_healthy
  by (auto simp: index_fits_def redis_range_def)

text \<open>C4: \<open>LINSERT\<close> puts the value next to the first element equal to the pivot and returns the new length,
  whichever half of the list it moves; without such an element it reports NotFound and changes nothing.\<close>

theorem LInsert_inserts:
  assumes "engine env view" and "key_ok key" and "list_at (env_now env) (view (rds_db r)) key xs"
    and "0 < left_room (env_now env) (view (rds_db r)) key" and "0 < right_room (env_now env) (view (rds_db r)) key"
    and "length xs + 1 < 2 ^ 31"
  shows "\<exists>st ret r'. LInsert env key ba pivot v r = Some ((st, ret), r') \<and> outcome view {key} r st r' \<and>
    (st = OK \<longrightarrow> (\<exists>ys. redis_insert ba pivot v xs = Some ys \<and> sint ret = int (length ys) \<and>
       list_at (env_now env) (view (rds_db r')) key ys)) \<and>
    (db_healthy (env_db env) view \<longrightarrow> (if redis_insert ba pivot v xs = None then is_NotFound st else st = OK))"
  by (rule engine.LInsert_correct [OF assms])

theorem LInsert_inserts_witness:
  "\<exists>ret r'. LInsert example_env [7] After [1] [9] (example_store 9) = Some ((OK, ret), r') \<and> sint ret = 3 \<and>
    list_at 5 (example_view (rds_db r')) [7] [[1], [9], [2]]"
  using LInsert_inserts [OF reference.engine_axioms example_key(1), of "example_store 9" "[[1], [2]]" After "[1]" "[9]"]
    example_list_at [of 9] example_rooms [of 9] reference_healthy
  by auto

text \<open>C3: \<open>LREM\<close> removes the first \<open>count\<close> elements equal to the value, the last ones for a negative count and
  all of them for zero, returns how many, and keeps the order of the others whichever side it moves.\<close>

theorem LRem_removes:
  assumes "engine env view" and "key_ok key" and "list_at (env_now env) (view (rds_db r)) key xs"
  shows "\<exists>st ret r'. LRem env key count v r = Some ((st, ret), r') \<and> outcome view {key} r st r' \<and>
    (st = OK \<longrightarrow> v \<in> set xs \<and> unat ret = length xs - length (redis_rem (sint count) v xs) \<and>
       list_at (env_now env) (view (rds_db r')) key (redis_rem (sint count) v xs)) \<and>
    (db_healthy (env_db env) view \<longrightarrow> (if v \<in> set xs then st = OK else is_NotFound st))"
  by (rule engine.LRem_correct [OF assms])

theorem LRem_removes_witness:
  "\<exists>ret r'. LRem example_env [7] (- 1) [1] (example_store 9) = Some ((OK, ret), r') \<and> unat ret = 1 \<and>
    list_at 5 (example_view (rds_db r')) [7] [[2]]"
  using LRem_removes [OF reference.engine_axioms example_key(1), of "example_store 9" "[[1], [2]]" "- 1" "[1]"]
    example_list_at [of 9] reference_healthy
  by (auto simp: redis_rem_def)

section \<open>Keys\<close>

text \<open>C7: \<open>EXPIRE\<close> and \<open>EXPIREAT\<close> leave the list as it is until the time given and make it disappear
  afterwards; a time that is not positive removes it at once. The meta value may be read or handed over by the caller.\<close>

theorem expiry_times:
  assumes "engine env view" and "key_ok key" and "list_at (env_now env) (view (rds_db r)) key xs" and "xs \<noteq> []"
    and "db_healthy (env_db env) view" and "prefetch = [] \<or> meta_of (view (rds_db r)) key = Some prefetch"
    and "unat (env_now env) + unat ttl < 2 ^ 63 \<or> \<not> 0 < sint ttl"
  shows "(\<exists>r'. ListsExpire env key ttl prefetch r = Some (OK, r') \<and> outcome view {key} r OK r' \<and>
      (\<forall>t. list_at t (view (rds_db r')) key (if \<not> 0 < sint ttl \<or> unat (env_now env) + unat ttl < unat t then [] else xs))) \<and>
    (\<exists>r'. ListsExpireat env key timestamp prefetch r = Some (OK, r') \<and> outcome view {key} r OK r' \<and>
      (\<forall>t. list_at t (view (rds_db r')) key (if \<not> 0 < sint timestamp \<or> timestamp < t then [] else xs)))"
  by (intro conjI engine.ListsExpire_correct [OF assms] engine.ListsExpireat_correct [OF assms(1-6)])

theorem expiry_times_witness:
  "\<exists>r'. ListsExpire example_env [7] 100 [] (example_store 9) = Some (OK, r') \<and>
    list_at 105 (example_view (rds_db r')) [7] [[1], [2]] \<and> list_at 106 (example_view (rds_db r')) [7] []"
proof -
  obtain r' where r': "ListsExpire example_env [7] 100 [] (example_store 9) = Some (OK, r')"
    "\<And>t. list_at t (example_view (rds_db r')) [7] (if \<not> 0 < sint (100 :: i64) \<or> unat (5 :: u64) + unat (100 :: u64) < unat t then [] else [[1], [2]])"
    using expiry_times [OF reference.engine_axioms example_key(1), of "example_store 9" "[[1], [2]]" "[]" 100 1]
      example_list_at [of 9] reference_healthy by auto
  then show ?thesis using r'(2) [of 105] r'(2) [of 106] by auto
qed

text \<open>\<open>PERSIST\<close> makes a list stay for ever, and \<open>DEL\<close> removes it for ever, touching only that key.\<close>

theorem Persist_and_Del:
  assumes "engine env view" and "key_ok key" and "list_at (env_now env) (view (rds_db r)) key xs" and "xs \<noteq> []"
    and "db_healthy (env_db env) view" and "prefetch = [] \<or> meta_of (view (rds_db r)) key = Some prefetch" and "stats_ok r"
  shows "(\<exists>st r'. ListsPersist env key prefetch r = Some (st, r') \<and> outcome view {key} r st r' \<and> (st = OK \<or> is_NotFound st) \<and>
      (\<forall>t. list_at t (view (rds_db r')) key xs)) \<and>
    (\<exists>r'. ListsDel env key prefetch r = Some (OK, r') \<and> outcome view {key} r OK r' \<and> (\<forall>t. list_at t (view (rds_db r')) key []))"
  by (intro conjI engine.ListsPersist_correct [OF assms(1-6)] engine.ListsDel_correct [OF assms])

theorem Persist_and_Del_witness:
  "\<exists>r'. ListsDel example_env [7] [] (example_store 9) = Some (OK, r') \<and> list_at 5 (example_view (rds_db r')) [7] []"
  using Persist_and_Del [OF reference.engine_axioms example_key(1), of "example_store 9" "[[1], [2]]" "[]"]
    example_list_at [of 9] example_stats reference_healthy by auto

definition example_string :: "WriteOp list redis" where
  "example_string = example_redis\<lparr>rds_db := [Put kMetaCF (BaseKey_Encode (\<lambda>_. 9) [7])
     (StringsValue_Encode (\<lambda>_. 9) (InternalValue_new 5 kStrings [1, 2, 3]))]\<rparr>"

text \<open>On a key that holds a value of another type every list command returns the same InvalidArgument status
  and leaves the state alone.\<close>

theorem wrong_type_refused:
  assumes "engine env view" and "key_ok key" and "other_type (env_now env) (view (rds_db r)) key" and "db_healthy (env_db env) view"
  shows "\<exists>msg. LIndex env key index r = Some (InvalidArgument msg, []) \<and> LLen env key [] r = Some (InvalidArgument msg, 0) \<and>
    LRange env key start stop r = Some (InvalidArgument msg, []) \<and> LPush env key vs r = Some ((InvalidArgument msg, 0), r) \<and>
    RPush env key vs r = Some ((InvalidArgument msg, 0), r) \<and> LPushx env key vs r = Some ((InvalidArgument msg, 0), r) \<and>
    RPushx env key vs r = Some ((InvalidArgument msg, 0), r) \<and> LPop env key count r = Some ((InvalidArgument msg, []), r) \<and>
    RPop env key count r = Some ((InvalidArgument msg, []), r) \<and> LSet env key index v r = Some (InvalidArgument msg, r) \<and>
    LTrim env key start stop r = Some (InvalidArgument msg, r) \<and> LInsert env key ba pivot v r = Some ((InvalidArgument msg, 0), r) \<and>
    LRem env key count v r = Some ((InvalidArgument msg, 0), r) \<and> RPoplpush env key key r = Some ((InvalidArgument msg, []), r) \<and>
    ListsDel env key [] r = Some (InvalidArgument msg, r) \<and> ListsExpire env key ttl [] r = Some (InvalidArgument msg, r)"
  by (rule engine.other_type_refused [OF assms])

theorem wrong_type_refused_witness:
  "\<exists>msg. LPush example_env [7] [[1]] example_string = Some ((InvalidArgument msg, 0), example_string)"
proof -
  have "meta_of (example_view (rds_db example_string)) [7] = Some (StringsValue_Encode (\<lambda>_. 9) (InternalValue_new 5 kStrings [1, 2, 3]))"
    unfolding example_view_records by (simp add: example_string_def pstd_slice.put_meta [OF example_key(1)])
  then have "other_type 5 (example_view (rds_db example_string)) [7]"
    by (simp add: other_type_def StringsValue_Encode_layout GetMetaValueType_def ExpectedStale_def InternalValue_new_def
        ParsedStringsValue_parse_def pv_IsStale_def DataType_of_byte_def Let_def stamp_okI)
  then show ?thesis
    using wrong_type_refused [OF reference.engine_axioms example_key(1), of example_string 0 0 0 "[[1]]" 0 "[]" Before "[]" 0] reference_healthy by auto
qed

section \<open>Where the code leaves the contract\<close>

context engine
begin

lemma LRange_wraps:
  assumes key: "key_ok key" and xs: "list_at (env_now env) (view (rds_db r)) key xs" and ne: "xs \<noteq> []"
    and ok: "db_healthy (env_db env) view" and left: "2 ^ 63 \<le> left_room (env_now env) (view (rds_db r)) key"
  shows "LRange env key 0 (2 ^ 63 - 1) r = Some (OK, []) \<and> redis_range 0 (sint (2 ^ 63 - 1 :: i64)) xs = xs"
  using key xs
proof (cases rule: get_list [where mk = key])
  case (live p)
  let ?L = "pl_left_index p"
  have L: "2 ^ 63 \<le> unat ?L" and R: "unat (pl_right_index p) = unat ?L + length xs + 1" "unat (pl_right_index p) < 2 ^ 64"
    using left live(11) list_window_bound [OF live(9)] live(9) unat_u64 [of "pl_right_index p"] by (auto simp: list_window_def)
  have "?L + 1 + (2 ^ 63 - 1) = ?L + 2 ^ 63" by simp
  moreover have "unat (?L + 2 ^ 63) = unat ?L - 2 ^ 63"
    using L unat_u64 [of ?L] by (simp add: unat_plus_if' del: unat_gt_0)
  moreover have "unat (?L + 1) = unat ?L + 1" using R by (intro unat_succ) simp
  ultimately have "?L + 1 + (2 ^ 63 - 1) < ?L + 1" by (simp only: word_less_nat_alt)
  then have "sublist_window p 0 (2 ^ 63 - 1) = None" by (simp add: sublist_window_def)
  then show ?thesis using live L R by (simp add: LRange_def redis_range_def)
qed (use ne ok in auto)

end

text \<open>Adding the offset to a stored index is unchecked: as soon as the left index has reached 2^63, which one
  \<open>LPOP\<close> from a fresh list does, \<open>LRANGE key 0 9223372036854775807\<close> returns nothing although the range
  covers the whole list.\<close>

theorem LRange_index_wraps:
  assumes "engine env view" and "key_ok key" and "list_at (env_now env) (view (rds_db r)) key xs" and "xs \<noteq> []"
    and "db_healthy (env_db env) view" and "2 ^ 63 \<le> left_room (env_now env) (view (rds_db r)) key"
  shows "LRange env key 0 (2 ^ 63 - 1) r = Some (OK, []) \<and> redis_range 0 (sint (2 ^ 63 - 1 :: i64)) xs = xs"
  by (rule engine.LRange_wraps [OF assms])

theorem LRange_index_wraps_witness:
  "LRange example_env [7] 0 (2 ^ 63 - 1) (example_store (2 ^ 63)) = Some (OK, [])"
  using LRange_index_wraps [OF reference.engine_axioms example_key(1), of "example_store (2 ^ 63)" "[[1], [2]]"]
    example_list_at [of "2 ^ 63"] example_rooms [of "2 ^ 63"] reference_healthy by simp

text \<open>\<open>ListsExpire\<close> looks the key up into a status that is local to the lookup, so on a key that does not
  exist it goes on to parse an empty meta value, which reads beyond the string; \<open>ListsExpireat\<close> on the same key
  reports NotFound and changes nothing.\<close>

theorem ListsExpire_missing:
  assumes "db_Get (env_db env) (rds_db r) kMetaCF (BaseKey_Encode (env_junk env) key) = (NotFound msg, [])"
  shows "ListsExpire env key ttl [] r = None \<and> ListsExpireat env key ttl [] r = Some (NotFound msg, r)"
  using assms by (simp add: ListsExpire_def ListsExpireat_def get_meta_def ParsedListsMetaValue_parse_def)

theorem ListsExpire_missing_witness:
  "ListsExpire example_env [8] 1000 [] (example_store 9) = None"
  using ListsExpire_missing [of example_env "example_store 9" "[8]" "[]" 1000] example_absent_meta(2) [of 9]
  by (simp add: log_db_def meta_of_def BaseKey_Encode_layout example_key)

end
