(* ===== verification/StreamFormat.thy ===== *)
theory StreamFormat
  imports ValueFormat Comparator
begin

text \<open>
  Identifiers and stored values of streams, from \<open>pika_stream_types.h\<close> and \<open>pika_stream_meta_value.h\<close>
  under \<open>src/src/storage/src\<close>: the stream identifier with its order and its big-endian
  serialisation, the meta value of a stream and the meta values of consumer groups, consumers and
  pending entries. A write past the end of a \<open>std::string\<close> makes the modelled string longer, and a
  read past its end is \<open>None\<close>. The assertions of the source are not compiled into a release build; the checks
  behind them are modelled.
\<close>

section \<open>Identifiers\<close>

datatype streamID = streamID (ms: u64) (seq: u64)

text \<open>The comparison operators, each as the source writes it.\<close>

fun sid_eq :: "streamID \<Rightarrow> streamID \<Rightarrow> bool" where
  "sid_eq (streamID m s) (streamID m' s') \<longleftrightarrow> m = m' \<and> s = s'"

fun sid_less :: "streamID \<Rightarrow> streamID \<Rightarrow> bool" where
  "sid_less (streamID m s) (streamID m' s') \<longleftrightarrow> m < m' \<or> m = m' \<and> s < s'"

fun sid_greater :: "streamID \<Rightarrow> streamID \<Rightarrow> bool" where
  "sid_greater (streamID m s) (streamID m' s') \<longleftrightarrow> m > m' \<or> m = m' \<and> s > s'"

fun sid_less_eq :: "streamID \<Rightarrow> streamID \<Rightarrow> bool" where
  "sid_less_eq (streamID m s) (streamID m' s') \<longleftrightarrow> m < m' \<or> m = m' \<and> s \<le> s'"

fun sid_greater_eq :: "streamID \<Rightarrow> streamID \<Rightarrow> bool" where
  "sid_greater_eq (streamID m s) (streamID m' s') \<longleftrightarrow> m > m' \<or> m = m' \<and> s \<ge> s'"

definition kSTREAMID_MAX :: streamID where "kSTREAMID_MAX = streamID (- 1) (- 1)"
definition kSTREAMID_MIN :: streamID where "kSTREAMID_MIN = streamID 0 0"

instantiation streamID :: linorder
begin

definition less_eq_streamID :: "streamID \<Rightarrow> streamID \<Rightarrow> bool" where
  "less_eq_streamID = sid_less_eq"

definition less_streamID :: "streamID \<Rightarrow> streamID \<Rightarrow> bool" where
  "less_streamID = sid_less"

instance
proof
  fix x y z :: streamID
  show "x < y \<longleftrightarrow> x \<le> y \<and> \<not> y \<le> x"
    by (cases x; cases y) (auto simp: less_eq_streamID_def less_streamID_def)
  show "x \<le> x" by (cases x) (simp add: less_eq_streamID_def)
  show "x \<le> z" if "x \<le> y" "y \<le> z"
    using that by (cases x; cases y; cases z) (auto simp: less_eq_streamID_def)
  show "x = y" if "x \<le> y" "y \<le> x"
    using that by (cases x; cases y) (auto simp: less_eq_streamID_def)
  show "x \<le> y \<or> y \<le> x" by (cases x; cases y) (auto simp: less_eq_streamID_def)
qed

end

lemma sid_operators [simp]:
  "sid_eq a b \<longleftrightarrow> a = b" "sid_greater a b \<longleftrightarrow> b < a" "sid_greater_eq a b \<longleftrightarrow> b \<le> a"
  "sid_less a b \<longleftrightarrow> a < b" "sid_less_eq a b \<longleftrightarrow> a \<le> b"
  by (cases a; cases b; auto simp: less_eq_streamID_def less_streamID_def)+

lemma streamID_less: "streamID m s < streamID m' s' \<longleftrightarrow> m < m' \<or> m = m' \<and> s < s'"
  by (simp add: less_streamID_def del: sid_operators)

lemma streamID_le: "streamID m s \<le> streamID m' s' \<longleftrightarrow> m < m' \<or> m = m' \<and> s \<le> s'"
  by (simp add: less_eq_streamID_def del: sid_operators)

lemma streamID_bounds [simp]: "kSTREAMID_MIN \<le> i" "i \<le> kSTREAMID_MAX"
  by (cases i; simp add: kSTREAMID_MIN_def kSTREAMID_MAX_def streamID_le word_order.not_eq_extremum word_neq_0_conv; auto)+

section \<open>Serialisation\<close>

text \<open>The loop over \<open>i = 7, \<dots>, 0\<close> stores the lowest byte and shifts.\<close>

fun EncodeUint64InBigEndian_loop :: "nat \<Rightarrow> u64 \<Rightarrow> nat \<Rightarrow> bytes \<Rightarrow> bytes" where
  "EncodeUint64InBigEndian_loop 0 v off buf = buf"
| "EncodeUint64InBigEndian_loop (Suc i) v off buf =
     EncodeUint64InBigEndian_loop i (drop_bit 8 v) off (buf[off + i := ucast (v AND 0xff)])"

definition EncodeUint64InBigEndian :: "bool \<Rightarrow> bytes \<Rightarrow> nat \<Rightarrow> u64 \<Rightarrow> bytes" where
  "EncodeUint64InBigEndian kLittleEndian buf off v =
     (if kLittleEndian then EncodeUint64InBigEndian_loop 8 v off buf
      else memcpy_at buf off (object_bytes kLittleEndian 8 v))"

definition DecodeUint64OfBigEndian :: "bool \<Rightarrow> bytes \<Rightarrow> u64" where
  "DecodeUint64OfBigEndian kLittleEndian ptr =
     (if kLittleEndian then fold (\<lambda>b v. push_bit 8 v OR ucast b) (take 8 ptr) 0
      else object_value kLittleEndian (take 8 ptr))"

definition sid_Serialize_on :: "bool \<Rightarrow> streamID \<Rightarrow> bytes" where
  "sid_Serialize_on little i =
     (let dst = replicate (8 + 8) 0;
          dst = EncodeUint64InBigEndian little dst 0 (ms i)
      in EncodeUint64InBigEndian little dst 8 (seq i))"

abbreviation sid_Serialize :: "streamID \<Rightarrow> bytes" where "sid_Serialize \<equiv> sid_Serialize_on True"

text \<open>The caller must hand over sixteen bytes; reading further is undefined.\<close>

definition sid_DeserializeFrom :: "bytes \<Rightarrow> streamID option" where
  "sid_DeserializeFrom src =
     (if length src < 16 then None
      else Some (streamID (DecodeUint64OfBigEndian True src) (DecodeUint64OfBigEndian True (drop 8 src))))"

definition be_bytes :: "u64 \<Rightarrow> bytes" where "be_bytes v = rev (le_bytes 8 v)"

lemma length_be_bytes [simp]: "length (be_bytes v) = 8" by (simp add: be_bytes_def)

lemma le_bytes_Suc: "le_bytes (Suc n) w = ucast w # le_bytes n (drop_bit 8 w)"
proof -
  have "[0..<Suc n] = 0 # map Suc [0..<n]" by (simp add: upt_conv_Cons map_Suc_upt)
  then show ?thesis by (simp add: le_bytes_def drop_bit_drop_bit add.commute)
qed

lemma EncodeUint64InBigEndian_loop_ok:
  assumes "off + n \<le> length buf"
  shows "EncodeUint64InBigEndian_loop n v off buf = memcpy_at buf off (rev (le_bytes n v))"
  using assms
proof (induction n arbitrary: v buf)
  case 0
  then show ?case by (simp add: memcpy_at_def le_bytes_def)
next
  case (Suc n)
  have "memcpy_at (buf[off + n := ucast v]) off (rev (le_bytes n (drop_bit 8 v))) =
      memcpy_at buf off (rev (le_bytes n (drop_bit 8 v)) @ [ucast v])"
    using Suc.prems by (intro nth_equalityI) (auto simp: nth_memcpy_at nth_append nth_list_update)
  then show ?case using Suc by (simp add: le_bytes_Suc ucast_and_ff)
qed

lemma EncodeUint64InBigEndian_ok:
  "off + 8 \<le> length buf \<Longrightarrow> EncodeUint64InBigEndian little buf off v = memcpy_at buf off (be_bytes v)"
  by (simp add: EncodeUint64InBigEndian_def EncodeUint64InBigEndian_loop_ok object_bytes_def be_bytes_def)

lemma sid_Serialize_layout: "sid_Serialize_on little i = be_bytes (ms i) @ be_bytes (seq i)"
  by (simp add: sid_Serialize_on_def EncodeUint64InBigEndian_ok buf_simps)

lemma length_sid_Serialize [simp]: "length (sid_Serialize_on little i) = 16"
  by (simp add: sid_Serialize_layout)

lemma fold_be_val: "fold (\<lambda>b v. push_bit 8 v OR ucast b) bs acc = push_bit (8 * length bs) acc OR (le_val (rev bs) :: u64)"
  by (induction bs arbitrary: acc) (simp_all add: le_val_append push_bit_or push_bit_push_bit or.assoc or.commute add.commute)

lemma DecodeUint64OfBigEndian_be_bytes [simp]: "DecodeUint64OfBigEndian little (be_bytes v @ rest) = v"
  by (simp add: DecodeUint64OfBigEndian_def fold_be_val object_value_def be_bytes_def le_val_le_bytes)

lemma sid_Deserialize_Serialize [simp]: "sid_DeserializeFrom (sid_Serialize_on little i @ rest) = Some i"
  by (simp add: sid_DeserializeFrom_def sid_Serialize_layout)

text \<open>Comparing serialised identifiers byte by byte compares the identifiers.\<close>

fun be_nat :: "bytes \<Rightarrow> nat" where
  "be_nat [] = 0"
| "be_nat (b # bs) = unat b * 256 ^ length bs + be_nat bs"

lemma be_digit:
  assumes "a < b" and "x < (n :: nat)"
  shows "a * n + x < b * n + y"
proof -
  have "Suc a * n \<le> b * n" using assms(1) by (intro mult_le_mono1) simp
  then show ?thesis using assms(2) by simp
qed

lemma be_nat_less: "be_nat bs < 256 ^ length bs"
proof (induction bs)
  case (Cons b bs)
  have "unat b < 256" using unsigned_less [of b, where 'a = nat] by simp
  then show ?case using be_digit [of "unat b" 256 "be_nat bs" "256 ^ length bs" 0] Cons by simp
qed simp

lemma be_nat_order: "length xs = length ys \<Longrightarrow> xs < ys \<longleftrightarrow> be_nat xs < be_nat ys"
proof (induction xs ys rule: list_induct2)
  case (Cons x xs y ys)
  show ?case
  proof (cases x y rule: linorder_cases)
    case less
    then have "be_nat (x # xs) < be_nat (y # ys)"
      using be_digit [of "unat x" "unat y" "be_nat xs" "256 ^ length xs" "be_nat ys"] be_nat_less [of xs] Cons(1)
      by (simp add: word_less_nat_alt)
    then show ?thesis using less by simp
  next
    case greater
    then have "be_nat (y # ys) < be_nat (x # xs)"
      using be_digit [of "unat y" "unat x" "be_nat ys" "256 ^ length ys" "be_nat xs"] be_nat_less [of ys] Cons(1)
      by (simp add: word_less_nat_alt)
    then show ?thesis using greater by auto
  qed (use Cons in simp)
qed simp

lemma be_nat_snoc: "be_nat (xs @ [b]) = be_nat xs * 256 + unat b"
  by (induction xs) (simp_all add: algebra_simps)

lemma be_nat_rev_le_bytes: "be_nat (rev (le_bytes n w)) = unat (w :: u64) mod 256 ^ n"
proof (induction n arbitrary: w)
  case (Suc n)
  have "unat (drop_bit 8 w) = unat w div 256" by (simp add: drop_bit_eq_div unat_div_distrib)
  moreover have "unat (ucast w :: byte) = unat w mod 256"
    by (simp add: unsigned_ucast_eq take_bit_eq_mod)
  moreover have "unat w mod (256 * 256 ^ n) = 256 * (unat w div 256 mod 256 ^ n) + unat w mod 256"
    by (rule mod_mult2_eq)
  ultimately show ?case using Suc by (simp add: le_bytes_Suc be_nat_snoc)
qed (simp add: le_bytes_def)

lemma be_bytes_less: "be_bytes a < be_bytes b \<longleftrightarrow> a < b"
  using unsigned_less [of a, where 'a = nat] unsigned_less [of b, where 'a = nat]
  by (simp add: be_nat_order be_nat_rev_le_bytes be_bytes_def word_less_nat_alt)

lemma append_less_same_length:
  "length xs = length ys \<Longrightarrow> xs @ us < ys @ vs \<longleftrightarrow> xs < ys \<or> xs = ys \<and> us < (vs :: bytes)"
  by (induction xs ys rule: list_induct2) auto

lemma be_bytes_inject [simp]: "be_bytes a = be_bytes b \<longleftrightarrow> a = b"
  using be_bytes_less [of a b] be_bytes_less [of b a] by (metis linorder_less_linear order_less_irrefl)

lemma sid_Serialize_less: "sid_Serialize a < sid_Serialize b \<longleftrightarrow> a < b"
  by (cases a; cases b) (simp add: sid_Serialize_layout append_less_same_length be_bytes_less streamID_less)

lemma sid_Serialize_inject [simp]: "sid_Serialize a = sid_Serialize b \<longleftrightarrow> a = b"
  by (cases a; cases b) (simp add: sid_Serialize_layout)

section \<open>Meta value of a stream\<close>

record StreamMetaValue =
  smv_groups_id :: u32
  smv_entries_added :: u64
  smv_first_id :: streamID
  smv_last_id :: streamID
  smv_max_deleted_entry_id :: streamID
  smv_length :: i32
  smv_version :: u64
  smv_type :: DataType
  smv_value :: bytes

definition kDefaultStreamValueLength :: nat where
  "kDefaultStreamValueLength = 4 + 8 + 3 * 16 + 4 + 8 + kTypeLength"

definition StreamMetaValue_new :: StreamMetaValue where
  "StreamMetaValue_new = \<lparr>smv_groups_id = 0, smv_entries_added = 0, smv_first_id = streamID 0 0,
     smv_last_id = streamID 0 0, smv_max_deleted_entry_id = streamID 0 0, smv_length = 0, smv_version = 0,
     smv_type = kStreams, smv_value = []\<rparr>"

text \<open>\<open>std::string::resize\<close>.\<close>

definition resize :: "nat \<Rightarrow> bytes \<Rightarrow> bytes" where
  "resize n s = take n s @ replicate (n - length s) 0"

lemma length_resize [simp]: "length (resize n s) = n" by (simp add: resize_def)

text \<open>The identifier of the groups is stored with eight bytes, the last four of which the next field overwrites.\<close>

definition InitMetaValue :: "StreamMetaValue \<Rightarrow> StreamMetaValue" where
  "InitMetaValue m =
     (let m = m\<lparr>smv_groups_id := 0, smv_entries_added := 0, smv_first_id := streamID 0 0, smv_last_id := streamID 0 0,
            smv_max_deleted_entry_id := streamID 0 0, smv_length := 0, smv_version := smv_version m + 1\<rparr>;
          dst = resize kDefaultStreamValueLength (smv_value m);
          dst = memcpy_at dst 0 [byte_of_DataType (smv_type m)];
          dst = memcpy_at dst 1 (EncodeFixed64 (ucast (smv_groups_id m)));
          dst = memcpy_at dst (1 + 4) (EncodeFixed64 (smv_entries_added m));
          dst = memcpy_at dst (1 + 4 + 8) (EncodeFixed64 (ms (smv_first_id m)));
          dst = memcpy_at dst (1 + 4 + 8 + 8) (EncodeFixed64 (seq (smv_first_id m)));
          dst = memcpy_at dst (1 + 4 + 8 + 16) (EncodeFixed64 (ms (smv_last_id m)));
          dst = memcpy_at dst (1 + 4 + 8 + 24) (EncodeFixed64 (seq (smv_last_id m)));
          dst = memcpy_at dst (1 + 4 + 8 + 32) (EncodeFixed64 (ms (smv_max_deleted_entry_id m)));
          dst = memcpy_at dst (1 + 4 + 8 + 40) (EncodeFixed64 (seq (smv_max_deleted_entry_id m)));
          dst = memcpy_at dst (1 + 4 + 8 + 48) (EncodeFixed32 (smv_length m));
          dst = memcpy_at dst (1 + 4 + 8 + 48 + 4) (EncodeFixed64 (smv_version m))
      in m\<lparr>smv_value := dst\<rparr>)"

text \<open>A value of another length is taken over and logged; the fields keep what they were.\<close>

definition smv_ParseFrom :: "bytes \<Rightarrow> StreamMetaValue \<Rightarrow> StreamMetaValue" where
  "smv_ParseFrom v m =
     (let m = m\<lparr>smv_value := v\<rparr>
      in if length v \<noteq> kDefaultStreamValueLength then m
         else m\<lparr>smv_type := DataType_of_byte (v ! 0),
                smv_groups_id := DecodeFixed32 (drop 1 v),
                smv_entries_added := DecodeFixed64 (drop 5 v),
                smv_first_id := streamID (DecodeFixed64 (drop 13 v)) (DecodeFixed64 (drop 21 v)),
                smv_last_id := streamID (DecodeFixed64 (drop 29 v)) (DecodeFixed64 (drop 37 v)),
                smv_max_deleted_entry_id := streamID (DecodeFixed64 (drop 45 v)) (DecodeFixed64 (drop 53 v)),
                smv_length := DecodeFixed32 (drop 61 v),
                smv_version := DecodeFixed64 (drop 65 v)\<rparr>)"

definition smv_poke :: "nat \<Rightarrow> bytes \<Rightarrow> StreamMetaValue \<Rightarrow> StreamMetaValue" where
  "smv_poke off src m = m\<lparr>smv_value := memcpy_at (smv_value m) off src\<rparr>"

definition smv_set_groups_id :: "u32 \<Rightarrow> StreamMetaValue \<Rightarrow> StreamMetaValue" where
  "smv_set_groups_id i m = smv_poke kTypeLength (EncodeFixed32 i) (m\<lparr>smv_groups_id := i\<rparr>)"

definition smv_set_entries_added :: "u64 \<Rightarrow> StreamMetaValue \<Rightarrow> StreamMetaValue" where
  "smv_set_entries_added n m = smv_poke (4 + kTypeLength) (EncodeFixed64 n) (m\<lparr>smv_entries_added := n\<rparr>)"

definition smv_ModifyEntriesAdded :: "u64 \<Rightarrow> StreamMetaValue \<Rightarrow> StreamMetaValue" where
  "smv_ModifyEntriesAdded delta m = smv_set_entries_added (smv_entries_added m + delta) m"

definition smv_set_first_id :: "streamID \<Rightarrow> StreamMetaValue \<Rightarrow> StreamMetaValue" where
  "smv_set_first_id i m =
     smv_poke (4 + 8 + kTypeLength + 8) (EncodeFixed64 (seq i))
       (smv_poke (4 + 8 + kTypeLength) (EncodeFixed64 (ms i)) (m\<lparr>smv_first_id := i\<rparr>))"

definition smv_set_last_id :: "streamID \<Rightarrow> StreamMetaValue \<Rightarrow> StreamMetaValue" where
  "smv_set_last_id i m =
     smv_poke (4 + 8 + 16 + kTypeLength + 8) (EncodeFixed64 (seq i))
       (smv_poke (4 + 8 + 16 + kTypeLength) (EncodeFixed64 (ms i)) (m\<lparr>smv_last_id := i\<rparr>))"

definition smv_set_max_deleted_entry_id :: "streamID \<Rightarrow> StreamMetaValue \<Rightarrow> StreamMetaValue" where
  "smv_set_max_deleted_entry_id i m =
     smv_poke (4 + 8 + 2 * 16 + kTypeLength + 8) (EncodeFixed64 (seq i))
       (smv_poke (4 + 8 + 2 * 16 + kTypeLength) (EncodeFixed64 (ms i)) (m\<lparr>smv_max_deleted_entry_id := i\<rparr>))"

definition smv_set_length :: "i32 \<Rightarrow> StreamMetaValue \<Rightarrow> StreamMetaValue" where
  "smv_set_length n m = smv_poke (4 + 8 + 3 * 16 + kTypeLength) (EncodeFixed32 n) (m\<lparr>smv_length := n\<rparr>)"

definition smv_set_version :: "u64 \<Rightarrow> StreamMetaValue \<Rightarrow> StreamMetaValue" where
  "smv_set_version v m = smv_poke (4 + 8 + 3 * 16 + 4 + kTypeLength) (EncodeFixed64 v) (m\<lparr>smv_version := v\<rparr>)"

text \<open>
  \<open>ParsedStreamMetaValue\<close> reads the same fields from a value it does not own. Its type stays
  uninitialised and the other fields zero when the length is wrong.
\<close>

definition ParsedStreamMetaValue_parse :: "bytes \<Rightarrow> StreamMetaValue" where
  "ParsedStreamMetaValue_parse v = (smv_ParseFrom v StreamMetaValue_new)\<lparr>smv_value := []\<rparr>"

definition smv_wf :: "StreamMetaValue \<Rightarrow> bool" where
  "smv_wf m \<longleftrightarrow> length (smv_value m) = 73 \<and> smv_ParseFrom (smv_value m) m = m"

lemma kDefaultStreamValueLength_eq [simp]: "kDefaultStreamValueLength = 73"
  by (simp add: kDefaultStreamValueLength_def)

lemma smv_wf_iff:
  "smv_wf m \<longleftrightarrow> length (smv_value m) = 73 \<and> smv_type m = DataType_of_byte (smv_value m ! 0) \<and>
     smv_groups_id m = DecodeFixed32 (drop 1 (smv_value m)) \<and> smv_entries_added m = DecodeFixed64 (drop 5 (smv_value m)) \<and>
     smv_first_id m = streamID (DecodeFixed64 (drop 13 (smv_value m))) (DecodeFixed64 (drop 21 (smv_value m))) \<and>
     smv_last_id m = streamID (DecodeFixed64 (drop 29 (smv_value m))) (DecodeFixed64 (drop 37 (smv_value m))) \<and>
     smv_max_deleted_entry_id m = streamID (DecodeFixed64 (drop 45 (smv_value m))) (DecodeFixed64 (drop 53 (smv_value m))) \<and>
     smv_length m = DecodeFixed32 (drop 61 (smv_value m)) \<and> smv_version m = DecodeFixed64 (drop 65 (smv_value m))"
  by (cases m) (auto simp: smv_wf_def smv_ParseFrom_def Let_def)

lemma smv_ParseFrom_wf:
  assumes "length v = 73"
  shows "smv_wf (smv_ParseFrom v m)" "smv_value (smv_ParseFrom v m) = v"
  using assms by (simp_all add: smv_wf_iff smv_ParseFrom_def Let_def)

lemma smv_ParseFrom_value: "smv_wf m \<Longrightarrow> smv_ParseFrom (smv_value m) m' = m"
  by (cases m; cases m') (simp add: smv_wf_iff smv_ParseFrom_def)

lemma byte_of_kStreams [simp]: "DataType_of_byte 5 = kStreams"
  by (simp add: DataType_of_byte_def)

lemma le_val_zeros [simp]: "le_val (replicate n 0) = 0"
  by (induction n) simp_all

lemma Decode_zeros [simp]: "DecodeFixed32 (replicate n 0) = 0" "DecodeFixed64 (replicate n 0) = 0"
  by (simp_all add: DecodeFixed32_on_def DecodeFixed64_on_def object_value_def)

lemma Decode32_zeros_append [simp]: "DecodeFixed32 (replicate 4 0 @ r) = 0"
  by (simp add: DecodeFixed32_on_def object_value_def)

lemma EncodeFixed64_0: "EncodeFixed64 0 = replicate 8 0"
  by (simp add: EncodeFixed64_on_def object_bytes_def le_bytes_def map_replicate_const)

lemma EncodeFixed64_halves_0: "EncodeFixed64 0 = replicate 4 0 @ replicate 4 0"
  by (simp add: EncodeFixed64_0 flip: replicate_add)

lemma InitMetaValue_layout:
  "smv_value (InitMetaValue m) = [byte_of_DataType (smv_type m)] @ replicate 4 0 @ EncodeFixed64 0 @ EncodeFixed64 0 @ EncodeFixed64 0 @
     EncodeFixed64 0 @ EncodeFixed64 0 @ EncodeFixed64 0 @ EncodeFixed64 0 @ EncodeFixed32 0 @ EncodeFixed64 (smv_version m + 1)"
proof -
  have "memcpy_at (t # EncodeFixed64 (ucast (0 :: u32)) @ r) 5 src = t # replicate 4 0 @ memcpy_at (replicate 4 0 @ r) 0 src" for t r src
    by (simp add: EncodeFixed64_halves_0 buf_simps)
  then show ?thesis by (simp add: InitMetaValue_def Let_def buf_simps)
qed

lemma InitMetaValue_wf:
  assumes "smv_type m = kStreams"
  shows "smv_wf (InitMetaValue m)"
  unfolding smv_wf_iff InitMetaValue_layout
  using assms by (simp add: InitMetaValue_def Let_def)

lemma InitMetaValue_fields [simp]:
  "smv_version (InitMetaValue m) = smv_version m + 1" "smv_length (InitMetaValue m) = 0"
  "smv_first_id (InitMetaValue m) = streamID 0 0" "smv_last_id (InitMetaValue m) = streamID 0 0"
  "smv_entries_added (InitMetaValue m) = 0" "smv_type (InitMetaValue m) = smv_type m"
  "smv_max_deleted_entry_id (InitMetaValue m) = streamID 0 0" "smv_groups_id (InitMetaValue m) = 0"
  by (simp_all add: InitMetaValue_def Let_def)

lemmas smv_setter_defs = smv_set_groups_id_def smv_set_entries_added_def smv_ModifyEntriesAdded_def smv_set_first_id_def
  smv_set_last_id_def smv_set_max_deleted_entry_id_def smv_set_length_def smv_set_version_def smv_poke_def

lemma smv_setters_wf:
  assumes "smv_wf m"
  shows "smv_wf (smv_set_groups_id g m)" "smv_wf (smv_set_entries_added n m)" "smv_wf (smv_ModifyEntriesAdded n m)"
    "smv_wf (smv_set_first_id i m)" "smv_wf (smv_set_last_id i m)" "smv_wf (smv_set_max_deleted_entry_id i m)"
    "smv_wf (smv_set_length l m)" "smv_wf (smv_set_version n m)"
  using assms by (simp_all add: smv_wf_iff smv_setter_defs patch_simps)

lemma smv_setter_fields [simp]:
  "smv_first_id (smv_set_first_id i m) = i" "smv_last_id (smv_set_first_id i m) = smv_last_id m"
  "smv_length (smv_set_first_id i m) = smv_length m" "smv_version (smv_set_first_id i m) = smv_version m"
  "smv_max_deleted_entry_id (smv_set_first_id i m) = smv_max_deleted_entry_id m"
  "smv_entries_added (smv_set_first_id i m) = smv_entries_added m" "smv_type (smv_set_first_id i m) = smv_type m"
  "smv_first_id (smv_set_last_id i m) = smv_first_id m" "smv_last_id (smv_set_last_id i m) = i"
  "smv_length (smv_set_last_id i m) = smv_length m" "smv_version (smv_set_last_id i m) = smv_version m"
  "smv_max_deleted_entry_id (smv_set_last_id i m) = smv_max_deleted_entry_id m"
  "smv_entries_added (smv_set_last_id i m) = smv_entries_added m" "smv_type (smv_set_last_id i m) = smv_type m"
  "smv_first_id (smv_set_max_deleted_entry_id i m) = smv_first_id m" "smv_last_id (smv_set_max_deleted_entry_id i m) = smv_last_id m"
  "smv_length (smv_set_max_deleted_entry_id i m) = smv_length m" "smv_version (smv_set_max_deleted_entry_id i m) = smv_version m"
  "smv_max_deleted_entry_id (smv_set_max_deleted_entry_id i m) = i"
  "smv_entries_added (smv_set_max_deleted_entry_id i m) = smv_entries_added m" "smv_type (smv_set_max_deleted_entry_id i m) = smv_type m"
  "smv_first_id (smv_set_length l m) = smv_first_id m" "smv_last_id (smv_set_length l m) = smv_last_id m"
  "smv_length (smv_set_length l m) = l" "smv_version (smv_set_length l m) = smv_version m"
  "smv_max_deleted_entry_id (smv_set_length l m) = smv_max_deleted_entry_id m"
  "smv_entries_added (smv_set_length l m) = smv_entries_added m" "smv_type (smv_set_length l m) = smv_type m"
  "smv_first_id (smv_set_entries_added n m) = smv_first_id m" "smv_last_id (smv_set_entries_added n m) = smv_last_id m"
  "smv_length (smv_set_entries_added n m) = smv_length m" "smv_version (smv_set_entries_added n m) = smv_version m"
  "smv_max_deleted_entry_id (smv_set_entries_added n m) = smv_max_deleted_entry_id m"
  "smv_entries_added (smv_set_entries_added n m) = n" "smv_type (smv_set_entries_added n m) = smv_type m"
  by (simp_all add: smv_setter_defs)

section \<open>Meta values of consumer groups, consumers and pending entries\<close>

text \<open>An object is copied with \<open>memcpy\<close>, so a stream identifier is its two integers in host order.\<close>

definition sid_object :: "streamID \<Rightarrow> bytes" where
  "sid_object i = EncodeFixed64 (ms i) @ EncodeFixed64 (seq i)"

definition sid_of_object :: "bytes \<Rightarrow> streamID" where
  "sid_of_object b = streamID (DecodeFixed64 b) (DecodeFixed64 (drop 8 b))"

record StreamCGroupMetaValue =
  scg_value :: bytes
  scg_last_id :: streamID
  scg_entries_read :: u64
  scg_pel :: u32
  scg_consumers :: u32

definition StreamCGroupMetaValue_new :: StreamCGroupMetaValue where
  "StreamCGroupMetaValue_new = \<lparr>scg_value = [], scg_last_id = streamID 0 0, scg_entries_read = 0, scg_pel = 0, scg_consumers = 0\<rparr>"

definition kDefaultStreamCGroupValueLength :: nat where
  "kDefaultStreamCGroupValueLength = 16 + 8 + 2 * 4 + kTypeLength"

text \<open>After the identifier the destination advances by eight bytes only.\<close>

definition scg_Init :: "u32 \<Rightarrow> u32 \<Rightarrow> StreamCGroupMetaValue \<Rightarrow> StreamCGroupMetaValue" where
  "scg_Init tid consumers m =
     (let m = m\<lparr>scg_pel := tid, scg_consumers := consumers\<rparr>
      in if length (scg_value m) \<noteq> 0 then m
         else
           let dst = resize kDefaultStreamCGroupValueLength (scg_value m);
               dst = memcpy_at dst 0 (sid_object (scg_last_id m));
               dst = memcpy_at dst 8 (EncodeFixed64 (scg_entries_read m));
               dst = memcpy_at dst (8 + 8) (EncodeFixed32 (scg_pel m));
               dst = memcpy_at dst (8 + 8 + 4) (EncodeFixed32 (scg_consumers m))
           in m\<lparr>scg_value := dst\<rparr>)"

definition scg_ParseFrom :: "bytes \<Rightarrow> StreamCGroupMetaValue \<Rightarrow> StreamCGroupMetaValue" where
  "scg_ParseFrom v m =
     (let m = m\<lparr>scg_value := v\<rparr>
      in if length v \<noteq> kDefaultStreamCGroupValueLength then m
         else m\<lparr>scg_last_id := sid_of_object v, scg_entries_read := DecodeFixed64 (drop 16 v),
                scg_pel := DecodeFixed32 (drop (16 + 8) v), scg_consumers := DecodeFixed32 (drop (16 + 8 + 4) v)\<rparr>)"

definition scg_set_last_id :: "streamID \<Rightarrow> StreamCGroupMetaValue \<Rightarrow> StreamCGroupMetaValue" where
  "scg_set_last_id i m = m\<lparr>scg_last_id := i, scg_value := memcpy_at (scg_value m) 0 (sid_object i)\<rparr>"

definition scg_set_entries_read :: "u64 \<Rightarrow> StreamCGroupMetaValue \<Rightarrow> StreamCGroupMetaValue" where
  "scg_set_entries_read n m = m\<lparr>scg_entries_read := n, scg_value := memcpy_at (scg_value m) 16 (EncodeFixed64 n)\<rparr>"

record StreamConsumerMetaValue =
  scm_value :: bytes
  scm_seen_time :: u64
  scm_active_time :: u64
  scm_pel :: u32

definition StreamConsumerMetaValue_new :: StreamConsumerMetaValue where
  "StreamConsumerMetaValue_new = \<lparr>scm_value = [], scm_seen_time = 0, scm_active_time = 0, scm_pel = 0\<rparr>"

definition kDefaultStreamConsumerValueLength :: nat where
  "kDefaultStreamConsumerValueLength = 8 * 2 + 4"

definition scm_ParseFrom :: "bytes \<Rightarrow> StreamConsumerMetaValue \<Rightarrow> StreamConsumerMetaValue" where
  "scm_ParseFrom v m =
     (let m = m\<lparr>scm_value := v\<rparr>
      in if length v \<noteq> kDefaultStreamConsumerValueLength then m
         else m\<lparr>scm_seen_time := DecodeFixed64 v, scm_active_time := DecodeFixed64 (drop 8 v),
                scm_pel := DecodeFixed32 (drop (8 + 8) v)\<rparr>)"

definition scm_Init :: "u32 \<Rightarrow> StreamConsumerMetaValue \<Rightarrow> StreamConsumerMetaValue" where
  "scm_Init pel m =
     (let m = m\<lparr>scm_pel := pel\<rparr>
      in if length (scm_value m) \<noteq> 0 then m
         else
           let dst = resize kDefaultStreamConsumerValueLength (scm_value m);
               dst = memcpy_at dst 0 (EncodeFixed64 (scm_seen_time m));
               dst = memcpy_at dst 8 (EncodeFixed64 (scm_active_time m));
               dst = memcpy_at dst (8 + 8) (EncodeFixed32 (scm_pel m))
           in m\<lparr>scm_value := dst\<rparr>)"

definition scm_set_seen_time :: "u64 \<Rightarrow> StreamConsumerMetaValue \<Rightarrow> StreamConsumerMetaValue" where
  "scm_set_seen_time t m = m\<lparr>scm_seen_time := t, scm_value := memcpy_at (scm_value m) 0 (EncodeFixed64 t)\<rparr>"

definition scm_set_active_time :: "u64 \<Rightarrow> StreamConsumerMetaValue \<Rightarrow> StreamConsumerMetaValue" where
  "scm_set_active_time t m = m\<lparr>scm_active_time := t, scm_value := memcpy_at (scm_value m) 8 (EncodeFixed64 t)\<rparr>"

record StreamPelMeta =
  spm_value :: bytes
  spm_delivery_time :: u64
  spm_delivery_count :: u64
  spm_cname_len :: u64
  spm_consumer :: bytes

definition StreamPelMeta_new :: StreamPelMeta where
  "StreamPelMeta_new = \<lparr>spm_value = [], spm_delivery_time = 0, spm_delivery_count = 1, spm_cname_len = 0, spm_consumer = []\<rparr>"

definition kDefaultStreamPelMetaValueLength :: nat where
  "kDefaultStreamPelMetaValueLength = 8 + 8 + 4"

definition spm_Init :: "bytes \<Rightarrow> u64 \<Rightarrow> StreamPelMeta \<Rightarrow> StreamPelMeta" where
  "spm_Init consumer delivery_time m =
     (let m = m\<lparr>spm_consumer := consumer, spm_delivery_time := delivery_time\<rparr>
      in if length (spm_value m) \<noteq> 0 then m
         else
           let dst = resize kDefaultStreamPelMetaValueLength (spm_value m);
               dst = memcpy_at dst 0 (EncodeFixed64 (spm_delivery_time m));
               dst = memcpy_at dst 8 (EncodeFixed64 (spm_delivery_count m));
               dst = memcpy_at dst (8 + 8) (EncodeFixed64 (spm_cname_len m));
               dst = memcpy_at dst (8 + 8 + 8) (take (unat (spm_cname_len m)) (spm_consumer m))
           in m\<lparr>spm_value := dst\<rparr>)"

definition spm_ParseFrom :: "bytes \<Rightarrow> StreamPelMeta \<Rightarrow> StreamPelMeta option" where
  "spm_ParseFrom v m =
     (let m = m\<lparr>spm_value := v\<rparr>
      in if length v \<noteq> kDefaultStreamPelMetaValueLength then Some m
         else if length v < 8 + 8 + 8 + unat (DecodeFixed64 (drop (8 + 8) v)) then None
         else Some (m\<lparr>spm_delivery_time := DecodeFixed64 v, spm_delivery_count := DecodeFixed64 (drop 8 v),
                      spm_cname_len := DecodeFixed64 (drop (8 + 8) v),
                      spm_consumer := take (unat (DecodeFixed64 (drop (8 + 8) v))) (drop (8 + 8 + 8) v)\<rparr>))"

definition spm_set_delivery_time :: "u64 \<Rightarrow> StreamPelMeta \<Rightarrow> StreamPelMeta" where
  "spm_set_delivery_time t m = m\<lparr>spm_delivery_time := t, spm_value := memcpy_at (spm_value m) 0 (EncodeFixed64 t)\<rparr>"

definition spm_set_delivery_count :: "u64 \<Rightarrow> StreamPelMeta \<Rightarrow> StreamPelMeta" where
  "spm_set_delivery_count n m = m\<lparr>spm_delivery_count := n, spm_value := memcpy_at (spm_value m) 8 (EncodeFixed64 n)\<rparr>"

lemma stream_value_lengths [simp]:
  "kDefaultStreamCGroupValueLength = 33" "kDefaultStreamConsumerValueLength = 20" "kDefaultStreamPelMetaValueLength = 20"
  by (simp_all add: kDefaultStreamCGroupValueLength_def kDefaultStreamConsumerValueLength_def kDefaultStreamPelMetaValueLength_def)

section \<open>Properties\<close>

text \<open>A stream identifier survives its serialisation, which does not depend on the host's byte order, and
  comparing the serialised bytes, as the database does, compares the identifiers.\<close>

theorem streamID_serialisation:
  "sid_DeserializeFrom (sid_Serialize_on little i) = Some i \<and> sid_Serialize_on little i = sid_Serialize i \<and>
   (pstd_Slice_compare (sid_Serialize i) (sid_Serialize j) < 0 \<longleftrightarrow> sid_less i j)"
  using sid_Deserialize_Serialize [of little i "[]"]
  by (simp add: sid_Serialize_layout pstd_slice.slice_compare_less flip: sid_Serialize_less)

text \<open>Every setter of a stream's meta value keeps the fields and the bytes in agreement, so parsing what a
  command stores gives the fields the command computed.\<close>

theorem stream_meta_setters_coherent:
  assumes "smv_wf m" and "smv_type m = kStreams"
  shows "\<forall>q \<in> {InitMetaValue m, smv_set_groups_id g m, smv_set_entries_added n m, smv_ModifyEntriesAdded n m,
      smv_set_first_id i m, smv_set_last_id i m, smv_set_max_deleted_entry_id i m, smv_set_length l m, smv_set_version n m}.
    \<forall>old. smv_ParseFrom (smv_value q) old = q \<and> length (smv_value q) = kDefaultStreamValueLength"
  using smv_setters_wf [OF assms(1)] InitMetaValue_wf [OF assms(2)]
  by (auto simp: smv_ParseFrom_value) (auto simp: smv_wf_def)

theorem stream_meta_setters_coherent_witness:
  "smv_ParseFrom (smv_value (smv_set_length 3 (InitMetaValue StreamMetaValue_new))) StreamMetaValue_new =
     smv_set_length 3 (InitMetaValue StreamMetaValue_new)"
  using stream_meta_setters_coherent [of "InitMetaValue StreamMetaValue_new" 0 0 "streamID 0 0" 3]
    InitMetaValue_wf [of StreamMetaValue_new] by (simp add: StreamMetaValue_new_def)

lemma Decode64_halves: "DecodeFixed64 (EncodeFixed32 a @ EncodeFixed32 b @ rest) = DecodeFixed64 (EncodeFixed32 a @ EncodeFixed32 b)"
  by (simp add: DecodeFixed64_on_def)

text \<open>The value of a new consumer group does not parse back: the identifiers of its pending list and of its consumers
  are stored where the number of entries read is looked up, and are read as zero.\<close>

theorem cgroup_identifiers_lost:
  "let m = scg_ParseFrom (scg_value (scg_Init tid consumers StreamCGroupMetaValue_new)) StreamCGroupMetaValue_new
   in scg_pel m = 0 \<and> scg_consumers m = 0 \<and> scg_entries_read m = DecodeFixed64 (EncodeFixed32 tid @ EncodeFixed32 consumers)"
  by (simp add: scg_Init_def scg_ParseFrom_def StreamCGroupMetaValue_new_def Let_def resize_def sid_object_def buf_simps Decode64_halves)

text \<open>C34: The value of a pending entry is four bytes shorter than the fields stored in it: initialising one writes past the
  end of the string, and parsing one reads past it.\<close>

theorem pending_entry_out_of_bounds:
  "length (spm_value (spm_Init consumer t StreamPelMeta_new)) = kDefaultStreamPelMetaValueLength + 4 \<and>
   (length v = kDefaultStreamPelMetaValueLength \<longrightarrow> spm_ParseFrom v m = None)"
  by (simp add: spm_Init_def spm_ParseFrom_def StreamPelMeta_new_def Let_def resize_def buf_simps)

theorem pending_entry_out_of_bounds_witness: "spm_ParseFrom (replicate 20 0) StreamPelMeta_new = None"
  using pending_entry_out_of_bounds [of "[]" 0 "replicate 20 0" StreamPelMeta_new] by simp

end
