(* ===== verification/Filters.thy ===== *)
theory Filters
  imports ListsTheorems StreamFormat
begin

text \<open>
  The compaction filters, \<open>base_filter.h\<close>, \<open>strings_filter.h\<close>, \<open>lists_filter.h\<close> and \<open>zsets_filter.h\<close> under
  \<open>src/src/storage/src\<close>. RocksDB asks the filter of a column family for every record a compaction
  rewrites; \<open>True\<close> drops the record. A data filter keeps what it read of the meta value of the last
  user key between two calls, so it is a state machine. The argument \<open>closing\<close> says that the handles of the
  column families are gone, which \<open>env\<close> does not know; \<open>db\<close> is the state of the database, which does
  not change while the filter runs.
\<close>

section \<open>Filters of meta values\<close>

definition BaseMetaFilter_Filter :: "u64 \<Rightarrow> bytes \<Rightarrow> bytes \<Rightarrow> bool option" where
  "BaseMetaFilter_Filter cur_time key meta_value =
     (if ParsedBaseKey_decode key = None \<or> meta_value = [] then None
      else
        let type = DataType_of_byte (meta_value ! 0)
        in if type = kStrings then do {
             p \<leftarrow> ParsedStringsValue_parse False meta_value;
             Some (pv_etime p \<noteq> 0 \<and> pv_etime p < cur_time) }
           else if type = kStreams then Some False
           else if type = kLists then do {
             p \<leftarrow> ParsedListsMetaValue_parse False meta_value;
             if pv_etime p \<noteq> 0 \<and> pv_etime p < cur_time \<and> pv_version p < cur_time then Some True
             else if pl_count p = 0 \<and> pv_version p < cur_time then Some True
             else Some False }
           else do {
             p \<leftarrow> ParsedBaseMetaValue_parse False meta_value;
             if pv_etime p \<noteq> 0 \<and> pv_etime p < cur_time \<and> pv_version p < cur_time then Some True
             else if pm_count p = 0 \<and> pv_version p < cur_time then Some True
             else Some False })"

definition StringsFilter_Filter :: "u64 \<Rightarrow> bytes \<Rightarrow> bool option" where
  "StringsFilter_Filter cur_time value' = do {
     p \<leftarrow> ParsedStringsValue_parse False value';
     Some (pv_etime p \<noteq> 0 \<and> pv_etime p < cur_time) }"

section \<open>Filters of data records\<close>

record DataFilter =
  df_cur_key :: bytes
  df_meta_not_found :: bool
  df_cur_meta_version :: u64
  df_cur_meta_etime :: u64
  df_type :: DataType

definition DataFilter_new :: "DataType \<Rightarrow> DataFilter" where
  "DataFilter_new type = \<lparr>df_cur_key = [], df_meta_not_found = False, df_cur_meta_version = 0, df_cur_meta_etime = 0, df_type = type\<rparr>"

text \<open>The key of the meta value, cut out of the key of the record.\<close>

definition filter_meta_key :: "bytes \<Rightarrow> bytes" where
  "filter_meta_key key =
     (let n = kPrefixReserveLength + SeekUserkeyDelim (drop kPrefixReserveLength key) (length key - kPrefixReserveLength)
      in take n key @ replicate kSuffixReserveLength kNeedTransformCharacter)"

text \<open>The end of every data filter, once the meta value is known.\<close>

definition data_filter_decide :: "u64 \<Rightarrow> u64 \<Rightarrow> DataFilter \<Rightarrow> bool" where
  "data_filter_decide unix_time version f =
     (if df_meta_not_found f then True
      else if df_cur_meta_etime f \<noteq> 0 \<and> df_cur_meta_etime f < unix_time then True
      else df_cur_meta_version f > version)"

text \<open>
  Looking up the meta value of a new user key. A verdict \<open>Some b\<close> is an early \<open>return b\<close>; the function
  \<open>read\<close> is what the filter does with a meta value it could read.
\<close>

definition data_filter_lookup ::
  "'s env \<Rightarrow> bool \<Rightarrow> 's \<Rightarrow> (bytes \<Rightarrow> DataFilter \<Rightarrow> (bool option \<times> DataFilter) option) \<Rightarrow> bytes \<Rightarrow> DataFilter \<Rightarrow>
   (bool option \<times> DataFilter) option" where
  "data_filter_lookup env closing db read meta_key_enc f =
     (if meta_key_enc \<noteq> df_cur_key f then
        let f = f\<lparr>df_cur_meta_etime := 0, df_cur_meta_version := 0, df_meta_not_found := True, df_cur_key := meta_key_enc\<rparr>
        in if closing then Some (Some False, f)
           else
             let (s, meta_value) = db_Get (env_db env) db kMetaCF (df_cur_key f)
             in if s = OK then read meta_value f
                else if is_NotFound s then Some (None, f\<lparr>df_meta_not_found := True\<rparr>)
                else Some (Some False, f\<lparr>df_cur_key := []\<rparr>)
      else Some (None, f))"

definition BaseDataFilter_read :: "bytes \<Rightarrow> DataFilter \<Rightarrow> (bool option \<times> DataFilter) option" where
  "BaseDataFilter_read meta_value f =
     (let type = GetMetaValueType meta_value
      in if type \<noteq> df_type f then Some (Some True, f)
         else if type = kStreams then
           let p = ParsedStreamMetaValue_parse meta_value
           in Some (None, f\<lparr>df_meta_not_found := False, df_cur_meta_version := smv_version p, df_cur_meta_etime := 0\<rparr>)
         else if type = kHashes \<or> type = kSets \<or> type = kZSets then do {
           p \<leftarrow> ParsedBaseMetaValue_parse True meta_value;
           Some (None, f\<lparr>df_meta_not_found := False, df_cur_meta_version := pv_version p, df_cur_meta_etime := pv_etime p\<rparr>) }
         else Some (Some True, f))"

definition ListsDataFilter_read :: "bytes \<Rightarrow> DataFilter \<Rightarrow> (bool option \<times> DataFilter) option" where
  "ListsDataFilter_read meta_value f =
     (if GetMetaValueType meta_value \<noteq> df_type f then Some (Some True, f)
      else do {
        p \<leftarrow> ParsedListsMetaValue_parse True meta_value;
        Some (None, f\<lparr>df_meta_not_found := False, df_cur_meta_version := pv_version p, df_cur_meta_etime := pv_etime p\<rparr>) })"

definition ZSetsScoreFilter_read :: "bytes \<Rightarrow> DataFilter \<Rightarrow> (bool option \<times> DataFilter) option" where
  "ZSetsScoreFilter_read meta_value f =
     (if GetMetaValueType meta_value \<noteq> df_type f then Some (Some True, f)
      else do {
        p \<leftarrow> ParsedBaseMetaValue_parse True meta_value;
        Some (None, f\<lparr>df_meta_not_found := False, df_cur_meta_version := pv_version p, df_cur_meta_etime := pv_etime p\<rparr>) })"

definition data_filter_finish :: "u64 \<Rightarrow> u64 \<Rightarrow> bool option \<times> DataFilter \<Rightarrow> bool \<times> DataFilter" where
  "data_filter_finish unix_time version r =
     (case r of (Some b, f) \<Rightarrow> (b, f) | (None, f) \<Rightarrow> (data_filter_decide unix_time version f, f))"

definition BaseDataFilter_Filter :: "'s env \<Rightarrow> bool \<Rightarrow> 's \<Rightarrow> bytes \<Rightarrow> DataFilter \<Rightarrow> (bool \<times> DataFilter) option" where
  "BaseDataFilter_Filter env closing db key f = do {
     parsed \<leftarrow> ParsedBaseDataKey_decode key;
     r \<leftarrow> data_filter_lookup env closing db BaseDataFilter_read (filter_meta_key key) f;
     Some (data_filter_finish (env_now env) (bdk_version parsed) r) }"

definition ListsDataFilter_Filter :: "'s env \<Rightarrow> bool \<Rightarrow> 's \<Rightarrow> bytes \<Rightarrow> DataFilter \<Rightarrow> (bool \<times> DataFilter) option" where
  "ListsDataFilter_Filter env closing db key f = do {
     parsed \<leftarrow> ParsedListsDataKey_decode key;
     r \<leftarrow> data_filter_lookup env closing db ListsDataFilter_read (filter_meta_key key) f;
     Some (data_filter_finish (env_now env) (ldk_version parsed) r) }"

definition ZSetsScoreFilter_Filter :: "'s env \<Rightarrow> bool \<Rightarrow> 's \<Rightarrow> bytes \<Rightarrow> DataFilter \<Rightarrow> (bool \<times> DataFilter) option" where
  "ZSetsScoreFilter_Filter env closing db key f = do {
     parsed \<leftarrow> ParsedZSetsScoreKey_decode key;
     r \<leftarrow> data_filter_lookup env closing db ZSetsScoreFilter_read (filter_meta_key key) f;
     Some (data_filter_finish (env_now env) (zsk_version parsed) r) }"

section \<open>The filter of list elements\<close>

text \<open>The states a filter of list elements can be in after any number of calls, at any times.\<close>

inductive lists_filter_reach :: "'s env \<Rightarrow> 's \<Rightarrow> DataFilter \<Rightarrow> bool" for env db where
  start: "lists_filter_reach env db (DataFilter_new kLists)"
| call: "lists_filter_reach env db f \<Longrightarrow> ListsDataFilter_Filter (env\<lparr>env_now := t\<rparr>) False db key f = Some (b, f') \<Longrightarrow>
    lists_filter_reach env db f'"

text \<open>No command can see an element record with this version: its key has no list, an expired one or a newer one.\<close>

definition list_garbage :: "u64 \<Rightarrow> contents \<Rightarrow> bytes \<Rightarrow> u64 \<Rightarrow> bool" where
  "list_garbage now m k version \<longleftrightarrow>
     (case meta_of m k of None \<Rightarrow> True
      | Some mv \<Rightarrow> GetMetaValueType mv = kLists \<longrightarrow>
          (\<exists>p. ParsedListsMetaValue_parse True mv = Some p \<and> (pv_IsStale now p \<or> version < pv_version p)))"

definition lists_cached :: "contents \<Rightarrow> DataFilter \<Rightarrow> bool" where
  "lists_cached m f \<longleftrightarrow> df_type f = kLists \<and> (\<forall>k. key_ok k \<longrightarrow> df_cur_key f = BaseKey_Encode (\<lambda>_. 0) k \<longrightarrow>
     (if df_meta_not_found f then \<forall>mv. meta_of m k = Some mv \<longrightarrow> GetMetaValueType mv \<noteq> kLists
      else \<exists>mv p. meta_of m k = Some mv \<and> GetMetaValueType mv = kLists \<and> ParsedListsMetaValue_parse True mv = Some p \<and>
        df_cur_meta_version f = pv_version p \<and> df_cur_meta_etime f = pv_etime p))"

lemma filter_meta_key_elem:
  assumes "key_ok k"
  shows "filter_meta_key (ListsDataKey_Encode j k version i) = BaseKey_Encode (\<lambda>_. 0) k"
  using assms
  by (simp add: filter_meta_key_def ListsDataKey_Encode_layout BaseKey_Encode_layout SeekUserkeyDelim_esc reserve1_def reserve2_def)

abbreviation df_reset :: "bytes \<Rightarrow> DataFilter \<Rightarrow> DataFilter" where
  "df_reset mk f \<equiv> f\<lparr>df_cur_meta_etime := 0, df_cur_meta_version := 0, df_meta_not_found := True, df_cur_key := mk\<rparr>"

lemma BaseKey_Encode_not_Nil [simp]: "key_ok k \<Longrightarrow> BaseKey_Encode j k \<noteq> []"
  by (simp add: BaseKey_Encode_layout reserve1_def)

context engine
begin

lemma data_filter_lookup_cases [consumes 1, case_names same found missing failed]:
  assumes "data_filter_lookup (env\<lparr>env_now := t\<rparr>) False db read mk f = Some (v, f')"
  obtains (same) "mk = df_cur_key f" "v = None" "f' = f"
  | (found) mv where "mk \<noteq> df_cur_key f" "view db kMetaCF mk = Some mv" "read mv (df_reset mk f) = Some (v, f')"
  | (missing) "mk \<noteq> df_cur_key f" "view db kMetaCF mk = None" "v = None" "f' = df_reset mk f"
  | (failed) "v = Some False" "f' = df_reset [] f" "\<not> db_healthy (env_db env) view"
proof (cases "mk = df_cur_key f")
  case True
  then have "v = None" "f' = f" using assms by (auto simp add: data_filter_lookup_def)
  then show thesis using same True by blast
next
  case False
  show thesis
  proof (cases rule: Get_cases [of db kMetaCF mk])
    case (found mv)
    then have "read mv (df_reset mk f) = Some (v, f')" using assms False by (simp add: data_filter_lookup_def Let_def)
    then show thesis using that(2) False found(2) by blast
  next
    case (missing msg x)
    then have "v = None" "f' = df_reset mk f" using assms False by (cases f, auto simp add: data_filter_lookup_def Let_def)+
    then show thesis using that(3) False missing(2) by blast
  next
    case (failed st x)
    then have "v = Some False" "f' = df_reset [] f" using assms False by (cases f, auto simp add: data_filter_lookup_def Let_def)+
    then show thesis using that(4) failed(4) by blast
  qed
qed

lemma lists_lookup_cached:
  assumes c: "lists_cached (view db) f" and l: "data_filter_lookup (env\<lparr>env_now := t\<rparr>) False db ListsDataFilter_read mk f = Some (v, f')"
  shows "lists_cached (view db) f'"
    and "v = Some b \<Longrightarrow> if b then (\<forall>k. key_ok k \<longrightarrow> mk = BaseKey_Encode (\<lambda>_. 0) k \<longrightarrow>
      (\<exists>mv. meta_of (view db) k = Some mv \<and> GetMetaValueType mv \<noteq> kLists)) else \<not> db_healthy (env_db env) view"
    and "v = None \<Longrightarrow> df_cur_key f' = mk"
proof -
  have m: "view db kMetaCF (BaseKey_Encode (\<lambda>_. 0) k) = meta_of (view db) k" if "key_ok k" for k
    using that by (simp add: meta_of_def)
  note inj = BaseKey_Encode_inject [of _ _ "\<lambda>_. 0" "\<lambda>_. 0"]
  from l have "lists_cached (view db) f' \<and> (v = Some b \<longrightarrow> (if b then (\<forall>k. key_ok k \<longrightarrow> mk = BaseKey_Encode (\<lambda>_. 0) k \<longrightarrow>
      (\<exists>mv. meta_of (view db) k = Some mv \<and> GetMetaValueType mv \<noteq> kLists)) else \<not> db_healthy (env_db env) view)) \<and>
      (v = None \<longrightarrow> df_cur_key f' = mk)"
  proof (cases rule: data_filter_lookup_cases)
    case same
    then show ?thesis using c by simp
  next
    case (found mv)
    have mv: "meta_of (view db) k = Some mv" if "key_ok k" "mk = BaseKey_Encode (\<lambda>_. 0) k" for k
      using found(2) m that by simp
    have t: "df_type f = kLists" using c by (simp add: lists_cached_def)
    show ?thesis
    proof (cases "GetMetaValueType mv = kLists")
      case True
      then obtain p where "ParsedListsMetaValue_parse True mv = Some p" "v = None"
        "f' = (df_reset mk f)\<lparr>df_meta_not_found := False, df_cur_meta_version := pv_version p, df_cur_meta_etime := pv_etime p\<rparr>"
        using found(3) t by (auto simp: ListsDataFilter_read_def split: bind_splits)
      then show ?thesis using True t mv by (simp add: lists_cached_def)
    next
      case False
      then have "v = Some True" "f' = df_reset mk f" using found(3) t by (simp_all add: ListsDataFilter_read_def)
      then show ?thesis using False t mv by (auto simp: lists_cached_def)
    qed
  next
    case missing
    have "meta_of (view db) k = None" if "key_ok k" "mk = BaseKey_Encode (\<lambda>_. 0) k" for k
      using missing(2) m that by simp
    then show ?thesis using c missing by (simp add: lists_cached_def)
  next
    case failed
    then show ?thesis using c BaseKey_Encode_not_Nil [THEN not_sym] by (simp add: lists_cached_def)
  qed
  then show "lists_cached (view db) f'"
    and "v = Some b \<Longrightarrow> if b then (\<forall>k. key_ok k \<longrightarrow> mk = BaseKey_Encode (\<lambda>_. 0) k \<longrightarrow>
      (\<exists>mv. meta_of (view db) k = Some mv \<and> GetMetaValueType mv \<noteq> kLists)) else \<not> db_healthy (env_db env) view"
    and "v = None \<Longrightarrow> df_cur_key f' = mk"
    by simp_all
qed

lemma lists_filter_reach_cached: "lists_filter_reach env db f \<Longrightarrow> lists_cached (view db) f"
proof (induction rule: lists_filter_reach.induct)
  case start
  then show ?case using BaseKey_Encode_not_Nil [THEN not_sym] by (simp add: lists_cached_def DataFilter_new_def)
next
  case (call f t key b f')
  then obtain v f1 where "data_filter_lookup (env\<lparr>env_now := t\<rparr>) False db ListsDataFilter_read (filter_meta_key key) f = Some (v, f1)"
      "f1 = f'"
    by (auto simp: ListsDataFilter_Filter_def data_filter_finish_def split: bind_splits option.splits)
  then show ?case using lists_lookup_cached(1) [OF call.IH] by simp
qed

text \<open>The filter drops an element record only if it is garbage, and does so whenever the database answers.\<close>

lemma lists_filter_exact:
  assumes f: "lists_filter_reach env db f" and key: "key_ok k"
    and call: "ListsDataFilter_Filter (env\<lparr>env_now := t\<rparr>) False db (ListsDataKey_Encode j k version i) f = Some (dropped, f')"
  shows "dropped \<Longrightarrow> list_garbage t (view db) k version"
    and "db_healthy (env_db env) view \<Longrightarrow> dropped \<longleftrightarrow> list_garbage t (view db) k version"
proof -
  let ?t = "env\<lparr>env_now := t\<rparr>"
  obtain r where r: "data_filter_lookup ?t False db ListsDataFilter_read (BaseKey_Encode (\<lambda>_. 0) k) f = Some r"
      "data_filter_finish t version r = (dropped, f')"
    using call by (simp add: ListsDataFilter_Filter_def filter_meta_key_elem [OF key] ListsDataKey_decode_Encode [OF key] bind_eq_Some_conv) blast
  obtain v where l: "data_filter_lookup ?t False db ListsDataFilter_read (BaseKey_Encode (\<lambda>_. 0) k) f = Some (v, f')"
    and d: "dropped = (case v of Some b \<Rightarrow> b | None \<Rightarrow> data_filter_decide t version f')"
    using r by (cases r) (auto simp: data_filter_finish_def split: option.splits)
  note c = lists_lookup_cached [OF lists_filter_reach_cached [OF f] l]
  have "(dropped \<longleftrightarrow> list_garbage t (view db) k version) \<or> \<not> dropped \<and> \<not> db_healthy (env_db env) view"
  proof (cases v)
    case None
    have k: "if df_meta_not_found f' then \<forall>mv. meta_of (view db) k = Some mv \<longrightarrow> GetMetaValueType mv \<noteq> kLists
      else \<exists>mv p. meta_of (view db) k = Some mv \<and> GetMetaValueType mv = kLists \<and> ParsedListsMetaValue_parse True mv = Some p \<and>
        df_cur_meta_version f' = pv_version p \<and> df_cur_meta_etime f' = pv_etime p"
      using c(1) [unfolded lists_cached_def, THEN conjunct2, rule_format, OF key c(3) [OF None]] .
    have "dropped \<longleftrightarrow> list_garbage t (view db) k version"
      using k d None by (auto simp: list_garbage_def data_filter_decide_def pv_IsStale_def split: if_splits option.splits)
    then show ?thesis by simp
  next
    case (Some b)
    then show ?thesis using d key c(2) [OF Some] by (auto simp: list_garbage_def split: if_splits)
  qed
  then show "dropped \<Longrightarrow> list_garbage t (view db) k version"
    and "db_healthy (env_db env) view \<Longrightarrow> dropped \<longleftrightarrow> list_garbage t (view db) k version"
    by auto
qed

end

section \<open>Compactions\<close>

text \<open>
  \<open>lists_compaction env db now m'\<close>: the contents \<open>m'\<close> are those of \<open>db\<close> without some records the filters of the
  meta values and of the list elements dropped, each at some time up to \<open>now\<close>.
\<close>

definition lists_compaction :: "'s env \<Rightarrow> ('s \<Rightarrow> contents) \<Rightarrow> 's \<Rightarrow> u64 \<Rightarrow> contents \<Rightarrow> bool" where
  "lists_compaction env view db now m' \<longleftrightarrow>
     (\<forall>key. m' kMetaCF key = view db kMetaCF key \<or> m' kMetaCF key = None \<and>
        (\<exists>t v. t \<le> now \<and> view db kMetaCF key = Some v \<and> BaseMetaFilter_Filter t key v = Some True)) \<and>
     (\<forall>key. m' kListsDataCF key = view db kListsDataCF key \<or> m' kListsDataCF key = None \<and>
        (\<exists>t f f'. t \<le> now \<and> lists_filter_reach env db f \<and>
           ListsDataFilter_Filter (env\<lparr>env_now := t\<rparr>) False db key f = Some (True, f')))"

lemma pv_IsStale_mono: "pv_IsStale t p \<Longrightarrow> t \<le> t' \<Longrightarrow> pv_IsStale t' p"
  by (auto simp: pv_IsStale_def split: if_splits)

lemma BaseMetaFilter_lists:
  assumes "pl_wf p" and "pv_type p = kLists" and "BaseMetaFilter_Filter t key (pv_data p) = Some True"
  shows "pv_IsStale t p \<or> pl_count p = 0" and "pv_version p < t"
proof -
  have len: "length (pv_data p) = 81" using assms(1) by (simp add: pl_wf_def)
  obtain q where q: "ParsedListsMetaValue_parse False (pv_data p) = Some q" "pv_etime q = pv_etime p" "pv_version q = pv_version p"
      "pl_count q = pl_count p"
    using pl_parse_81 [OF len] assms(1) by (simp add: pl_wf_iff)
  have t: "DataType_of_byte (pv_data p ! 0) = kLists" using assms(1,2) by (simp add: pl_wf_iff)
  have "pv_etime p \<noteq> 0 \<and> pv_etime p < t \<and> pv_version p < t \<or> pl_count p = 0 \<and> pv_version p < t"
    using assms(3) q t len by (auto simp: BaseMetaFilter_Filter_def Let_def split: if_splits)
  then show "pv_IsStale t p \<or> pl_count p = 0" and "pv_version p < t" by (auto simp: pv_IsStale_def)
qed

context engine
begin

lemma compaction_keeps_list:
  assumes comp: "lists_compaction env view db now m'" and t: "now \<le> t" and xs: "list_at t (view db) key xs"
  shows "list_at t m' key xs"
proof -
  have meta: "meta_of m' key = meta_of (view db) key \<or> meta_of m' key = None \<and>
      (\<exists>t' v. t' \<le> now \<and> meta_of (view db) key = Some v \<and> BaseMetaFilter_Filter t' (BaseKey_Encode (\<lambda>_. 0) key) v = Some True)"
    using comp [unfolded lists_compaction_def, THEN conjunct1, rule_format, of "BaseKey_Encode (\<lambda>_. 0) key"]
    by (cases "key_ok key") (simp_all add: meta_of_def)
  from xs show ?thesis
  proof (cases rule: list_at.cases)
    case (live p)
    have "\<not> pv_IsStale t' p" if "t' \<le> now" for t'
      using live(4) pv_IsStale_mono [OF _ order_trans [OF that t]] by blast
    then have m: "meta_of m' key = Some (pv_data p)"
      using meta live(1,5) BaseMetaFilter_lists(1) [OF live(2,3)] by auto
    have e: "elem_of m' (key, pv_version p, i) = elem_of (view db) (key, pv_version p, i)" for i
    proof (rule ccontr)
      assume ne: "\<not> ?thesis"
      then have k: "key_ok key" by (auto simp: elem_of_def split: if_splits)
      obtain t' f f' where d: "t' \<le> now" "lists_filter_reach env db f"
          "ListsDataFilter_Filter (env\<lparr>env_now := t'\<rparr>) False db (ListsDataKey_Encode (\<lambda>_. 0) key (pv_version p) i) f = Some (True, f')"
        using comp [unfolded lists_compaction_def, THEN conjunct2, rule_format, of "ListsDataKey_Encode (\<lambda>_. 0) key (pv_version p) i"] ne k
        by (auto simp: elem_of_def)
      have "list_garbage t' (view db) key (pv_version p)"
        using lists_filter_exact(1) [OF d(2) k d(3)] by simp
      then show False
        using live \<open>\<And>t'. t' \<le> now \<Longrightarrow> \<not> pv_IsStale t' p\<close> [OF d(1)]
        by (simp add: list_garbage_def GetMetaValueType_wf pl_wf_D)
    qed
    have "list_repr (elem_of m') key p xs" using live(6) e by (simp add: list_repr_def list_window_def)
    then show ?thesis using m live by (auto intro: list_at.live)
  qed (use meta in \<open>auto intro: list_at.intros\<close>)
qed

end

section \<open>A record without a list\<close>

definition example_leftover :: "WriteOp list" where
  "example_leftover = rds_db (example_store 9) @ [Put kListsDataCF (ListsDataKey_Encode (\<lambda>_. 9) [8] 3 1) (i_val example_env [5])]"

lemma example_leftover_records:
  "meta_of (example_view example_leftover) = meta_of (example_view (rds_db (example_store 9)))"
  "elem_of (example_view example_leftover) = (elem_of (example_view (rds_db (example_store 9))))(([8], 3, 1) \<mapsto> i_val example_env [5])"
proof -
  let ?op = "Put kListsDataCF (ListsDataKey_Encode (\<lambda>_. 9) [8] 3 1) (i_val example_env [5])"
  have v: "example_view example_leftover cf = apply_op pstd_Slice_compare ?op (example_view (rds_db (example_store 9))) cf"
    if "cf \<noteq> kZsetsScoreCF" for cf
    using log_view_append [OF pstd_slice.cf_comparator_ok [OF that]] by (simp add: example_leftover_def)
  show "meta_of (example_view example_leftover) = meta_of (example_view (rds_db (example_store 9)))"
    using v [of kMetaCF] by (simp add: meta_of_def fun_eq_iff apply_op.simps)
  show "elem_of (example_view example_leftover) = (elem_of (example_view (rds_db (example_store 9))))(([8], 3, 1) \<mapsto> i_val example_env [5])"
    unfolding pstd_slice.put_elem(1) [OF example_key(2), symmetric, of _ 3 1 _ "\<lambda>_. 9"] using v [of kListsDataCF] by (auto simp: elem_of_def)
qed

lemma example_leftover_list: "list_at 5 (example_view example_leftover) [7] [[1], [2]]"
  using example_list_at [of 9] list_at_cong [of "example_view example_leftover" "[7]" "example_view (rds_db (example_store 9))"]
  by (simp add: example_leftover_records)

lemma example_leftover_dropped:
  "ListsDataFilter_Filter (example_env\<lparr>env_now := 5\<rparr>) False example_leftover (ListsDataKey_Encode (\<lambda>_. 9) [8] 3 1) (DataFilter_new kLists)
   = Some (True, df_reset (BaseKey_Encode (\<lambda>_. 0) [8]) (DataFilter_new kLists))"
proof -
  have "example_view example_leftover kMetaCF (BaseKey_Encode (\<lambda>_. 0) [8]) = None"
    using fun_cong [OF example_leftover_records(1), of "[8]"] example_absent_meta(2) [of 9] by (simp add: meta_of_def example_key)
  then show ?thesis
    by (simp add: ListsDataFilter_Filter_def filter_meta_key_elem ListsDataKey_decode_Encode example_key data_filter_lookup_def
        DataFilter_new_def data_filter_finish_def data_filter_decide_def log_db_def BaseKey_Encode_not_Nil [THEN not_sym])
qed

section \<open>Properties\<close>



text \<open>C8: The filter of list elements is exact: when the database answers, an element record is dropped if and only if its
  key has no list, an expired one, or one of a later version; without an answer it is kept.\<close>

theorem lists_filter_drops_garbage:
  assumes "engine env view" and "lists_filter_reach env db f" and "key_ok key"
    and "ListsDataFilter_Filter (env\<lparr>env_now := t\<rparr>) False db (ListsDataKey_Encode junk key version i) f = Some (dropped, f')"
  shows "(dropped \<longrightarrow> list_garbage t (view db) key version) \<and>
    (db_healthy (env_db env) view \<longrightarrow> list_garbage t (view db) key version \<longrightarrow> dropped)"
  using engine.lists_filter_exact [OF assms] by blast

theorem lists_filter_drops_garbage_witness:
  "list_garbage 5 (example_view example_leftover) [8] 3"
  using lists_filter_drops_garbage [OF reference.engine_axioms lists_filter_reach.start example_key(2), of 5 example_leftover "\<lambda>_. 9" 3 1]
    example_leftover_dropped by auto

text \<open>A meta value is dropped only when no command sees its key any more, now or later, and its version is in the past, so that
  a key created again gets a greater version.\<close>

theorem meta_filter_drops_invisible:
  assumes "BaseMetaFilter_Filter t key mv = Some True" and "t \<le> now"
    and "GetMetaValueType mv \<in> {kStrings, kLists, kHashes, kSets, kZSets}"
  shows "ExpectedStale now mv = Some True \<and>
    (\<forall>p. GetMetaValueType mv = kLists \<longrightarrow> ParsedListsMetaValue_parse False mv = Some p \<longrightarrow> pv_version p < t) \<and>
    (\<forall>p. GetMetaValueType mv \<in> {kHashes, kSets, kZSets} \<longrightarrow> ParsedBaseMetaValue_parse False mv = Some p \<longrightarrow> pv_version p < t)"
proof -
  have ty: "GetMetaValueType mv = DataType_of_byte (mv ! 0)" and ne: "mv \<noteq> []"
    using assms(1) by (cases mv; auto simp: BaseMetaFilter_Filter_def GetMetaValueType_def split: if_splits)+
  have key: "ParsedBaseKey_decode key \<noteq> None" using assms(1) by (intro notI) (simp add: BaseMetaFilter_Filter_def)
  from assms(3) consider "DataType_of_byte (mv ! 0) = kStrings" | "DataType_of_byte (mv ! 0) = kLists"
      | "DataType_of_byte (mv ! 0) \<in> {kHashes, kSets, kZSets}"
    by (auto simp: ty)
  then show ?thesis
  proof cases
    case 1
    then obtain p where "ParsedStringsValue_parse False mv = Some p" "pv_etime p \<noteq> 0" "pv_etime p < t"
      using assms(1) ne key by (simp add: BaseMetaFilter_Filter_def bind_eq_Some_conv) blast
    then show ?thesis using assms(2) 1 by (simp add: ty ExpectedStale_def pv_IsStale_def)
  next
    case 2
    then obtain p where p: "ParsedListsMetaValue_parse False mv = Some p"
      using assms(1) ne key by (simp add: BaseMetaFilter_Filter_def bind_eq_Some_conv) blast
    then have "pv_version p < t" "pv_etime p \<noteq> 0 \<and> pv_etime p < t \<or> pl_count p = 0"
      using assms(1) ne key 2 by (simp_all add: BaseMetaFilter_Filter_def split: if_splits)
    then show ?thesis using assms(2) 2 p by (auto simp add: ty ExpectedStale_def pv_IsStale_def)
  next
    case 3
    then obtain p where p: "ParsedBaseMetaValue_parse False mv = Some p"
      using assms(1) ne key by (auto simp add: BaseMetaFilter_Filter_def bind_eq_Some_conv)
    then have "pv_version p < t" "pv_etime p \<noteq> 0 \<and> pv_etime p < t \<or> pm_count p = 0"
      using assms(1) ne key 3 by (auto simp add: BaseMetaFilter_Filter_def split: if_splits)
    moreover from this have "pv_IsStale now p \<or> pm_count p = 0" using assms(2) by (auto simp: pv_IsStale_def)
    ultimately show ?thesis using 3 p by (elim insertE) (simp_all add: ty ExpectedStale_def)
  qed
qed

theorem meta_filter_drops_invisible_witness:
  "ExpectedStale 9 (ListsMetaValue_Encode (\<lambda>_. 9) (ListsMetaValue_new 5 (EncodeFixed64 0))) = Some True"
proof -
  let ?v = "ListsMetaValue_new 5 (EncodeFixed64 0)"
  have p: "\<exists>p. ParsedListsMetaValue_parse False (ListsMetaValue_Encode (\<lambda>_. 9) ?v) = Some p \<and> pl_count p = 0 \<and> pv_version p = 0 \<and> pv_etime p = 0"
    using ListsMetaValue_parse [of ?v 0 False "\<lambda>_. 9"] by (simp add: ListsMetaValue_new_def stamp_okI)
  obtain rest where l: "ListsMetaValue_Encode (\<lambda>_. 9) ?v = 3 # rest"
    using ListsMetaValue_Encode_layout [of "\<lambda>_. 9" ?v] by (auto simp: ListsMetaValue_new_def)
  have "BaseMetaFilter_Filter 8 (BaseKey_Encode (\<lambda>_. 9) [7]) (ListsMetaValue_Encode (\<lambda>_. 9) ?v) = Some True"
    using p unfolding l by (auto simp: BaseMetaFilter_Filter_def BaseKey_decode_Encode [OF example_key(1)] DataType_of_byte_def)
  then show ?thesis
    using meta_filter_drops_invisible [of 8 "BaseKey_Encode (\<lambda>_. 9) [7]" "ListsMetaValue_Encode (\<lambda>_. 9) ?v" 9]
    by (simp add: l GetMetaValueType_def DataType_of_byte_def)
qed

text \<open>When the handles are gone because the database is closing, the records of a key should all be kept. The filter of list
  elements keeps the first one, but it has already noted that the key has no meta value and drops the next ones.\<close>

theorem closing_filter_drops:
  assumes "key_ok key" and "df_cur_key f \<noteq> BaseKey_Encode (\<lambda>_. 0) key"
  shows "\<exists>f'. ListsDataFilter_Filter env True db (ListsDataKey_Encode j key version i) f = Some (False, f') \<and>
    ListsDataFilter_Filter env True db (ListsDataKey_Encode j' key version' i') f' = Some (True, f')"
  using assms by (simp add: ListsDataFilter_Filter_def filter_meta_key_elem ListsDataKey_decode_Encode data_filter_lookup_def
      data_filter_finish_def data_filter_decide_def Let_def)

theorem closing_filter_drops_witness:
  "\<exists>f'. ListsDataFilter_Filter example_env True [] (ListsDataKey_Encode (\<lambda>_. 9) [7] 3 1) (DataFilter_new kLists) = Some (False, f') \<and>
    ListsDataFilter_Filter example_env True [] (ListsDataKey_Encode (\<lambda>_. 9) [7] 3 2) f' = Some (True, f')"
  by (rule closing_filter_drops) (simp_all add: DataFilter_new_def key_ok_def BaseKey_Encode_not_Nil [THEN not_sym])

end
