(* ===== verification/PstdString.thy ===== *)
theory PstdString
  imports Prelude "HOL-Library.Monad_Syntax"
begin

text \<open>
  String functions of \<open>src/src/pstd/src/pstd_string.cc\<close> that commands rely on: glob matching, printing and parsing of
  integers, splitting, joining and trimming. A C string is the list of its characters followed by
  the terminating zero; reading beyond that is undefined and modelled by \<open>None\<close>.
\<close>

section \<open>Glob matching\<close>

text \<open>\<open>tolower\<close> in the C locale.\<close>

definition tolower :: "byte \<Rightarrow> byte" where
  "tolower c = (if 65 \<le> c \<and> c \<le> 90 then c + 32 else c)"

definition same_char :: "bool \<Rightarrow> byte \<Rightarrow> byte \<Rightarrow> bool" where
  "same_char nocase a b = (if nocase then tolower a = tolower b else a = b)"

text \<open>
  The loop over a character class, from behind the opening bracket and a negation: what is left of the pattern
  behind the class, and whether the character matched. \<open>patternLen\<close> is one less than the length of the list, which
  includes the terminator.
\<close>

fun match_class :: "bool \<Rightarrow> byte \<Rightarrow> bytes \<Rightarrow> bool \<Rightarrow> (bytes \<times> bool) option" where
  "match_class nocase c [] m = None"
| "match_class nocase c (x # p) m =
     (if x = 92 then (case p of [] \<Rightarrow> None | y # p' \<Rightarrow> match_class nocase c p' (m \<or> y = c))
      else if x = 93 then Some (p, m)
      else if p = [] then Some (x # p, m)
      else if p ! 0 = 45 \<and> length p \<ge> 3 then
        let s = x; e = p ! 1; ch = c;
            (s, e) = (if sint s > sint e then (e, s) else (s, e));
            (s, e, ch) = (if nocase then (tolower s, tolower e, tolower ch) else (s, e, ch))
        in match_class nocase c (drop 2 p) (m \<or> sint ch \<ge> sint s \<and> sint ch \<le> sint e)
      else match_class nocase c p (m \<or> same_char nocase x c))"

lemma match_class_shrinks: "match_class nocase c p m = Some (p', m') \<Longrightarrow> length p' \<le> length p"
proof (induction nocase c p m rule: match_class.induct)
  case (2 nocase c x p m)
  then show ?case by (fastforce split: if_splits list.splits)
qed simp

text \<open>Both arguments include the terminator. \<open>match_star\<close> is the loop over the rest of the string after a star.\<close>

function stringmatchlen :: "bool \<Rightarrow> bytes \<Rightarrow> bytes \<Rightarrow> bool option"
  and match_star :: "bool \<Rightarrow> bytes \<Rightarrow> bytes \<Rightarrow> bool option"
  and match_next :: "bool \<Rightarrow> bytes \<Rightarrow> bytes \<Rightarrow> bool option" where
  "stringmatchlen nocase p s =
     (case p of [] \<Rightarrow> None
      | x # p' \<Rightarrow>
        if p' = [] then Some (length s = 1)
        else if x = 42 then
          (let rest = dropWhile (\<lambda>c. c = 42) p' in if length rest \<le> 1 then Some True else match_star nocase rest s)
        else if x = 63 then
          (case s of [] \<Rightarrow> None | _ # s' \<Rightarrow> if s' = [] then Some False else match_next nocase p' s')
        else if x = 91 then
          (case s of [] \<Rightarrow> None
           | c # s' \<Rightarrow>
             (let (nott, q) = (if p' ! 0 = 94 then (True, tl p') else (False, p'))
              in case match_class nocase c q False of None \<Rightarrow> None
                 | Some (q', m) \<Rightarrow> if m = nott then Some False else match_next nocase q' s'))
        else
          (let (y, q) = (if x = 92 \<and> length p' \<ge> 2 then (p' ! 0, tl p') else (x, p'))
           in case s of [] \<Rightarrow> None
              | c # s' \<Rightarrow> if same_char nocase y c then match_next nocase q s' else Some False))"
| "match_star nocase p s =
     (if length s = 1 then Some False
      else if s = [] then None
      else case stringmatchlen nocase p s of
        None \<Rightarrow> None
      | Some b \<Rightarrow> if b then Some True else match_star nocase p (tl s))"
| "match_next nocase p s =
     (if length s = 1 then Some (length (dropWhile (\<lambda>c. c = 42) p) = 1)
      else stringmatchlen nocase p s)"
  by pat_completeness auto
termination
proof (relation "measures [\<lambda>x. case x of Inl (n, p, s) \<Rightarrow> length p | Inr (Inl (n, p, s)) \<Rightarrow> length p | Inr (Inr (n, p, s)) \<Rightarrow> length p,
    \<lambda>x. case x of Inl _ \<Rightarrow> 0 | Inr (Inl _) \<Rightarrow> 1 | Inr (Inr _) \<Rightarrow> 1,
    \<lambda>x. case x of Inl (n, p, s) \<Rightarrow> length s | Inr (Inl (n, p, s)) \<Rightarrow> length s | Inr (Inr (n, p, s)) \<Rightarrow> length s]")
qed (auto simp: length_dropWhile_le less_Suc_eq_le dest!: match_class_shrinks split: if_splits)

declare stringmatchlen.simps [simp del] match_star.simps [simp del] match_next.simps [simp del]

text \<open>\<open>StringMatch\<close> of \<open>util.cc\<close> on two strings.\<close>

definition StringMatch :: "bytes \<Rightarrow> bytes \<Rightarrow> bool \<Rightarrow> bool option" where
  "StringMatch pattern str nocase = stringmatchlen nocase (pattern @ [0]) (str @ [0])"

subsection \<open>What a pattern without character classes matches\<close>

function glob :: "bytes \<Rightarrow> bytes \<Rightarrow> bool" where
  "glob [] s \<longleftrightarrow> s = []"
| "glob (x # p) s \<longleftrightarrow>
     (if x = 42 then glob p s \<or> (case s of [] \<Rightarrow> False | _ # s' \<Rightarrow> glob (x # p) s')
      else case s of [] \<Rightarrow> False
        | c # s' \<Rightarrow> if x = 63 then glob p s'
                    else if x = 92 \<and> p \<noteq> [] then c = hd p \<and> glob (tl p) s'
                    else c = x \<and> glob p s')"
  by pat_completeness auto
termination by (relation "measure (\<lambda>(p, s). length p + length s)") auto

declare glob.simps(2) [simp del]

lemma glob_star_end [simp]: "glob [42] s"
  by (induction s) (simp_all add: glob.simps)

lemma glob_star_star [simp]: "glob (42 # 42 # p) s \<longleftrightarrow> glob (42 # p) s"
  by (induction s) (simp_all add: glob.simps(2) [of 42])

lemma glob_collapse: "glob (42 # dropWhile (\<lambda>c. c = 42) p) s \<longleftrightarrow> glob (42 # p) s"
  by (induction p) auto

lemma glob_Nil: "glob p [] \<longleftrightarrow> dropWhile (\<lambda>c. c = 42) p = []"
  by (induction p) (simp_all add: glob.simps(2))

lemma dropWhile_terminated: "dropWhile (\<lambda>c. c = 42) (p @ [0 :: byte]) = dropWhile (\<lambda>c. c = 42) p @ [0]"
  by (induction p) auto

lemma match_next_terminated:
  assumes "str \<noteq> [] \<Longrightarrow> stringmatchlen nocase (p @ [0]) (str @ [0]) = Some (glob p str)"
  shows "match_next nocase (p @ [0]) (str @ [0]) = Some (glob p str)"
  using assms by (cases str) (simp_all add: match_next.simps dropWhile_terminated glob_Nil)

lemma match_star_terminated:
  assumes "\<And>str. stringmatchlen nocase (p @ [0]) (str @ [0]) = Some (glob p str)" and "p \<noteq> []" and "hd p \<noteq> 42"
  shows "match_star nocase (p @ [0]) (str @ [0]) = Some (glob (42 # p) str)"
proof (induction str)
  case Nil
  have "\<not> glob p []" using assms(2,3) by (cases p) (simp_all add: glob.simps)
  then show ?case by (simp add: match_star.simps glob.simps)
next
  case (Cons c str)
  then show ?case using assms(1) [of "c # str"] by (simp add: match_star.simps [of _ _ "c # str @ [0]"] glob.simps)
qed

lemma stringmatchlen_glob:
  assumes "0 \<notin> set p" and "91 \<notin> set p"
  shows "stringmatchlen False (p @ [0]) (str @ [0]) = Some (glob p str)"
  using assms
proof (induction p arbitrary: str rule: length_induct)
  case (1 p)
  show ?case
  proof (cases p)
    case Nil
    then show ?thesis by (simp add: stringmatchlen.simps)
  next
    case (Cons x q)
    have x: "x \<noteq> 91" "x \<noteq> 0" and q: "0 \<notin> set q" "91 \<notin> set q" using 1(2,3) Cons by auto
    show ?thesis
    proof (cases "x = 42")
      case True
      let ?r = "dropWhile (\<lambda>c. c = 42) q"
      have r: "0 \<notin> set ?r" "91 \<notin> set ?r" "length ?r < length p"
        using q Cons set_dropWhileD length_dropWhile_le [of "\<lambda>c. c = 42" q] by (fastforce simp: less_Suc_eq_le)+
      show ?thesis
      proof (cases "?r = []")
        case r0: True
        then have "glob p str" using glob_collapse [of q str, unfolded r0] True Cons by simp
        then show ?thesis using r0 True Cons by (simp add: stringmatchlen.simps dropWhile_terminated)
      next
        case r1: False
        have "hd ?r \<noteq> 42" using hd_dropWhile [OF r1] by simp
        with r1 have "match_star False (?r @ [0]) (str @ [0]) = Some (glob (42 # ?r) str)"
          using 1(1) r by (intro match_star_terminated) simp_all
        then show ?thesis using r1 True Cons by (auto simp add: stringmatchlen.simps dropWhile_terminated glob_collapse Suc_le_eq)
      qed
    next
      case x42: False
      have next_q: "match_next False (ys @ [0]) (str' @ [0]) = Some (glob ys str')"
        if "0 \<notin> set ys" "91 \<notin> set ys" "length ys < length p" for ys str'
        using 1(1) that by (intro match_next_terminated) simp
      show ?thesis
      proof (cases str)
        case Nil
        have "q ! 0 \<noteq> 0" if "q \<noteq> []" using q(1) that by (cases q) auto
        with Nil show ?thesis using x42 x Cons
          by (auto simp: stringmatchlen.simps glob.simps same_char_def nth_append split: list.splits)
      next
        case str: (Cons c str')
        show ?thesis
        proof (cases q)
          case Nil
          then show ?thesis using x42 x Cons str next_q [of "[]" str']
            by (auto simp: stringmatchlen.simps glob.simps(2) same_char_def)
        next
          case (Cons y q')
          then show ?thesis using x42 x q \<open>p = x # q\<close> str next_q [of q str'] next_q [of q' str']
            by (auto simp: stringmatchlen.simps glob.simps(2) [of x] same_char_def)
        qed
      qed
    qed
  qed
qed

section \<open>Printing integers\<close>

lemma unat_div_less:
  assumes "k \<le> v" and "1 < unat k"
  shows "unat (v div k) < unat (v :: u64)"
  using assms unfolding unat_div_distrib word_le_nat_alt by (intro div_less_dividend) simp_all

function digits10 :: "u64 \<Rightarrow> nat" where
  "digits10 v =
     (if v < 10 then 1 else if v < 100 then 2 else if v < 1000 then 3
      else if v < 1000000000000 then
        (if v < 100000000 then
           (if v < 1000000 then
              (if v < 10000 then 4 else 5 + (if v \<ge> 100000 then 1 else 0))
            else 7 + (if v \<ge> 10000000 then 1 else 0))
         else if v < 10000000000 then 9 + (if v \<ge> 1000000000 then 1 else 0)
         else 11 + (if v \<ge> 100000000000 then 1 else 0))
      else 12 + digits10 (v div 1000000000000))"
  by pat_completeness auto
termination
proof (relation "measure unat")
  fix v :: u64
  assume "\<not> v < 1000000000000"
  then have "1000000000000 \<le> v" by simp
  then show "(v div 1000000000000, v) \<in> measure unat"
    using unat_div_less [of 1000000000000 v] by (simp only: in_measure) simp
qed simp

declare digits10.simps [simp del]

definition digits_table :: bytes where
  "digits_table = map (\<lambda>c. of_nat (of_char c))
     (''0001020304050607080910111213141516171819'' @
      ''2021222324252627282930313233343536373839'' @
      ''4041424344454647484950515253545556575859'' @
      ''6061626364656667686970717273747576777879'' @
      ''8081828384858687888990919293949596979899'')"

text \<open>The loop writes two digits at a time, from the end.\<close>

function ll2string_loop :: "u64 \<Rightarrow> nat \<Rightarrow> bytes \<Rightarrow> u64 \<times> nat \<times> bytes" where
  "ll2string_loop v next dst =
     (if v \<ge> 100 then
        let i = unat (v mod 100) * 2
        in ll2string_loop (v div 100) (next - 2) (dst[next := digits_table ! (i + 1), next - 1 := digits_table ! i])
      else (v, next, dst))"
  by pat_completeness auto
termination
proof (relation "measure (\<lambda>(v, next, dst). unat v)")
  fix v :: u64 and n i :: nat and dst :: bytes
  assume "100 \<le> v"
  then have "unat (v div 100) < unat v" using unat_div_less [of 100 v] by simp
  then show "((v div 100, n - 2, dst[n := digits_table ! (i + 1), n - 1 := digits_table ! i]), v, n, dst) \<in> measure (\<lambda>(v, next, dst). unat v)"
    by simp
qed simp

declare ll2string_loop.simps [simp del]

text \<open>The buffer after the call and the returned length, zero when the buffer is too small.\<close>

definition ll2string :: "bytes \<Rightarrow> nat \<Rightarrow> i64 \<Rightarrow> bytes \<times> nat" where
  "ll2string dst dstlen svalue =
     (let negative = sint svalue < 0;
          v = (if negative then (if sint svalue \<noteq> - (2 ^ 63) then - svalue else 2 ^ 63 - 1 + 1) else svalue);
          len = digits10 v + (if negative then 1 else 0)
      in if len \<ge> dstlen then (dst, 0)
         else
           let dst = dst[len := 0];
               (v, next, dst) = ll2string_loop v (len - 1) dst;
               dst = (if v < 10 then dst[next := 48 + ucast v]
                      else let i = unat v * 2 in dst[next := digits_table ! (i + 1), next - 1 := digits_table ! i]);
               dst = (if negative then dst[0 := 45] else dst)
           in (dst, len))"

section \<open>Parsing integers\<close>

text \<open>The loop over the remaining digits; the value, what is left, or \<open>None\<close> on overflow.\<close>

fun string2int_loop :: "u64 \<Rightarrow> bytes \<Rightarrow> (u64 \<times> bytes) option" where
  "string2int_loop v [] = Some (v, [])"
| "string2int_loop v (c # p) =
     (if c \<ge> 48 \<and> c \<le> 57 then
        (if v > (- 1) div 10 then None
         else
           let v = v * 10
           in if v > - 1 - ucast (c - 48) then None else string2int_loop (v + ucast (c - 48)) p)
      else Some (v, c # p))"

definition string2int :: "bytes \<Rightarrow> i64 option" where
  "string2int s =
     (if s = [] then None
      else if s = [48] then Some 0
      else
        let (negative, p) = (if s ! 0 = 45 then (True, tl s) else (False, s))
        in if negative \<and> p = [] then None
           else
             let p = dropWhile (\<lambda>c. c = 48) p
             in case p of
                  [] \<Rightarrow> Some 0
                | c # p \<Rightarrow>
                    if c \<ge> 49 \<and> c \<le> 57 then
                      (case string2int_loop (ucast (c - 48)) p of
                         None \<Rightarrow> None
                       | Some (v, rest) \<Rightarrow>
                           if rest \<noteq> [] then None
                           else if negative then (if v > 2 ^ 63 then None else Some (- v))
                           else if v > 2 ^ 63 - 1 then None else Some v)
                    else None)"

section \<open>Decimal numerals\<close>

fun dec_nat :: "nat \<Rightarrow> bytes" where
  "dec_nat n = (if n < 10 then [48 + of_nat n] else dec_nat (n div 10) @ [48 + of_nat (n mod 10)])"

declare dec_nat.simps [simp del]

definition decimal :: "int \<Rightarrow> bytes" where
  "decimal v = (if v < 0 then 45 # dec_nat (nat (- v)) else dec_nat (nat v))"

fun digits_val :: "nat \<Rightarrow> bytes \<Rightarrow> nat" where
  "digits_val acc [] = acc"
| "digits_val acc (d # ds) = digits_val (10 * acc + unat (d - 48)) ds"

definition parse_decimal :: "bytes \<Rightarrow> int option" where
  "parse_decimal s =
     (let (neg, ds) = (case s of c # t \<Rightarrow> if c = 45 then (True, t) else (False, s) | [] \<Rightarrow> (False, []))
      in if ds \<noteq> [] \<and> (\<forall>d \<in> set ds. 48 \<le> d \<and> d \<le> 57)
         then Some (if neg then - int (digits_val 0 ds) else int (digits_val 0 ds)) else None)"

lemma dec_nat_div_power: "10 ^ j \<le> n \<Longrightarrow> length (dec_nat n) = j + length (dec_nat (n div 10 ^ j))"
proof (induction j)
  case (Suc j)
  have "10 ^ j \<le> n" using Suc.prems by simp
  moreover have "\<not> n div 10 ^ j < 10" using Suc.prems by (simp add: not_less less_eq_div_iff_mult_less_eq mult.commute)
  moreover have "n div 10 ^ Suc j = n div 10 ^ j div 10" by (simp only: power_Suc2 div_mult2_eq)
  ultimately show ?case using Suc.IH by (simp add: dec_nat.simps [of "n div 10 ^ j"])
qed simp

lemma length_dec_nat: "10 ^ k \<le> n \<Longrightarrow> n < 10 ^ Suc k \<Longrightarrow> length (dec_nat n) = Suc k"
  using dec_nat_div_power [of k n] by (simp add: dec_nat.simps [of "n div 10 ^ k"] less_mult_imp_div_less mult.commute)

lemma length_dec_nat_small: "n < 10 \<Longrightarrow> length (dec_nat n) = 1"
  by (simp add: dec_nat.simps [of n])

lemma digits10_nat:
  "digits10 v = (let n = unat v in
     if n < 10 then 1 else if n < 100 then 2 else if n < 1000 then 3
      else if n < 1000000000000 then
        (if n < 100000000 then
           (if n < 1000000 then (if n < 10000 then 4 else if n < 100000 then 5 else 6)
            else if n < 10000000 then 7 else 8)
         else if n < 10000000000 then (if n < 1000000000 then 9 else 10)
         else if n < 100000000000 then 11 else 12)
      else 12 + digits10 (v div 1000000000000))"
  by (subst digits10.simps) (simp add: word_less_nat_alt word_le_nat_alt Let_def not_le del: digits10.simps)

lemma dec_nat_digits:
  assumes "n < 1000000000000"
  shows "length (dec_nat n) = (if n < 10 then 1 else if n < 100 then 2 else if n < 1000 then 3
      else if n < 100000000 then
           (if n < 1000000 then (if n < 10000 then 4 else if n < 100000 then 5 else 6)
            else if n < 10000000 then 7 else 8)
         else if n < 10000000000 then (if n < 1000000000 then 9 else 10)
         else if n < 100000000000 then 11 else 12)"
proof -
  consider (d1) "n < 10"
    | (d2) "10 \<le> n" "n < 100"
    | (d3) "100 \<le> n" "n < 1000"
    | (d4) "1000 \<le> n" "n < 10000"
    | (d5) "10000 \<le> n" "n < 100000"
    | (d6) "100000 \<le> n" "n < 1000000"
    | (d7) "1000000 \<le> n" "n < 10000000"
    | (d8) "10000000 \<le> n" "n < 100000000"
    | (d9) "100000000 \<le> n" "n < 1000000000"
    | (d10) "1000000000 \<le> n" "n < 10000000000"
    | (d11) "10000000000 \<le> n" "n < 100000000000"
    | (d12) "100000000000 \<le> n" "n < 1000000000000"
    using assms unfolding not_le [symmetric] by blast
  then show ?thesis
  proof cases
    case d1
    then show ?thesis using length_dec_nat_small [of n] by simp
  next
    case d2
    then show ?thesis using length_dec_nat [of 1 n] by simp
  next
    case d3
    then show ?thesis using length_dec_nat [of 2 n] by simp
  next
    case d4
    then show ?thesis using length_dec_nat [of 3 n] by simp
  next
    case d5
    then show ?thesis using length_dec_nat [of 4 n] by simp
  next
    case d6
    then show ?thesis using length_dec_nat [of 5 n] by simp
  next
    case d7
    then show ?thesis using length_dec_nat [of 6 n] by simp
  next
    case d8
    then show ?thesis using length_dec_nat [of 7 n] by simp
  next
    case d9
    then show ?thesis using length_dec_nat [of 8 n] by simp
  next
    case d10
    then show ?thesis using length_dec_nat [of 9 n] by simp
  next
    case d11
    then show ?thesis using length_dec_nat [of 10 n] by simp
  next
    case d12
    then show ?thesis using length_dec_nat [of 11 n] by simp
  qed
qed

lemma digits10_length: "digits10 v = length (dec_nat (unat v))"
proof (induction v rule: digits10.induct)
  case (1 v)
  show ?case
  proof (cases "v < 1000000000000")
    case True
    then have "unat v < 1000000000000" by (simp add: word_less_nat_alt)
    then show ?thesis unfolding digits10_nat [of v] Let_def dec_nat_digits [OF \<open>unat v < 1000000000000\<close>] by simp
  next
    case False
    then have n: "10 ^ 12 \<le> unat v" by (simp add: word_less_nat_alt)
    have "digits10 (v div 1000000000000) = length (dec_nat (unat v div 1000000000000))"
      using 1 n by (simp add: unat_div_distrib word_less_nat_alt)
    then show ?thesis using n dec_nat_div_power [OF n] by (simp add: digits10_nat [of v] Let_def)
  qed
qed

lemma digits_table_eq:
  "digits_table = map (\<lambda>k. if even k then 48 + of_nat (k div 2 div 10) else 48 + of_nat (k div 2 mod 10)) [0..<200]"
proof -
  have "[0..<200] = 0 # 1 # [2..<200]" by (simp add: upt_conv_Cons numeral_2_eq_2)
  then show ?thesis by (simp add: digits_table_def upt_rec_numeral)
qed

lemma digits_table_nth:
  assumes "i < 100"
  shows "digits_table ! (i * 2) = 48 + of_nat (i div 10)" "digits_table ! Suc (i * 2) = 48 + of_nat (i mod 10)"
  using assms by (simp_all add: digits_table_eq)

lemma dec_nat_100:
  assumes "100 \<le> n"
  shows "dec_nat n = dec_nat (n div 100) @ [digits_table ! (n mod 100 * 2), digits_table ! Suc (n mod 100 * 2)]"
proof -
  have "n div 10 div 10 = n div 100" by (simp flip: div_mult2_eq)
  moreover have "n div 10 mod 10 = n mod 100 div 10" using mod_mult2_eq [of n 10 10] by simp
  moreover have "n mod 10 = n mod 100 mod 10" by (simp add: mod_mod_cancel)
  moreover have "\<not> n div 10 < 10" using assms by simp
  ultimately show ?thesis
    using assms digits_table_nth [of "n mod 100"] by (simp add: dec_nat.simps [of n] dec_nat.simps [of "n div 10"])
qed

lemma dec_nat_99:
  assumes "10 \<le> n" and "n < 100"
  shows "dec_nat n = [digits_table ! (n * 2), digits_table ! Suc (n * 2)]"
proof -
  have "n div 10 < 10" using assms by simp
  then show ?thesis using assms digits_table_nth [of n] by (simp add: dec_nat.simps [of n] dec_nat.simps [of "n div 10"])
qed

text \<open>The last one or two digits and the loop together write the numeral in front of \<open>next\<close>.\<close>

definition ll2string_digits :: "u64 \<Rightarrow> nat \<Rightarrow> bytes \<Rightarrow> bytes" where
  "ll2string_digits v n dst = (let (v, next, dst) = ll2string_loop v n dst
     in if v < 10 then dst[next := 48 + ucast v]
        else let i = unat v * 2 in dst[next := digits_table ! (i + 1), next - 1 := digits_table ! i])"

lemma update_two: "0 < n \<Longrightarrow> n < length dst \<Longrightarrow> dst[n := b, n - 1 := a] = memcpy_at dst (n - 1) [a, b]"
  by (cases n) (auto simp: memcpy_at_def upd_conv_take_nth_drop take_Suc_conv_app_nth Cons_nth_drop_Suc)

lemma memcpy_at_join:
  assumes "k + length xs + length ys \<le> length dst"
  shows "memcpy_at (memcpy_at dst (k + length xs) ys) k xs = memcpy_at dst k (xs @ ys)"
  using assms by (simp add: memcpy_at_def add.assoc)

lemma ll2string_digits_ok:
  assumes "length (dec_nat (unat v)) \<le> Suc n" and "n < length dst"
  shows "ll2string_digits v n dst = memcpy_at dst (Suc n - length (dec_nat (unat v))) (dec_nat (unat v))"
  using assms
proof (induction v n dst rule: ll2string_loop.induct)
  case (1 v n dst)
  show ?case
  proof (cases "100 \<le> v")
    case True
    define i where "i = unat (v mod 100) * 2"
    define a where "a = digits_table ! i"
    define b where "b = digits_table ! (i + 1)"
    let ?h = "dec_nat (unat (v div 100))"
    have n: "100 \<le> unat v" using True by (simp add: word_le_nat_alt)
    have d: "dec_nat (unat v) = ?h @ [a, b]"
      using dec_nat_100 [OF n] by (simp add: unat_div_distrib unat_mod_distrib a_def b_def i_def)
    have "?h \<noteq> []" by (subst dec_nat.simps) simp
    then have L: "1 \<le> length ?h" by (cases ?h) simp_all
    have le: "length ?h + 1 \<le> n" using 1(2) unfolding d by simp
    with L have n2: "2 \<le> n" by linarith
    have upd: "dst[n := b, n - 1 := a] = memcpy_at dst (n - 1) [a, b]" using n2 1(3) by (intro update_two) simp_all
    have step: "ll2string_digits v n dst = ll2string_digits (v div 100) (n - 2) (dst[n := b, n - 1 := a])"
      unfolding ll2string_digits_def ll2string_loop.simps [of v n dst] Let_def a_def b_def i_def using True by simp
    have IH: "ll2string_digits (v div 100) (n - 2) (dst[n := b, n - 1 := a]) =
        memcpy_at (dst[n := b, n - 1 := a]) (Suc (n - 2) - length ?h) ?h"
      unfolding a_def b_def by (rule 1(1) [OF True i_def]) (use le n2 1(3) in simp_all)
    have "Suc (n - 2) - length ?h = n - 1 - length ?h" using n2 by simp
    then have "ll2string_digits v n dst = memcpy_at (memcpy_at dst (n - 1) [a, b]) (n - 1 - length ?h) ?h"
      using step IH upd by simp
    also have "\<dots> = memcpy_at dst (n - 1 - length ?h) (?h @ [a, b])"
      using memcpy_at_join [of "n - 1 - length ?h" ?h "[a, b]" dst] le n2 1(3) by simp
    also have "\<dots> = memcpy_at dst (Suc n - length (dec_nat (unat v))) (dec_nat (unat v))"
      unfolding d using n2 by simp
    finally show ?thesis .
  next
    case False
    then have n: "unat v < 100" by (simp add: word_le_nat_alt)
    show ?thesis
    proof (cases "v < 10")
      case True
      moreover have "of_nat (unat v) = (ucast v :: byte)" by simp
      ultimately have "dec_nat (unat v) = [48 + ucast v]" by (simp add: dec_nat.simps [of "unat v"] word_less_nat_alt)
      then show ?thesis using False True 1(3)
        by (simp add: ll2string_digits_def ll2string_loop.simps [of v] memcpy_at_def upd_conv_take_nth_drop)
    next
      case False': False
      then have "dec_nat (unat v) = [digits_table ! (unat v * 2), digits_table ! Suc (unat v * 2)]"
        using n by (intro dec_nat_99) (simp_all add: word_less_nat_alt)
      then show ?thesis using False False' 1(2,3) update_two [of n dst]
        by (simp add: ll2string_digits_def ll2string_loop.simps [of v] Let_def)
    qed
  qed
qed

lemma ll2string_eq:
  "ll2string dst dstlen w =
     (let negative = sint w < 0; v = (if negative then - w else w); len = digits10 v + (if negative then 1 else 0)
      in if len \<ge> dstlen then (dst, 0)
         else let d = ll2string_digits v (len - 1) (dst[len := 0]) in (if negative then d[0 := 45] else d, len))"
proof -
  have "- w = 2 ^ 63" if "sint w = - (2 ^ 63)"
  proof -
    have "w = of_int (sint w)" by simp
    then show ?thesis unfolding that by simp
  qed
  then have "(if sint w \<noteq> - (2 ^ 63) then - w else 2 ^ 63 - 1 + 1) = - w" by auto
  then show ?thesis
    by (simp add: ll2string_def ll2string_digits_def Let_def split: prod.splits)
qed

lemma dec_nat_not_Nil [simp]: "dec_nat n \<noteq> []"
  by (subst dec_nat.simps) simp

lemma unat_of_int: "0 \<le> x \<Longrightarrow> x < 2 ^ 64 \<Longrightarrow> unat (of_int x :: u64) = nat x"
  by (simp add: unat_eq_nat_uint uint_word_of_int)

lemma unat_magnitude: "unat (if sint w < 0 then - w else (w :: i64)) = nat \<bar>sint w\<bar>"
proof -
  have w: "w = of_int (sint w)" by simp
  have b: "- (2 ^ 63) \<le> sint w" "sint w < 2 ^ 63" using sint_greater_eq [of w] sint_less [of w] by simp_all
  show ?thesis
  proof (cases "sint w < 0")
    case True
    have "- w = of_int (- sint w)" by simp
    then show ?thesis using True b unat_of_int [of "- sint w"] by (simp del: of_int_minus of_int_sint)
  next
    case False
    then show ?thesis using b unat_of_int [of "sint w"] w by (simp only: if_False abs_of_nonneg) simp
  qed
qed

lemma drop_update_same: "n < length t \<Longrightarrow> drop n (t[n := a]) = a # drop (Suc n) t"
  by (simp add: drop_update_swap flip: Cons_nth_drop_Suc)

lemma ll2string_decimal:
  assumes "length (decimal (sint w)) < dstlen" and "dstlen \<le> length dst"
  shows "ll2string dst dstlen w = (memcpy_at dst 0 (decimal (sint w) @ [0]), length (decimal (sint w)))"
proof -
  let ?v = "if sint w < 0 then - w else w"
  define ds where "ds = dec_nat (nat \<bar>sint w\<bar>)"
  have v: "dec_nat (unat ?v) = ds" "digits10 ?v = length ds" by (simp_all only: digits10_length unat_magnitude ds_def)
  have ds: "1 \<le> length ds" using dec_nat_not_Nil by (simp add: ds_def Suc_le_eq)
  show ?thesis
  proof (cases "sint w < 0")
    case True
    then have d: "decimal (sint w) = 45 # ds" by (simp add: decimal_def ds_def)
    obtain x t where t: "dst = x # t" "length ds < length t" using assms d by (cases dst) auto
    have "ll2string_digits ?v (length ds) (dst[Suc (length ds) := 0]) = memcpy_at (dst[Suc (length ds) := 0]) 1 ds"
      using ll2string_digits_ok [of ?v "length ds" "dst[Suc (length ds) := 0]"] t unfolding v by simp
    then show ?thesis using True assms(1) t ds v
      by (simp add: ll2string_eq d Let_def memcpy_at_def drop_update_same)
  next
    case False
    then have d: "decimal (sint w) = ds" by (simp add: decimal_def ds_def)
    have t: "length ds < length dst" using assms d by simp
    have "ll2string_digits ?v (length ds - 1) (dst[length ds := 0]) = memcpy_at (dst[length ds := 0]) 0 ds"
      using ll2string_digits_ok [of ?v "length ds - 1" "dst[length ds := 0]"] t ds unfolding v by simp
    then show ?thesis using False assms(1) t ds v
      by (simp add: ll2string_eq d Let_def memcpy_at_def drop_update_same)
  qed
qed

section \<open>Parsing is exact\<close>

lemma unat_small: "n < 2 ^ 64 \<Longrightarrow> unat (of_nat n :: u64) = n"
  by (simp add: unsigned_of_nat take_bit_nat_eq_self)

lemma digits_val_mono: "acc \<le> digits_val acc ds"
  by (induction acc ds rule: digits_val.induct) (auto intro: le_trans [rotated])

lemma digit_value:
  assumes "48 \<le> d \<and> d \<le> (57 :: byte)"
  shows "unat (ucast (d - 48) :: u64) = unat (d - 48)" "unat (d - 48) < 10"
proof -
  show "unat (ucast (d - 48) :: u64) = unat (d - 48)"
    using unsigned_less [of "d - 48", where 'a = nat] by (simp add: unsigned_ucast_eq take_bit_nat_eq_self)
  show "unat (d - 48) < 10" using assms by (simp add: unat_sub word_le_nat_alt) linarith
qed

lemma string2int_step:
  assumes "48 \<le> d \<and> d \<le> (57 :: byte)"
  shows "string2int_loop v (d # p) =
    (if 10 * unat v + unat (d - 48) < 2 ^ 64 then string2int_loop (of_nat (10 * unat v + unat (d - 48))) p else None)"
proof -
  let ?c = "ucast (d - 48) :: u64"
  have c: "unat ?c = unat (d - 48)" "unat (d - 48) < 10" using digit_value [OF assms] .
  have big: "v > (- 1) div 10 \<longleftrightarrow> 2 ^ 64 - 6 < 10 * unat v" by (simp add: word_less_nat_alt unat_div_distrib)
  have lim: "unat (- 1 - ?c) = 2 ^ 64 - 1 - unat (d - 48)" using unat_sub [of ?c "- 1"] c by (simp add: unsigned_minus_1_eq_mask mask_eq_exp_minus_1)
  have over: "v * 10 > - 1 - ?c \<longleftrightarrow> 2 ^ 64 \<le> 10 * unat v + unat (d - 48)" if "\<not> v > (- 1) div 10"
  proof -
    have "unat (v * 10) = 10 * unat v" using that big by (simp add: unat_word_ariths)
    then show ?thesis using c lim by (simp add: word_less_nat_alt) linarith
  qed
  have sum: "v * 10 + ?c = of_nat (10 * unat v + unat (d - 48))"
    by (simp flip: c(1))
  show ?thesis using assms big over c(2) by (simp add: Let_def sum)
qed

lemma string2int_loop_ok:
  assumes "\<forall>d \<in> set ds. 48 \<le> d \<and> d \<le> 57" and "rest = [] \<or> \<not> (48 \<le> hd rest \<and> hd rest \<le> 57)"
  shows "string2int_loop v (ds @ rest) =
    (if digits_val (unat v) ds < 2 ^ 64 then Some (of_nat (digits_val (unat v) ds), rest) else None)"
  using assms(1)
proof (induction ds arbitrary: v)
  case Nil
  then show ?case using assms(2) unsigned_less [of v, where 'a = nat] by (cases rest) auto
next
  case (Cons d ds)
  let ?x = "10 * unat v + unat (d - 48)"
  show ?case
  proof (cases "?x < 2 ^ 64")
    case True
    then have "unat (of_nat ?x :: u64) = ?x" by (rule unat_small)
    then show ?thesis using Cons True string2int_step [of d v "ds @ rest"] by simp
  next
    case False
    then show ?thesis using Cons.prems digits_val_mono [of ?x ds] string2int_step [of d v "ds @ rest"] by simp
  qed
qed

lemma digits_val_zeros: "digits_val 0 (dropWhile (\<lambda>c. c = 48) ds) = digits_val 0 ds"
  by (induction ds) auto

lemma range_of_digits:
  assumes "n < 2 ^ 64"
  shows "(of_nat n :: u64) > 2 ^ 63 \<longleftrightarrow> 2 ^ 63 < n" "(of_nat n :: u64) > 2 ^ 63 - 1 \<longleftrightarrow> 2 ^ 63 \<le> n"
  using assms by (simp_all add: word_less_nat_alt unsigned_of_nat take_bit_nat_eq_self) linarith

text \<open>What follows the sign and the leading zeros.\<close>

lemma string2int_tail:
  assumes "c \<noteq> 48"
  shows "(if c \<ge> 49 \<and> c \<le> 57 then
      (case string2int_loop (ucast (c - 48)) p of None \<Rightarrow> None
       | Some (v, rest) \<Rightarrow> if rest \<noteq> [] then None
           else if negative then (if v > 2 ^ 63 then None else Some (- v))
           else if v > 2 ^ 63 - 1 then None else Some v)
     else None) =
    (let n = digits_val 0 (c # p)
     in if (\<forall>d \<in> set (c # p). 48 \<le> d \<and> d \<le> 57) \<and> (if negative then n \<le> 2 ^ 63 else n < 2 ^ 63)
        then Some (if negative then - of_nat n else of_nat n) else None)"
proof (cases "48 \<le> c \<and> c \<le> 57")
  case False
  moreover have "\<not> (c \<ge> 49 \<and> c \<le> 57)" using False by (auto simp: word_le_nat_alt)
  ultimately show ?thesis by auto
next
  case True
  let ?dig = "\<lambda>d :: byte. 48 \<le> d \<and> d \<le> 57"
  let ?ds = "takeWhile ?dig p" and ?rest = "dropWhile ?dig p"
  have c: "c \<ge> 49 \<and> c \<le> 57" 
  proof -
    have "unat c \<noteq> unat (48 :: byte)" using assms by (simp only: word_unat_eq_iff not_False_eq_True)
    then show ?thesis using True by (simp add: word_le_nat_alt)
  qed
  have n: "digits_val (unat (ucast (c - 48) :: u64)) ?ds = digits_val 0 (c # ?ds)" using digit_value(1) [OF True] by simp
  have l: "string2int_loop (ucast (c - 48)) p =
      (if digits_val 0 (c # ?ds) < 2 ^ 64 then Some (of_nat (digits_val 0 (c # ?ds)), ?rest) else None)"
  proof -
    have "\<forall>d \<in> set ?ds. ?dig d" by (blast dest: set_takeWhileD)
    moreover have "?rest = [] \<or> \<not> ?dig (hd ?rest)" using hd_dropWhile by blast
    ultimately show ?thesis using string2int_loop_ok [of ?ds ?rest "ucast (c - 48)"] unfolding n takeWhile_dropWhile_id by blast
  qed
  show ?thesis
  proof (cases "?rest = []")
    case True
    then have ds: "?ds = p" by (metis append_Nil2 takeWhile_dropWhile_id)
    define n where "n = digits_val 0 (c # p)"
    have loop: "string2int_loop (ucast (c - 48)) p = (if n < 2 ^ 64 then Some (of_nat n, []) else None)"
      using l unfolding ds True n_def .
    have all: "\<forall>d \<in> set (c # p). ?dig d" using True \<open>48 \<le> c \<and> c \<le> 57\<close> by (auto simp: dropWhile_eq_Nil_conv)
    show ?thesis
    proof (cases "n < 2 ^ 64")
      case True
      have "(of_nat n :: u64) > 2 ^ 63 \<longleftrightarrow> \<not> n \<le> 2 ^ 63" "(of_nat n :: u64) > 2 ^ 63 - 1 \<longleftrightarrow> \<not> n < 2 ^ 63"
        using range_of_digits [OF True] by linarith+
      then show ?thesis using c all True unfolding n_def [symmetric] loop Let_def by auto
    next
      case False
      then have "\<not> (if negative then n \<le> 2 ^ 63 else n < 2 ^ 63)" by simp
      then show ?thesis using False unfolding n_def [symmetric] loop Let_def by simp
    qed
  next
    case False
    then have "\<not> (\<forall>d \<in> set p. ?dig d)" by (simp add: dropWhile_eq_Nil_conv)
    then show ?thesis using c False l by (auto simp: Let_def)
  qed
qed

lemma string2int_exact:
  "string2int s = (case parse_decimal s of Some v \<Rightarrow> if - (2 ^ 63) \<le> v \<and> v < 2 ^ 63 then Some (of_int v) else None | None \<Rightarrow> None)"
proof -
  define negative p where "negative = (s \<noteq> [] \<and> s ! 0 = 45)" and "p = (if s \<noteq> [] \<and> s ! 0 = 45 then tl s else s)"
  let ?n = "digits_val 0 p" and ?dig = "\<lambda>d :: byte. 48 \<le> d \<and> d \<le> 57"
  let ?spec = "if p \<noteq> [] \<and> (\<forall>d \<in> set p. ?dig d) \<and> (if negative then ?n \<le> 2 ^ 63 else ?n < 2 ^ 63)
    then Some (if negative then - of_nat ?n else of_nat ?n :: i64) else None"
  have "parse_decimal s = (if p \<noteq> [] \<and> (\<forall>d \<in> set p. ?dig d) then Some (if negative then - int ?n else int ?n) else None)"
    unfolding parse_decimal_def negative_def p_def by (cases s) (auto simp: Let_def)
  then have spec: "(case parse_decimal s of Some v \<Rightarrow> if - (2 ^ 63) \<le> v \<and> v < 2 ^ 63 then Some (of_int v) else None | None \<Rightarrow> None) = ?spec"
    by auto
  have "string2int s = ?spec"
  proof (cases "dropWhile (\<lambda>c. c = 48) p")
    case Nil
    then have "\<forall>d \<in> set p. d = 48" by (simp add: dropWhile_eq_Nil_conv)
    moreover have "?n = 0" using digits_val_zeros [of p] Nil by simp
    moreover have "string2int s = (if p = [] then None else Some 0)"
      using Nil unfolding string2int_def p_def by (cases "s = []"; cases "s ! 0 = 45") (auto simp add: Let_def simp del: dropWhile_eq_Nil_conv)
    ultimately show ?thesis by (auto simp: word_le_nat_alt)
  next
    case (Cons c q)
    have c: "c \<noteq> 48" using Cons hd_dropWhile [of "\<lambda>c. c = 48" p] by auto
    have n: "digits_val 0 (c # q) = ?n" using digits_val_zeros [of p] Cons by simp
    have "\<forall>d \<in> set (takeWhile (\<lambda>c. c = 48) p). ?dig d" by (auto dest: set_takeWhileD)
    then have dig: "(\<forall>d \<in> set p. ?dig d) \<longleftrightarrow> (\<forall>d \<in> set (c # q). ?dig d)"
      by (metis Cons Un_iff set_append takeWhile_dropWhile_id)
    have "s \<noteq> []" "p \<noteq> []" "s \<noteq> [48]" using Cons c unfolding p_def by (auto split: if_splits)
    moreover have "(if s ! 0 = 45 then (True, tl s) else (False, s)) = (negative, p)"
      using \<open>s \<noteq> []\<close> unfolding negative_def p_def by simp
    ultimately have "string2int s = (case c # q of [] \<Rightarrow> Some 0
      | c # p \<Rightarrow> if c \<ge> 49 \<and> c \<le> 57 then (case string2int_loop (ucast (c - 48)) p of None \<Rightarrow> None
         | Some (v, rest) \<Rightarrow> if rest \<noteq> [] then None
             else if negative then (if v > 2 ^ 63 then None else Some (- v))
             else if v > 2 ^ 63 - 1 then None else Some v) else None)"
      unfolding Cons [symmetric] string2int_def by (simp add: Let_def)
    then show ?thesis using string2int_tail [OF c, where p = q and negative = negative] \<open>p \<noteq> []\<close> unfolding n dig by (simp add: Let_def)
  qed
  then show ?thesis unfolding spec .
qed

section \<open>The contract\<close>

text \<open>C12: Parsing is exact. \<open>string2int\<close> accepts a string when it is an optionally signed decimal numeral whose value is
  a 64-bit integer, and then yields that value; it refuses everything else, whatever the number of digits: the
  overflow checks inside and after the loop refuse neither too much nor too little.
\<close>

theorem string2int_parses:
  "string2int s =
    (case parse_decimal s of
       Some v \<Rightarrow> if - (2 ^ 63) \<le> v \<and> v < 2 ^ 63 then Some (of_int v) else None
     | None \<Rightarrow> None)"
  by (rule string2int_exact)

lemma dec_nat_bytes: "\<forall>d \<in> set (dec_nat n). 48 \<le> d \<and> d \<le> 57"
proof (induction n rule: dec_nat.induct)
  case (1 n)
  have "48 \<le> (48 + of_nat k :: byte) \<and> (48 + of_nat k :: byte) \<le> 57" if "k < 10" for k
    using that by (simp add: word_le_nat_alt unat_word_ariths unsigned_of_nat take_bit_nat_eq_self)
  then show ?case using 1 by (subst dec_nat.simps) auto
qed

lemma digits_val_append: "digits_val acc (xs @ ys) = digits_val (digits_val acc xs) ys"
  by (induction acc xs rule: digits_val.induct) auto

lemma digits_val_dec_nat: "digits_val 0 (dec_nat n) = n"
proof (induction n rule: dec_nat.induct)
  case (1 n)
  have "unat (of_nat k :: byte) = k" if "k < 10" for k using that by (simp add: unsigned_of_nat take_bit_nat_eq_self)
  then show ?case using 1 by (subst dec_nat.simps) (auto simp: digits_val_append)
qed

lemma dec_nat_hd: "hd (dec_nat n) \<noteq> 45"
proof
  assume "hd (dec_nat n) = 45"
  then have "(45 :: byte) \<in> set (dec_nat n)" using hd_in_set [OF dec_nat_not_Nil, of n] by simp
  then show False using dec_nat_bytes [of n] by (auto simp: word_le_nat_alt dest: bspec [of _ _ 45])
qed

lemma parse_decimal_decimal: "parse_decimal (decimal v) = Some v"
proof (cases "v < 0")
  case True
  then show ?thesis using dec_nat_bytes [of "nat (- v)"] by (simp add: parse_decimal_def decimal_def digits_val_dec_nat)
next
  case False
  have "(case dec_nat (nat v) of c # t \<Rightarrow> if c = 45 then (True, t) else (False, dec_nat (nat v)) | [] \<Rightarrow> (False, [])) = (False, dec_nat (nat v))"
    using dec_nat_hd [of "nat v"] dec_nat_not_Nil [of "nat v"] by (cases "dec_nat (nat v)") auto
  then show ?thesis using False dec_nat_bytes [of "nat v"] unfolding parse_decimal_def decimal_def by (simp add: digits_val_dec_nat)
qed

text \<open>Printing and parsing are inverse: for every 64-bit integer and every buffer with room for its numeral and the
  terminator, \<open>ll2string\<close> leaves in the buffer, up to the length it returns, a string from which \<open>string2int\<close> gets
  the same integer back, with a zero byte behind it.
\<close>

theorem ll2string_string2int:
  assumes "length (decimal (sint w)) < dstlen" and "dstlen \<le> length dst"
  shows "let (buf, n) = ll2string dst dstlen w in string2int (take n buf) = Some w \<and> buf ! n = 0 \<and> length buf = length dst"
proof -
  have "take (length (decimal (sint w))) (memcpy_at dst 0 (decimal (sint w) @ [0])) = decimal (sint w)"
    by (simp add: memcpy_at_def)
  moreover have "memcpy_at dst 0 (decimal (sint w) @ [0]) ! length (decimal (sint w)) = 0" by (simp add: memcpy_at_def nth_append)
  moreover have "string2int (decimal (sint w)) = Some w"
    using sint_greater_eq [of w] sint_less [of w] by (simp add: string2int_exact parse_decimal_decimal)
  moreover have "length (memcpy_at dst 0 (decimal (sint w) @ [0])) = length dst" using assms by (simp add: memcpy_at_def)
  ultimately show ?thesis using ll2string_decimal [OF assms] by simp
qed

theorem ll2string_string2int_witness:
  "let (buf, n) = ll2string (replicate 32 7) 32 (- 120) in string2int (take n buf) = Some (- 120) \<and> buf ! n = 0 \<and> length buf = 32"
proof -
  have "decimal (sint (- 120 :: i64)) = [45, 49, 50, 48]" by code_simp
  then show ?thesis using ll2string_string2int [of "- 120" 32 "replicate 32 7"] by simp
qed

text \<open>C13: Pattern matching. For patterns without character classes and without zero bytes, the
  matcher behind the scan commands never reads beyond its arguments, terminates, and decides exactly the glob
  relation: a star matches any stretch, a question mark any character, a backslash quotes the next character.
\<close>

theorem StringMatch_glob:
  assumes "0 \<notin> set pattern" and "91 \<notin> set pattern"
  shows "StringMatch pattern str False = Some (glob pattern str)"
  using stringmatchlen_glob [OF assms] by (simp add: StringMatch_def)

theorem StringMatch_glob_witness:
  "StringMatch [97, 42, 63] [97, 98, 99] False = Some (glob [97, 42, 63] [97, 98, 99]) \<and> glob [97, 42, 63] [97, 98, 99]"
proof -
  have "glob [97, 42, 63] [97, 98, 99]" by (simp add: glob.simps)
  then show ?thesis using StringMatch_glob [of "[97, 42, 63]" "[97, 98, 99]"] by simp
qed

abbreviation terminated :: "bytes \<Rightarrow> bool" where
  "terminated p \<equiv> p \<noteq> [] \<and> last p = 0 \<and> 92 \<notin> set p"

lemma match_class_defined:
  "terminated p \<Longrightarrow> \<exists>p' m'. match_class nocase c p m = Some (p', m') \<and> terminated p'"
proof (induction nocase c p m rule: match_class.induct)
  case (2 nocase c x p m)
  show ?case
  proof (cases "p = []")
    case False
    moreover have "terminated (drop 2 p)" if "length p \<ge> 3"
      using that 2(4) False by (auto dest: in_set_dropD)
    ultimately show ?thesis using 2 by (auto simp: Let_def split: if_splits)
  qed (use 2(4) in auto)
qed simp

lemma terminated_tl: "terminated (x # p) \<Longrightarrow> p \<noteq> [] \<Longrightarrow> terminated p"
  by auto

lemma terminated_stars: "terminated p \<Longrightarrow> terminated (dropWhile (\<lambda>c. c = 42) p)"
  by (induction p) (auto split: if_splits)

lemma match_next_defined:
  assumes "length s \<ge> 2 \<Longrightarrow> \<exists>b. stringmatchlen nocase p s = Some b" and "s \<noteq> []"
  shows "\<exists>b. match_next nocase p s = Some b"
  unfolding match_next.simps [of nocase p s] using assms by (cases s) (auto simp: Suc_le_eq)

lemma match_star_defined:
  assumes "\<And>s. length s \<ge> 2 \<Longrightarrow> \<exists>b. stringmatchlen nocase p s = Some b" and "s \<noteq> []"
  shows "\<exists>b. match_star nocase p s = Some b"
  using assms(2)
proof (induction s)
  case (Cons c s)
  show ?case
  proof (cases "s = []")
    case False
    then obtain b where "stringmatchlen nocase p (c # s) = Some b" using assms(1) [of "c # s"] by (cases s) auto
    then show ?thesis using Cons False unfolding match_star.simps [of nocase p "c # s"] by (cases b) auto
  qed (auto simp: match_star.simps [of nocase p "[c]"])
qed simp

lemma stringmatchlen_defined:
  "terminated p \<Longrightarrow> length s \<ge> 2 \<Longrightarrow> \<exists>b. stringmatchlen nocase p s = Some b"
proof (induction "length p" arbitrary: p s rule: less_induct)
  case less
  obtain x q where p: "p = x # q" using less.prems by (cases p) auto
  obtain c t where s: "s = c # t" "t \<noteq> []" using less.prems(2) by (cases s; cases "tl s") auto
  have on: "\<exists>b. match_next nocase p' t = Some b" if "terminated p'" "length p' < length p" for p'
    using match_next_defined [of t nocase p'] less.hyps [OF that(2,1)] s by blast
  show ?case
  proof (cases "q = []")
    case False
    then have q: "terminated q" "length q < length p" using less.prems(1) p by auto
    have "\<exists>b. match_star nocase (dropWhile (\<lambda>c. c = 42) q) s = Some b"
      using less.hyps terminated_stars [OF q(1)] le_less_trans [OF length_dropWhile_le q(2)] s
      by (intro match_star_defined) auto
    moreover have "\<exists>b. match_next nocase q t = Some b" using on [OF q] .
    moreover have "\<exists>b. match_next nocase (tl q) t = Some b" if "tl q \<noteq> []"
      using on [of "tl q"] that q by (cases q) auto
    moreover have "\<exists>p' m. match_class nocase c r False = Some (p', m) \<and> (\<exists>b. match_next nocase p' t = Some b)"
      if r: "r = (if q ! 0 = 94 then tl q else q)" for r
    proof -
      obtain y u where y: "q = y # u" using q(1) by (cases q) auto
      have "y = 94 \<Longrightarrow> u \<noteq> []" using q(1) y by auto
      then have "terminated r" using r y q(1) by (cases "y = 94") simp_all
      moreover have "length r < length p" using r y q(2) by (cases "y = 94") simp_all
      ultimately obtain p' m where c: "match_class nocase c r False = Some (p', m)" "terminated p'" "length p' < length p"
        using match_class_defined [of r nocase c False] match_class_shrinks [of nocase c r False] by fastforce
      then show ?thesis using on [OF c(2,3)] by simp
    qed
    then obtain p' m b where "match_class nocase c (if q ! 0 = 94 then tl q else q) False = Some (p', m)" "match_next nocase p' t = Some b"
      by blast
    moreover have "x \<noteq> 92" using less.prems(1) p by auto
    ultimately show ?thesis using False unfolding p s(1) stringmatchlen.simps [of nocase "x # q"]
      by (auto simp: Let_def split: if_splits)
  qed (auto simp: p stringmatchlen.simps [of nocase "[x]"])
qed

text \<open>The matcher returns an answer, with every read inside the two strings, for every pattern without a backslash and
  every nonempty string, case sensitive or not, with any nesting of stars and any character classes, closed or not.
\<close>

theorem StringMatch_returns:
  assumes "92 \<notin> set pattern" and "str \<noteq> []"
  shows "\<exists>b. StringMatch pattern str nocase = Some b"
  unfolding StringMatch_def using assms by (intro stringmatchlen_defined) (auto simp: Suc_le_eq)

theorem StringMatch_returns_witness: "\<exists>b. StringMatch [42, 91, 94, 97, 45] [98, 99] True = Some b"
  by (rule StringMatch_returns) simp_all

text \<open>The quoting inside a character class is not bounded by the pattern: a pattern that ends with a backslash right
  behind an opening bracket takes the terminator as the quoted character and goes on reading behind it.
\<close>

theorem StringMatch_reads_beyond: "StringMatch [91, 92] (c # str) nocase = None"
  by (simp add: StringMatch_def stringmatchlen.simps [of nocase "[91, 92, 0]"])

end
