(* ===== verification/Members.thy ===== *)
theory Members
  imports Lists PstdString
begin

text \<open>
  What the commands of hashes, sets and sorted sets share: the keys and values of members, the meta value of a new
  collection, the guard that records how long a scan took, and the store in which the cursors of the scan commands
  are kept (\<open>redis.h\<close>, \<open>redis.cc\<close>, \<open>util.cc\<close>).
\<close>

section \<open>Keys and values\<close>

text \<open>\<open>HashesDataKey\<close>, \<open>SetsMemberKey\<close> and \<open>ZSetsMemberKey\<close> are \<open>BaseDataKey\<close>.\<close>

definition member_key :: "'s env \<Rightarrow> bytes \<Rightarrow> u64 \<Rightarrow> bytes \<Rightarrow> bytes" where
  "member_key env key version member = BaseDataKey_Encode (env_junk env) key version member"

definition member_seek_key :: "'s env \<Rightarrow> bytes \<Rightarrow> u64 \<Rightarrow> bytes \<Rightarrow> bytes" where
  "member_seek_key env key version member = BaseDataKey_EncodeSeekKey (env_junk env) key version member"

text \<open>The version and the bytes of the meta value of a new collection with \<open>count\<close> members.\<close>

definition new_base_meta :: "'s env \<Rightarrow> DataType \<Rightarrow> u32 \<Rightarrow> u64 \<times> bytes" where
  "new_base_meta env type count =
     (let v = BaseMetaValue_UpdateVersion (env_now env) (InternalValue_new (env_now env) type (EncodeFixed32 count))
      in (iv_version v, BaseMetaValue_Encode (env_junk env) v))"

text \<open>\<open>check_set_count\<close>: the argument is converted to an unsigned number first.\<close>

definition pm_check_set_count :: "i32 \<Rightarrow> bool" where
  "pm_check_set_count count \<longleftrightarrow> \<not> (scast count > (2147483647 :: u64))"

text \<open>The first occurrence of every member.\<close>

fun first_occurrences :: "('a \<Rightarrow> bytes) \<Rightarrow> 'a list \<Rightarrow> bytes list \<Rightarrow> 'a list" where
  "first_occurrences f [] seen = []"
| "first_occurrences f (x # xs) seen =
     (if f x \<in> set seen then first_occurrences f xs seen else x # first_occurrences f xs (f x # seen))"

section \<open>Statistics of scans\<close>

text \<open>The destructor of the guard; \<open>us\<close> are the clock at its construction and at its destruction.\<close>

definition KeyStatisticsDurationGuard :: "u64 \<times> u64 \<Rightarrow> DataType \<Rightarrow> bytes \<Rightarrow> 's redis \<Rightarrow> 's redis option" where
  "KeyStatisticsDurationGuard us dtype key r =
     (let (start_us, end_us) = us;
          duration = (if end_us > start_us then end_us - start_us else 0)
      in UpdateSpecificKeyDuration dtype key duration r)"

section \<open>Cursors of scan commands\<close>

definition scan_index_key :: "DataType \<Rightarrow> bytes \<Rightarrow> bytes \<Rightarrow> i64 \<Rightarrow> bytes option" where
  "scan_index_key type key pattern cursor = do {
     tag \<leftarrow> DataTypeTag type;
     Some ([tag] @ [95] @ key @ [95] @ pattern @ [95] @ decimal (sint cursor)) }"

definition GetScanStartPoint :: "DataType \<Rightarrow> bytes \<Rightarrow> bytes \<Rightarrow> i64 \<Rightarrow> 's redis \<Rightarrow> (bytes option \<times> 's redis) option" where
  "GetScanStartPoint type key pattern cursor r = do {
     index_key \<leftarrow> scan_index_key type key pattern cursor;
     (found, store) \<leftarrow> Lookup index_key (rds_scan_cursors_store r);
     Some (found, r\<lparr>rds_scan_cursors_store := store\<rparr>) }"

definition StoreScanNextPoint :: "DataType \<Rightarrow> bytes \<Rightarrow> bytes \<Rightarrow> i64 \<Rightarrow> bytes \<Rightarrow> 's redis \<Rightarrow> 's redis option" where
  "StoreScanNextPoint type key pattern cursor next_point r = do {
     index_key \<leftarrow> scan_index_key type key pattern cursor;
     (st, store) \<leftarrow> Insert index_key next_point 1 (rds_scan_cursors_store r);
     Some (r\<lparr>rds_scan_cursors_store := store\<rparr>) }"

definition isTailWildcard :: "bytes \<Rightarrow> bool" where
  "isTailWildcard pattern \<longleftrightarrow>
     \<not> length pattern < 2 \<and> last pattern = 42 \<and> (\<forall>c \<in> set (butlast pattern). c \<notin> {42, 63, 91, 93})"

text \<open>Where a scan starts: at the stored point, or at the literal part of the pattern when there is none, in which case
  the cursor is zero again.\<close>

definition scan_start :: "DataType \<Rightarrow> bytes \<Rightarrow> bytes \<Rightarrow> i64 \<Rightarrow> 's redis \<Rightarrow> ((bytes \<times> i64) \<times> 's redis) option" where
  "scan_start type key pattern cursor r = do {
     (found, r) \<leftarrow> GetScanStartPoint type key pattern cursor r;
     Some (case found of
         Some start_point \<Rightarrow> (start_point, cursor)
       | None \<Rightarrow> (if isTailWildcard pattern then butlast pattern else [], 0), r) }"

definition Int64ToStr :: "bytes \<Rightarrow> nat \<Rightarrow> i64 \<Rightarrow> bytes \<times> nat" where
  "Int64ToStr dst dstlen svalue = ll2string dst dstlen svalue"

definition StrToInt64 :: "bytes \<Rightarrow> i64 option" where
  "StrToInt64 s = string2int s"

section \<open>Long doubles\<close>

text \<open>The arithmetic of \<open>long double\<close>: \<open>strtold\<close> with the characters behind the number, \<open>isnan\<close>, \<open>isinf\<close>, addition,
  and the output of \<open>snprintf\<close> with the format \<open>%.17Lf\<close>.\<close>

record 'f long_double =
  ld_strtold :: "bytes \<Rightarrow> 'f \<times> bytes"
  ld_isnan :: "'f \<Rightarrow> bool"
  ld_isinf :: "'f \<Rightarrow> bool"
  ld_add :: "'f \<Rightarrow> 'f \<Rightarrow> 'f"
  ld_print :: "'f \<Rightarrow> bytes"

definition StrToLongDouble :: "'f long_double \<Rightarrow> bytes \<Rightarrow> 'f option" where
  "StrToLongDouble ld s =
     (if 32 \<in> set s then None
      else
        let (d, rest) = ld_strtold ld (takeWhile (\<lambda>c. c \<noteq> 0) s);
            consumed = length (takeWhile (\<lambda>c. c \<noteq> 0) s) - length rest
        in if consumed \<noteq> length s then None else Some d)"

text \<open>\<open>Some None\<close> is the result -1. The buffer has 256 bytes, but the length used is that of the whole output, so a
  longer output is read behind the buffer.\<close>

definition LongDoubleToStr :: "'f long_double \<Rightarrow> 'f \<Rightarrow> bytes option option" where
  "LongDoubleToStr ld ldval =
     (if ld_isnan ld ldval \<or> ld_isinf ld ldval then Some None
      else
        let buf = ld_print ld ldval
        in if length buf \<ge> 256 then None
           else if 46 \<in> set buf then
             let kept = rev (dropWhile (\<lambda>c. c = 48) (rev buf))
             in Some (Some (if kept \<noteq> [] \<and> last kept = 46 then butlast kept else kept))
           else Some (Some buf))"

section \<open>Iterators\<close>

text \<open>The remaining members of an iterator in front of which a scan stopped.\<close>

fun iter_field :: "bytes \<Rightarrow> (bytes \<times> bytes) list \<Rightarrow> bytes option option" where
  "iter_field pre [] = Some None"
| "iter_field pre ((k, v) # es) =
     (if prefix pre k then map_option (\<lambda>p. Some (bdk_data p)) (ParsedBaseDataKey_decode k) else Some None)"

end
