(* ===== verification/Sets.thy ===== *)
theory Sets
  imports Members
begin

text \<open>
  The set commands of \<open>src/src/storage/src/redis_sets.cc\<close>, one definition per command and one per loop. A set is a meta
  value in \<open>kMetaCF\<close> holding a count and a version, and one record per member in \<open>kSetsDataCF\<close> under the key, version and
  member; the values of the records are empty. The random numbers \<open>SPOP\<close> and \<open>SRANDMEMBER\<close> draw are arguments, as
  is the shuffling of the standard library.
\<close>

datatype KeyVersion = KeyVersion (kv_key: bytes) (kv_version: u64)

section \<open>Members and cardinality\<close>

fun ScanSetsKeyNum_loop :: "u64 \<Rightarrow> (bytes \<times> bytes) list \<Rightarrow> u64 \<times> u64 \<times> u64 \<times> u64 \<Rightarrow> (u64 \<times> u64 \<times> u64 \<times> u64) option" where
  "ScanSetsKeyNum_loop curtime [] acc = Some acc"
| "ScanSetsKeyNum_loop curtime ((k, v) # es) (keys, expires, ttl_sum, invaild_keys) =
     (if \<not> ExpectedMetaValue kSets v then ScanSetsKeyNum_loop curtime es (keys, expires, ttl_sum, invaild_keys)
      else do {
        p \<leftarrow> ParsedBaseMetaValue_parse False v;
        if pv_IsStale curtime p \<or> pm_count p = 0
        then ScanSetsKeyNum_loop curtime es (keys, expires, ttl_sum, invaild_keys + 1)
        else if \<not> pv_IsPermanentSurvival p
        then ScanSetsKeyNum_loop curtime es (keys + 1, expires + 1, ttl_sum + (pv_etime p - curtime), invaild_keys)
        else ScanSetsKeyNum_loop curtime es (keys + 1, expires, ttl_sum, invaild_keys) })"

definition ScanSetsKeyNum :: "'s env \<Rightarrow> 's redis \<Rightarrow> (Status \<times> KeyInfo) option" where
  "ScanSetsKeyNum env r = do {
     (keys, expires, ttl_sum, invaild_keys) \<leftarrow>
       ScanSetsKeyNum_loop (env_now env) (it_SeekToFirst (env_db env) (rds_db r) kMetaCF) (0, 0, 0, 0);
     Some (OK, \<lparr>ki_keys = keys, ki_expires = expires,
       ki_avg_ttl = (if expires \<noteq> 0 then ttl_sum div expires else 0), ki_invaild_keys = invaild_keys\<rparr>) }"

text \<open>The writes for the given members, in order.\<close>

definition put_members :: "'s env \<Rightarrow> bytes \<Rightarrow> u64 \<Rightarrow> bytes list \<Rightarrow> WriteOp list" where
  "put_members env key version members = map (\<lambda>member. Put kSetsDataCF (member_key env key version member) (i_val env [])) members"

fun SAdd_loop :: "'s env \<Rightarrow> bytes \<Rightarrow> u64 \<Rightarrow> 's \<Rightarrow> bytes list \<Rightarrow> i32 \<Rightarrow> WriteOp list \<Rightarrow> Status + i32 \<times> WriteOp list" where
  "SAdd_loop env key version db [] cnt batch = Inr (cnt, batch)"
| "SAdd_loop env key version db (member # ms) cnt batch =
     (let k = member_key env key version member;
          s = fst (db_Get (env_db env) db kSetsDataCF k)
      in if s = OK then SAdd_loop env key version db ms cnt batch
         else if is_NotFound s then SAdd_loop env key version db ms (cnt + 1) (batch @ [Put kSetsDataCF k (i_val env [])])
         else Inl s)"

definition SAdd :: "'s env \<Rightarrow> bytes \<Rightarrow> bytes list \<Rightarrow> 's redis \<Rightarrow> ((Status \<times> i32 option) \<times> 's redis) option" where
  "SAdd env key members r = do {
     let filtered_members = first_occurrences (\<lambda>m. m) members [];
     m \<leftarrow> get_meta env kSets key key (rds_db r);
     case m of Inl st \<Rightarrow> Some ((st, None), r)
     | Inr (s, meta_value) \<Rightarrow>
         if s = OK then do {
           p \<leftarrow> ParsedBaseMetaValue_parse True meta_value;
           if pv_IsStale (env_now env) p \<or> pm_count p = 0 then do {
             let p = pm_InitialMetaValue (env_now env) p;
             if \<not> pm_check_set_count (of_nat (length filtered_members))
             then Some ((InvalidArgument ''set size overflow'', None), r)
             else do {
               let p = pm_SetCount (of_nat (length filtered_members)) p;
               let (s, r) = redis_Write env (Put kMetaCF (base_meta_key env key) (pv_data p) #
                 put_members env key (pv_version p) filtered_members) r;
               Some ((s, Some (of_nat (length filtered_members))), r) } }
           else case SAdd_loop env key (pv_version p) (rds_db r) filtered_members 0 [] of
             Inl st \<Rightarrow> Some ((st, None), r)
           | Inr (cnt, batch) \<Rightarrow>
               if cnt = 0 then Some ((OK, Some 0), r)
               else if \<not> pm_CheckModifyCount cnt p then Some ((InvalidArgument ''set size overflow'', Some cnt), r)
               else do {
                 let (s, r) = redis_Write env (batch @ [Put kMetaCF (base_meta_key env key) (pv_data (pm_ModifyCount cnt p))]) r;
                 Some ((s, Some cnt), r) } }
         else if is_NotFound s then do {
           let (version, meta) = new_base_meta env kSets (of_nat (length filtered_members));
           let (s, r) = redis_Write env (Put kMetaCF (base_meta_key env key) meta #
             put_members env key version filtered_members) r;
           Some ((s, Some (of_nat (length filtered_members))), r) }
         else Some ((s, None), r) }"

definition SCard :: "'s env \<Rightarrow> bytes \<Rightarrow> bytes \<Rightarrow> 's redis \<Rightarrow> (Status \<times> i32) option" where
  "SCard env key meta r = do {
     m \<leftarrow> (if meta = [] then get_meta env kSets key key (rds_db r) else Some (Inr (OK, meta)));
     case m of Inl st \<Rightarrow> Some (st, 0)
     | Inr (s, meta_value) \<Rightarrow>
         if s = OK then do {
           p \<leftarrow> ParsedBaseMetaValue_parse True meta_value;
           if pv_IsStale (env_now env) p then Some (NotFound ''Stale'', 0)
           else if pm_count p = 0 then Some (NotFound ''Deleted'', 0)
           else Some (s, pm_count p) }
         else Some (s, 0) }"

definition SIsmember :: "'s env \<Rightarrow> bytes \<Rightarrow> bytes \<Rightarrow> 's redis \<Rightarrow> (Status \<times> i32) option" where
  "SIsmember env key member r = do {
     m \<leftarrow> get_meta env kSets key key (rds_db r);
     case m of Inl st \<Rightarrow> Some (st, 0)
     | Inr (s, meta_value) \<Rightarrow>
         if s = OK then do {
           p \<leftarrow> ParsedBaseMetaValue_parse True meta_value;
           if pv_IsStale (env_now env) p then Some (NotFound ''Stale'', 0)
           else if pm_count p = 0 then Some (NotFound [], 0)
           else do {
             let s = fst (db_Get (env_db env) (rds_db r) kSetsDataCF (member_key env key (pv_version p) member));
             Some (s, if s = OK then 1 else 0) } }
         else Some (s, 0) }"

fun SMembers_loop :: "bytes \<Rightarrow> (bytes \<times> bytes) list \<Rightarrow> bytes list option" where
  "SMembers_loop pre [] = Some []"
| "SMembers_loop pre ((k, v) # es) =
     (if prefix pre k then do {
        parsed \<leftarrow> ParsedBaseDataKey_decode k;
        ms \<leftarrow> SMembers_loop pre es;
        Some (bdk_data parsed # ms) }
      else Some [])"

definition SMembers :: "'s env \<Rightarrow> u64 \<times> u64 \<Rightarrow> bytes \<Rightarrow> 's redis \<Rightarrow> ((Status \<times> bytes list) \<times> 's redis) option" where
  "SMembers env us key r = do {
     m \<leftarrow> get_meta env kSets key key (rds_db r);
     case m of Inl st \<Rightarrow> Some ((st, []), r)
     | Inr (s, meta_value) \<Rightarrow>
         if s = OK then do {
           p \<leftarrow> ParsedBaseMetaValue_parse True meta_value;
           if pv_IsStale (env_now env) p then Some ((NotFound ''Stale'', []), r)
           else if pm_count p = 0 then Some ((NotFound [], []), r)
           else do {
             let pre = member_seek_key env key (pv_version p) [];
             ms \<leftarrow> SMembers_loop pre (it_Seek (env_db env) (rds_db r) kSetsDataCF pre);
             r \<leftarrow> KeyStatisticsDurationGuard us kSets key r;
             Some ((s, ms), r) } }
         else Some ((s, []), r) }"

definition SMembersWithTTL ::
    "'s env \<Rightarrow> u64 \<times> u64 \<Rightarrow> bytes \<Rightarrow> 's redis \<Rightarrow> ((Status \<times> bytes list \<times> i64 option) \<times> 's redis) option" where
  "SMembersWithTTL env us key r = do {
     m \<leftarrow> get_meta env kSets key key (rds_db r);
     case m of Inl st \<Rightarrow> Some ((st, [], None), r)
     | Inr (s, meta_value) \<Rightarrow>
         if s = OK then do {
           p \<leftarrow> ParsedBaseMetaValue_parse True meta_value;
           if pm_count p = 0 then Some ((NotFound [], [], None), r)
           else if pv_IsStale (env_now env) p then Some ((NotFound ''Stale'', [], None), r)
           else do {
             let ttl_millsec = ttl_of_etime (pv_etime p) (env_now env);
             let pre = member_seek_key env key (pv_version p) [];
             ms \<leftarrow> SMembers_loop pre (it_Seek (env_db env) (rds_db r) kSetsDataCF pre);
             r \<leftarrow> KeyStatisticsDurationGuard us kSets key r;
             Some ((s, ms, Some ttl_millsec), r) } }
         else Some ((s, [], None), r) }"

section \<open>Set algebra\<close>

text \<open>The versions of the sets that are there, for the commands that skip absent sets, or the status that ends the
  command.\<close>

fun vaild_sets :: "'s env \<Rightarrow> 's \<Rightarrow> bytes list \<Rightarrow> (Status + KeyVersion list) option" where
  "vaild_sets env db [] = Some (Inr [])"
| "vaild_sets env db (key # keys) = do {
     m \<leftarrow> get_meta env kSets key key db;
     case m of Inl st \<Rightarrow> Some (Inl st)
     | Inr (s, meta_value) \<Rightarrow>
         if s = OK then do {
           p \<leftarrow> ParsedBaseMetaValue_parse True meta_value;
           rest \<leftarrow> vaild_sets env db keys;
           Some (if \<not> pv_IsStale (env_now env) p \<and> pm_count p \<noteq> 0
                 then map_sum (\<lambda>st. st) (\<lambda>kvs. KeyVersion key (pv_version p) # kvs) rest else rest) }
         else if \<not> is_NotFound s then Some (Inl s)
         else vaild_sets env db keys }"

text \<open>The same for the commands that end when a set is absent, which is the result \<open>None\<close>.\<close>

fun vaild_all_sets :: "'s env \<Rightarrow> 's \<Rightarrow> bytes list \<Rightarrow> (Status + KeyVersion list option) option" where
  "vaild_all_sets env db [] = Some (Inr (Some []))"
| "vaild_all_sets env db (key # keys) = do {
     m \<leftarrow> get_meta env kSets key key db;
     case m of Inl st \<Rightarrow> Some (Inl st)
     | Inr (s, meta_value) \<Rightarrow>
         if s = OK then do {
           p \<leftarrow> ParsedBaseMetaValue_parse True meta_value;
           if pv_IsStale (env_now env) p \<or> pm_count p = 0 then Some (Inr None)
           else do {
             rest \<leftarrow> vaild_all_sets env db keys;
             Some (map_sum (\<lambda>st. st) (map_option (\<lambda>kvs. KeyVersion key (pv_version p) # kvs)) rest) } }
         else if is_NotFound s then Some (Inr None)
         else Some (Inl s) }"

text \<open>Whether a member is in one of the sets.\<close>

fun SDiff_found :: "'s env \<Rightarrow> 's \<Rightarrow> bytes \<Rightarrow> KeyVersion list \<Rightarrow> Status + bool" where
  "SDiff_found env db member [] = Inr False"
| "SDiff_found env db member (kv # kvs) =
     (let s = fst (db_Get (env_db env) db kSetsDataCF (member_key env (kv_key kv) (kv_version kv) member))
      in if s = OK then Inr True else if \<not> is_NotFound s then Inl s else SDiff_found env db member kvs)"

text \<open>Whether a member is in all of the sets.\<close>

fun SInter_reliable :: "'s env \<Rightarrow> 's \<Rightarrow> bytes \<Rightarrow> KeyVersion list \<Rightarrow> Status + bool" where
  "SInter_reliable env db member [] = Inr True"
| "SInter_reliable env db member (kv # kvs) =
     (let s = fst (db_Get (env_db env) db kSetsDataCF (member_key env (kv_key kv) (kv_version kv) member))
      in if s = OK then SInter_reliable env db member kvs else if is_NotFound s then Inr False else Inl s)"

text \<open>The loop over the first set: the members on which \<open>keep\<close> answers with true, until it fails.\<close>

fun select_loop :: "(bytes \<Rightarrow> Status + bool) \<Rightarrow> bytes \<Rightarrow> (bytes \<times> bytes) list \<Rightarrow> (Status \<times> bytes list) option" where
  "select_loop keep pre [] = Some (OK, [])"
| "select_loop keep pre ((k, v) # es) =
     (if prefix pre k then do {
        parsed \<leftarrow> ParsedBaseDataKey_decode k;
        let member = bdk_data parsed;
        case keep member of Inl st \<Rightarrow> Some (st, [])
        | Inr b \<Rightarrow> do {
            (st, ms) \<leftarrow> select_loop keep pre es;
            Some (st, if b then member # ms else ms) } }
      else Some (OK, []))"

text \<open>What \<open>SDiff\<close> and \<open>SDiffstore\<close> have in common: the members of the first set that are in none of the others.\<close>

definition SDiff_members ::
    "'s env \<Rightarrow> u64 \<times> u64 \<Rightarrow> bytes \<Rightarrow> bytes list \<Rightarrow> 's redis \<Rightarrow> ((Status \<times> bytes list) \<times> 's redis) option" where
  "SDiff_members env us key0 keys r = do {
     v \<leftarrow> vaild_sets env (rds_db r) keys;
     case v of Inl st \<Rightarrow> Some ((st, []), r)
     | Inr kvs \<Rightarrow> do {
         m \<leftarrow> get_meta env kSets key0 key0 (rds_db r);
         case m of Inl st \<Rightarrow> Some ((st, []), r)
         | Inr (s, meta_value) \<Rightarrow>
             if s = OK then do {
               p \<leftarrow> ParsedBaseMetaValue_parse True meta_value;
               if \<not> pv_IsStale (env_now env) p \<and> pm_count p \<noteq> 0 then do {
                 let pre = member_seek_key env key0 (pv_version p) [];
                 res \<leftarrow> select_loop (\<lambda>member. map_sum (\<lambda>st. st) Not (SDiff_found env (rds_db r) member kvs)) pre
                   (it_Seek (env_db env) (rds_db r) kSetsDataCF pre);
                 r \<leftarrow> KeyStatisticsDurationGuard us kSets key0 r;
                 Some (res, r) }
               else Some ((OK, []), r) }
             else if \<not> is_NotFound s then Some ((s, []), r)
             else Some ((OK, []), r) } }"

definition SDiff :: "'s env \<Rightarrow> u64 \<times> u64 \<Rightarrow> bytes list \<Rightarrow> 's redis \<Rightarrow> ((Status \<times> bytes list) \<times> 's redis) option" where
  "SDiff env us keys r = (case keys of
       [] \<Rightarrow> Some ((Corruption ''SDiff invalid parameter, no keys'', []), r)
     | key0 # keys \<Rightarrow> SDiff_members env us key0 keys r)"

text \<open>The last part of the storing commands. \<open>put_key\<close> is the key under which the renewed meta value is put when the
  destination is there; the outputs are the stored members and their number.\<close>

definition store_members ::
    "'s env \<Rightarrow> bytes \<Rightarrow> bytes \<Rightarrow> bytes list \<Rightarrow> 's redis \<Rightarrow> ((Status \<times> (bytes list \<times> i32) option) \<times> 's redis) option" where
  "store_members env put_key destination members r = do {
     m \<leftarrow> get_meta env kSets destination destination (rds_db r);
     case m of Inl st \<Rightarrow> Some ((st, None), r)
     | Inr (s, meta_value) \<Rightarrow> do {
         w \<leftarrow> (if s = OK then do {
             p \<leftarrow> ParsedBaseMetaValue_parse True meta_value;
             let statistic = pm_count p;
             let p = pm_InitialMetaValue (env_now env) p;
             if \<not> pm_check_set_count (of_nat (length members)) then Some (Inl (InvalidArgument ''set size overflow''))
             else Some (Inr (statistic, pv_version p, Put kMetaCF put_key (pv_data (pm_SetCount (of_nat (length members)) p)))) }
           else if is_NotFound s then do {
             let (version, meta) = new_base_meta env kSets (of_nat (length members));
             Some (Inr (0, version, Put kMetaCF (base_meta_key env destination) meta)) }
           else Some (Inl s));
         case w of Inl st \<Rightarrow> Some ((st, None), r)
         | Inr (statistic, version, meta_put) \<Rightarrow> do {
             let (s, r) = redis_Write env (meta_put # put_members env destination version members) r;
             r \<leftarrow> UpdateSpecificKeyStatistics kSets destination (ucast statistic) r;
             Some ((s, Some (members, of_nat (length members))), r) } } }"

definition SDiffstore ::
    "'s env \<Rightarrow> u64 \<times> u64 \<Rightarrow> bytes \<Rightarrow> bytes list \<Rightarrow> 's redis \<Rightarrow> ((Status \<times> (bytes list \<times> i32) option) \<times> 's redis) option" where
  "SDiffstore env us destination keys r = (case keys of
       [] \<Rightarrow> Some ((Corruption ''SDiffsotre invalid parameter, no keys'', None), r)
     | key0 # keys \<Rightarrow> do {
         ((s, members), r) \<leftarrow> SDiff_members env us key0 keys r;
         if s \<noteq> OK then Some ((s, None), r)
         else store_members env (base_meta_key env destination) destination members r })"

text \<open>The members of the first set that are in all of the others; without a result when a set is absent.\<close>

definition SInter_members ::
    "'s env \<Rightarrow> u64 \<times> u64 \<Rightarrow> bytes \<Rightarrow> bytes list \<Rightarrow> 's redis \<Rightarrow> ((Status \<times> bytes list) \<times> 's redis) option" where
  "SInter_members env us key0 keys r = do {
     v \<leftarrow> vaild_all_sets env (rds_db r) keys;
     case v of Inl st \<Rightarrow> Some ((st, []), r)
     | Inr None \<Rightarrow> Some ((OK, []), r)
     | Inr (Some kvs) \<Rightarrow> do {
         m \<leftarrow> get_meta env kSets key0 key0 (rds_db r);
         case m of Inl st \<Rightarrow> Some ((st, []), r)
         | Inr (s, meta_value) \<Rightarrow>
             if s = OK then do {
               p \<leftarrow> ParsedBaseMetaValue_parse True meta_value;
               if pv_IsStale (env_now env) p \<or> pm_count p = 0 then Some ((OK, []), r)
               else do {
                 let pre = member_seek_key env key0 (pv_version p) [];
                 res \<leftarrow> select_loop (\<lambda>member. SInter_reliable env (rds_db r) member kvs) pre
                   (it_Seek (env_db env) (rds_db r) kSetsDataCF pre);
                 r \<leftarrow> KeyStatisticsDurationGuard us kSets key0 r;
                 Some (res, r) } }
             else if is_NotFound s then Some ((OK, []), r)
             else Some ((s, []), r) } }"

definition SInter :: "'s env \<Rightarrow> u64 \<times> u64 \<Rightarrow> bytes list \<Rightarrow> 's redis \<Rightarrow> ((Status \<times> bytes list) \<times> 's redis) option" where
  "SInter env us keys r = (case keys of
       [] \<Rightarrow> Some ((Corruption ''SInter invalid parameter, no keys'', []), r)
     | key0 # keys \<Rightarrow> SInter_members env us key0 keys r)"

definition SInterstore ::
    "'s env \<Rightarrow> u64 \<times> u64 \<Rightarrow> bytes \<Rightarrow> bytes list \<Rightarrow> 's redis \<Rightarrow> ((Status \<times> (bytes list \<times> i32) option) \<times> 's redis) option" where
  "SInterstore env us destination keys r = (case keys of
       [] \<Rightarrow> Some ((Corruption ''SInterstore invalid parameter, no keys'', None), r)
     | key0 # keys \<Rightarrow> do {
         ((s, members), r) \<leftarrow> SInter_members env us key0 keys r;
         if s \<noteq> OK then Some ((s, None), r)
         else store_members env (base_meta_key env destination) destination members r })"

text \<open>The members of a set that are not in the result yet.\<close>

fun SUnion_add :: "bytes \<Rightarrow> (bytes \<times> bytes) list \<Rightarrow> bytes list \<Rightarrow> bytes list option" where
  "SUnion_add pre [] members = Some members"
| "SUnion_add pre ((k, v) # es) members =
     (if prefix pre k then do {
        parsed \<leftarrow> ParsedBaseDataKey_decode k;
        let member = bdk_data parsed;
        SUnion_add pre es (if member \<in> set members then members else members @ [member]) }
      else Some members)"

fun SUnion_loop :: "'s env \<Rightarrow> (nat \<Rightarrow> u64 \<times> u64) \<Rightarrow> KeyVersion list \<Rightarrow> bytes list \<Rightarrow> 's redis \<Rightarrow> (bytes list \<times> 's redis) option" where
  "SUnion_loop env us [] members r = Some (members, r)"
| "SUnion_loop env us (kv # kvs) members r = do {
     let pre = member_seek_key env (kv_key kv) (kv_version kv) [];
     members \<leftarrow> SUnion_add pre (it_Seek (env_db env) (rds_db r) kSetsDataCF pre) members;
     r \<leftarrow> KeyStatisticsDurationGuard (us 0) kSets (kv_key kv) r;
     SUnion_loop env (us \<circ> Suc) kvs members r }"

definition SUnion :: "'s env \<Rightarrow> (nat \<Rightarrow> u64 \<times> u64) \<Rightarrow> bytes list \<Rightarrow> 's redis \<Rightarrow> ((Status \<times> bytes list) \<times> 's redis) option" where
  "SUnion env us keys r =
     (if keys = [] then Some ((Corruption ''SUnion invalid parameter, no keys'', []), r)
      else do {
        v \<leftarrow> vaild_sets env (rds_db r) keys;
        case v of Inl st \<Rightarrow> Some ((st, []), r)
        | Inr kvs \<Rightarrow> do {
            (members, r) \<leftarrow> SUnion_loop env us kvs [] r;
            Some ((OK, members), r) } })"

text \<open>\<open>SUnionstore\<close> puts the renewed meta value of a destination that is there under the destination itself, not under its
  encoded key.\<close>

definition SUnionstore ::
    "'s env \<Rightarrow> (nat \<Rightarrow> u64 \<times> u64) \<Rightarrow> bytes \<Rightarrow> bytes list \<Rightarrow> 's redis \<Rightarrow> ((Status \<times> (bytes list \<times> i32) option) \<times> 's redis) option" where
  "SUnionstore env us destination keys r =
     (if keys = [] then Some ((Corruption ''SUnionstore invalid parameter, no keys'', None), r)
      else do {
        v \<leftarrow> vaild_sets env (rds_db r) keys;
        case v of Inl st \<Rightarrow> Some ((st, None), r)
        | Inr kvs \<Rightarrow> do {
            (members, r) \<leftarrow> SUnion_loop env us kvs [] r;
            store_members env destination destination members r } })"

section \<open>Moving and removing members\<close>

text \<open>The second half of \<open>SMove\<close>: what is added to the batch for the destination, or the status that ends the command.\<close>

definition SMove_add :: "'s env \<Rightarrow> bytes \<Rightarrow> bytes \<Rightarrow> 's \<Rightarrow> (Status + WriteOp list) option" where
  "SMove_add env destination member db = do {
     m \<leftarrow> get_meta env kSets destination destination db;
     case m of Inl st \<Rightarrow> Some (Inl st)
     | Inr (s, meta_value) \<Rightarrow>
         if s = OK then do {
           p \<leftarrow> ParsedBaseMetaValue_parse True meta_value;
           if pv_IsStale (env_now env) p \<or> pm_count p = 0 then do {
             let p = pm_SetCount 1 (pm_InitialMetaValue (env_now env) p);
             Some (Inr [Put kMetaCF (base_meta_key env destination) (pv_data p),
               Put kSetsDataCF (member_key env destination (pv_version p) member) (i_val env [])]) }
           else do {
             let k = member_key env destination (pv_version p) member;
             let s = fst (db_Get (env_db env) db kSetsDataCF k);
             if is_NotFound s then
               (if \<not> pm_CheckModifyCount 1 p then Some (Inl (InvalidArgument ''set size overflow''))
                else Some (Inr [Put kMetaCF (base_meta_key env destination) (pv_data (pm_ModifyCount 1 p)),
                  Put kSetsDataCF k (i_val env [])]))
             else if s \<noteq> OK then Some (Inl s)
             else Some (Inr []) } }
         else if is_NotFound s then do {
           let (version, meta) = new_base_meta env kSets 1;
           Some (Inr [Put kMetaCF (base_meta_key env destination) meta,
             Put kSetsDataCF (member_key env destination version member) (i_val env [])]) }
         else Some (Inl s) }"

definition SMove :: "'s env \<Rightarrow> bytes \<Rightarrow> bytes \<Rightarrow> bytes \<Rightarrow> 's redis \<Rightarrow> ((Status \<times> i32) \<times> 's redis) option" where
  "SMove env source destination member r =
     (if source = destination then Some ((OK, 1), r)
      else do {
        m \<leftarrow> get_meta env kSets source source (rds_db r);
        case m of Inl st \<Rightarrow> Some ((st, 0), r)
        | Inr (s, meta_value) \<Rightarrow>
            if s = OK then do {
              p \<leftarrow> ParsedBaseMetaValue_parse True meta_value;
              if pv_IsStale (env_now env) p then Some ((NotFound ''Stale'', 0), r)
              else if pm_count p = 0 then Some ((NotFound [], 0), r)
              else do {
                let k = member_key env source (pv_version p) member;
                let s = fst (db_Get (env_db env) (rds_db r) kSetsDataCF k);
                if s = OK then
                  (if \<not> pm_CheckModifyCount (- 1) p then Some ((InvalidArgument ''set size overflow'', 1), r)
                   else do {
                     let batch = [Put kMetaCF (base_meta_key env source) (pv_data (pm_ModifyCount (- 1) p)), Delete kSetsDataCF k];
                     d \<leftarrow> SMove_add env destination member (rds_db r);
                     case d of Inl st \<Rightarrow> Some ((st, 1), r)
                     | Inr ops \<Rightarrow> do {
                         let (s, r) = redis_Write env (batch @ ops) r;
                         r \<leftarrow> UpdateSpecificKeyStatistics kSets source 1 r;
                         Some ((s, 1), r) } })
                else if is_NotFound s then Some ((NotFound [], 0), r)
                else Some ((s, 0), r) } }
            else if is_NotFound s then Some ((NotFound [], 0), r)
            else Some ((s, 0), r) })"

fun SRem_loop :: "'s env \<Rightarrow> bytes \<Rightarrow> u64 \<Rightarrow> 's \<Rightarrow> bytes list \<Rightarrow> i32 \<Rightarrow> WriteOp list \<Rightarrow> Status + i32 \<times> WriteOp list" where
  "SRem_loop env key version db [] cnt batch = Inr (cnt, batch)"
| "SRem_loop env key version db (member # ms) cnt batch =
     (let k = member_key env key version member;
          s = fst (db_Get (env_db env) db kSetsDataCF k)
      in if s = OK then SRem_loop env key version db ms (cnt + 1) (batch @ [Delete kSetsDataCF k])
         else if is_NotFound s then SRem_loop env key version db ms cnt batch
         else Inl s)"

definition SRem :: "'s env \<Rightarrow> bytes \<Rightarrow> bytes list \<Rightarrow> 's redis \<Rightarrow> ((Status \<times> i32) \<times> 's redis) option" where
  "SRem env key members r = do {
     m \<leftarrow> get_meta env kSets key key (rds_db r);
     case m of Inl st \<Rightarrow> Some ((st, 0), r)
     | Inr (s, meta_value) \<Rightarrow>
         if s = OK then do {
           p \<leftarrow> ParsedBaseMetaValue_parse True meta_value;
           if pv_IsStale (env_now env) p then Some ((NotFound ''stale'', 0), r)
           else if pm_count p = 0 then Some ((NotFound [], 0), r)
           else case SRem_loop env key (pv_version p) (rds_db r) members 0 [] of
             Inl st \<Rightarrow> Some ((st, 0), r)
           | Inr (cnt, batch) \<Rightarrow>
               if \<not> pm_CheckModifyCount (- cnt) p then Some ((InvalidArgument ''set size overflow'', cnt), r)
               else do {
                 let (s, r) = redis_Write env (batch @ [Put kMetaCF (base_meta_key env key) (pv_data (pm_ModifyCount (- cnt) p))]) r;
                 r \<leftarrow> UpdateSpecificKeyStatistics kSets key (ucast cnt) r;
                 Some ((s, cnt), r) } }
         else if is_NotFound s then Some ((NotFound [], 0), r)
         else Some ((s, 0), r) }"

section \<open>Random members\<close>

text \<open>The \<open>i\<close>-th number of the random engine is \<open>rnd i\<close>. One round of \<open>SPop\<close> draws until the position is a new one; it
  does not return when no new position is drawn any more.\<close>

partial_function (option) SPop_draw :: "(nat \<Rightarrow> u64) \<Rightarrow> i32 \<Rightarrow> i32 list \<Rightarrow> nat \<Rightarrow> (i32 \<times> nat) option" where
  "SPop_draw rnd modnum sets_index i =
     (let target_index = ucast (rnd i mod scast modnum)
      in if target_index \<in> set sets_index then SPop_draw rnd modnum sets_index (i + 1) else Some (target_index, i + 1))"

fun SPop_draws :: "(nat \<Rightarrow> u64) \<Rightarrow> i32 \<Rightarrow> nat \<Rightarrow> i32 list \<Rightarrow> nat \<Rightarrow> i32 list option" where
  "SPop_draws rnd modnum 0 sets_index i = Some sets_index"
| "SPop_draws rnd modnum (Suc rounds) sets_index i = do {
     (target_index, i) \<leftarrow> SPop_draw rnd modnum sets_index i;
     SPop_draws rnd modnum rounds (target_index # sets_index) i }"

text \<open>All records the iterator visits, at most \<open>sz\<close>, the count of the meta value.\<close>

fun SPop_all_loop :: "(bytes \<times> bytes) list \<Rightarrow> i32 \<Rightarrow> i32 \<Rightarrow> (bytes list \<times> WriteOp list) option" where
  "SPop_all_loop [] cur_index sz = Some ([], [])"
| "SPop_all_loop ((k, v) # es) cur_index sz =
     (if sint cur_index < sint sz then do {
        parsed \<leftarrow> ParsedBaseDataKey_decode k;
        (ms, ops) \<leftarrow> SPop_all_loop es (cur_index + 1) sz;
        Some (bdk_data parsed # ms, Delete kSetsDataCF k # ops) }
      else Some ([], []))"

text \<open>The records at the drawn positions, at most \<open>cnt\<close>.\<close>

fun SPop_loop :: "(bytes \<times> bytes) list \<Rightarrow> i32 \<Rightarrow> i32 \<Rightarrow> i32 list \<Rightarrow> i64 \<Rightarrow> i64 \<Rightarrow> (bytes list \<times> WriteOp list) option" where
  "SPop_loop [] cur_index sz sets_index del_count cnt = Some ([], [])"
| "SPop_loop ((k, v) # es) cur_index sz sets_index del_count cnt =
     (if sint cur_index < sint sz \<and> del_count \<noteq> cnt then
        (if cur_index \<in> set sets_index then do {
           parsed \<leftarrow> ParsedBaseDataKey_decode k;
           (ms, ops) \<leftarrow> SPop_loop es (cur_index + 1) sz sets_index (del_count + 1) cnt;
           Some (bdk_data parsed # ms, Delete kSetsDataCF k # ops) }
         else SPop_loop es (cur_index + 1) sz sets_index del_count cnt)
      else Some ([], []))"

definition SPop ::
    "'s env \<Rightarrow> (nat \<Rightarrow> u64) \<Rightarrow> u64 \<times> u64 \<Rightarrow> bytes \<Rightarrow> i64 \<Rightarrow> 's redis \<Rightarrow> ((Status \<times> bytes list) \<times> 's redis) option" where
  "SPop env rnd us key cnt r = do {
     m \<leftarrow> get_meta env kSets key key (rds_db r);
     case m of Inl st \<Rightarrow> Some ((st, []), r)
     | Inr (s, meta_value) \<Rightarrow>
         if s = OK then do {
           p \<leftarrow> ParsedBaseMetaValue_parse True meta_value;
           if pv_IsStale (env_now env) p then Some ((NotFound ''Stale'', []), r)
           else if pm_count p = 0 then Some ((NotFound [], []), r)
           else do {
             let sz = pm_count p;
             let es = it_Seek (env_db env) (rds_db r) kSetsDataCF (member_seek_key env key (pv_version p) []);
             if sint sz < sint cnt then do {
               (members, ops) \<leftarrow> SPop_all_loop es 0 sz;
               let (s, r) = redis_Write env (ops @ [Delete kMetaCF (base_meta_key env key)]) r;
               Some ((s, members), r) }
             else do {
               sets_index \<leftarrow> SPop_draws rnd sz (nat (sint cnt)) [] 0;
               (members, ops) \<leftarrow> SPop_loop es 0 sz sets_index 0 cnt;
               if \<not> pm_CheckModifyCount (ucast (- cnt)) p then do {
                 r \<leftarrow> KeyStatisticsDurationGuard us kSets key r;
                 Some ((InvalidArgument ''set size overflow'', members), r) }
               else do {
                 r \<leftarrow> KeyStatisticsDurationGuard us kSets key r;
                 let (s, r) = redis_Write env (ops @ [Put kMetaCF (base_meta_key env key) (pv_data (pm_ModifyCount (ucast (- cnt)) p))]) r;
                 Some ((s, members), r) } } } }
         else Some ((s, []), r) }"

definition ResetSpopCount :: "bytes \<Rightarrow> 's redis \<Rightarrow> (Status \<times> 's redis) option" where
  "ResetSpopCount key r = do {
     (s, store) \<leftarrow> Remove key (rds_spop_counts_store r);
     Some (s, r\<lparr>rds_spop_counts_store := store\<rparr>) }"

definition AddAndGetSpopCount :: "bytes \<Rightarrow> 's redis \<Rightarrow> ((Status \<times> u64) \<times> 's redis) option" where
  "AddAndGetSpopCount key r = do {
     (found, store) \<leftarrow> Lookup key (rds_spop_counts_store r);
     let old_count = (case found of Some n \<Rightarrow> n | None \<Rightarrow> 0);
     (s, store) \<leftarrow> Insert key (old_count + 1) 1 store;
     Some ((OK, old_count + 1), r\<lparr>rds_spop_counts_store := store\<rparr>) }"

text \<open>Different positions: every number of the engine is the seed of the next.\<close>

partial_function (option) SRandmember_unique :: "(u64 \<Rightarrow> u64) \<Rightarrow> i32 \<Rightarrow> nat \<Rightarrow> u64 \<Rightarrow> i32 list \<Rightarrow> i32 list option" where
  "SRandmember_unique engine sz count last_seed targets =
     (if length targets < count then
        let last_seed = engine last_seed; pos = ucast (last_seed mod scast sz)
        in SRandmember_unique engine sz count last_seed (if pos \<in> set targets then targets else targets @ [pos])
      else Some targets)"

fun SRandmember_any :: "(u64 \<Rightarrow> u64) \<Rightarrow> i32 \<Rightarrow> nat \<Rightarrow> u64 \<Rightarrow> i32 list" where
  "SRandmember_any engine sz 0 last_seed = []"
| "SRandmember_any engine sz (Suc count) last_seed =
     (let last_seed = engine last_seed in ucast (last_seed mod scast sz) # SRandmember_any engine sz count last_seed)"

text \<open>One member for every target, which are in ascending order.\<close>

fun SRandmember_loop :: "(bytes \<times> bytes) list \<Rightarrow> i32 \<Rightarrow> i32 \<Rightarrow> i32 list \<Rightarrow> bytes list option" where
  "SRandmember_loop [] cur_index sz targets = Some []"
| "SRandmember_loop ((k, v) # es) cur_index sz targets =
     (if sint cur_index < sint sz \<and> targets \<noteq> [] then do {
        parsed \<leftarrow> ParsedBaseDataKey_decode k;
        let here = takeWhile (\<lambda>t. cur_index = t) targets;
        ms \<leftarrow> SRandmember_loop es (cur_index + 1) sz (dropWhile (\<lambda>t. cur_index = t) targets);
        Some (map (\<lambda>_. bdk_data parsed) here @ ms) }
      else Some [])"

definition SRandmember ::
    "'s env \<Rightarrow> (u64 \<Rightarrow> u64) \<Rightarrow> (bytes list \<Rightarrow> bytes list) \<Rightarrow> u64 \<Rightarrow> u64 \<times> u64 \<Rightarrow> bytes \<Rightarrow> i32 \<Rightarrow> 's redis \<Rightarrow>
      ((Status \<times> bytes list) \<times> 's redis) option" where
  "SRandmember env engine shuffle last_seed us key count r =
     (if count = 0 then Some ((OK, []), r)
      else do {
        m \<leftarrow> get_meta env kSets key key (rds_db r);
        case m of Inl st \<Rightarrow> Some ((st, []), r)
        | Inr (s, meta_value) \<Rightarrow>
            if s = OK then do {
              p \<leftarrow> ParsedBaseMetaValue_parse True meta_value;
              if pv_IsStale (env_now env) p then Some ((NotFound ''Stale'', []), r)
              else if pm_count p = 0 then Some ((NotFound [], []), r)
              else do {
                let sz = pm_count p;
                targets \<leftarrow> (if sint count > 0 then
                    SRandmember_unique engine sz (nat (sint (if sint count \<le> sint sz then count else sz))) last_seed []
                  else if sint count = - (2 ^ 31) then None
                  else Some (SRandmember_any engine sz (nat (- sint count)) last_seed));
                ms \<leftarrow> SRandmember_loop (it_Seek (env_db env) (rds_db r) kSetsDataCF (member_seek_key env key (pv_version p) []))
                  0 sz (sort_key sint targets);
                r \<leftarrow> KeyStatisticsDurationGuard us kSets key r;
                Some ((s, shuffle ms), r) } }
            else Some ((s, []), r) })"

section \<open>Scan, expiry and removal\<close>

fun SScan_loop :: "bytes \<Rightarrow> bytes \<Rightarrow> (bytes \<times> bytes) list \<Rightarrow> i64 \<Rightarrow> (bytes list \<times> (bytes \<times> bytes) list) option" where
  "SScan_loop pre pattern [] rest = Some ([], [])"
| "SScan_loop pre pattern ((k, v) # es) rest =
     (if sint rest > 0 \<and> prefix pre k then do {
        parsed \<leftarrow> ParsedBaseDataKey_decode k;
        let member = bdk_data parsed;
        matches \<leftarrow> StringMatch pattern member False;
        (ms, es) \<leftarrow> SScan_loop pre pattern es (rest - 1);
        Some (if matches then member # ms else ms, es) }
      else Some ([], (k, v) # es))"

text \<open>The scan starts at the seek key of the stored point, which has no reserved suffix.\<close>

definition SScan ::
    "'s env \<Rightarrow> u64 \<times> u64 \<Rightarrow> bytes \<Rightarrow> i64 \<Rightarrow> bytes \<Rightarrow> i64 \<Rightarrow> 's redis \<Rightarrow> ((Status \<times> bytes list \<times> i64) \<times> 's redis) option" where
  "SScan env us key cursor pattern count r =
     (if sint cursor < 0 then Some ((OK, [], 0), r)
      else do {
        m \<leftarrow> get_meta env kSets key key (rds_db r);
        case m of Inl st \<Rightarrow> Some ((st, [], 0), r)
        | Inr (s, meta_value) \<Rightarrow>
            if s = OK then do {
              p \<leftarrow> ParsedBaseMetaValue_parse True meta_value;
              if pv_IsStale (env_now env) p \<or> pm_count p = 0 then Some ((NotFound [], [], 0), r)
              else do {
                let version = pv_version p;
                ((start_point, cursor), r) \<leftarrow> scan_start kSets key pattern cursor r;
                let sub_member = (if isTailWildcard pattern then butlast pattern else []);
                let pre = member_seek_key env key version sub_member;
                (members, es) \<leftarrow> SScan_loop pre pattern
                  (it_Seek (env_db env) (rds_db r) kSetsDataCF (member_seek_key env key version start_point)) count;
                (next_cursor, r) \<leftarrow> (case es of
                    [] \<Rightarrow> Some (0, r)
                  | (k, v) # _ \<Rightarrow>
                      if env_compare env k pre \<le> 0 \<or> prefix pre k then do {
                        let next_cursor = cursor + count;
                        parsed \<leftarrow> ParsedBaseDataKey_decode k;
                        r \<leftarrow> StoreScanNextPoint kSets key pattern next_cursor (bdk_data parsed) r;
                        Some (next_cursor, r) }
                      else Some (0, r));
                r \<leftarrow> KeyStatisticsDurationGuard us kSets key r;
                Some ((OK, members, next_cursor), r) } }
            else Some ((s, [], 0), r) })"

definition SetsExpire :: "'s env \<Rightarrow> bytes \<Rightarrow> i64 \<Rightarrow> bytes \<Rightarrow> 's redis \<Rightarrow> (Status \<times> 's redis) option" where
  "SetsExpire env key ttl_millsec prefetch_meta r = do {
     m \<leftarrow> (if prefetch_meta = [] then get_meta env kSets key key (rds_db r) else Some (Inr (OK, prefetch_meta)));
     case m of Inl st \<Rightarrow> Some (st, r)
     | Inr (s, meta_value) \<Rightarrow>
         if s = OK then do {
           p \<leftarrow> ParsedBaseMetaValue_parse True meta_value;
           if pv_IsStale (env_now env) p then Some (NotFound ''Stale'', r)
           else if pm_count p = 0 then Some (NotFound [], r)
           else do {
             let p = (if sint ttl_millsec > 0 then pv_SetRelativeTimestamp (env_now env) ttl_millsec p
                      else pm_InitialMetaValue (env_now env) p);
             Some (redis_Write env [Put kMetaCF (base_meta_key env key) (pv_data p)] r) } }
         else Some (s, r) }"

definition SetsDel :: "'s env \<Rightarrow> bytes \<Rightarrow> bytes \<Rightarrow> 's redis \<Rightarrow> (Status \<times> 's redis) option" where
  "SetsDel env key prefetch_meta r = do {
     m \<leftarrow> (if prefetch_meta = [] then get_meta env kSets key key (rds_db r) else Some (Inr (OK, prefetch_meta)));
     case m of Inl st \<Rightarrow> Some (st, r)
     | Inr (s, meta_value) \<Rightarrow>
         if s = OK then do {
           p \<leftarrow> ParsedBaseMetaValue_parse True meta_value;
           if pv_IsStale (env_now env) p then Some (NotFound ''Stale'', r)
           else if pm_count p = 0 then Some (NotFound [], r)
           else do {
             let statistic = pm_count p;
             let p = pm_InitialMetaValue (env_now env) p;
             let (s, r) = redis_Write env [Put kMetaCF (base_meta_key env key) (pv_data p)] r;
             r \<leftarrow> UpdateSpecificKeyStatistics kSets key (ucast statistic) r;
             Some (s, r) } }
         else Some (s, r) }"

text \<open>In the next two commands the status of the read is that of an inner variable: they go on whatever it is.\<close>

definition SetsExpireat :: "'s env \<Rightarrow> bytes \<Rightarrow> i64 \<Rightarrow> bytes \<Rightarrow> 's redis \<Rightarrow> (Status \<times> 's redis) option" where
  "SetsExpireat env key timestamp_millsec prefetch_meta r = do {
     m \<leftarrow> (if prefetch_meta = [] then get_meta env kSets key key (rds_db r) else Some (Inr (OK, prefetch_meta)));
     case m of Inl st \<Rightarrow> Some (st, r)
     | Inr (_, meta_value) \<Rightarrow> do {
         p \<leftarrow> ParsedBaseMetaValue_parse True meta_value;
         if pv_IsStale (env_now env) p then Some (NotFound ''Stale'', r)
         else if pm_count p = 0 then Some (NotFound [], r)
         else do {
           let p = (if sint timestamp_millsec > 0 then pv_SetEtime timestamp_millsec p
                    else pm_InitialMetaValue (env_now env) p);
           Some (redis_Write env [Put kMetaCF (base_meta_key env key) (pv_data p)] r) } } }"

definition SetsPersist :: "'s env \<Rightarrow> bytes \<Rightarrow> bytes \<Rightarrow> 's redis \<Rightarrow> (Status \<times> 's redis) option" where
  "SetsPersist env key prefetch_meta r = do {
     m \<leftarrow> (if prefetch_meta = [] then get_meta env kSets key key (rds_db r) else Some (Inr (OK, prefetch_meta)));
     case m of Inl st \<Rightarrow> Some (st, r)
     | Inr (_, meta_value) \<Rightarrow> do {
         p \<leftarrow> ParsedBaseMetaValue_parse True meta_value;
         if pv_IsStale (env_now env) p then Some (NotFound ''Stale'', r)
         else if pm_count p = 0 then Some (NotFound [], r)
         else if pv_etime p = 0 then Some (NotFound ''Not have an associated timeout'', r)
         else Some (redis_Write env [Put kMetaCF (base_meta_key env key) (pv_data (pv_SetEtime 0 p))] r) } }"

definition SetsTTL :: "'s env \<Rightarrow> bytes \<Rightarrow> bytes \<Rightarrow> 's redis \<Rightarrow> (Status \<times> i64 option) option" where
  "SetsTTL env key prefetch_meta r = do {
     m \<leftarrow> (if prefetch_meta = [] then get_meta env kSets key key (rds_db r) else Some (Inr (OK, prefetch_meta)));
     case m of Inl st \<Rightarrow> Some (st, None)
     | Inr (s, meta_value) \<Rightarrow>
         if s = OK then do {
           p \<leftarrow> ParsedBaseMetaValue_parse True meta_value;
           if pv_IsStale (env_now env) p then Some (NotFound ''Stale'', Some (- 2))
           else if pm_count p = 0 then Some (NotFound [], Some (- 2))
           else Some (s, Some (ttl_of_etime (pv_etime p) (env_now env))) }
         else if is_NotFound s then Some (s, Some (- 2))
         else Some (s, None) }"

end
