(* ===== verification/Hashes.thy ===== *)
theory Hashes
  imports Members
begin

text \<open>
  The hash commands of \<open>src/src/storage/src/redis_hashes.cc\<close>, one definition per command and one per loop. A hash is a
  meta value in \<open>kMetaCF\<close> holding a count and a version, and one record per field in \<open>kHashesDataCF\<close> under the key, version
  and field. Output parameters a command leaves unassigned are \<open>None\<close>. Commands that iterate take the clock at the
  beginning and the end of the iteration.
\<close>

datatype FieldValue = FieldValue (fv_field: bytes) (fv_value: bytes)

text \<open>\<open>ValueStatus\<close> without the time to live, which hash commands do not set.\<close>

datatype ValueStatus = ValueStatus (vs_value: bytes) (vs_status: Status)

section \<open>Reading commands\<close>

fun ScanHashesKeyNum_loop :: "u64 \<Rightarrow> (bytes \<times> bytes) list \<Rightarrow> u64 \<times> u64 \<times> u64 \<times> u64 \<Rightarrow> (u64 \<times> u64 \<times> u64 \<times> u64) option" where
  "ScanHashesKeyNum_loop curtime [] acc = Some acc"
| "ScanHashesKeyNum_loop curtime ((k, v) # es) (keys, expires, ttl_sum, invaild_keys) =
     (if \<not> ExpectedMetaValue kHashes v then ScanHashesKeyNum_loop curtime es (keys, expires, ttl_sum, invaild_keys)
      else do {
        p \<leftarrow> ParsedBaseMetaValue_parse False v;
        if pv_IsStale curtime p \<or> pm_count p = 0
        then ScanHashesKeyNum_loop curtime es (keys, expires, ttl_sum, invaild_keys + 1)
        else if \<not> pv_IsPermanentSurvival p
        then ScanHashesKeyNum_loop curtime es (keys + 1, expires + 1, ttl_sum + (pv_etime p - curtime), invaild_keys)
        else ScanHashesKeyNum_loop curtime es (keys + 1, expires, ttl_sum, invaild_keys) })"

definition ScanHashesKeyNum :: "'s env \<Rightarrow> 's redis \<Rightarrow> (Status \<times> KeyInfo) option" where
  "ScanHashesKeyNum env r = do {
     (keys, expires, ttl_sum, invaild_keys) \<leftarrow>
       ScanHashesKeyNum_loop (env_now env) (it_SeekToFirst (env_db env) (rds_db r) kMetaCF) (0, 0, 0, 0);
     Some (OK, \<lparr>ki_keys = keys, ki_expires = expires,
       ki_avg_ttl = (if expires \<noteq> 0 then ttl_sum div expires else 0), ki_invaild_keys = invaild_keys\<rparr>) }"

definition HGet :: "'s env \<Rightarrow> bytes \<Rightarrow> bytes \<Rightarrow> 's redis \<Rightarrow> (Status \<times> bytes) option" where
  "HGet env key field r = do {
     m \<leftarrow> get_meta env kHashes key key (rds_db r);
     case m of Inl st \<Rightarrow> Some (st, [])
     | Inr (s, meta_value) \<Rightarrow>
         if s = OK then do {
           p \<leftarrow> ParsedBaseMetaValue_parse True meta_value;
           if pv_IsStale (env_now env) p then Some (NotFound ''Stale'', [])
           else if pm_count p = 0 then Some (NotFound [], [])
           else do {
             let version = pv_version p;
             let (s, v) = db_Get (env_db env) (rds_db r) kHashesDataCF (member_key env key version field);
             if s = OK then do { v \<leftarrow> ParsedBaseDataValue_StripSuffix v; Some (s, v) }
             else Some (s, v) } }
         else Some (s, []) }"

definition HExists :: "'s env \<Rightarrow> bytes \<Rightarrow> bytes \<Rightarrow> 's redis \<Rightarrow> Status option" where
  "HExists env key field r = map_option fst (HGet env key field r)"

definition HStrlen :: "'s env \<Rightarrow> bytes \<Rightarrow> bytes \<Rightarrow> 's redis \<Rightarrow> (Status \<times> i32) option" where
  "HStrlen env key field r = do {
     (s, v) \<leftarrow> HGet env key field r;
     Some (s, if s = OK then of_nat (length v) else 0) }"

fun HGetall_loop :: "bytes \<Rightarrow> (bytes \<times> bytes) list \<Rightarrow> FieldValue list option" where
  "HGetall_loop pre [] = Some []"
| "HGetall_loop pre ((k, v) # es) =
     (if prefix pre k then do {
        parsed \<leftarrow> ParsedBaseDataKey_decode k;
        fvs \<leftarrow> HGetall_loop pre es;
        Some (FieldValue (bdk_data parsed) (ParsedBaseDataValue_UserValue v) # fvs) }
      else Some [])"

definition HGetall :: "'s env \<Rightarrow> u64 \<times> u64 \<Rightarrow> bytes \<Rightarrow> 's redis \<Rightarrow> ((Status \<times> FieldValue list) \<times> 's redis) option" where
  "HGetall env us key r = do {
     m \<leftarrow> get_meta env kHashes key key (rds_db r);
     case m of Inl st \<Rightarrow> Some ((st, []), r)
     | Inr (s, meta_value) \<Rightarrow>
         if s = OK then do {
           p \<leftarrow> ParsedBaseMetaValue_parse True meta_value;
           if pv_IsStale (env_now env) p then Some ((NotFound ''Stale'', []), r)
           else if pm_count p = 0 then Some ((NotFound [], []), r)
           else do {
             let pre = member_seek_key env key (pv_version p) [];
             fvs \<leftarrow> HGetall_loop pre (it_Seek (env_db env) (rds_db r) kHashesDataCF pre);
             r \<leftarrow> KeyStatisticsDurationGuard us kHashes key r;
             Some ((s, fvs), r) } }
         else Some ((s, []), r) }"

definition HGetallWithTTL ::
    "'s env \<Rightarrow> u64 \<times> u64 \<Rightarrow> bytes \<Rightarrow> 's redis \<Rightarrow> ((Status \<times> FieldValue list \<times> i64 option) \<times> 's redis) option" where
  "HGetallWithTTL env us key r = do {
     m \<leftarrow> get_meta env kHashes key key (rds_db r);
     case m of Inl st \<Rightarrow> Some ((st, [], None), r)
     | Inr (s, meta_value) \<Rightarrow>
         if s = OK then do {
           p \<leftarrow> ParsedBaseMetaValue_parse True meta_value;
           if pm_count p = 0 then Some ((NotFound [], [], None), r)
           else if pv_IsStale (env_now env) p then Some ((NotFound ''Stale'', [], None), r)
           else do {
             let ttl_millsec = ttl_of_etime (pv_etime p) (env_now env);
             let pre = member_seek_key env key (pv_version p) [];
             fvs \<leftarrow> HGetall_loop pre (it_Seek (env_db env) (rds_db r) kHashesDataCF pre);
             r \<leftarrow> KeyStatisticsDurationGuard us kHashes key r;
             Some ((s, fvs, Some ttl_millsec), r) } }
         else Some ((s, [], None), r) }"

fun HKeys_loop :: "bytes \<Rightarrow> (bytes \<times> bytes) list \<Rightarrow> bytes list option" where
  "HKeys_loop pre [] = Some []"
| "HKeys_loop pre ((k, v) # es) =
     (if prefix pre k then do {
        parsed \<leftarrow> ParsedBaseDataKey_decode k;
        fs \<leftarrow> HKeys_loop pre es;
        Some (bdk_data parsed # fs) }
      else Some [])"

definition HKeys :: "'s env \<Rightarrow> u64 \<times> u64 \<Rightarrow> bytes \<Rightarrow> 's redis \<Rightarrow> ((Status \<times> bytes list) \<times> 's redis) option" where
  "HKeys env us key r = do {
     m \<leftarrow> get_meta env kHashes key key (rds_db r);
     case m of Inl st \<Rightarrow> Some ((st, []), r)
     | Inr (s, meta_value) \<Rightarrow>
         if s = OK then do {
           p \<leftarrow> ParsedBaseMetaValue_parse True meta_value;
           if pv_IsStale (env_now env) p then Some ((NotFound ''Stale'', []), r)
           else if pm_count p = 0 then Some ((NotFound [], []), r)
           else do {
             let pre = member_seek_key env key (pv_version p) [];
             fs \<leftarrow> HKeys_loop pre (it_Seek (env_db env) (rds_db r) kHashesDataCF pre);
             r \<leftarrow> KeyStatisticsDurationGuard us kHashes key r;
             Some ((s, fs), r) } }
         else Some ((s, []), r) }"

fun HVals_loop :: "bytes \<Rightarrow> (bytes \<times> bytes) list \<Rightarrow> bytes list" where
  "HVals_loop pre [] = []"
| "HVals_loop pre ((k, v) # es) =
     (if prefix pre k then ParsedBaseDataValue_UserValue v # HVals_loop pre es else [])"

definition HVals :: "'s env \<Rightarrow> u64 \<times> u64 \<Rightarrow> bytes \<Rightarrow> 's redis \<Rightarrow> ((Status \<times> bytes list) \<times> 's redis) option" where
  "HVals env us key r = do {
     m \<leftarrow> get_meta env kHashes key key (rds_db r);
     case m of Inl st \<Rightarrow> Some ((st, []), r)
     | Inr (s, meta_value) \<Rightarrow>
         if s = OK then do {
           p \<leftarrow> ParsedBaseMetaValue_parse True meta_value;
           if pv_IsStale (env_now env) p then Some ((NotFound ''Stale'', []), r)
           else if pm_count p = 0 then Some ((NotFound [], []), r)
           else do {
             let pre = member_seek_key env key (pv_version p) [];
             let vals = HVals_loop pre (it_Seek (env_db env) (rds_db r) kHashesDataCF pre);
             r \<leftarrow> KeyStatisticsDurationGuard us kHashes key r;
             Some ((s, vals), r) } }
         else Some ((s, []), r) }"

definition HLen :: "'s env \<Rightarrow> bytes \<Rightarrow> bytes \<Rightarrow> 's redis \<Rightarrow> (Status \<times> i32) option" where
  "HLen env key prefetch_meta r = do {
     m \<leftarrow> (if prefetch_meta = [] then get_meta env kHashes key key (rds_db r) else Some (Inr (OK, prefetch_meta)));
     case m of Inl st \<Rightarrow> Some (st, 0)
     | Inr (s, meta_value) \<Rightarrow>
         if s = OK then do {
           p \<leftarrow> ParsedBaseMetaValue_parse True meta_value;
           if pv_IsStale (env_now env) p then Some (NotFound ''Stale'', 0)
           else if pm_count p = 0 then Some (NotFound [], 0)
           else Some (s, pm_count p) }
         else Some (s, 0) }"

fun HMGet_loop :: "'s env \<Rightarrow> bytes \<Rightarrow> u64 \<Rightarrow> 's \<Rightarrow> bytes list \<Rightarrow> (Status + ValueStatus list) option" where
  "HMGet_loop env key version db [] = Some (Inr [])"
| "HMGet_loop env key version db (field # fs) =
     (let (s, v) = db_Get (env_db env) db kHashesDataCF (member_key env key version field)
      in if s = OK then do {
           v \<leftarrow> ParsedBaseDataValue_StripSuffix v;
           rest \<leftarrow> HMGet_loop env key version db fs;
           Some (map_sum (\<lambda>st. st) (\<lambda>vss. ValueStatus v OK # vss) rest) }
         else if is_NotFound s then do {
           rest \<leftarrow> HMGet_loop env key version db fs;
           Some (map_sum (\<lambda>st. st) (\<lambda>vss. ValueStatus [] (NotFound []) # vss) rest) }
         else Some (Inl s))"

definition HMGet :: "'s env \<Rightarrow> bytes \<Rightarrow> bytes list \<Rightarrow> 's redis \<Rightarrow> (Status \<times> ValueStatus list) option" where
  "HMGet env key fs r = do {
     m \<leftarrow> get_meta env kHashes key key (rds_db r);
     case m of Inl st \<Rightarrow> Some (st, [])
     | Inr (s, meta_value) \<Rightarrow>
         if s = OK then do {
           p \<leftarrow> ParsedBaseMetaValue_parse True meta_value;
           let is_stale = pv_IsStale (env_now env) p;
           if is_stale \<or> pm_count p = 0
           then Some (NotFound (if is_stale then ''Stale'' else []), map (\<lambda>_. ValueStatus [] (NotFound [])) fs)
           else do {
             res \<leftarrow> HMGet_loop env key (pv_version p) (rds_db r) fs;
             case res of Inl st \<Rightarrow> Some (st, []) | Inr vss \<Rightarrow> Some (OK, vss) } }
         else if is_NotFound s then Some (s, map (\<lambda>_. ValueStatus [] (NotFound [])) fs)
         else Some (s, []) }"

section \<open>Writing commands\<close>

fun HDel_loop :: "'s env \<Rightarrow> bytes \<Rightarrow> u64 \<Rightarrow> 's \<Rightarrow> bytes list \<Rightarrow> i32 \<Rightarrow> WriteOp list \<Rightarrow> Status + i32 \<times> WriteOp list" where
  "HDel_loop env key version db [] del_cnt batch = Inr (del_cnt, batch)"
| "HDel_loop env key version db (field # fs) del_cnt batch =
     (let k = member_key env key version field;
          s = fst (db_Get (env_db env) db kHashesDataCF k)
      in if s = OK then HDel_loop env key version db fs (del_cnt + 1) (batch @ [Delete kHashesDataCF k])
         else if is_NotFound s then HDel_loop env key version db fs del_cnt batch
         else Inl s)"

definition HDel :: "'s env \<Rightarrow> bytes \<Rightarrow> bytes list \<Rightarrow> 's redis \<Rightarrow> ((Status \<times> i32 option) \<times> 's redis) option" where
  "HDel env key fs r = do {
     let filtered_fields = first_occurrences (\<lambda>f. f) fs [];
     m \<leftarrow> get_meta env kHashes key key (rds_db r);
     case m of Inl st \<Rightarrow> Some ((st, None), r)
     | Inr (s, meta_value) \<Rightarrow>
         if s = OK then do {
           p \<leftarrow> ParsedBaseMetaValue_parse True meta_value;
           if pv_IsStale (env_now env) p \<or> pm_count p = 0 then Some ((OK, Some 0), r)
           else case HDel_loop env key (pv_version p) (rds_db r) filtered_fields 0 [] of
             Inl st \<Rightarrow> Some ((st, None), r)
           | Inr (del_cnt, batch) \<Rightarrow>
               if \<not> pm_CheckModifyCount (- del_cnt) p
               then Some ((InvalidArgument ''hash size overflow'', Some del_cnt), r)
               else do {
                 let p = pm_ModifyCount (- del_cnt) p;
                 let (s, r) = redis_Write env (batch @ [Put kMetaCF (base_meta_key env key) (pv_data p)]) r;
                 r \<leftarrow> UpdateSpecificKeyStatistics kHashes key (ucast del_cnt) r;
                 Some ((s, Some del_cnt), r) } }
         else if is_NotFound s then Some ((OK, Some 0), r)
         else Some ((s, None), r) }"

text \<open>The last lines of the writing commands.\<close>

definition hash_commit ::
    "'s env \<Rightarrow> bytes \<Rightarrow> WriteOp list \<Rightarrow> u32 \<Rightarrow> 'a \<Rightarrow> 's redis \<Rightarrow> ((Status \<times> 'a) \<times> 's redis) option" where
  "hash_commit env key batch statistic ret r = do {
     let (s, r) = redis_Write env batch r;
     r \<leftarrow> UpdateSpecificKeyStatistics kHashes key (ucast statistic) r;
     Some ((s, ret), r) }"

definition HSet :: "'s env \<Rightarrow> bytes \<Rightarrow> bytes \<Rightarrow> bytes \<Rightarrow> 's redis \<Rightarrow> ((Status \<times> i32 option) \<times> 's redis) option" where
  "HSet env key field v r = do {
     m \<leftarrow> get_meta env kHashes key key (rds_db r);
     case m of Inl st \<Rightarrow> Some ((st, None), r)
     | Inr (s, meta_value) \<Rightarrow>
         if s = OK then do {
           p \<leftarrow> ParsedBaseMetaValue_parse True meta_value;
           if pv_IsStale (env_now env) p \<or> pm_count p = 0 then do {
             let p = pm_SetCount 1 (pm_InitialMetaValue (env_now env) p);
             hash_commit env key [Put kMetaCF (base_meta_key env key) (pv_data p),
               Put kHashesDataCF (member_key env key (pv_version p) field) (i_val env v)] 0 (Some 1) r }
           else do {
             let k = member_key env key (pv_version p) field;
             let (s, data_value) = db_Get (env_db env) (rds_db r) kHashesDataCF k;
             if s = OK then
               (if data_value = v then Some ((OK, Some 0), r)
                else hash_commit env key [Put kHashesDataCF k (i_val env v)] 1 (Some 0) r)
             else if is_NotFound s then
               (if \<not> pm_CheckModifyCount 1 p then Some ((InvalidArgument ''hash size overflow'', None), r)
                else hash_commit env key [Put kMetaCF (base_meta_key env key) (pv_data (pm_ModifyCount 1 p)),
                       Put kHashesDataCF k (i_val env v)] 0 (Some 1) r)
             else Some ((s, None), r) } }
         else if is_NotFound s then do {
           let (version, meta) = new_base_meta env kHashes 1;
           hash_commit env key [Put kMetaCF (base_meta_key env key) meta,
             Put kHashesDataCF (member_key env key version field) (i_val env v)] 0 (Some 1) r }
         else Some ((s, None), r) }"

definition HSetnx :: "'s env \<Rightarrow> bytes \<Rightarrow> bytes \<Rightarrow> bytes \<Rightarrow> 's redis \<Rightarrow> ((Status \<times> i32 option) \<times> 's redis) option" where
  "HSetnx env key field v r = do {
     m \<leftarrow> get_meta env kHashes key key (rds_db r);
     case m of Inl st \<Rightarrow> Some ((st, None), r)
     | Inr (s, meta_value) \<Rightarrow>
         if s = OK then do {
           p \<leftarrow> ParsedBaseMetaValue_parse True meta_value;
           if pv_IsStale (env_now env) p \<or> pm_count p = 0 then do {
             let p = pm_SetCount 1 (pm_InitialMetaValue (env_now env) p);
             let (s, r) = redis_Write env [Put kMetaCF (base_meta_key env key) (pv_data p),
               Put kHashesDataCF (member_key env key (pv_version p) field) (i_val env v)] r;
             Some ((s, Some 1), r) }
           else do {
             let k = member_key env key (pv_version p) field;
             let s = fst (db_Get (env_db env) (rds_db r) kHashesDataCF k);
             if s = OK then let (s, r) = redis_Write env [] r in Some ((s, Some 0), r)
             else if is_NotFound s then
               (if \<not> pm_CheckModifyCount 1 p then Some ((InvalidArgument ''hash size overflow'', None), r)
                else let (s, r) = redis_Write env [Put kMetaCF (base_meta_key env key) (pv_data (pm_ModifyCount 1 p)),
                       Put kHashesDataCF k (i_val env v)] r in Some ((s, Some 1), r))
             else Some ((s, None), r) } }
         else if is_NotFound s then do {
           let (version, meta) = new_base_meta env kHashes 1;
           let (s, r) = redis_Write env [Put kMetaCF (base_meta_key env key) meta,
             Put kHashesDataCF (member_key env key version field) (i_val env v)] r;
           Some ((s, Some 1), r) }
         else Some ((s, None), r) }"

text \<open>The writes for the given pairs, in order.\<close>

definition put_fields :: "'s env \<Rightarrow> bytes \<Rightarrow> u64 \<Rightarrow> FieldValue list \<Rightarrow> WriteOp list" where
  "put_fields env key version fvs =
     map (\<lambda>fv. Put kHashesDataCF (member_key env key version (fv_field fv)) (i_val env (fv_value fv))) fvs"

fun HMSet_loop ::
    "'s env \<Rightarrow> bytes \<Rightarrow> u64 \<Rightarrow> 's \<Rightarrow> FieldValue list \<Rightarrow> i32 \<Rightarrow> u32 \<Rightarrow> WriteOp list \<Rightarrow> Status + i32 \<times> u32 \<times> WriteOp list" where
  "HMSet_loop env key version db [] count statistic batch = Inr (count, statistic, batch)"
| "HMSet_loop env key version db (fv # fvs) count statistic batch =
     (let k = member_key env key version (fv_field fv);
          s = fst (db_Get (env_db env) db kHashesDataCF k);
          batch = batch @ [Put kHashesDataCF k (i_val env (fv_value fv))]
      in if s = OK then HMSet_loop env key version db fvs count (statistic + 1) batch
         else if is_NotFound s then HMSet_loop env key version db fvs (count + 1) statistic batch
         else Inl s)"

text \<open>A status that is neither \<open>OK\<close> nor \<open>NotFound\<close> is not returned: the empty batch is written and its status returned.\<close>

definition HMSet :: "'s env \<Rightarrow> bytes \<Rightarrow> FieldValue list \<Rightarrow> 's redis \<Rightarrow> ((Status \<times> unit) \<times> 's redis) option" where
  "HMSet env key fvs r = do {
     let filtered_fvs = first_occurrences fv_field (rev fvs) [];
     m \<leftarrow> get_meta env kHashes key key (rds_db r);
     case m of Inl st \<Rightarrow> Some ((st, ()), r)
     | Inr (s, meta_value) \<Rightarrow>
         if s = OK then do {
           p \<leftarrow> ParsedBaseMetaValue_parse True meta_value;
           if pv_IsStale (env_now env) p \<or> pm_count p = 0 then do {
             let p = pm_InitialMetaValue (env_now env) p;
             if \<not> pm_check_set_count (of_nat (length filtered_fvs))
             then Some ((InvalidArgument ''hash size overflow'', ()), r)
             else do {
               let p = pm_SetCount (of_nat (length filtered_fvs)) p;
               hash_commit env key (Put kMetaCF (base_meta_key env key) (pv_data p) #
                 put_fields env key (pv_version p) filtered_fvs) 0 () r } }
           else case HMSet_loop env key (pv_version p) (rds_db r) filtered_fvs 0 0 [] of
             Inl st \<Rightarrow> Some ((st, ()), r)
           | Inr (count, statistic, batch) \<Rightarrow>
               if \<not> pm_CheckModifyCount count p then Some ((InvalidArgument ''hash size overflow'', ()), r)
               else hash_commit env key (batch @ [Put kMetaCF (base_meta_key env key) (pv_data (pm_ModifyCount count p))])
                      statistic () r }
         else if is_NotFound s then do {
           let (version, meta) = new_base_meta env kHashes (of_nat (length filtered_fvs));
           hash_commit env key (Put kMetaCF (base_meta_key env key) meta # put_fields env key version filtered_fvs) 0 () r }
         else hash_commit env key [] 0 () r }"

text \<open>\<open>char value_buf[32] = {0}; Int64ToStr(value_buf, 32, value); BaseDataValue internal_value(value_buf)\<close>.\<close>

definition int_val :: "'s env \<Rightarrow> i64 \<Rightarrow> bytes" where
  "int_val env v = i_val env (takeWhile (\<lambda>c. c \<noteq> 0) (fst (Int64ToStr (replicate 32 0) 32 v)))"

definition HIncrby :: "'s env \<Rightarrow> bytes \<Rightarrow> bytes \<Rightarrow> i64 \<Rightarrow> 's redis \<Rightarrow> ((Status \<times> i64) \<times> 's redis) option" where
  "HIncrby env key field v r = do {
     m \<leftarrow> get_meta env kHashes key key (rds_db r);
     case m of Inl st \<Rightarrow> Some ((st, 0), r)
     | Inr (s, meta_value) \<Rightarrow>
         if s = OK then do {
           p \<leftarrow> ParsedBaseMetaValue_parse True meta_value;
           if pv_IsStale (env_now env) p \<or> pm_count p = 0 then do {
             let p = pv_SetEtime 0 (pm_SetCount 1 (pm_UpdateVersion (env_now env) p));
             hash_commit env key [Put kMetaCF (base_meta_key env key) (pv_data p),
               Put kHashesDataCF (member_key env key (pv_version p) field) (int_val env v)] 0 v r }
           else do {
             let k = member_key env key (pv_version p) field;
             let (s, old_value) = db_Get (env_db env) (rds_db r) kHashesDataCF k;
             if s = OK then do {
               old_value \<leftarrow> ParsedBaseDataValue_StripSuffix old_value;
               case StrToInt64 old_value of
                 None \<Rightarrow> Some ((Corruption ''hash value is not an integer'', 0), r)
               | Some ival \<Rightarrow>
                   if sint v \<ge> 0 \<and> sint (2 ^ 63 - 1 - v) < sint ival \<or> sint v < 0 \<and> sint (- (2 ^ 63) - v) > sint ival
                   then Some ((InvalidArgument ''Overflow'', 0), r)
                   else hash_commit env key [Put kHashesDataCF k (int_val env (ival + v))] 1 (ival + v) r }
             else if is_NotFound s then
               (if \<not> pm_CheckModifyCount 1 p then Some ((InvalidArgument ''hash size overflow'', 0), r)
                else hash_commit env key [Put kMetaCF (base_meta_key env key) (pv_data (pm_ModifyCount 1 p)),
                       Put kHashesDataCF k (int_val env v)] 0 v r)
             else Some ((s, 0), r) } }
         else if is_NotFound s then do {
           let (version, meta) = new_base_meta env kHashes 1;
           hash_commit env key [Put kMetaCF (base_meta_key env key) meta,
             Put kHashesDataCF (member_key env key version field) (int_val env v)] 0 v r }
         else Some ((s, 0), r) }"

definition HIncrbyfloat ::
    "'f long_double \<Rightarrow> 's env \<Rightarrow> bytes \<Rightarrow> bytes \<Rightarrow> bytes \<Rightarrow> 's redis \<Rightarrow> ((Status \<times> bytes) \<times> 's redis) option" where
  "HIncrbyfloat ld env key field increment r =
     (case StrToLongDouble ld increment of
        None \<Rightarrow> Some ((Corruption ''value is not a vaild float'', []), r)
      | Some long_double_by \<Rightarrow> do {
     m \<leftarrow> get_meta env kHashes key key (rds_db r);
     case m of Inl st \<Rightarrow> Some ((st, []), r)
     | Inr (s, meta_value) \<Rightarrow>
         if s = OK then do {
           p \<leftarrow> ParsedBaseMetaValue_parse True meta_value;
           if pv_IsStale (env_now env) p \<or> pm_count p = 0 then do {
             let p = pv_SetEtime 0 (pm_SetCount 1 (pm_UpdateVersion (env_now env) p));
             printed \<leftarrow> LongDoubleToStr ld long_double_by;
             let new_value = (case printed of Some t \<Rightarrow> t | None \<Rightarrow> []);
             hash_commit env key [Put kMetaCF (base_meta_key env key) (pv_data p),
               Put kHashesDataCF (member_key env key (pv_version p) field) (i_val env new_value)] 0 new_value r }
           else do {
             let k = member_key env key (pv_version p) field;
             let (s, old_value_str) = db_Get (env_db env) (rds_db r) kHashesDataCF k;
             if s = OK then do {
               old_value_str \<leftarrow> ParsedBaseDataValue_StripSuffix old_value_str;
               case StrToLongDouble ld old_value_str of
                 None \<Rightarrow> Some ((Corruption ''value is not a vaild float'', []), r)
               | Some old_value \<Rightarrow> do {
                   printed \<leftarrow> LongDoubleToStr ld (ld_add ld old_value long_double_by);
                   case printed of
                     None \<Rightarrow> Some ((InvalidArgument ''Overflow'', []), r)
                   | Some new_value \<Rightarrow> hash_commit env key [Put kHashesDataCF k (i_val env new_value)] 1 new_value r } }
             else if is_NotFound s then do {
               printed \<leftarrow> LongDoubleToStr ld long_double_by;
               let new_value = (case printed of Some t \<Rightarrow> t | None \<Rightarrow> []);
               if \<not> pm_CheckModifyCount 1 p then Some ((InvalidArgument ''hash size overflow'', new_value), r)
               else hash_commit env key [Put kMetaCF (base_meta_key env key) (pv_data (pm_ModifyCount 1 p)),
                      Put kHashesDataCF k (i_val env new_value)] 0 new_value r }
             else Some ((s, []), r) } }
         else if is_NotFound s then do {
           let (version, meta) = new_base_meta env kHashes 1;
           printed \<leftarrow> LongDoubleToStr ld long_double_by;
           let new_value = (case printed of Some t \<Rightarrow> t | None \<Rightarrow> []);
           hash_commit env key [Put kMetaCF (base_meta_key env key) meta,
             Put kHashesDataCF (member_key env key version field) (i_val env new_value)] 0 new_value r }
         else Some ((s, []), r) })"

section \<open>Scans\<close>

text \<open>The matching fields among the next \<open>rest\<close> ones, and the entries the iterator still has in front of it.\<close>

fun HScan_loop :: "bytes \<Rightarrow> bytes \<Rightarrow> (bytes \<times> bytes) list \<Rightarrow> i64 \<Rightarrow> (FieldValue list \<times> (bytes \<times> bytes) list) option" where
  "HScan_loop pre pattern [] rest = Some ([], [])"
| "HScan_loop pre pattern ((k, v) # es) rest =
     (if sint rest > 0 \<and> prefix pre k then do {
        parsed \<leftarrow> ParsedBaseDataKey_decode k;
        let field = bdk_data parsed;
        matches \<leftarrow> StringMatch pattern field False;
        (fvs, es) \<leftarrow> HScan_loop pre pattern es (rest - 1);
        Some (if matches then FieldValue field (ParsedBaseDataValue_UserValue v) # fvs else fvs, es) }
      else Some ([], (k, v) # es))"

definition HScan ::
    "'s env \<Rightarrow> u64 \<times> u64 \<Rightarrow> bytes \<Rightarrow> i64 \<Rightarrow> bytes \<Rightarrow> i64 \<Rightarrow> 's redis \<Rightarrow> ((Status \<times> FieldValue list \<times> i64) \<times> 's redis) option" where
  "HScan env us key cursor pattern count r =
     (if sint cursor < 0 then Some ((OK, [], 0), r)
      else do {
        m \<leftarrow> get_meta env kHashes key key (rds_db r);
        case m of Inl st \<Rightarrow> Some ((st, [], 0), r)
        | Inr (s, meta_value) \<Rightarrow>
            if s = OK then do {
              p \<leftarrow> ParsedBaseMetaValue_parse True meta_value;
              if pv_IsStale (env_now env) p \<or> pm_count p = 0 then Some ((NotFound [], [], 0), r)
              else do {
                let version = pv_version p;
                ((start_point, cursor), r) \<leftarrow> scan_start kHashes key pattern cursor r;
                let sub_field = (if isTailWildcard pattern then butlast pattern else []);
                let pre = member_seek_key env key version sub_field;
                (field_values, es) \<leftarrow> HScan_loop pre pattern
                  (it_Seek (env_db env) (rds_db r) kHashesDataCF (member_key env key version start_point)) count;
                (next_cursor, r) \<leftarrow> (case es of
                    [] \<Rightarrow> Some (0, r)
                  | (k, v) # _ \<Rightarrow>
                      if env_compare env k pre \<le> 0 \<or> prefix pre k then do {
                        let next_cursor = cursor + count;
                        parsed \<leftarrow> ParsedBaseDataKey_decode k;
                        r \<leftarrow> StoreScanNextPoint kHashes key pattern next_cursor (bdk_data parsed) r;
                        Some (next_cursor, r) }
                      else Some (0, r));
                r \<leftarrow> KeyStatisticsDurationGuard us kHashes key r;
                Some ((OK, field_values, next_cursor), r) } }
            else Some ((s, [], 0), r) })"

definition HScanx ::
    "'s env \<Rightarrow> u64 \<times> u64 \<Rightarrow> bytes \<Rightarrow> bytes \<Rightarrow> bytes \<Rightarrow> i64 \<Rightarrow> 's redis \<Rightarrow> ((Status \<times> FieldValue list \<times> bytes) \<times> 's redis) option" where
  "HScanx env us key start_field pattern count r = do {
     m \<leftarrow> get_meta env kHashes key key (rds_db r);
     case m of Inl st \<Rightarrow> Some ((st, [], []), r)
     | Inr (s, meta_value) \<Rightarrow>
         if s = OK then do {
           p \<leftarrow> ParsedBaseMetaValue_parse True meta_value;
           if pv_IsStale (env_now env) p \<or> pm_count p = 0 then Some ((NotFound [], [], []), r)
           else do {
             let version = pv_version p;
             let pre = member_seek_key env key version [];
             (field_values, es) \<leftarrow> HScan_loop pre pattern
               (it_Seek (env_db env) (rds_db r) kHashesDataCF (member_key env key version start_field)) count;
             next \<leftarrow> iter_field pre es;
             r \<leftarrow> KeyStatisticsDurationGuard us kHashes key r;
             Some ((OK, field_values, case next of Some f \<Rightarrow> f | None \<Rightarrow> []), r) } }
         else Some ((s, [], []), r) }"

text \<open>The loop of the range scans; \<open>beyond\<close> tells whether a field lies behind the end of the range.\<close>

fun PKHScan_loop ::
    "bytes \<Rightarrow> (bytes \<Rightarrow> bool) \<Rightarrow> bytes \<Rightarrow> (bytes \<times> bytes) list \<Rightarrow> i64 \<Rightarrow> (FieldValue list \<times> (bytes \<times> bytes) list) option" where
  "PKHScan_loop pre beyond pattern [] remain = Some ([], [])"
| "PKHScan_loop pre beyond pattern ((k, v) # es) remain =
     (if sint remain > 0 \<and> prefix pre k then do {
        parsed \<leftarrow> ParsedBaseDataKey_decode k;
        let field = bdk_data parsed;
        if beyond field then Some ([], (k, v) # es)
        else do {
          matches \<leftarrow> StringMatch pattern field False;
          (fvs, es) \<leftarrow> PKHScan_loop pre beyond pattern es (remain - 1);
          Some (if matches then FieldValue field (ParsedBaseDataValue_UserValue v) # fvs else fvs, es) } }
      else Some ([], (k, v) # es))"

definition PKHScanRange ::
    "'s env \<Rightarrow> u64 \<times> u64 \<Rightarrow> bytes \<Rightarrow> bytes \<Rightarrow> bytes \<Rightarrow> bytes \<Rightarrow> i32 \<Rightarrow> 's redis \<Rightarrow> ((Status \<times> FieldValue list \<times> bytes) \<times> 's redis) option" where
  "PKHScanRange env us key field_start field_end pattern limit r =
     (let start_no_limit = env_compare env field_start [] = 0;
          end_no_limit = (field_end = [])
      in if \<not> start_no_limit \<and> \<not> end_no_limit \<and> env_compare env field_start field_end > 0
         then Some ((InvalidArgument ''error in given range'', [], []), r)
         else do {
           m \<leftarrow> get_meta env kHashes key key (rds_db r);
           case m of Inl st \<Rightarrow> Some ((st, [], []), r)
           | Inr (s, meta_value) \<Rightarrow>
               if s = OK then do {
                 p \<leftarrow> ParsedBaseMetaValue_parse True meta_value;
                 if pv_IsStale (env_now env) p \<or> pm_count p = 0 then Some ((NotFound [], [], []), r)
                 else do {
                   let version = pv_version p;
                   let pre = member_seek_key env key version [];
                   (field_values, es) \<leftarrow> PKHScan_loop pre (\<lambda>field. \<not> end_no_limit \<and> field > field_end) pattern
                     (it_Seek (env_db env) (rds_db r) kHashesDataCF
                        (if start_no_limit then pre else member_key env key version field_start)) (scast limit);
                   next \<leftarrow> iter_field pre es;
                   r \<leftarrow> KeyStatisticsDurationGuard us kHashes key r;
                   Some ((OK, field_values, case next of
                       Some f \<Rightarrow> if end_no_limit \<or> env_compare env f field_end \<le> 0 then f else []
                     | None \<Rightarrow> []), r) } }
               else Some ((s, [], []), r) })"

definition PKHRScanRange ::
    "'s env \<Rightarrow> u64 \<times> u64 \<Rightarrow> bytes \<Rightarrow> bytes \<Rightarrow> bytes \<Rightarrow> bytes \<Rightarrow> i32 \<Rightarrow> 's redis \<Rightarrow> ((Status \<times> FieldValue list \<times> bytes) \<times> 's redis) option" where
  "PKHRScanRange env us key field_start field_end pattern limit r =
     (let start_no_limit = env_compare env field_start [] = 0;
          end_no_limit = (field_end = [])
      in if \<not> start_no_limit \<and> \<not> end_no_limit \<and> env_compare env field_start field_end < 0
         then Some ((InvalidArgument ''error in given range'', [], []), r)
         else do {
           m \<leftarrow> get_meta env kHashes key key (rds_db r);
           case m of Inl st \<Rightarrow> Some ((st, [], []), r)
           | Inr (s, meta_value) \<Rightarrow>
               if s = OK then do {
                 p \<leftarrow> ParsedBaseMetaValue_parse True meta_value;
                 if pv_IsStale (env_now env) p \<or> pm_count p = 0 then Some ((NotFound [], [], []), r)
                 else do {
                   let version = pv_version p;
                   let start_key_version = (if start_no_limit then version + 1 else version);
                   let start_key_field = (if start_no_limit then [] else field_start);
                   let pre = member_seek_key env key version [];
                   (field_values, es) \<leftarrow> PKHScan_loop pre (\<lambda>field. \<not> end_no_limit \<and> field < field_end) pattern
                     (it_SeekForPrev (env_db env) (rds_db r) kHashesDataCF
                        (member_key env key start_key_version start_key_field)) (scast limit);
                   next \<leftarrow> iter_field pre es;
                   r \<leftarrow> KeyStatisticsDurationGuard us kHashes key r;
                   Some ((OK, field_values, case next of
                       Some f \<Rightarrow> if end_no_limit \<or> env_compare env f field_end \<ge> 0 then f else []
                     | None \<Rightarrow> []), r) } }
               else Some ((s, [], []), r) })"

section \<open>Expiry and removal\<close>

definition HashesExpire :: "'s env \<Rightarrow> bytes \<Rightarrow> i64 \<Rightarrow> bytes \<Rightarrow> 's redis \<Rightarrow> (Status \<times> 's redis) option" where
  "HashesExpire env key ttl_millsec prefetch_meta r = do {
     m \<leftarrow> (if prefetch_meta = [] then get_meta env kHashes key key (rds_db r) else Some (Inr (OK, prefetch_meta)));
     case m of Inl st \<Rightarrow> Some (st, r)
     | Inr (s, meta_value) \<Rightarrow>
         if s = OK then do {
           p \<leftarrow> ParsedBaseMetaValue_parse True meta_value;
           if pv_IsStale (env_now env) p then Some (NotFound ''Stale'', r)
           else if pm_count p = 0 then Some (NotFound [], r)
           else do {
             let p = (if sint ttl_millsec > 0 then pv_SetRelativeTimestamp (env_now env) ttl_millsec p
                      else pm_InitialMetaValue (env_now env) p);
             Some (redis_Write env [Put kMetaCF (base_meta_key env key) (pv_data p)] r) } }
         else Some (s, r) }"

definition HashesDel :: "'s env \<Rightarrow> bytes \<Rightarrow> bytes \<Rightarrow> 's redis \<Rightarrow> (Status \<times> 's redis) option" where
  "HashesDel env key prefetch_meta r = do {
     m \<leftarrow> (if prefetch_meta = [] then get_meta env kHashes key key (rds_db r) else Some (Inr (OK, prefetch_meta)));
     case m of Inl st \<Rightarrow> Some (st, r)
     | Inr (s, meta_value) \<Rightarrow>
         if s = OK then do {
           p \<leftarrow> ParsedBaseMetaValue_parse True meta_value;
           if pv_IsStale (env_now env) p then Some (NotFound ''Stale'', r)
           else if pm_count p = 0 then Some (NotFound [], r)
           else do {
             let statistic = pm_count p;
             let p = pm_InitialMetaValue (env_now env) p;
             let (s, r) = redis_Write env [Put kMetaCF (base_meta_key env key) (pv_data p)] r;
             r \<leftarrow> UpdateSpecificKeyStatistics kHashes key (ucast statistic) r;
             Some (s, r) } }
         else Some (s, r) }"

definition HashesExpireat :: "'s env \<Rightarrow> bytes \<Rightarrow> i64 \<Rightarrow> bytes \<Rightarrow> 's redis \<Rightarrow> (Status \<times> 's redis) option" where
  "HashesExpireat env key timestamp_millsec prefetch_meta r = do {
     m \<leftarrow> (if prefetch_meta = [] then get_meta env kHashes key key (rds_db r) else Some (Inr (OK, prefetch_meta)));
     case m of Inl st \<Rightarrow> Some (st, r)
     | Inr (s, meta_value) \<Rightarrow>
         if s = OK then do {
           p \<leftarrow> ParsedBaseMetaValue_parse True meta_value;
           if pv_IsStale (env_now env) p then Some (NotFound ''Stale'', r)
           else if pm_count p = 0 then Some (NotFound [], r)
           else do {
             let p = (if sint timestamp_millsec > 0 then pv_SetEtime timestamp_millsec p
                      else pm_InitialMetaValue (env_now env) p);
             Some (redis_Write env [Put kMetaCF (base_meta_key env key) (pv_data p)] r) } }
         else Some (s, r) }"

definition HashesPersist :: "'s env \<Rightarrow> bytes \<Rightarrow> bytes \<Rightarrow> 's redis \<Rightarrow> (Status \<times> 's redis) option" where
  "HashesPersist env key prefetch_meta r = do {
     m \<leftarrow> (if prefetch_meta = [] then get_meta env kHashes key key (rds_db r) else Some (Inr (OK, prefetch_meta)));
     case m of Inl st \<Rightarrow> Some (st, r)
     | Inr (s, meta_value) \<Rightarrow>
         if s = OK then do {
           p \<leftarrow> ParsedBaseMetaValue_parse True meta_value;
           if pv_IsStale (env_now env) p then Some (NotFound ''Stale'', r)
           else if pm_count p = 0 then Some (NotFound [], r)
           else if pv_etime p = 0 then Some (NotFound ''Not have an associated timeout'', r)
           else Some (redis_Write env [Put kMetaCF (base_meta_key env key) (pv_data (pv_SetEtime 0 p))] r) }
         else Some (s, r) }"

definition HashesTTL :: "'s env \<Rightarrow> bytes \<Rightarrow> bytes \<Rightarrow> 's redis \<Rightarrow> (Status \<times> i64 option) option" where
  "HashesTTL env key prefetch_meta r = do {
     m \<leftarrow> (if prefetch_meta = [] then get_meta env kHashes key key (rds_db r) else Some (Inr (OK, prefetch_meta)));
     case m of Inl st \<Rightarrow> Some (st, None)
     | Inr (s, meta_value) \<Rightarrow>
         if s = OK then do {
           p \<leftarrow> ParsedBaseMetaValue_parse True meta_value;
           if pv_IsStale (env_now env) p then Some (NotFound ''Stale'', Some (- 2))
           else if pm_count p = 0 then Some (NotFound [], Some (- 2))
           else Some (s, Some (ttl_of_etime (pv_etime p) (env_now env))) }
         else if is_NotFound s then Some (s, Some (- 2))
         else Some (s, None) }"

end
