(* ===== verification/DataScan.thy ===== *)
theory DataScan
  imports ListsCorrect
begin

text \<open>
  Iterating over the records of one key. The members of hashes, sets and sorted sets and the messages of streams
  are stored under \<open>BaseDataKey\<close>s in column families that are ordered byte by byte. The records of one user key and
  version are those whose key starts with the seek key; an iterator started inside that range visits them in the order
  of their data, and nothing else before them.
\<close>

definition bytewise :: "ColumnFamilyIndex \<Rightarrow> bool" where
  "bytewise cf \<longleftrightarrow> cf \<noteq> kListsDataCF \<and> cf \<noteq> kZsetsScoreCF"

lemma cf_compare_bytewise: "bytewise cf \<Longrightarrow> cf_compare sc cf = sc"
  by (cases cf) (auto simp: bytewise_def)

abbreviation data_key :: "bytes \<Rightarrow> u64 \<Rightarrow> bytes \<Rightarrow> bytes" where
  "data_key key version d \<equiv> BaseDataKey_Encode (\<lambda>_. 0) key version d"

abbreviation data_prefix :: "bytes \<Rightarrow> u64 \<Rightarrow> bytes" where
  "data_prefix key version \<equiv> BaseDataKey_EncodeSeekKey (\<lambda>_. 0) key version []"

lemma data_key_junk: "key_ok key \<Longrightarrow> BaseDataKey_Encode j key version d = data_key key version d"
  by (simp add: BaseDataKey_Encode_layout)

lemma data_prefix_junk: "key_ok key \<Longrightarrow> BaseDataKey_EncodeSeekKey j key version [] = data_prefix key version"
  by (simp add: BaseDataKey_EncodeSeekKey_layout)

lemma data_key_eq: "key_ok key \<Longrightarrow> data_key key version d = data_prefix key version @ d @ reserve2"
  by (simp add: BaseDataKey_Encode_layout BaseDataKey_EncodeSeekKey_layout)

lemma data_prefix_key [simp]: "key_ok key \<Longrightarrow> prefix (data_prefix key version) (data_key key version d)"
  by (simp add: data_key_eq)

section \<open>Order\<close>

lemma reserve2_less: "x \<noteq> [] \<Longrightarrow> reserve2 < x @ reserve2"
proof -
  have "replicate n (0 :: byte) < x @ replicate n 0" if "x \<noteq> []" for n
    using that
  proof (induction n arbitrary: x)
    case (Suc n)
    then obtain b y where x: "x = b # y" by (cases x) auto
    show ?case
    proof (cases "b = 0")
      case True
      have "replicate n 0 < (y @ [0]) @ replicate n (0 :: byte)" using Suc.IH [of "y @ [0]"] by simp
      then show ?thesis using True x by simp
    qed (use x in \<open>auto simp: word_neq_0_conv\<close>)
  qed (auto simp: neq_Nil_conv)
  then show "x \<noteq> [] \<Longrightarrow> reserve2 < x @ reserve2" by (simp add: reserve2_def)
qed

lemma append_reserve_mono: "d < d' \<Longrightarrow> d @ reserve2 < d' @ reserve2"
proof (induction d d' rule: list_induct2')
  case (3 y ys)
  then show ?case using reserve2_less [of "y # ys"] by simp
qed auto

lemma append_reserve_less: "d @ reserve2 < d' @ reserve2 \<longleftrightarrow> d < d'"
  using append_reserve_mono [of d d'] append_reserve_mono [of d' d] by (metis linorder_less_linear order_less_asym)

lemma data_key_less [simp]: "key_ok key \<Longrightarrow> data_key key version d < data_key key version d' \<longleftrightarrow> d < d'"
  by (simp add: data_key_eq append_less_cancel append_reserve_less)

lemma data_key_inject [simp]: "key_ok key \<Longrightarrow> data_key key version d = data_key key version d' \<longleftrightarrow> d = d'"
  by (simp add: data_key_eq)

lemma data_key_le [simp]: "key_ok key \<Longrightarrow> data_key key version d \<le> data_key key version d' \<longleftrightarrow> d \<le> d'"
  by (simp add: le_less)

lemma head_prefix_iff:
  "prefix (esc key @ [0, 0] @ EncodeFixed64 version) (esc key' @ [0, 0] @ EncodeFixed64 version' @ r)
    \<longleftrightarrow> key = key' \<and> version = version'"
  by (auto simp: prefix_def append_eq_append_conv)

lemma data_prefix_iff:
  assumes "key_ok key" and "key_ok key'"
  shows "prefix (data_prefix key version) (data_prefix key' version' @ z) \<longleftrightarrow> key = key' \<and> version = version'"
    and "prefix (data_prefix key version) (data_key key' version' d) \<longleftrightarrow> key = key' \<and> version = version'"
  using head_prefix_iff [of key version key' version'] assms
  by (simp_all add: BaseDataKey_EncodeSeekKey_layout BaseDataKey_Encode_layout)

lemma prefix_between:
  assumes "prefix p a" and "prefix p (c :: bytes)" and "a \<le> b" and "b \<le> c"
  shows "prefix p b"
  using assms
proof (induction p arbitrary: a b c)
  case (Cons x p)
  obtain a' where a: "a = x # a'" "prefix p a'" using Cons.prems(1) by (cases a) auto
  obtain c' where c: "c = x # c'" "prefix p c'" using Cons.prems(2) by (cases c) auto
  obtain y b' where b: "b = y # b'" using Cons.prems(3) a by (cases b) auto
  have "y = x" "a' \<le> b'" "b' \<le> c'" using Cons.prems(3,4) unfolding a(1) b c(1) by auto
  then show ?case using Cons.IH [OF a(2) c(2)] b by simp
qed simp

lemma prefix_le: "prefix p k \<Longrightarrow> p \<le> (k :: bytes)"
proof -
  have "p \<le> p @ z" for z by (induction p) auto
  then show "prefix p k \<Longrightarrow> p \<le> k" by (auto simp: prefix_def)
qed

section \<open>Runs of a sorted sequence\<close>

abbreviation key_sorted :: "(bytes \<times> bytes) list \<Rightarrow> bool" where
  "key_sorted \<equiv> sorted_wrt (\<lambda>x y. fst x < fst y)"

lemma sorted_dropWhile_filter:
  "key_sorted l \<Longrightarrow> dropWhile (\<lambda>x. fst x < k) l = filter (\<lambda>x. k \<le> fst x) l"
proof (induction l)
  case (Cons x l)
  show ?case
  proof (cases "fst x < k")
    case False
    then have "\<forall>y \<in> set l. k \<le> fst y" using Cons.prems by (auto intro: order.trans less_imp_le)
    then show ?thesis using False by simp
  qed (use Cons in simp)
qed simp

lemma sorted_takeWhile_filter:
  "key_sorted l \<Longrightarrow> takeWhile (\<lambda>x. fst x \<le> k) l = filter (\<lambda>x. fst x \<le> k) l"
proof (induction l)
  case (Cons x l)
  show ?case
  proof (cases "fst x \<le> k")
    case False
    then have "\<forall>y \<in> set l. \<not> fst y \<le> k" using Cons.prems by (auto simp: not_le intro: less_trans)
    then show ?thesis using False by (auto simp: filter_empty_conv)
  qed (use Cons in simp)
qed simp

text \<open>From a point inside the range of a prefix on, the records of the prefix come first.\<close>

lemma forward_run:
  assumes "key_sorted l" and "\<And>x. x \<in> set l \<Longrightarrow> k \<le> fst x" and "prefix p k"
  shows "takeWhile (\<lambda>x. prefix p (fst x)) l = filter (\<lambda>x. prefix p (fst x)) l"
  using assms(1,2)
proof (induction l)
  case (Cons x l)
  show ?case
  proof (cases "prefix p (fst x)")
    case False
    have "\<not> prefix p (fst y)" if y: "y \<in> set l" for y
    proof
      assume "prefix p (fst y)"
      moreover have "fst x \<le> fst y" using Cons.prems(1) y by (auto intro: less_imp_le)
      ultimately have "prefix p (fst x)" using prefix_between [OF assms(3)] Cons.prems(2) [of x] by auto
      with False show False by simp
    qed
    then show ?thesis using False by (auto simp: filter_empty_conv)
  qed (use Cons in simp)
qed simp

lemma backward_run:
  fixes l :: "(bytes \<times> bytes) list"
  assumes "sorted_wrt (\<lambda>x y. fst y < fst x) l" and "\<And>x. x \<in> set l \<Longrightarrow> fst x \<le> k" and "prefix p k"
  shows "takeWhile (\<lambda>x. prefix p (fst x)) l = filter (\<lambda>x. prefix p (fst x)) l"
  using assms(1,2)
proof (induction l)
  case (Cons x l)
  show ?case
  proof (cases "prefix p (fst x)")
    case False
    have "\<not> prefix p (fst y)" if y: "y \<in> set l" for y
    proof
      assume "prefix p (fst y)"
      moreover have "fst y \<le> fst x" using Cons.prems(1) y by (simp add: order.strict_implies_order)
      ultimately have "prefix p (fst x)" using prefix_between [OF _ assms(3)] Cons.prems(2) [of x] by auto
      with False show False by simp
    qed
    then show ?thesis using False by (auto simp: filter_empty_conv)
  qed (use Cons in simp)
qed simp

lemma sorted_wrt_unique:
  fixes xs ys :: "(bytes \<times> 'b) list"
  assumes "sorted_wrt (\<lambda>x y. fst x < fst y) xs" and "sorted_wrt (\<lambda>x y. fst x < fst y) ys" and "set xs = set ys"
  shows "xs = ys"
  using assms
proof (induction xs arbitrary: ys)
  case (Cons x xs)
  then obtain y ys' where ys: "ys = y # ys'" by (cases ys) auto
  have "y = x"
  proof (rule ccontr)
    assume "y \<noteq> x"
    then have "x \<in> set ys'" "y \<in> set xs" using Cons.prems(3) ys by auto
    then have "fst y < fst x" "fst x < fst y" using Cons.prems(1,2) ys by auto
    then show False by simp
  qed
  moreover have "x \<notin> set xs" "y \<notin> set ys'" using Cons.prems(1,2) ys by auto
  ultimately show ?case using Cons.IH [of ys'] Cons.prems ys by (simp add: insert_ident)
qed simp

section \<open>The records of a key\<close>

text \<open>\<open>ds\<close> are the data and values of the records of \<open>key\<close> with the given version, in order.\<close>

definition data_records :: "contents \<Rightarrow> ColumnFamilyIndex \<Rightarrow> bytes \<Rightarrow> u64 \<Rightarrow> (bytes \<times> bytes) list \<Rightarrow> bool" where
  "data_records m cf key version ds \<longleftrightarrow>
     key_sorted ds \<and>
     (\<forall>k v. prefix (data_prefix key version) k \<longrightarrow>
        (m cf k = Some v \<longleftrightarrow> (\<exists>d. (d, v) \<in> set ds \<and> k = data_key key version d)))"

lemma data_records_lookup:
  assumes "data_records m cf key version ds" and "key_ok key"
  shows "m cf (data_key key version d) = map_of ds d"
proof -
  have dist: "distinct (map fst ds)"
  proof -
    have "sorted_wrt (<) (map fst ds)" using assms(1) by (simp add: data_records_def sorted_wrt_map)
    then show ?thesis by (simp add: strict_sorted_iff)
  qed
  have "m cf (data_key key version d) = Some v \<longleftrightarrow> (d, v) \<in> set ds" for v
    using assms by (auto simp: data_records_def)
  then show ?thesis using dist by (intro option_eqI) (simp add: map_of_eq_Some_iff)
qed

context rocksdb
begin

lemma bytewise_ok: "bytewise cf \<Longrightarrow> comparator_ok (cf_compare slice_compare cf)"
  by (rule cf_comparator_ok) (simp add: bytewise_def)

lemma scan_contents:
  assumes "bytewise cf"
  shows "key_sorted (it_SeekToFirst db s cf)" and "(k, v) \<in> set (it_SeekToFirst db s cf) \<longleftrightarrow> view s cf k = Some v"
  using scan_sorted [OF bytewise_ok [OF assms], of s] scan_complete [OF bytewise_ok [OF assms], of s k v]
  by (simp_all add: cf_compare_bytewise [OF assms] slice_compare_less)

lemma seek_filter:
  assumes "bytewise cf"
  shows "it_Seek db s cf k = filter (\<lambda>x. k \<le> fst x) (it_SeekToFirst db s cf)"
  using seek [OF bytewise_ok [OF assms], of s k] sorted_dropWhile_filter [OF scan_contents(1) [OF assms]]
  by (simp add: cf_compare_bytewise [OF assms] slice_compare_less)

lemma seek_for_prev_filter:
  assumes "bytewise cf"
  shows "it_SeekForPrev db s cf k = rev (filter (\<lambda>x. fst x \<le> k) (it_SeekToFirst db s cf))"
proof -
  have "slice_compare a b \<le> 0 \<longleftrightarrow> a \<le> b" for a b
    using slice_compare_less [of a b] slice_compare_eq [of a b] by (auto simp: le_less)
  then show ?thesis
    using seek_for_prev [OF bytewise_ok [OF assms], of s k] sorted_takeWhile_filter [OF scan_contents(1) [OF assms]]
    by (simp add: cf_compare_bytewise [OF assms])
qed

lemma scan_records:
  assumes "bytewise cf" and "key_ok key" and "data_records (view s) cf key version ds"
  shows "filter (\<lambda>x. prefix (data_prefix key version) (fst x)) (it_SeekToFirst db s cf) =
    map (\<lambda>(d, v). (data_key key version d, v)) ds"
proof (rule sorted_wrt_unique)
  show "key_sorted (filter (\<lambda>x. prefix (data_prefix key version) (fst x)) (it_SeekToFirst db s cf))"
    by (intro sorted_wrt_filter scan_contents(1) [OF assms(1)])
  show "key_sorted (map (\<lambda>(d, v). (data_key key version d, v)) ds)"
    using assms(2,3) by (simp add: data_records_def sorted_wrt_map case_prod_unfold)
  show "set (filter (\<lambda>x. prefix (data_prefix key version) (fst x)) (it_SeekToFirst db s cf)) =
      set (map (\<lambda>(d, v). (data_key key version d, v)) ds)"
    using scan_contents(2) [OF assms(1), of _ _ s] assms(2,3) by (fastforce simp: data_records_def)
qed

text \<open>What an iterator visits from a point inside the range on: the records from there on, then none of the key.\<close>

lemma seek_records_at:
  assumes "bytewise cf" and "key_ok key" and "data_records (view s) cf key version ds" and "prefix (data_prefix key version) k"
  obtains rest where "it_Seek db s cf k = filter (\<lambda>x. k \<le> fst x) (map (\<lambda>(d, v). (data_key key version d, v)) ds) @ rest"
    "rest \<noteq> [] \<Longrightarrow> \<not> prefix (data_prefix key version) (fst (hd rest))"
proof -
  let ?P = "\<lambda>x. prefix (data_prefix key version) (fst x)"
  let ?l = "it_Seek db s cf k"
  have "takeWhile ?P ?l = filter ?P ?l"
    unfolding seek_filter [OF assms(1)] using scan_contents(1) [OF assms(1)] assms(4)
    by (intro forward_run [where k = k]) (auto intro: sorted_wrt_filter)
  also have "\<dots> = filter (\<lambda>x. k \<le> fst x) (filter ?P (it_SeekToFirst db s cf))"
    unfolding seek_filter [OF assms(1)] by (simp add: conj_commute)
  finally have "?l = filter (\<lambda>x. k \<le> fst x) (map (\<lambda>(d, v). (data_key key version d, v)) ds) @ dropWhile ?P ?l"
    unfolding scan_records [OF assms(1-3)] by (metis takeWhile_dropWhile_id)
  then show thesis using that hd_dropWhile [of ?P ?l] by blast
qed

lemma seek_records:
  assumes "bytewise cf" and "key_ok key" and "data_records (view s) cf key version ds"
  obtains rest where "it_Seek db s cf (data_key key version d) =
      map (\<lambda>(d, v). (data_key key version d, v)) (filter (\<lambda>x. d \<le> fst x) ds) @ rest"
    "rest \<noteq> [] \<Longrightarrow> \<not> prefix (data_prefix key version) (fst (hd rest))"
proof (rule seek_records_at [OF assms, of "data_key key version d"])
  fix rest
  assume "it_Seek db s cf (data_key key version d) =
      filter (\<lambda>x. data_key key version d \<le> fst x) (map (\<lambda>(d, v). (data_key key version d, v)) ds) @ rest"
    and "rest \<noteq> [] \<Longrightarrow> \<not> prefix (data_prefix key version) (fst (hd rest))"
  then show thesis using that [of rest] assms(2) by (simp add: filter_map comp_def case_prod_unfold)
qed (simp add: assms(2))

lemma seek_all_records:
  assumes "bytewise cf" and "key_ok key" and "data_records (view s) cf key version ds"
  obtains rest where "it_Seek db s cf (data_prefix key version) = map (\<lambda>(d, v). (data_key key version d, v)) ds @ rest"
    "rest \<noteq> [] \<Longrightarrow> \<not> prefix (data_prefix key version) (fst (hd rest))"
proof (rule seek_records_at [OF assms, of "data_prefix key version"])
  fix rest
  assume "it_Seek db s cf (data_prefix key version) =
      filter (\<lambda>x. data_prefix key version \<le> fst x) (map (\<lambda>(d, v). (data_key key version d, v)) ds) @ rest"
    and "rest \<noteq> [] \<Longrightarrow> \<not> prefix (data_prefix key version) (fst (hd rest))"
  moreover have "data_prefix key version \<le> data_key key version d" for d
    by (rule prefix_le) (simp add: assms(2))
  ultimately show thesis using that [of rest] by (simp add: filter_map comp_def case_prod_unfold)
qed simp

lemma seek_prev_records:
  assumes "bytewise cf" and "key_ok key" and "data_records (view s) cf key version ds"
  obtains rest where "it_SeekForPrev db s cf (data_key key version d) =
      map (\<lambda>(d, v). (data_key key version d, v)) (rev (filter (\<lambda>x. fst x \<le> d) ds)) @ rest"
    "rest \<noteq> [] \<Longrightarrow> \<not> prefix (data_prefix key version) (fst (hd rest))"
proof -
  let ?P = "\<lambda>x. prefix (data_prefix key version) (fst x)"
  let ?l = "it_SeekForPrev db s cf (data_key key version d)"
  have "takeWhile ?P ?l = filter ?P ?l"
    unfolding seek_for_prev_filter [OF assms(1)] using scan_contents(1) [OF assms(1)] assms(2)
    by (intro backward_run [where k = "data_key key version d"]) (auto simp: sorted_wrt_rev intro: sorted_wrt_filter)
  also have "\<dots> = rev (filter (\<lambda>x. fst x \<le> data_key key version d) (filter ?P (it_SeekToFirst db s cf)))"
    unfolding seek_for_prev_filter [OF assms(1)] by (simp add: conj_commute rev_filter)
  also have "\<dots> = map (\<lambda>(d, v). (data_key key version d, v)) (rev (filter (\<lambda>x. fst x \<le> d) ds))"
    unfolding scan_records [OF assms] using assms(2) by (simp add: filter_map comp_def case_prod_unfold rev_map)
  finally have "?l = map (\<lambda>(d, v). (data_key key version d, v)) (rev (filter (\<lambda>x. fst x \<le> d) ds)) @ dropWhile ?P ?l"
    by (metis takeWhile_dropWhile_id)
  then show thesis using that hd_dropWhile [of ?P ?l] by blast
qed

end

section \<open>Writing records\<close>

definition ds_put :: "bytes \<Rightarrow> bytes \<Rightarrow> (bytes \<times> bytes) list \<Rightarrow> (bytes \<times> bytes) list" where
  "ds_put d v ds = filter (\<lambda>x. fst x < d) ds @ (d, v) # filter (\<lambda>x. d < fst x) ds"

definition ds_delete :: "bytes \<Rightarrow> (bytes \<times> bytes) list \<Rightarrow> (bytes \<times> bytes) list" where
  "ds_delete d ds = filter (\<lambda>x. fst x \<noteq> d) ds"

lemma data_records_put:
  assumes "slice_order sc" and "bytewise cf" and "key_ok key" and "data_records m cf key version ds"
  shows "data_records (apply_op sc (Put cf (data_key key version d) v) m) cf key version (ds_put d v ds)"
  unfolding data_records_def
proof (intro conjI allI impI)
  show "key_sorted (ds_put d v ds)"
    using assms(4) by (auto simp: data_records_def ds_put_def sorted_wrt_append intro: sorted_wrt_filter less_trans)
  fix k v'
  assume "prefix (data_prefix key version) k"
  then have "m cf k = Some v' \<longleftrightarrow> (\<exists>d. (d, v') \<in> set ds \<and> k = data_key key version d)"
    using assms(4) by (simp add: data_records_def)
  then show "apply_op sc (Put cf (data_key key version d) v) m cf k = Some v' \<longleftrightarrow>
      (\<exists>d'. (d', v') \<in> set (ds_put d v ds) \<and> k = data_key key version d')"
    using assms(3) slice_order.slice_compare_eq [OF assms(1)]
    by (auto simp: apply_op.simps cf_compare_bytewise [OF assms(2)] ds_put_def neq_iff)
qed

lemma data_records_delete:
  assumes "slice_order sc" and "bytewise cf" and "key_ok key" and "data_records m cf key version ds"
  shows "data_records (apply_op sc (Delete cf (data_key key version d)) m) cf key version (ds_delete d ds)"
  unfolding data_records_def
proof (intro conjI allI impI)
  show "key_sorted (ds_delete d ds)"
    using assms(4) by (auto simp: data_records_def ds_delete_def intro: sorted_wrt_filter)
  fix k v'
  assume "prefix (data_prefix key version) k"
  then have "m cf k = Some v' \<longleftrightarrow> (\<exists>d. (d, v') \<in> set ds \<and> k = data_key key version d)"
    using assms(4) by (simp add: data_records_def)
  then show "apply_op sc (Delete cf (data_key key version d)) m cf k = Some v' \<longleftrightarrow>
      (\<exists>d'. (d', v') \<in> set (ds_delete d ds) \<and> k = data_key key version d')"
    using assms(3) slice_order.slice_compare_eq [OF assms(1)]
    by (auto simp: apply_op.simps cf_compare_bytewise [OF assms(2)] ds_delete_def)
qed

text \<open>\<open>data_frame key version cf m m'\<close>: only the meta value of \<open>key\<close> and its records of that version may differ.\<close>

definition data_frame :: "bytes \<Rightarrow> u64 \<Rightarrow> ColumnFamilyIndex \<Rightarrow> contents \<Rightarrow> contents \<Rightarrow> bool" where
  "data_frame key version cf m m' \<longleftrightarrow>
     (\<forall>k. k \<noteq> BaseKey_Encode (\<lambda>_. 0) key \<longrightarrow> m' kMetaCF k = m kMetaCF k) \<and>
     (\<forall>k. \<not> prefix (data_prefix key version) k \<longrightarrow> m' cf k = m cf k) \<and>
     (\<forall>cf'. cf' \<noteq> kMetaCF \<longrightarrow> cf' \<noteq> cf \<longrightarrow> cf' \<noteq> kZsetsScoreCF \<longrightarrow> m' cf' = m cf')"

lemma data_frame_refl [simp, intro]: "data_frame key version cf m m"
  by (simp add: data_frame_def)

lemma data_frame_trans [trans]:
  "data_frame key version cf m m' \<Longrightarrow> data_frame key version cf m' m'' \<Longrightarrow> data_frame key version cf m m''"
  by (simp add: data_frame_def)

text \<open>The writes of a collection command.\<close>

definition data_op :: "bytes \<Rightarrow> u64 \<Rightarrow> ColumnFamilyIndex \<Rightarrow> WriteOp \<Rightarrow> bool" where
  "data_op key version cf op \<longleftrightarrow>
     (\<exists>v. op = Put kMetaCF (BaseKey_Encode (\<lambda>_. 0) key) v) \<or> (\<exists>d v. op = Put cf (data_key key version d) v) \<or>
     (\<exists>d. op = Delete cf (data_key key version d))"

lemma data_op_frame:
  assumes "slice_order sc" and "bytewise cf" and "cf \<noteq> kMetaCF" and "key_ok key" and "\<forall>op \<in> set ops. data_op key version cf op"
  shows "data_frame key version cf m (apply_batch sc ops m)"
  using assms(5)
proof (induction ops arbitrary: m)
  case (Cons op ops)
  have "data_op key version cf op" using Cons.prems by simp
  then have "data_frame key version cf m (apply_op sc op m)"
    using slice_order.slice_compare_eq [OF assms(1)] assms(3,4)
    by (auto simp: data_op_def data_frame_def apply_op.simps cf_compare_bytewise [OF assms(2)])
  moreover have "data_frame key version cf (apply_op sc op m) (apply_batch sc ops (apply_op sc op m))"
    using Cons by simp
  ultimately show ?case unfolding apply_batch_simps by (rule data_frame_trans)
qed simp

text \<open>Every other collection keeps its records.\<close>

lemma data_frame_records:
  assumes "data_frame key version cf m m'" and "key_ok key" and "key_ok key'" and "cf \<noteq> kMetaCF"
    and "(key', version') \<noteq> (key, version)"
  shows "data_records m' cf key' version' ds \<longleftrightarrow> data_records m cf key' version' ds"
proof -
  have "m' cf k = m cf k" if k: "prefix (data_prefix key' version') k" for k
  proof -
    obtain z where "k = data_prefix key' version' @ z" using k by (auto simp: prefix_def)
    then have "\<not> prefix (data_prefix key version) k" using data_prefix_iff(1) [OF assms(2,3)] assms(5) by auto
    then show ?thesis using assms(1) by (simp add: data_frame_def)
  qed
  then show ?thesis by (auto simp: data_records_def)
qed

lemma meta_put:
  assumes "slice_order sc" and "key_ok key"
  shows "apply_op sc (Put kMetaCF (BaseKey_Encode j key) v) m kMetaCF (BaseKey_Encode j' key) = Some v"
    and "cf \<noteq> kMetaCF \<Longrightarrow> apply_op sc (Put kMetaCF k v) m cf = m cf"
  using slice_order.slice_compare_eq [OF assms(1)] BaseKey_Encode_junk [OF assms(2), of j] BaseKey_Encode_junk [OF assms(2), of j']
  by (simp_all add: apply_op.simps)

context engine
begin

lemma Get_healthy:
  assumes "db_healthy (env_db env) view"
  shows "view s cf k = Some v \<Longrightarrow> db_Get (env_db env) s cf k = (OK, v)"
    and "view s cf k = None \<Longrightarrow> is_NotFound (fst (db_Get (env_db env) s cf k))"
proof -
  have "case view s cf k of Some v \<Rightarrow> db_Get (env_db env) s cf k = (OK, v)
      | None \<Rightarrow> is_NotFound (fst (db_Get (env_db env) s cf k))"
    using assms by (simp add: db_healthy_def)
  then show "view s cf k = Some v \<Longrightarrow> db_Get (env_db env) s cf k = (OK, v)"
    "view s cf k = None \<Longrightarrow> is_NotFound (fst (db_Get (env_db env) s cf k))" by simp_all
qed

lemma redis_Write_healthy:
  assumes "db_healthy (env_db env) view"
  obtains r' where "redis_Write env ops r = (OK, r')" "rds_statistics_store r' = rds_statistics_store r"
    "\<And>cf. cf \<noteq> kZsetsScoreCF \<Longrightarrow> view (rds_db r') cf = apply_batch sc ops (view (rds_db r)) cf"
proof -
  obtain db where db: "db_Write (env_db env) (rds_db r) ops = (OK, db)"
    using Write_healthy [OF assms, of "rds_db r" ops] by (cases "db_Write (env_db env) (rds_db r) ops") auto
  then show thesis using that [of "r\<lparr>rds_db := db\<rparr>"] view_Write [OF db] by (simp add: redis_Write_def)
qed

end

end
