(* ===== verification/MembersCorrect.thy ===== *)
theory MembersCorrect
  imports Members DataScan ListsTheorems
begin

text \<open>
  Collections of members. Hashes, sets and sorted sets keep a count and a version in their meta value and one record
  per member and version. \<open>coll_at\<close> says that the database holds the collection with the records \<open>ds\<close>; the locale
  \<open>members\<close> is what a command relies on: reading the meta value, iterating over the records, and committing a
  batch of changes to records and meta value.
\<close>

declare apply_op.simps [simp del]

section \<open>Collections in the database\<close>

text \<open>
  Records of a version that has not been used yet do not exist. A collection that is renewed takes a larger version;
  a meta value disappears only when its version is in the past.
\<close>

definition unused_from :: "contents \<Rightarrow> ColumnFamilyIndex \<Rightarrow> bytes \<Rightarrow> (u64 \<Rightarrow> bool) \<Rightarrow> bool" where
  "unused_from m cf key P \<longleftrightarrow> (\<forall>v. P v \<longrightarrow> data_records m cf key v [])"

inductive coll_at :: "DataType \<Rightarrow> ColumnFamilyIndex \<Rightarrow> u64 \<Rightarrow> contents \<Rightarrow> bytes \<Rightarrow> (bytes \<times> bytes) list \<Rightarrow> bool"
  for dt cf now m key where
  absent: "meta_of m key = None \<Longrightarrow> unused_from m cf key (\<lambda>v. now \<le> v) \<Longrightarrow> coll_at dt cf now m key []"
| other_stale: "meta_of m key = Some mv \<Longrightarrow> GetMetaValueType mv \<noteq> dt \<Longrightarrow> ExpectedStale now mv = Some True \<Longrightarrow>
    unused_from m cf key (\<lambda>v. now \<le> v) \<Longrightarrow> coll_at dt cf now m key []"
| expired: "meta_of m key = Some (pv_data p) \<Longrightarrow> pm_wf p \<Longrightarrow> pv_type p = dt \<Longrightarrow> pv_IsStale now p \<or> pm_count p = 0 \<Longrightarrow>
    unused_from m cf key (\<lambda>v. pv_version p < v) \<Longrightarrow> coll_at dt cf now m key []"
| live: "meta_of m key = Some (pv_data p) \<Longrightarrow> pm_wf p \<Longrightarrow> pv_type p = dt \<Longrightarrow> \<not> pv_IsStale now p \<Longrightarrow> pm_count p \<noteq> 0 \<Longrightarrow>
    unused_from m cf key (\<lambda>v. pv_version p < v) \<Longrightarrow> data_records m cf key (pv_version p) ds \<Longrightarrow>
    pm_count p = of_nat (length ds) \<Longrightarrow> length ds < 2 ^ 31 \<Longrightarrow> coll_at dt cf now m key ds"

definition live_coll ::
    "DataType \<Rightarrow> ColumnFamilyIndex \<Rightarrow> u64 \<Rightarrow> contents \<Rightarrow> bytes \<Rightarrow> ParsedBaseMetaValue \<Rightarrow> (bytes \<times> bytes) list \<Rightarrow> bool" where
  "live_coll dt cf now m key p ds \<longleftrightarrow> meta_of m key = Some (pv_data p) \<and> pm_wf p \<and> pv_type p = dt \<and> \<not> pv_IsStale now p \<and>
     unused_from m cf key (\<lambda>v. pv_version p < v) \<and> data_records m cf key (pv_version p) ds \<and>
     pm_count p = of_nat (length ds) \<and> length ds < 2 ^ 31"

text \<open>The version of a collection can still be increased.\<close>

definition version_room :: "contents \<Rightarrow> bytes \<Rightarrow> bool" where
  "version_room m key \<longleftrightarrow> (case meta_of m key of None \<Rightarrow> True
     | Some mv \<Rightarrow> (case ParsedBaseMetaValue_parse True mv of None \<Rightarrow> True | Some p \<Rightarrow> pv_version p \<noteq> - 1))"

lemma version_roomD: "version_room m key \<Longrightarrow> meta_of m key = Some (pv_data p) \<Longrightarrow> pm_wf p \<Longrightarrow> pv_version p \<noteq> - 1"
  by (simp add: version_room_def pm_wf_D)

lemma unat_i32: "n < 2 ^ 31 \<Longrightarrow> unat (of_nat n :: i32) = n"
  by (simp add: unat_of_nat)

lemma coll_atI:
  assumes "meta_of m key = Some (pv_data p)" and "pm_wf p" and "pv_type p = dt" and "\<not> pv_IsStale now p"
    and "unused_from m cf key (\<lambda>v. pv_version p < v)" and "data_records m cf key (pv_version p) ds"
    and "pm_count p = of_nat (length ds)" and "length ds < 2 ^ 31"
  shows "coll_at dt cf now m key ds"
proof (cases "pm_count p = 0")
  case True
  have "unat (pm_count p) = length ds" using assms(7,8) by (simp add: unat_i32)
  then have "ds = []" using True by simp
  then show ?thesis using coll_at.expired [OF assms(1-3) _ assms(5)] True by simp
qed (rule coll_at.live [OF assms(1-4) _ assms(5-8)])

lemma unused_later:
  assumes "unused_from m cf key P" and "P version" and "\<And>v. version < v \<Longrightarrow> P v"
  shows "data_records m cf key version []" "unused_from m cf key (\<lambda>v. version < v)"
  using assms by (auto simp: unused_from_def)

lemma data_records_sorted: "data_records m cf key v ds \<Longrightarrow> key_sorted ds"
  by (simp add: data_records_def)

lemma coll_at_sorted: "coll_at dt cf now m key ds \<Longrightarrow> key_sorted ds"
  by (induction rule: coll_at.induct) (auto dest: data_records_sorted)

lemma coll_at_small: "coll_at dt cf now m key ds \<Longrightarrow> length ds < 2 ^ 31"
  by (induction rule: coll_at.induct) auto

lemma GetMetaValueType_pm: "pm_wf p \<Longrightarrow> GetMetaValueType (pv_data p) = pv_type p"
  by (cases "pv_data p") (auto simp: pm_wf_iff GetMetaValueType_def)

section \<open>Changing records and meta value\<close>

datatype member_op = MMeta bytes | MPut bytes bytes | MDelete bytes

fun member_write :: "ColumnFamilyIndex \<Rightarrow> bytes \<Rightarrow> u64 \<Rightarrow> member_op \<Rightarrow> WriteOp" where
  "member_write cf key version (MMeta mv) = Put kMetaCF (BaseKey_Encode (\<lambda>_. 0) key) mv"
| "member_write cf key version (MPut d v) = Put cf (data_key key version d) v"
| "member_write cf key version (MDelete d) = Delete cf (data_key key version d)"

fun member_change :: "member_op \<Rightarrow> (bytes \<times> bytes) list \<Rightarrow> (bytes \<times> bytes) list" where
  "member_change (MMeta mv) ds = ds"
| "member_change (MPut d v) ds = ds_put d v ds"
| "member_change (MDelete d) ds = ds_delete d ds"

fun meta_change :: "member_op \<Rightarrow> bytes option \<Rightarrow> bytes option" where
  "meta_change (MMeta mv) old = Some mv"
| "meta_change (MPut d v) old = old"
| "meta_change (MDelete d) old = old"

lemma fold_meta_change: "\<forall>op \<in> set ops. \<forall>mv. op \<noteq> MMeta mv \<Longrightarrow> fold meta_change ops x = x"
  by (induction ops arbitrary: x) (auto, metis meta_change.simps(2,3) member_op.exhaust)

lemma data_records_cong: "m cf = m' cf \<Longrightarrow> data_records m cf key v ds \<longleftrightarrow> data_records m' cf key v ds"
  by (simp add: data_records_def)

lemma unused_cong: "m cf = m' cf \<Longrightarrow> unused_from m cf key P \<longleftrightarrow> unused_from m' cf key P"
  by (simp add: unused_from_def data_records_def)

lemma member_ops_records:
  assumes "slice_order sc" and "bytewise cf" and "cf \<noteq> kMetaCF" and "key_ok key" and "data_records m cf key version ds"
  shows "data_records (apply_batch sc (map (member_write cf key version) ops) m) cf key version (fold member_change ops ds)"
  using assms(5)
proof (induction ops arbitrary: m ds)
  case (Cons op ops)
  have "data_records (apply_op sc (member_write cf key version op) m) cf key version (member_change op ds)"
  proof (cases op)
    case (MMeta mv)
    then have "apply_op sc (member_write cf key version op) m cf = m cf" using meta_put(2) [OF assms(1,4,3)] by simp
    then show ?thesis using Cons.prems MMeta by (simp add: data_records_def)
  next
    case (MPut d v)
    then show ?thesis using data_records_put [OF assms(1,2,4) Cons.prems] by simp
  next
    case (MDelete d)
    then show ?thesis using data_records_delete [OF assms(1,2,4) Cons.prems] by simp
  qed
  from Cons.IH [OF this] show ?case by (simp add: apply_batch_simps)
qed simp

lemma member_ops_meta:
  assumes "slice_order sc" and "cf \<noteq> kMetaCF" and "key_ok key"
  shows "meta_of (apply_batch sc (map (member_write cf key version) ops) m) key = fold meta_change ops (meta_of m key)"
proof (induction ops arbitrary: m)
  case (Cons op ops)
  have "meta_of (apply_op sc (member_write cf key version op) m) key = meta_change op (meta_of m key)"
    using meta_put(1) [OF assms(1,3)] assms(2,3) by (cases op) (simp_all add: meta_of_def apply_op.simps)
  then show ?case using Cons.IH by (simp add: apply_batch_simps)
qed simp

lemma member_write_data_op: "data_op key version cf (member_write cf key version op)"
  by (cases op) (auto simp: data_op_def)

lemma unused_frame:
  assumes "data_frame key version cf m m'" and "key_ok key" and "cf \<noteq> kMetaCF" and "unused_from m cf key P" and "\<not> P version"
  shows "unused_from m' cf key P"
  unfolding unused_from_def
proof (intro allI impI)
  fix v
  assume "P v"
  then have "(key, v) \<noteq> (key, version)" using assms(5) by auto
  then show "data_records m' cf key v []"
    using data_frame_records [OF assms(1,2,2,3), of v "[]"] assms(4) \<open>P v\<close> by (simp add: unused_from_def)
qed

text \<open>Putting and deleting on sorted records.\<close>

lemma ds_put_Cons:
  "key_sorted (x # ds) \<Longrightarrow> ds_put d v (x # ds) = (if fst x < d then x # ds_put d v ds else if fst x = d then (d, v) # ds else (d, v) # x # ds)"
proof -
  assume sorted: "key_sorted (x # ds)"
  then have "\<forall>y \<in> set ds. \<not> fst x < d \<longrightarrow> d < fst y" by (auto simp: not_less intro: le_less_trans)
  then have "\<not> fst x < d \<Longrightarrow> filter (\<lambda>y. fst y < d) ds = []" "\<not> fst x < d \<Longrightarrow> filter (\<lambda>y. d < fst y) ds = ds"
    by (auto simp: filter_empty_conv filter_id_conv dest: less_asym)
  then show ?thesis by (auto simp: ds_put_def)
qed

lemma map_of_greater: "key_sorted (x # ds) \<Longrightarrow> d \<le> fst x \<Longrightarrow> map_of ds d = None"
  by (auto simp: map_of_eq_None_iff)

lemma map_of_ds_put: "key_sorted ds \<Longrightarrow> map_of (ds_put d v ds) d' = (if d' = d then Some v else map_of ds d')"
proof (induction ds)
  case (Cons x ds)
  then show ?case using map_of_greater [OF Cons.prems, of d'] by (cases x) (auto simp: ds_put_Cons)
qed (simp add: ds_put_def)

lemma length_ds_put: "key_sorted ds \<Longrightarrow> length (ds_put d v ds) = (if map_of ds d = None then Suc (length ds) else length ds)"
proof (induction ds)
  case (Cons x ds)
  then show ?case using map_of_greater [OF Cons.prems, of d] by (cases x) (auto simp: ds_put_Cons)
qed (simp add: ds_put_def)

lemma map_of_ds_delete: "map_of (ds_delete d ds) d' = (if d' = d then None else map_of ds d')"
  by (induction ds) (auto simp: ds_delete_def)

lemma length_ds_delete:
  "key_sorted ds \<Longrightarrow> length (ds_delete d ds) = (if map_of ds d = None then length ds else length ds - 1)"
proof (induction ds)
  case (Cons x ds)
  show ?case
  proof (cases "fst x = d")
    case True
    then have "\<forall>y \<in> set ds. fst y \<noteq> d" using Cons.prems by auto
    then have "filter (\<lambda>y. fst y \<noteq> d) ds = ds" by (simp add: filter_id_conv)
    then show ?thesis using True by (cases x) (simp add: ds_delete_def)
  next
    case False
    then have "map_of (x # ds) d = map_of ds d" by (cases x) simp
    moreover have "map_of ds d \<noteq> None \<Longrightarrow> 0 < length ds" by auto
    ultimately show ?thesis using Cons False by (simp add: ds_delete_def)
  qed
qed (simp add: ds_delete_def)

lemma ds_put_sorted: "key_sorted ds \<Longrightarrow> key_sorted (ds_put d v ds)"
  by (auto simp: ds_put_def sorted_wrt_append intro: sorted_wrt_filter less_trans)

lemma ds_delete_sorted: "key_sorted ds \<Longrightarrow> key_sorted (ds_delete d ds)"
  by (simp add: ds_delete_def sorted_wrt_filter)

lemma ds_map_values:
  "map (map_prod (\<lambda>d. d) g) (ds_put d v ds) = ds_put d (g v) (map (map_prod (\<lambda>d. d) g) ds)"
  "map (map_prod (\<lambda>d. d) g) (ds_delete d ds) = ds_delete d (map (map_prod (\<lambda>d. d) g) ds)"
  by (simp_all add: ds_put_def ds_delete_def filter_map comp_def)

lemma set_ds_put: "set (ds_put d v ds) \<subseteq> insert (d, v) (set ds)"
  by (auto simp: ds_put_def)

lemma set_ds_delete: "set (ds_delete d ds) \<subseteq> set ds"
  by (auto simp: ds_delete_def)

section \<open>Statistics\<close>

lemma UpdateSpecificKeyDuration_ok:
  assumes "stats_ok r" and "DataTypeTag dtype \<noteq> None"
  shows "\<exists>r'. UpdateSpecificKeyDuration dtype key duration r = Some r' \<and> stats_ok r' \<and> rds_db r' = rds_db r \<and>
    rds_scan_cursors_store r' = rds_scan_cursors_store r"
proof (cases "lc_capacity (rds_statistics_store r) \<noteq> 0 \<and> duration \<noteq> 0 \<and> rds_small_compaction_duration_threshold r \<noteq> 0")
  case True
  obtain es tag where es: "lru_rel (rds_statistics_store r) es" and tag: "DataTypeTag dtype = Some tag"
    using assms by (auto simp: stats_ok_def)
  obtain c1 where c1: "Lookup (tag # key) (rds_statistics_store r) = Some (spec_lookup (tag # key) es, c1)"
      "lru_rel c1 (spec_touch (tag # key) es)" "lc_capacity c1 = lc_capacity (rds_statistics_store r)"
    using Lookup_ok [OF es] by auto
  let ?d = "AddDuration duration (case spec_lookup (tag # key) es of Some d \<Rightarrow> d | None \<Rightarrow> KeyStatistics_new)"
  obtain c2 es2 where c2: "Insert (tag # key) ?d 1 c1 = Some (OK, c2)" "lru_rel c2 es2"
    using Insert_ok [OF c1(2), of "tag # key" ?d 1] c1(3) True by auto
  have "stats_ok (r\<lparr>rds_statistics_store := c2\<rparr>)" using c2(2) by (auto simp: stats_ok_def)
  from AddCompactKeyTaskIfNeeded_ok [OF this assms(2), of key "ks_modify_count ?d" "AvgDuration ?d"]
  obtain r' where r': "AddCompactKeyTaskIfNeeded dtype key (ks_modify_count ?d) (AvgDuration ?d) (r\<lparr>rds_statistics_store := c2\<rparr>) = Some r'"
      "stats_ok r'" "rds_db r' = rds_db r" by auto
  moreover have "rds_scan_cursors_store r' = rds_scan_cursors_store r"
    using r'(1) by (auto simp: AddCompactKeyTaskIfNeeded_def Let_def bind_eq_Some_conv split: if_splits)
  ultimately show ?thesis using True tag c1(1) c2(1) by (auto simp: UpdateSpecificKeyDuration_def Let_def)
next
  case False
  then show ?thesis using assms by (auto simp: UpdateSpecificKeyDuration_def)
qed

lemma guard_ok:
  assumes "stats_ok r" and "DataTypeTag dtype \<noteq> None"
  obtains r' where "KeyStatisticsDurationGuard us dtype key r = Some r'" "stats_ok r'" "rds_db r' = rds_db r"
    "rds_scan_cursors_store r' = rds_scan_cursors_store r"
  using UpdateSpecificKeyDuration_ok [OF assms] by (fastforce simp: KeyStatisticsDurationGuard_def split: prod.splits)

section \<open>The interface of a member store\<close>

locale members = engine env view for env :: "'s env" and view :: "'s \<Rightarrow> contents" +
  fixes dt :: DataType and cf :: ColumnFamilyIndex
  assumes member_types: "(dt, cf) \<in> {(kHashes, kHashesDataCF), (kSets, kSetsDataCF), (kZSets, kZsetsDataCF)}"
begin

lemma member_cf: "bytewise cf" "cf \<noteq> kMetaCF" "cf \<noteq> kZsetsScoreCF" "DataTypeTag dt \<noteq> None"
  using member_types by (auto simp: bytewise_def)

lemma member_keys:
  assumes "key_ok key"
  shows "member_key env key version d = data_key key version d" "member_seek_key env key version [] = data_prefix key version"
    "base_meta_key env key = BaseKey_Encode (\<lambda>_. 0) key"
  using data_key_junk [OF assms, of "env_junk env"] data_prefix_junk [OF assms, of "env_junk env"] BaseKey_Encode_junk [OF assms, of "env_junk env"]
  by (simp_all add: member_key_def member_seek_key_def base_meta_key_def)

text \<open>The outcomes of reading the meta value when the database answers.\<close>

lemma get_meta_coll [consumes 3, case_names missing expired live]:
  assumes "db_healthy (env_db env) view" and "key_ok key" and "coll_at dt cf (env_now env) (view s) key ds"
  obtains (missing) st mv where "get_meta env dt key mk s = Some (Inr (st, mv))" "is_NotFound st" "st \<noteq> OK" "ds = []"
      "unused_from (view s) cf key (\<lambda>v. env_now env \<le> v)"
  | (expired) p where "get_meta env dt key mk s = Some (Inr (OK, pv_data p))" "ParsedBaseMetaValue_parse True (pv_data p) = Some p"
      "meta_of (view s) key = Some (pv_data p)" "pm_wf p" "pv_type p = dt" "pv_IsStale (env_now env) p \<or> pm_count p = 0" "ds = []"
      "unused_from (view s) cf key (\<lambda>v. pv_version p < v)"
  | (live) p where "get_meta env dt key mk s = Some (Inr (OK, pv_data p))" "ParsedBaseMetaValue_parse True (pv_data p) = Some p"
      "meta_of (view s) key = Some (pv_data p)" "pm_wf p" "pv_type p = dt" "\<not> pv_IsStale (env_now env) p" "pm_count p \<noteq> 0"
      "unused_from (view s) cf key (\<lambda>v. pv_version p < v)" "data_records (view s) cf key (pv_version p) ds"
      "pm_count p = of_nat (length ds)" "length ds < 2 ^ 31"
proof -
  let ?k = "BaseKey_Encode (env_junk env) key"
  have vk: "view s kMetaCF ?k = meta_of (view s) key"
    using assms(2) by (simp add: meta_of_def BaseKey_Encode_junk [of key "env_junk env"])
  from assms(3) show thesis
  proof cases
    case absent
    then have "is_NotFound (fst (db_Get (env_db env) s kMetaCF ?k))" using Get_healthy(2) [OF assms(1)] vk by simp
    then obtain msg v where "db_Get (env_db env) s kMetaCF ?k = (NotFound msg, v)"
      by (cases "db_Get (env_db env) s kMetaCF ?k"; cases "fst (db_Get (env_db env) s kMetaCF ?k)") auto
    then show thesis using that(1) [of "NotFound msg" v] absent by (simp add: get_meta_def)
  next
    case (other_stale mv)
    then have "db_Get (env_db env) s kMetaCF ?k = (OK, mv)" using Get_healthy(1) [OF assms(1)] vk by simp
    then show thesis using that(1) [of "NotFound []" mv] other_stale by (auto simp: get_meta_def ExpectedMetaValue_def)
  next
    case (expired p)
    then have "db_Get (env_db env) s kMetaCF ?k = (OK, pv_data p)" using Get_healthy(1) [OF assms(1)] vk by simp
    then show thesis using that(2) [of p] expired by (simp add: get_meta_def ExpectedMetaValue_def GetMetaValueType_pm pm_wf_D)
  next
    case (live p)
    then have "db_Get (env_db env) s kMetaCF ?k = (OK, pv_data p)" using Get_healthy(1) [OF assms(1)] vk by simp
    then show thesis using that(3) [of p] live by (simp add: get_meta_def ExpectedMetaValue_def GetMetaValueType_pm pm_wf_D)
  qed
qed

lemma Get_member:
  assumes "db_healthy (env_db env) view" and "key_ok key" and "data_records (view s) cf key version ds"
  shows "map_of ds d = Some v \<Longrightarrow> db_Get (env_db env) s cf (member_key env key version d) = (OK, v)"
    and "map_of ds d = None \<Longrightarrow> is_NotFound (fst (db_Get (env_db env) s cf (member_key env key version d)))"
  unfolding member_keys [OF assms(2)]
  using Get_healthy [OF assms(1)] data_records_lookup [OF assms(3,2)] by simp_all

text \<open>Committing changes of one version together with a meta value \<open>p\<close> that counts the members.\<close>

lemma commit_members:
  assumes "db_healthy (env_db env) view" and "key_ok key"
    and "data_records (view (rds_db r)) cf key (pv_version p) ds" and "unused_from (view (rds_db r)) cf key (\<lambda>v. pv_version p < v)"
    and "fold meta_change ops (meta_of (view (rds_db r)) key) = Some (pv_data p)"
    and "pm_wf p" and "pv_type p = dt" and "\<not> pv_IsStale (env_now env) p"
    and "pm_count p = of_nat (length (fold member_change ops ds))" and "length (fold member_change ops ds) < 2 ^ 31"
  shows "\<exists>r'. redis_Write env (map (member_write cf key (pv_version p)) ops) r = (OK, r') \<and>
    rds_statistics_store r' = rds_statistics_store r \<and>
    coll_at dt cf (env_now env) (view (rds_db r')) key (fold member_change ops ds) \<and>
    data_frame key (pv_version p) cf (view (rds_db r)) (view (rds_db r'))"
proof -
  let ?ops = "map (member_write cf key (pv_version p)) ops"
  let ?m = "apply_batch sc ?ops (view (rds_db r))"
  obtain r' where r': "redis_Write env ?ops r = (OK, r')" "rds_statistics_store r' = rds_statistics_store r"
      "\<And>cf. cf \<noteq> kZsetsScoreCF \<Longrightarrow> view (rds_db r') cf = ?m cf"
    using redis_Write_healthy [OF assms(1), of ?ops r] by blast
  have "data_frame key (pv_version p) cf (view (rds_db r)) ?m"
    by (rule data_op_frame [OF slice_order_axioms member_cf(1,2) assms(2)]) (auto simp: member_write_data_op)
  then have frame: "data_frame key (pv_version p) cf (view (rds_db r)) (view (rds_db r'))"
    using r'(3) member_cf(3) by (simp add: data_frame_def)
  have "coll_at dt cf (env_now env) (view (rds_db r')) key (fold member_change ops ds)"
  proof (rule coll_atI [OF _ assms(6-8)])
    show "meta_of (view (rds_db r')) key = Some (pv_data p)"
      using member_ops_meta [OF slice_order_axioms member_cf(2) assms(2), of "pv_version p" ops "view (rds_db r)"] r'(3) [of kMetaCF] assms(2,5)
      by (simp add: meta_of_def)
    show "unused_from (view (rds_db r')) cf key (\<lambda>v. pv_version p < v)"
      by (rule unused_frame [OF frame assms(2) member_cf(2) assms(4)]) simp
    show "data_records (view (rds_db r')) cf key (pv_version p) (fold member_change ops ds)"
      using member_ops_records [OF slice_order_axioms member_cf(1,2) assms(2,3), of ops] data_records_cong [of "view (rds_db r')" cf ?m]
        r'(3) member_cf(3) by simp
  qed (use assms in simp_all)
  then show ?thesis using r'(1,2) frame by blast
qed


text \<open>Committing the first members of a collection that is absent or has expired.\<close>

lemma new_base_meta_ok:
  assumes "stamp_ok (env_now env)" and "new_base_meta env dt n = (version, mv)"
  obtains p where "pv_data p = mv" "pm_wf p" "pv_type p = dt" "pv_version p = version" "pm_count p = n" "env_now env \<le> version"
    "\<not> pv_IsStale (env_now env) p"
proof -
  let ?v = "BaseMetaValue_UpdateVersion (env_now env) (InternalValue_new (env_now env) dt (EncodeFixed32 n))"
  let ?p = "\<lparr>pv_data = mv, pv_owned = True, pv_user_len = 4, pv_version = version, pv_ctime = env_now env, pv_etime = 0,
    pv_type = dt, pm_count = n\<rparr>"
  have v: "iv_version ?v = version" "BaseMetaValue_Encode (env_junk env) ?v = mv" using assms(2) by (simp_all add: new_base_meta_def Let_def)
  have "DataType_of_byte (byte_of_DataType dt) = dt" using member_types by (auto simp: DataType_of_byte_def)
  then have "ParsedBaseMetaValue_parse True mv = Some ?p"
    using BaseMetaValue_parse [of ?v n True "env_junk env"] assms(1) v
    by (auto simp: BaseMetaValue_UpdateVersion_def InternalValue_new_def split: if_splits)
  then have "pm_wf ?p" using v(2) by (auto simp: pm_wf_def BaseMetaValue_Encode_layout InternalValue_new_def BaseMetaValue_UpdateVersion_def)
  moreover have "env_now env \<le> version"
    using v(1) by (auto simp: BaseMetaValue_UpdateVersion_def InternalValue_new_def split: if_splits)
  ultimately show thesis using that [of ?p] by (simp add: pv_IsStale_def)
qed


lemma commit_new:
  assumes "db_healthy (env_db env) view" and "key_ok key" and "stamp_ok (env_now env)"
    and "unused_from (view (rds_db r)) cf key (\<lambda>v. env_now env \<le> v)"
    and "new_base_meta env dt (of_nat (length (fold member_change ops []))) = (version, mv)"
    and "length (fold member_change ops []) < 2 ^ 31"
    and "\<forall>op \<in> set ops. \<forall>mv. op \<noteq> MMeta mv"
  shows "\<exists>r'. redis_Write env (map (member_write cf key version) (MMeta mv # ops)) r = (OK, r') \<and>
    rds_statistics_store r' = rds_statistics_store r \<and>
    coll_at dt cf (env_now env) (view (rds_db r')) key (fold member_change ops []) \<and>
    data_frame key version cf (view (rds_db r)) (view (rds_db r'))"
proof -
  obtain p where p: "pv_data p = mv" "pm_wf p" "pv_type p = dt" "pv_version p = version"
      "pm_count p = of_nat (length (fold member_change ops []))" "env_now env \<le> version" "\<not> pv_IsStale (env_now env) p"
    using new_base_meta_ok [OF assms(3,5)] .
  have unused: "data_records (view (rds_db r)) cf key (pv_version p) []" "unused_from (view (rds_db r)) cf key (\<lambda>v. pv_version p < v)"
    using unused_later [OF assms(4), of version] p(4,6) by auto
  have "fold meta_change (MMeta mv # ops) (meta_of (view (rds_db r)) key) = Some (pv_data p)"
    using fold_meta_change [OF assms(7)] by (simp add: p(1))
  then show ?thesis
    using commit_members [OF assms(1,2) unused _ p(2,3,7), of "MMeta mv # ops"] p(4,5) assms(6) by auto
qed

lemma commit_renewed:
  assumes "db_healthy (env_db env) view" and "key_ok key" and "version_room (view (rds_db r)) key"
    and "meta_of (view (rds_db r)) key = Some (pv_data p0)" and "pm_wf p0"
    and "unused_from (view (rds_db r)) cf key (\<lambda>v. pv_version p0 < v)"
    and "pv_version p = (if pv_version p0 \<ge> env_now env then pv_version p0 + 1 else env_now env)"
    and "pm_wf p" and "pv_type p = dt" and "pv_etime p = 0"
    and "pm_count p = of_nat (length (fold member_change ops []))"
    and "length (fold member_change ops []) < 2 ^ 31" and "\<forall>op \<in> set ops. \<forall>mv. op \<noteq> MMeta mv"
  shows "\<exists>r'. redis_Write env (map (member_write cf key (pv_version p)) (MMeta (pv_data p) # ops)) r = (OK, r') \<and>
    rds_statistics_store r' = rds_statistics_store r \<and>
    coll_at dt cf (env_now env) (view (rds_db r')) key (fold member_change ops []) \<and>
    data_frame key (pv_version p) cf (view (rds_db r)) (view (rds_db r'))"
proof -
  have less: "pv_version p0 < pv_version p"
    unfolding assms(7) by (rule next_version_increases) (rule version_roomD [OF assms(3-5)])
  have unused: "data_records (view (rds_db r)) cf key (pv_version p) []" "unused_from (view (rds_db r)) cf key (\<lambda>v. pv_version p < v)"
    using unused_later [OF assms(6), of "pv_version p"] less by auto
  have "fold meta_change (MMeta (pv_data p) # ops) (meta_of (view (rds_db r)) key) = Some (pv_data p)"
    using fold_meta_change [OF assms(13)] by simp
  then show ?thesis
    using commit_members [OF assms(1,2) unused _ assms(8,9), of "MMeta (pv_data p) # ops"] assms(10-12)
    by (auto simp: pv_IsStale_def)
qed

text \<open>Changing a live collection; the new meta value \<open>p'\<close> has the same version and expiry.\<close>

lemma change_live:
  assumes "db_healthy (env_db env) view" and "key_ok key" and "live_coll dt cf (env_now env) (view (rds_db r)) key p ds"
    and "fold meta_change ops (Some (pv_data p)) = Some (pv_data p')" and "pm_wf p'" and "pv_type p' = dt"
    and "pv_version p' = pv_version p" and "pv_etime p' = pv_etime p"
    and "pm_count p' = of_nat (length (fold member_change ops ds))" and "length (fold member_change ops ds) < 2 ^ 31"
  shows "\<exists>r'. redis_Write env (map (member_write cf key (pv_version p)) ops) r = (OK, r') \<and>
    rds_statistics_store r' = rds_statistics_store r \<and>
    coll_at dt cf (env_now env) (view (rds_db r')) key (fold member_change ops ds) \<and>
    data_frame key (pv_version p) cf (view (rds_db r)) (view (rds_db r'))"
proof -
  note l = assms(3) [unfolded live_coll_def]
  have stale: "\<not> pv_IsStale (env_now env) p'" using l assms(8) by (auto simp: pv_IsStale_def)
  have rec: "data_records (view (rds_db r)) cf key (pv_version p') ds"
    and un: "unused_from (view (rds_db r)) cf key (\<lambda>v. pv_version p' < v)" using l assms(7) by simp_all
  have meta: "fold meta_change ops (meta_of (view (rds_db r)) key) = Some (pv_data p')" using l assms(4) by simp
  show ?thesis
    using commit_members [OF assms(1,2) rec un meta assms(5,6) stale assms(9,10)] unfolding assms(7) .
qed

text \<open>Replacing the meta value alone: by that of a collection without members and a new version, and by one with another
  expiry.\<close>

lemma write_meta:
  assumes "db_healthy (env_db env) view" and "key_ok key"
  shows "\<exists>r'. redis_Write env [Put kMetaCF (base_meta_key env key) mv] r = (OK, r') \<and> rds_statistics_store r' = rds_statistics_store r \<and>
    meta_of (view (rds_db r')) key = Some mv \<and> view (rds_db r') cf = view (rds_db r) cf \<and> data_frame key 0 cf (view (rds_db r)) (view (rds_db r'))"
proof -
  let ?op = "Put kMetaCF (base_meta_key env key) mv"
  obtain r' where r': "redis_Write env [?op] r = (OK, r')" "rds_statistics_store r' = rds_statistics_store r"
      "\<And>cf. cf \<noteq> kZsetsScoreCF \<Longrightarrow> view (rds_db r') cf = apply_batch sc [?op] (view (rds_db r)) cf"
    using redis_Write_healthy [OF assms(1), of "[?op]" r] by blast
  have "data_frame key 0 cf (view (rds_db r)) (apply_batch sc [?op] (view (rds_db r)))"
    by (rule data_op_frame [OF slice_order_axioms member_cf(1,2) assms(2)]) (auto simp: data_op_def member_keys [OF assms(2)])
  then have "data_frame key 0 cf (view (rds_db r)) (view (rds_db r'))" using r'(3) member_cf(3) by (simp add: data_frame_def)
  moreover have "meta_of (view (rds_db r')) key = Some mv"
    using r'(3) [of kMetaCF] assms(2) meta_put(1) [OF slice_order_axioms assms(2)]
    by (simp add: meta_of_def apply_batch_simps member_keys [OF assms(2)])
  moreover have "view (rds_db r') cf = view (rds_db r) cf"
    using r'(3) [OF member_cf(3)] meta_put(2) [OF slice_order_axioms assms(2)] member_cf(2) by (simp add: apply_batch_simps)
  ultimately show ?thesis using r'(1,2) by blast
qed

lemma renew_meta:
  assumes "db_healthy (env_db env) view" and "key_ok key" and "live_coll dt cf (env_now env) (view (rds_db r)) key p ds"
    and "version_room (view (rds_db r)) key"
  defines "p' \<equiv> pm_InitialMetaValue (env_now env) p"
  shows "\<exists>r'. redis_Write env [Put kMetaCF (base_meta_key env key) (pv_data p')] r = (OK, r') \<and> rds_statistics_store r' = rds_statistics_store r \<and>
    (\<forall>t. coll_at dt cf t (view (rds_db r')) key []) \<and> data_frame key 0 cf (view (rds_db r)) (view (rds_db r'))"
proof -
  note l = assms(3) [unfolded live_coll_def]
  obtain r1 where r1: "redis_Write env [Put kMetaCF (base_meta_key env key) (pv_data p')] r = (OK, r1)" "rds_statistics_store r1 = rds_statistics_store r"
      "meta_of (view (rds_db r1)) key = Some (pv_data p')" "view (rds_db r1) cf = view (rds_db r) cf"
      "data_frame key 0 cf (view (rds_db r)) (view (rds_db r1))"
    using write_meta [OF assms(1,2), of "pv_data p'" r] by blast
  have less: "pv_version p < pv_version p'"
    unfolding p'_def pm_initial_effects by (rule next_version_increases) (use l version_roomD [OF assms(4)] in blast)
  have "unused_from (view (rds_db r)) cf key (\<lambda>v. pv_version p < v)" using l by blast
  from unused_later(2) [OF this less] have unused: "unused_from (view (rds_db r1)) cf key (\<lambda>v. pv_version p' < v)"
    unfolding unused_cong [of "view (rds_db r1)" _ "view (rds_db r)", OF r1(4)] using less by auto
  have "coll_at dt cf t (view (rds_db r1)) key []" for t
    by (rule coll_at.expired [OF r1(3) _ _ _ unused]) (use l in \<open>auto simp: p'_def pm_intros\<close>)
  then show ?thesis using r1(1,2,5) by blast
qed

lemma restamp_meta:
  assumes "db_healthy (env_db env) view" and "key_ok key" and "live_coll dt cf (env_now env) (view (rds_db r)) key p ds" and "ds \<noteq> []"
    and "pm_wf p'" and "pv_type p' = dt" and "pv_version p' = pv_version p" and "pm_count p' = pm_count p"
  shows "\<exists>r'. redis_Write env [Put kMetaCF (base_meta_key env key) (pv_data p')] r = (OK, r') \<and> rds_statistics_store r' = rds_statistics_store r \<and>
    (\<forall>t. coll_at dt cf t (view (rds_db r')) key (if pv_IsStale t p' then [] else ds)) \<and> data_frame key 0 cf (view (rds_db r)) (view (rds_db r'))"
proof -
  note l = assms(3) [unfolded live_coll_def]
  obtain r1 where r1: "redis_Write env [Put kMetaCF (base_meta_key env key) (pv_data p')] r = (OK, r1)" "rds_statistics_store r1 = rds_statistics_store r"
      "meta_of (view (rds_db r1)) key = Some (pv_data p')" "view (rds_db r1) cf = view (rds_db r) cf"
      "data_frame key 0 cf (view (rds_db r)) (view (rds_db r1))"
    using write_meta [OF assms(1,2), of "pv_data p'" r] by blast
  have unused: "unused_from (view (rds_db r1)) cf key (\<lambda>v. pv_version p' < v)"
    unfolding unused_cong [of "view (rds_db r1)" _ "view (rds_db r)", OF r1(4)] using l assms(7) by simp
  have rec: "data_records (view (rds_db r1)) cf key (pv_version p') ds"
    using l r1(4) assms(7) data_records_cong [of "view (rds_db r1)" cf "view (rds_db r)"] by simp
  have "coll_at dt cf t (view (rds_db r1)) key (if pv_IsStale t p' then [] else ds)" for t
  proof (cases "pv_IsStale t p'")
    case True
    have "coll_at dt cf t (view (rds_db r1)) key []" by (rule coll_at.expired [OF r1(3) assms(5,6) _ unused]) (use True in simp)
    then show ?thesis using True by simp
  next
    case False
    have "coll_at dt cf t (view (rds_db r1)) key ds"
      by (rule coll_atI [OF r1(3) assms(5,6) False unused rec]) (use l assms(8) in simp_all)
    then show ?thesis using False by simp
  qed
  then show ?thesis using r1(1,2,5) by blast
qed

end

end
