(* ===== verification/HashesCorrect.thy ===== *)
theory HashesCorrect
  imports Hashes MembersCorrect
begin

text \<open>
  The hash commands implement maps. \<open>hash_at env m key h\<close> says that the contents \<open>m\<close> of the database hold, under \<open>key\<close>
  and at the time of \<open>env\<close>, the hash with the fields and values \<open>h\<close>, in the order of the fields. The lemmas hold for every
  database that behaves as documented and answers.
\<close>

declare apply_op.simps [simp del]

section \<open>Hashes in the database\<close>

abbreviation user_values :: "(bytes \<times> bytes) list \<Rightarrow> (bytes \<times> bytes) list" where
  "user_values ds \<equiv> map (map_prod (\<lambda>d. d) ParsedBaseDataValue_UserValue) ds"

definition hash_at :: "'s env \<Rightarrow> contents \<Rightarrow> bytes \<Rightarrow> (bytes \<times> bytes) list \<Rightarrow> bool" where
  "hash_at env m key h \<longleftrightarrow> (\<exists>ds. coll_at kHashes kHashesDataCF (env_now env) m key ds \<and> (\<forall>x \<in> set ds. 24 \<le> length (snd x)) \<and>
     h = user_values ds)"

text \<open>Only the meta value of \<open>key\<close> and field records of one version of it may differ.\<close>

definition hash_frame :: "bytes \<Rightarrow> contents \<Rightarrow> contents \<Rightarrow> bool" where
  "hash_frame key m m' \<longleftrightarrow> (\<exists>version. data_frame key version kHashesDataCF m m')"

lemma hash_frameI: "data_frame key version kHashesDataCF m m' \<Longrightarrow> hash_frame key m m'"
  by (auto simp: hash_frame_def)

lemma map_of_user_values: "map_of (user_values ds) f = map_option ParsedBaseDataValue_UserValue (map_of ds f)"
  by (induction ds) auto

lemma hash_at_sorted: "hash_at env m key h \<Longrightarrow> key_sorted h"
  by (auto simp: hash_at_def sorted_wrt_map dest!: coll_at_sorted)

lemma StripSuffix_user: "24 \<le> length v \<Longrightarrow> ParsedBaseDataValue_StripSuffix v = Some (ParsedBaseDataValue_UserValue v)"
  by (simp add: ParsedBaseDataValue_StripSuffix_def ParsedBaseDataValue_UserValue_def)

lemma long_values: "\<forall>x \<in> set ds. 24 \<le> length (snd x) \<Longrightarrow> map_of ds f = Some v \<Longrightarrow> 24 \<le> length v"
  by (force dest: map_of_SomeD)

section \<open>Loops over the fields\<close>

lemma HGetall_loop_run:
  assumes "key_ok key" and "rest \<noteq> [] \<Longrightarrow> \<not> prefix (data_prefix key version) (fst (hd rest))"
  shows "HGetall_loop (data_prefix key version) (map (\<lambda>(d, v). (data_key key version d, v)) ds @ rest) =
    Some (map (\<lambda>(f, v). FieldValue f v) (user_values ds))"
proof (induction ds)
  case Nil
  show ?case using assms(2) by (cases rest) auto
qed (auto simp: assms(1) BaseDataKey_decode_Encode)

lemma HKeys_loop_run:
  assumes "key_ok key" and "rest \<noteq> [] \<Longrightarrow> \<not> prefix (data_prefix key version) (fst (hd rest))"
  shows "HKeys_loop (data_prefix key version) (map (\<lambda>(d, v). (data_key key version d, v)) ds @ rest) = Some (map fst ds)"
proof (induction ds)
  case Nil
  show ?case using assms(2) by (cases rest) auto
qed (auto simp: assms(1) BaseDataKey_decode_Encode)

lemma HVals_loop_run:
  assumes "key_ok key" and "rest \<noteq> [] \<Longrightarrow> \<not> prefix (data_prefix key version) (fst (hd rest))"
  shows "HVals_loop (data_prefix key version) (map (\<lambda>(d, v). (data_key key version d, v)) ds @ rest) = map snd (user_values ds)"
proof (induction ds)
  case Nil
  show ?case using assms(2) by (cases rest) auto
qed (auto simp: assms(1))

section \<open>Reading commands\<close>

sublocale engine \<subseteq> hashes: members env view kHashes kHashesDataCF
  by unfold_locales simp

context engine
begin

text \<open>The cases of a hash.\<close>

lemma get_meta_hash [consumes 3, case_names missing expired live]:
  assumes "db_healthy (env_db env) view" and "key_ok key" and "hash_at env (view s) key h"
  obtains (missing) st mv where "get_meta env kHashes key key s = Some (Inr (st, mv))" "is_NotFound st" "st \<noteq> OK" "h = []"
      "unused_from (view s) kHashesDataCF key (\<lambda>v. env_now env \<le> v)"
  | (expired) p where "get_meta env kHashes key key s = Some (Inr (OK, pv_data p))" "ParsedBaseMetaValue_parse True (pv_data p) = Some p"
      "meta_of (view s) key = Some (pv_data p)" "pm_wf p" "pv_type p = kHashes" "pv_IsStale (env_now env) p \<or> pm_count p = 0" "h = []"
      "unused_from (view s) kHashesDataCF key (\<lambda>v. pv_version p < v)"
  | (live) p ds where "get_meta env kHashes key key s = Some (Inr (OK, pv_data p))" "ParsedBaseMetaValue_parse True (pv_data p) = Some p"
      "meta_of (view s) key = Some (pv_data p)" "pm_wf p" "pv_type p = kHashes" "\<not> pv_IsStale (env_now env) p" "pm_count p \<noteq> 0"
      "unused_from (view s) kHashesDataCF key (\<lambda>v. pv_version p < v)" "data_records (view s) kHashesDataCF key (pv_version p) ds"
      "pm_count p = of_nat (length ds)" "length ds < 2 ^ 31" "\<forall>x \<in> set ds. 24 \<le> length (snd x)" "h = user_values ds" "ds \<noteq> []"
proof -
  obtain ds where ds: "coll_at kHashes kHashesDataCF (env_now env) (view s) key ds" "\<forall>x \<in> set ds. 24 \<le> length (snd x)" "h = user_values ds"
    using assms(3) by (auto simp: hash_at_def)
  show thesis
  proof (cases rule: hashes.get_meta_coll [OF assms(1,2) ds(1), of key])
    case (1 st mv)
    then show thesis using ds that(1) by simp
  next
    case (2 p)
    then show thesis using ds that(2) by simp
  next
    case (3 p)
    then have "ds \<noteq> []" by auto
    then show thesis using 3 ds that(3) by blast
  qed
qed

lemma HGet_ok:
  assumes "db_healthy (env_db env) view" and "key_ok key" and "hash_at env (view (rds_db r)) key h"
  shows "case map_of h f of Some v \<Rightarrow> HGet env key f r = Some (OK, v)
    | None \<Rightarrow> \<exists>st v. HGet env key f r = Some (st, v) \<and> is_NotFound st"
  using assms
proof (cases rule: get_meta_hash)
  case (live p ds)
  let ?g = "db_Get (env_db env) (rds_db r) kHashesDataCF (member_key env key (pv_version p) f)"
  show ?thesis
  proof (cases "map_of ds f")
    case None
    then have "is_NotFound (fst ?g)" using hashes.Get_member(2) [OF assms(1,2) live(9)] by simp
    then show ?thesis using live None by (cases ?g; cases "fst ?g") (auto simp: HGet_def map_of_user_values)
  next
    case (Some v)
    then have "?g = (OK, v)" using hashes.Get_member(1) [OF assms(1,2) live(9)] by simp
    then show ?thesis using live Some long_values [OF live(12) Some] by (simp add: HGet_def map_of_user_values StripSuffix_user)
  qed
qed (auto simp: HGet_def)

text \<open>What a scan of all fields of a hash that is not empty finds.\<close>

lemma hash_scan:
  assumes "db_healthy (env_db env) view" and "key_ok key" and "hash_at env (view (rds_db r)) key h" and "stats_ok r" and "h \<noteq> []"
  obtains p ds rest r' where "get_meta env kHashes key key (rds_db r) = Some (Inr (OK, pv_data p))"
    "ParsedBaseMetaValue_parse True (pv_data p) = Some p" "\<not> pv_IsStale (env_now env) p" "pm_count p \<noteq> 0"
    "data_records (view (rds_db r)) kHashesDataCF key (pv_version p) ds" "h = user_values ds" "\<forall>x \<in> set ds. 24 \<le> length (snd x)"
    "it_Seek (env_db env) (rds_db r) kHashesDataCF (data_prefix key (pv_version p)) =
      map (\<lambda>(d, v). (data_key key (pv_version p) d, v)) ds @ rest"
    "rest \<noteq> [] \<Longrightarrow> \<not> prefix (data_prefix key (pv_version p)) (fst (hd rest))"
    "KeyStatisticsDurationGuard us kHashes key r = Some r'" "stats_ok r'" "rds_db r' = rds_db r"
  using assms(1-3)
proof (cases rule: get_meta_hash)
  case (live p ds)
  obtain rest where rest: "it_Seek (env_db env) (rds_db r) kHashesDataCF (data_prefix key (pv_version p)) =
      map (\<lambda>(d, v). (data_key key (pv_version p) d, v)) ds @ rest"
      "rest \<noteq> [] \<Longrightarrow> \<not> prefix (data_prefix key (pv_version p)) (fst (hd rest))"
    using seek_all_records [OF hashes.member_cf(1) assms(2) live(9)] by blast
  obtain r' where r': "KeyStatisticsDurationGuard us kHashes key r = Some r'" "stats_ok r'" "rds_db r' = rds_db r"
    using guard_ok [OF assms(4) hashes.member_cf(4), of us key] by blast
  show thesis by (rule that [OF live(1,2,6,7,9,13,12) rest r'])
qed (use assms(5) in simp_all)

lemma HGetall_ok:
  assumes "db_healthy (env_db env) view" and "key_ok key" and "hash_at env (view (rds_db r)) key h" and "stats_ok r"
  shows "\<exists>st r'. HGetall env us key r = Some ((st, map (\<lambda>(f, v). FieldValue f v) h), r') \<and> (h \<noteq> [] \<longrightarrow> st = OK) \<and>
    (h = [] \<longrightarrow> is_NotFound st) \<and> stats_ok r' \<and> rds_db r' = rds_db r"
proof (cases "h = []")
  case True
  show ?thesis using assms(1-3) by (cases rule: get_meta_hash) (use assms(4) True in \<open>auto simp: HGetall_def\<close>)
next
  case False
  show ?thesis
    by (rule hash_scan [OF assms False, of us])
      (use False in \<open>auto simp: HGetall_def hashes.member_keys [OF assms(2)] Let_def HGetall_loop_run [OF assms(2)]\<close>)
qed

lemma HKeys_ok:
  assumes "db_healthy (env_db env) view" and "key_ok key" and "hash_at env (view (rds_db r)) key h" and "stats_ok r"
  shows "\<exists>st r'. HKeys env us key r = Some ((st, map fst h), r') \<and> (h \<noteq> [] \<longrightarrow> st = OK) \<and>
    (h = [] \<longrightarrow> is_NotFound st) \<and> stats_ok r' \<and> rds_db r' = rds_db r"
proof (cases "h = []")
  case True
  show ?thesis using assms(1-3) by (cases rule: get_meta_hash) (use assms(4) True in \<open>auto simp: HKeys_def\<close>)
next
  case False
  show ?thesis
    by (rule hash_scan [OF assms False, of us])
      (use False in \<open>auto simp: HKeys_def hashes.member_keys [OF assms(2)] Let_def HKeys_loop_run [OF assms(2)]\<close>)
qed

lemma HVals_ok:
  assumes "db_healthy (env_db env) view" and "key_ok key" and "hash_at env (view (rds_db r)) key h" and "stats_ok r"
  shows "\<exists>st r'. HVals env us key r = Some ((st, map snd h), r') \<and> (h \<noteq> [] \<longrightarrow> st = OK) \<and>
    (h = [] \<longrightarrow> is_NotFound st) \<and> stats_ok r' \<and> rds_db r' = rds_db r"
proof (cases "h = []")
  case True
  show ?thesis using assms(1-3) by (cases rule: get_meta_hash) (use assms(4) True in \<open>auto simp: HVals_def\<close>)
next
  case False
  show ?thesis
    by (rule hash_scan [OF assms False, of us])
      (use False in \<open>auto simp: HVals_def hashes.member_keys [OF assms(2)] Let_def HVals_loop_run [OF assms(2)]\<close>)
qed

lemma HLen_ok:
  assumes "db_healthy (env_db env) view" and "key_ok key" and "hash_at env (view (rds_db r)) key h"
  shows "\<exists>st. HLen env key [] r = Some (st, of_nat (length h)) \<and> (if h = [] then is_NotFound st else st = OK)"
  using assms by (cases rule: get_meta_hash) (auto simp: HLen_def)

lemma HMGet_loop_ok:
  assumes "db_healthy (env_db env) view" and "key_ok key" and "data_records (view s) kHashesDataCF key version ds"
    and "\<forall>x \<in> set ds. 24 \<le> length (snd x)"
  shows "HMGet_loop env key version s fs = Some (Inr (map (\<lambda>f. case map_of (user_values ds) f of
    Some v \<Rightarrow> ValueStatus v OK | None \<Rightarrow> ValueStatus [] (NotFound [])) fs))"
proof (induction fs)
  case (Cons f fs)
  let ?g = "db_Get (env_db env) s kHashesDataCF (member_key env key version f)"
  show ?case
  proof (cases "map_of ds f")
    case None
    then have "is_NotFound (fst ?g)" using hashes.Get_member(2) [OF assms(1-3)] by simp
    then show ?thesis using Cons None by (cases ?g; cases "fst ?g") (auto simp: map_of_user_values)
  next
    case (Some v)
    then have "?g = (OK, v)" using hashes.Get_member(1) [OF assms(1-3)] by simp
    then show ?thesis using Cons Some long_values [OF assms(4) Some] by (simp add: map_of_user_values StripSuffix_user)
  qed
qed simp

lemma HMGet_ok:
  assumes "db_healthy (env_db env) view" and "key_ok key" and "hash_at env (view (rds_db r)) key h"
  shows "\<exists>st. HMGet env key fs r = Some (st, map (\<lambda>f. case map_of h f of Some v \<Rightarrow> ValueStatus v OK | None \<Rightarrow> ValueStatus [] (NotFound [])) fs) \<and>
    (if h = [] then is_NotFound st else st = OK)"
  using assms
proof (cases rule: get_meta_hash)
  case (live p ds)
  then show ?thesis using HMGet_loop_ok [OF assms(1,2) live(9,12), of fs] by (simp add: HMGet_def)
qed (auto simp: HMGet_def)

end

end
