(* ===== verification/HashesOps.thy ===== *)
theory HashesOps
  imports HashesCorrect
begin

text \<open>The hash commands that write, and the scans from a field on, for every database that behaves as documented and answers.\<close>

declare apply_op.simps [simp del]

lemma sint_count: "n < 2 ^ 31 \<Longrightarrow> sint (of_nat n :: i32) = int n"
  by (simp add: sint_uint unsigned_of_nat signed_take_bit_int_eq_self take_bit_nat_eq_self)

lemma sint_neg_count:
  assumes "n < 2 ^ 31"
  shows "sint (- of_nat n :: i32) = - int n"
proof -
  have "(- of_nat n :: i32) = of_int (- int n)" by simp
  then have "sint (- of_nat n :: i32) = signed_take_bit 31 (- int n)" by (simp only: signed_of_int) simp
  then show ?thesis using assms by (simp add: signed_take_bit_int_eq_self)
qed

lemma hash_atI:
  assumes "coll_at kHashes kHashesDataCF (env_now env) m key ds" and "\<forall>x \<in> set ds. 24 \<le> length (snd x)"
  shows "hash_at env m key (user_values ds)"
  using assms by (auto simp: hash_at_def)

lemma put_values:
  assumes "\<forall>x \<in> set ds. 24 \<le> length (snd x)"
  shows "\<forall>x \<in> set (ds_put f (i_val env v) ds). 24 \<le> length (snd x)"
  using assms set_ds_put [of f "i_val env v" ds] by auto

lemma CheckModifyCount_ok:
  "pm_count p = of_nat n \<Longrightarrow> n + 1 < 2 ^ 31 \<Longrightarrow> pm_CheckModifyCount 1 p"
  using sint_count [of n] by (simp add: pm_CheckModifyCount_def Let_def)

section \<open>Committing changes of a hash\<close>

context engine
begin

text \<open>Writing the batch \<open>ops\<close> succeeds and makes the hash of \<open>key\<close> equal to \<open>h\<close>.\<close>

definition writes_hash :: "bytes \<Rightarrow> 's redis \<Rightarrow> WriteOp list \<Rightarrow> (bytes \<times> bytes) list \<Rightarrow> bool" where
  "writes_hash key r ops h \<longleftrightarrow> (\<exists>r1. redis_Write env ops r = (OK, r1) \<and> rds_statistics_store r1 = rds_statistics_store r \<and>
     hash_at env (view (rds_db r1)) key h \<and> hash_frame key (view (rds_db r)) (view (rds_db r1)))"

lemma hash_commit_ok:
  assumes "writes_hash key r ops h" and "stats_ok r"
  shows "\<exists>r'. hash_commit env key ops st ret r = Some ((OK, ret), r') \<and> stats_ok r' \<and>
    hash_at env (view (rds_db r')) key h \<and> hash_frame key (view (rds_db r)) (view (rds_db r'))"
proof -
  obtain r1 where r1: "redis_Write env ops r = (OK, r1)" "rds_statistics_store r1 = rds_statistics_store r"
      "hash_at env (view (rds_db r1)) key h" "hash_frame key (view (rds_db r)) (view (rds_db r1))"
    using assms(1) by (auto simp: writes_hash_def)
  have "stats_ok r1" using assms(2) r1(2) by (simp add: stats_ok_def)
  from UpdateSpecificKeyStatistics_ok [OF this, of kHashes key "ucast st"] show ?thesis
    using r1 by (auto simp: hash_commit_def)
qed

lemma put_new_fields:
  assumes "db_healthy (env_db env) view" and "key_ok key" and "stamp_ok (env_now env)"
    and "unused_from (view (rds_db r)) kHashesDataCF key (\<lambda>v. env_now env \<le> v)"
    and "new_base_meta env kHashes (of_nat (length (fold member_change ops []))) = (version, mv)"
    and "length (fold member_change ops []) < 2 ^ 31" and "\<forall>op \<in> set ops. \<forall>mv. op \<noteq> MMeta mv"
    and "\<forall>x \<in> set (fold member_change ops []). 24 \<le> length (snd x)"
  shows "writes_hash key r (map (member_write kHashesDataCF key version) (MMeta mv # ops)) (user_values (fold member_change ops []))"
  using hashes.commit_new [OF assms(1-7)] hash_atI [OF _ assms(8)] unfolding writes_hash_def by (blast intro: hash_frameI)

lemma put_renewed_fields:
  assumes "db_healthy (env_db env) view" and "key_ok key" and "version_room (view (rds_db r)) key"
    and "meta_of (view (rds_db r)) key = Some (pv_data p0)" and "pm_wf p0"
    and "unused_from (view (rds_db r)) kHashesDataCF key (\<lambda>v. pv_version p0 < v)"
    and "pv_version p = (if pv_version p0 \<ge> env_now env then pv_version p0 + 1 else env_now env)"
    and "pm_wf p" and "pv_type p = kHashes" and "pv_etime p = 0" and "pm_count p = of_nat (length (fold member_change ops []))"
    and "length (fold member_change ops []) < 2 ^ 31" and "\<forall>op \<in> set ops. \<forall>mv. op \<noteq> MMeta mv"
    and "\<forall>x \<in> set (fold member_change ops []). 24 \<le> length (snd x)"
  shows "writes_hash key r (map (member_write kHashesDataCF key (pv_version p)) (MMeta (pv_data p) # ops))
    (user_values (fold member_change ops []))"
  using hashes.commit_renewed [OF assms(1-13)] hash_atI [OF _ assms(14)] unfolding writes_hash_def by (blast intro: hash_frameI)

lemma change_hash:
  assumes "db_healthy (env_db env) view" and "key_ok key" and "live_coll kHashes kHashesDataCF (env_now env) (view (rds_db r)) key p ds"
    and "fold meta_change ops (Some (pv_data p)) = Some (pv_data p')" and "pm_wf p'" and "pv_type p' = kHashes"
    and "pv_version p' = pv_version p" and "pv_etime p' = pv_etime p"
    and "pm_count p' = of_nat (length (fold member_change ops ds))" and "length (fold member_change ops ds) < 2 ^ 31"
    and "\<forall>x \<in> set (fold member_change ops ds). 24 \<le> length (snd x)"
  shows "writes_hash key r (map (member_write kHashesDataCF key (pv_version p)) ops) (user_values (fold member_change ops ds))"
  using hashes.change_live [OF assms(1-10)] hash_atI [OF _ assms(11)] unfolding writes_hash_def by (blast intro: hash_frameI)

text \<open>Putting one field, in the states a hash can be in.\<close>

lemma put_new_field:
  assumes "db_healthy (env_db env) view" and "key_ok key" and "stamp_ok (env_now env)"
    and "unused_from (view (rds_db r)) kHashesDataCF key (\<lambda>v. env_now env \<le> v)" and "new_base_meta env kHashes 1 = (version, mv)"
  shows "writes_hash key r [Put kMetaCF (base_meta_key env key) mv, Put kHashesDataCF (member_key env key version f) (i_val env v)] [(f, v)]"
  using put_new_fields [OF assms(1-4), of "[MPut f (i_val env v)]" version mv] assms(5)
  by (simp add: ds_put_def hashes.member_keys [OF assms(2)])

lemma put_renewed_field:
  assumes "db_healthy (env_db env) view" and "key_ok key" and "version_room (view (rds_db r)) key"
    and "meta_of (view (rds_db r)) key = Some (pv_data p0)" and "pm_wf p0"
    and "unused_from (view (rds_db r)) kHashesDataCF key (\<lambda>v. pv_version p0 < v)"
    and "pv_version p = (if pv_version p0 \<ge> env_now env then pv_version p0 + 1 else env_now env)"
    and "pm_wf p" and "pv_type p = kHashes" and "pv_etime p = 0" and "pm_count p = 1"
  shows "writes_hash key r [Put kMetaCF (base_meta_key env key) (pv_data p),
    Put kHashesDataCF (member_key env key (pv_version p) f) (i_val env v)] [(f, v)]"
  using put_renewed_fields [OF assms(1-10), of "[MPut f (i_val env v)]"] assms(11)
  by (simp add: ds_put_def hashes.member_keys [OF assms(2)])

lemma put_live_field:
  assumes "db_healthy (env_db env) view" and "key_ok key" and "live_coll kHashes kHashesDataCF (env_now env) (view (rds_db r)) key p ds"
    and "\<forall>x \<in> set ds. 24 \<le> length (snd x)"
  shows "map_of ds f \<noteq> None \<Longrightarrow>
      writes_hash key r [Put kHashesDataCF (member_key env key (pv_version p) f) (i_val env v)] (ds_put f v (user_values ds))"
    and "map_of ds f = None \<Longrightarrow> length ds + 1 < 2 ^ 31 \<Longrightarrow>
      writes_hash key r [Put kMetaCF (base_meta_key env key) (pv_data (pm_ModifyCount 1 p)),
        Put kHashesDataCF (member_key env key (pv_version p) f) (i_val env v)] (ds_put f v (user_values ds))"
proof -
  note l = assms(3) [unfolded live_coll_def]
  have sorted: "key_sorted ds" using l data_records_sorted by blast
  note len = length_ds_put [OF sorted, of f "i_val env v"] and vals = put_values [OF assms(4), of f env v]
  show "map_of ds f \<noteq> None \<Longrightarrow>
      writes_hash key r [Put kHashesDataCF (member_key env key (pv_version p) f) (i_val env v)] (ds_put f v (user_values ds))"
    using change_hash [OF assms(1-3), of "[MPut f (i_val env v)]" p] l len vals
    by (auto simp: hashes.member_keys [OF assms(2)] ds_map_values)
  show "map_of ds f = None \<Longrightarrow> length ds + 1 < 2 ^ 31 \<Longrightarrow>
      writes_hash key r [Put kMetaCF (base_meta_key env key) (pv_data (pm_ModifyCount 1 p)),
        Put kHashesDataCF (member_key env key (pv_version p) f) (i_val env v)] (ds_put f v (user_values ds))"
    using change_hash [OF assms(1-3), of "[MMeta (pv_data (pm_ModifyCount 1 p)), MPut f (i_val env v)]" "pm_ModifyCount 1 p"] l len vals
    by (auto simp: hashes.member_keys [OF assms(2)] ds_map_values pm_intros add.commute)
qed

section \<open>HSET and HSETNX\<close>

lemma HSet_ok:
  assumes "db_healthy (env_db env) view" and "key_ok key" and "hash_at env (view (rds_db r)) key h" and "stats_ok r"
    and "stamp_ok (env_now env)" and "version_room (view (rds_db r)) key" and "length h + 1 < 2 ^ 31"
    and "\<And>old. map_of h f = Some old \<Longrightarrow> \<not> (prefix old v \<and> length v = length old + 24)"
  shows "\<exists>r'. HSet env key f v r = Some ((OK, Some (if map_of h f = None then 1 else 0)), r') \<and> stats_ok r' \<and>
    hash_at env (view (rds_db r')) key (ds_put f v h) \<and> hash_frame key (view (rds_db r)) (view (rds_db r'))"
  using assms(1-3)
proof (cases rule: get_meta_hash)
  case (missing st mv)
  obtain version meta where new: "new_base_meta env kHashes 1 = (version, meta)" by fastforce
  show ?thesis
    using hash_commit_ok [OF put_new_field [OF assms(1,2,5) missing(5) new, of f v] assms(4), of 0 "Some 1"] missing(1-4) new
    by (simp add: HSet_def ds_put_def)
next
  case (expired p)
  let ?p = "pm_SetCount 1 (pm_InitialMetaValue (env_now env) p)"
  have "writes_hash key r [Put kMetaCF (base_meta_key env key) (pv_data ?p),
      Put kHashesDataCF (member_key env key (pv_version ?p) f) (i_val env v)] [(f, v)]"
    by (rule put_renewed_field [OF assms(1,2,6) expired(3,4,8)]) (use expired(4,5) in \<open>simp_all add: pm_intros\<close>)
  from hash_commit_ok [OF this assms(4), of 0 "Some 1"] show ?thesis
    using expired by (simp add: HSet_def ds_put_def Let_def)
next
  case (live p ds)
  let ?g = "db_Get (env_db env) (rds_db r) kHashesDataCF (member_key env key (pv_version p) f)"
  have l: "live_coll kHashes kHashesDataCF (env_now env) (view (rds_db r)) key p ds" using live by (simp add: live_coll_def)
  show ?thesis
  proof (cases "map_of ds f")
    case None
    then have g: "is_NotFound (fst ?g)" using hashes.Get_member(2) [OF assms(1,2) live(9)] by simp
    have "pm_CheckModifyCount 1 p" using CheckModifyCount_ok [OF live(10)] assms(7) live(13) by simp
    then show ?thesis
      using hash_commit_ok [OF put_live_field(2) [OF assms(1,2) l live(12) None, of v] assms(4), of 0 "Some 1"] g None assms(7) live
      by (cases ?g; cases "fst ?g") (simp_all add: HSet_def map_of_user_values)
  next
    case (Some old)
    then have g: "?g = (OK, old)" using hashes.Get_member(1) [OF assms(1,2) live(9)] by simp
    have "old \<noteq> v"
      using assms(8) [of "ParsedBaseDataValue_UserValue old"] Some live(13) long_values [OF live(12) Some]
      by (auto simp: map_of_user_values ParsedBaseDataValue_UserValue_def take_is_prefix)
    then show ?thesis
      using hash_commit_ok [OF put_live_field(1) [OF assms(1,2) l live(12), of f v] assms(4), of 1 "Some 0"] live Some g
      by (simp add: HSet_def map_of_user_values)
  qed
qed

lemma HSetnx_ok:
  assumes "db_healthy (env_db env) view" and "key_ok key" and "hash_at env (view (rds_db r)) key h" and "stats_ok r"
    and "stamp_ok (env_now env)" and "version_room (view (rds_db r)) key" and "length h + 1 < 2 ^ 31"
  shows "\<exists>r'. HSetnx env key f v r = Some ((OK, Some (if map_of h f = None then 1 else 0)), r') \<and> stats_ok r' \<and>
    hash_at env (view (rds_db r')) key (if map_of h f = None then ds_put f v h else h) \<and>
    hash_frame key (view (rds_db r)) (view (rds_db r'))"
  using assms(1-3)
proof (cases rule: get_meta_hash)
  case (missing st mv)
  obtain version meta where new: "new_base_meta env kHashes 1 = (version, meta)" by fastforce
  show ?thesis
    using put_new_field [OF assms(1,2,5) missing(5) new, of f v] missing(1-4) new assms(4)
    by (auto simp: HSetnx_def ds_put_def writes_hash_def stats_ok_def)
next
  case (expired p)
  let ?p = "pm_SetCount 1 (pm_InitialMetaValue (env_now env) p)"
  have "writes_hash key r [Put kMetaCF (base_meta_key env key) (pv_data ?p),
      Put kHashesDataCF (member_key env key (pv_version ?p) f) (i_val env v)] [(f, v)]"
    by (rule put_renewed_field [OF assms(1,2,6) expired(3,4,8)]) (use expired(4,5) in \<open>simp_all add: pm_intros\<close>)
  then show ?thesis
    using expired assms(4) by (auto simp: HSetnx_def ds_put_def Let_def writes_hash_def stats_ok_def)
next
  case (live p ds)
  let ?g = "db_Get (env_db env) (rds_db r) kHashesDataCF (member_key env key (pv_version p) f)"
  have l: "live_coll kHashes kHashesDataCF (env_now env) (view (rds_db r)) key p ds" using live by (simp add: live_coll_def)
  show ?thesis
  proof (cases "map_of ds f")
    case None
    then have g: "is_NotFound (fst ?g)" using hashes.Get_member(2) [OF assms(1,2) live(9)] by simp
    then obtain e where e: "fst ?g = e" "e \<noteq> OK" "is_NotFound e" by (cases "fst ?g") auto
    have "pm_CheckModifyCount 1 p" using CheckModifyCount_ok [OF live(10)] assms(7) live(13) by simp
    then show ?thesis
      using put_live_field(2) [OF assms(1,2) l live(12) None, of v] e None assms(4,7) live
      by (auto simp: HSetnx_def map_of_user_values writes_hash_def stats_ok_def)
  next
    case (Some old)
    then have g: "?g = (OK, old)" using hashes.Get_member(1) [OF assms(1,2) live(9)] by simp
    have "writes_hash key r [] (user_values ds)"
      using change_hash [OF assms(1,2) l, of "[]" p] live by simp
    then show ?thesis
      using live Some g assms(4) by (auto simp: HSetnx_def map_of_user_values writes_hash_def stats_ok_def)
  qed
qed

end

section \<open>Several fields\<close>

lemma first_occurrences_keys:
  "distinct (map f (first_occurrences f xs seen))" "set (map f (first_occurrences f xs seen)) = f ` set xs - set seen"
proof (induction xs arbitrary: seen)
  case (Cons x xs)
  have IH: "distinct (map f (first_occurrences f xs s))" "f ` set (first_occurrences f xs s) = f ` set xs - set s" for s
    using Cons [of s] by simp_all
  { case 1
    show ?case using IH by auto
  next
    case 2
    show ?case using IH by auto }
qed simp_all

lemma length_first_occurrences: "length (first_occurrences f xs seen) \<le> length xs"
  by (induction xs arbitrary: seen) (auto simp: le_SucI)

lemma map_of_first_occurrences:
  "map_of (map (\<lambda>x. (f x, g x)) (first_occurrences f xs seen)) k = (if k \<in> set seen then None else map_of (map (\<lambda>x. (f x, g x)) xs) k)"
  by (induction xs arbitrary: seen) auto

abbreviation put_all :: "(bytes \<times> bytes) list \<Rightarrow> (bytes \<times> bytes) list \<Rightarrow> (bytes \<times> bytes) list" where
  "put_all ys ds \<equiv> fold (\<lambda>(f, v). ds_put f v) ys ds"

lemma put_all_sorted: "key_sorted ds \<Longrightarrow> key_sorted (put_all ys ds)"
  by (induction ys arbitrary: ds) (auto simp: ds_put_sorted)

lemma map_of_put_all: "key_sorted ds \<Longrightarrow> distinct (map fst ys) \<Longrightarrow> map_of (put_all ys ds) = map_of ds ++ map_of ys"
proof (induction ys arbitrary: ds)
  case (Cons y ys)
  obtain f v where y: "y = (f, v)" by (cases y)
  have "map_of (put_all ys (ds_put f v ds)) = map_of (ds_put f v ds) ++ map_of ys"
    using Cons y by (simp add: ds_put_sorted)
  moreover have "map_of (ds_put f v ds) = (map_of ds)(f \<mapsto> v)" using map_of_ds_put [OF Cons.prems(1)] by auto
  moreover have "f \<notin> dom (map_of ys)" using Cons.prems(2) y by (simp add: dom_map_of_conv_image_fst)
  ultimately show ?case using y by (auto simp: fun_eq_iff map_add_def split: option.splits)
qed simp

lemma length_put_all:
  "key_sorted ds \<Longrightarrow> distinct (map fst ys) \<Longrightarrow> length (put_all ys ds) = length ds + length (filter (\<lambda>y. map_of ds (fst y) = None) ys)"
proof (induction ys arbitrary: ds)
  case (Cons y ys)
  obtain f v where y: "y = (f, v)" by (cases y)
  have "filter (\<lambda>y. map_of (ds_put f v ds) (fst y) = None) ys = filter (\<lambda>y. map_of ds (fst y) = None) ys"
    using Cons.prems y by (intro filter_cong) (auto simp: map_of_ds_put)
  then show ?case using Cons y by (simp add: ds_put_sorted length_ds_put)
qed simp

lemma put_all_values:
  assumes "\<forall>x \<in> set ds. 24 \<le> length (snd x)"
  shows "\<forall>x \<in> set (put_all (map (map_prod (\<lambda>f. f) (i_val env)) ys) ds). 24 \<le> length (snd x)"
  using assms
proof (induction ys arbitrary: ds)
  case (Cons y ys)
  then show ?case using Cons.IH [OF put_values [OF Cons.prems, of "fst y" env "snd y"]] by (cases y) simp
qed simp

lemma user_values_put_all: "user_values (put_all (map (map_prod (\<lambda>f. f) (i_val env)) ys) ds) = put_all ys (user_values ds)"
  by (induction ys arbitrary: ds) (auto simp: ds_map_values)

lemma put_all_changes: "fold member_change (map (\<lambda>(f, v). MPut f v) ys) ds = put_all ys ds"
  by (induction ys arbitrary: ds) auto

context engine
begin

lemma HMSet_loop_ok:
  assumes "db_healthy (env_db env) view" and "key_ok key" and "data_records (view s) kHashesDataCF key version ds"
  shows "HMSet_loop env key version s fvs count statistic batch =
    Inr (count + of_nat (length (filter (\<lambda>fv. map_of ds (fv_field fv) = None) fvs)),
      statistic + of_nat (length (filter (\<lambda>fv. map_of ds (fv_field fv) \<noteq> None) fvs)), batch @ put_fields env key version fvs)"
proof (induction fvs arbitrary: count statistic batch)
  case (Cons fv fvs)
  let ?g = "db_Get (env_db env) s kHashesDataCF (member_key env key version (fv_field fv))"
  show ?case
  proof (cases "map_of ds (fv_field fv)")
    case None
    then have "is_NotFound (fst ?g)" using hashes.Get_member(2) [OF assms] by simp
    then obtain e where "fst ?g = e" "e \<noteq> OK" "is_NotFound e" by (cases "fst ?g") auto
    then show ?thesis using Cons None by (simp add: put_fields_def Let_def add.assoc add.commute)
  next
    case (Some v)
    then have "?g = (OK, v)" using hashes.Get_member(1) [OF assms] by simp
    then show ?thesis using Cons Some by (simp add: put_fields_def Let_def add.assoc add.commute)
  qed
qed (simp add: put_fields_def)

lemma put_fields_ops:
  "key_ok key \<Longrightarrow> put_fields env key version fvs =
    map (member_write kHashesDataCF key version) (map (\<lambda>(f, v). MPut f v) (map (map_prod (\<lambda>f. f) (i_val env)) (map (\<lambda>fv. (fv_field fv, fv_value fv)) fvs)))"
  by (simp add: put_fields_def hashes.member_keys)

lemma HMSet_ok:
  assumes "db_healthy (env_db env) view" and "key_ok key" and "hash_at env (view (rds_db r)) key h" and "stats_ok r"
    and "stamp_ok (env_now env)" and "version_room (view (rds_db r)) key" and "length h + length fvs < 2 ^ 31"
  shows "\<exists>r' h'. HMSet env key fvs r = Some ((OK, ()), r') \<and> stats_ok r' \<and> hash_at env (view (rds_db r')) key h' \<and>
    map_of h' = map_of h ++ map_of (rev (map (\<lambda>fv. (fv_field fv, fv_value fv)) fvs)) \<and>
    hash_frame key (view (rds_db r)) (view (rds_db r'))"
proof -
  define fs where "fs = first_occurrences fv_field (rev fvs) []"
  define ps where "ps = map (\<lambda>fv. (fv_field fv, fv_value fv)) fs"
  define ws where "ws = map (map_prod (\<lambda>f. f) (i_val env)) ps"
  let ?ops = "map (\<lambda>(f, v). MPut f v) ws"
  have dist: "distinct (map fst ps)" "distinct (map fst ws)"
    using first_occurrences_keys(1) [of fv_field "rev fvs" "[]"] by (simp_all add: fs_def ps_def ws_def comp_def case_prod_unfold)
  have small: "length fs \<le> length fvs" using length_first_occurrences [of fv_field "rev fvs" "[]"] by (simp add: fs_def)
  have puts: "put_fields env key version fs = map (member_write kHashesDataCF key version) ?ops" for version
    unfolding put_fields_ops [OF assms(2)] ps_def ws_def ..
  have "map_of ps = map_of (rev (map (\<lambda>fv. (fv_field fv, fv_value fv)) fvs))"
    using map_of_first_occurrences [of fv_field fv_value "rev fvs" "[]"] by (auto simp: fs_def ps_def rev_map)
  then have result: "map_of (put_all ps h) = map_of h ++ map_of (rev (map (\<lambda>fv. (fv_field fv, fv_value fv)) fvs))"
    using map_of_put_all [OF hash_at_sorted [OF assms(3)] dist(1)] by simp
  have len0: "length (put_all ws []) = length fs" using length_put_all [OF _ dist(2), of "[]"] by (simp add: ps_def ws_def)
  have vals0: "\<forall>x \<in> set (put_all ws []). 24 \<le> length (snd x)" unfolding ws_def by (rule put_all_values) simp
  have nometa: "\<forall>op \<in> set ?ops. \<forall>mv. op \<noteq> MMeta mv" by auto
  have small0: "length (fold member_change ?ops []) < 2 ^ 31" using len0 small assms(7) by (simp add: put_all_changes)
  have "\<exists>r'. HMSet env key fvs r = Some ((OK, ()), r') \<and> stats_ok r' \<and> hash_at env (view (rds_db r')) key (put_all ps h) \<and>
    hash_frame key (view (rds_db r)) (view (rds_db r'))"
    using assms(1-3)
  proof (cases rule: get_meta_hash)
    case (missing st mv)
    obtain version meta where new: "new_base_meta env kHashes (of_nat (length fs)) = (version, meta)" by fastforce
    have "writes_hash key r (map (member_write kHashesDataCF key version) (MMeta meta # ?ops)) (user_values (fold member_change ?ops []))"
      by (rule put_new_fields [OF assms(1,2,5) missing(5) _ small0 nometa]) (use new len0 vals0 in \<open>simp_all add: put_all_changes\<close>)
    then have "writes_hash key r (Put kMetaCF (base_meta_key env key) meta # put_fields env key version fs) (put_all ps h)"
      by (simp add: puts put_all_changes user_values_put_all [of env ps, folded ws_def] missing(4) hashes.member_keys [OF assms(2)])
    from hash_commit_ok [OF this assms(4), of 0 "()"] show ?thesis
      using missing(1-3) new by (simp add: HMSet_def Let_def fs_def)
  next
    case (expired p)
    let ?p = "pm_SetCount (of_nat (length fs)) (pm_InitialMetaValue (env_now env) p)"
    have "writes_hash key r (map (member_write kHashesDataCF key (pv_version ?p)) (MMeta (pv_data ?p) # ?ops)) (user_values (fold member_change ?ops []))"
      by (rule put_renewed_fields [OF assms(1,2,6) expired(3,4,8) _ _ _ _ _ small0 nometa])
        (use expired(4,5) len0 vals0 in \<open>simp_all add: put_all_changes pm_intros\<close>)
    then have "writes_hash key r (Put kMetaCF (base_meta_key env key) (pv_data ?p) # put_fields env key (pv_version ?p) fs) (put_all ps h)"
      by (simp add: puts put_all_changes user_values_put_all [of env ps, folded ws_def] expired(7) hashes.member_keys [OF assms(2)])
    moreover have "pm_check_set_count (of_nat (length fs))"
      using small assms(7) by (simp add: pm_check_set_count_def word_less_nat_alt signed_of_nat signed_take_bit_int_eq_self unat_of_nat)
    ultimately show ?thesis
      using hash_commit_ok [OF _ assms(4), of _ _ _ 0 "()"] expired by (simp add: HMSet_def Let_def fs_def)
  next
    case (live p ds)
    have l: "live_coll kHashes kHashesDataCF (env_now env) (view (rds_db r)) key p ds" using live by (simp add: live_coll_def)
    define c where "c = length (filter (\<lambda>fv. map_of ds (fv_field fv) = None) fs)"
    have "length (filter (\<lambda>y. map_of ds (fst y) = None) ws) = c"
      by (simp add: c_def ps_def ws_def filter_map comp_def)
    then have len: "length (put_all ws ds) = length ds + c"
      using length_put_all [OF data_records_sorted [OF live(9)] dist(2)] by simp
    have "c \<le> length fs" unfolding c_def by (rule length_filter_le)
    then have c: "length ds + c < 2 ^ 31" using assms(7) small live(13) by simp
    let ?p = "pm_ModifyCount (of_nat c) p"
    have "writes_hash key r (map (member_write kHashesDataCF key (pv_version p)) (?ops @ [MMeta (pv_data ?p)]))
        (user_values (fold member_change (?ops @ [MMeta (pv_data ?p)]) ds))"
      by (rule change_hash [OF assms(1,2) l, of _ ?p])
        (use live len c put_all_values [OF live(12), of env ps, folded ws_def] in \<open>simp_all add: put_all_changes pm_intros\<close>)
    then have "writes_hash key r (put_fields env key (pv_version p) fs @ [Put kMetaCF (base_meta_key env key) (pv_data ?p)]) (put_all ps h)"
      by (simp add: puts put_all_changes user_values_put_all [of env ps, folded ws_def] live(13) hashes.member_keys [OF assms(2)])
    moreover have "pm_CheckModifyCount (of_nat c) p"
      using live(10) sint_count [of "length ds"] sint_count [of c] c by (simp add: pm_CheckModifyCount_def Let_def)
    ultimately show ?thesis
      using hash_commit_ok [OF _ assms(4)] live HMSet_loop_ok [OF assms(1,2) live(9), of fs 0 0 "[]"]
      by (simp add: HMSet_def Let_def flip: fs_def c_def)
  qed
  then show ?thesis using result by blast
qed

section \<open>Deleting fields\<close>

lemma HDel_loop_ok:
  assumes "db_healthy (env_db env) view" and "key_ok key" and "data_records (view s) kHashesDataCF key version ds"
  shows "HDel_loop env key version s fs del_cnt batch =
    (let present = filter (\<lambda>f. map_of ds f \<noteq> None) fs
     in Inr (del_cnt + of_nat (length present), batch @ map (\<lambda>f. Delete kHashesDataCF (member_key env key version f)) present))"
proof (induction fs arbitrary: del_cnt batch)
  case (Cons f fs)
  let ?g = "db_Get (env_db env) s kHashesDataCF (member_key env key version f)"
  show ?case
  proof (cases "map_of ds f")
    case None
    then have "is_NotFound (fst ?g)" using hashes.Get_member(2) [OF assms] by simp
    then obtain e where "fst ?g = e" "e \<noteq> OK" "is_NotFound e" by (cases "fst ?g") auto
    then show ?thesis using Cons None by (simp add: Let_def)
  next
    case (Some v)
    then have "?g = (OK, v)" using hashes.Get_member(1) [OF assms] by simp
    then show ?thesis using Cons Some by (simp add: Let_def add.assoc add.commute)
  qed
qed simp

lemma delete_all_changes: "fold member_change (map MDelete fs) ds = filter (\<lambda>x. fst x \<notin> set fs) ds"
  by (induction fs arbitrary: ds) (auto simp: ds_delete_def conj_commute intro!: filter_cong)

lemma length_delete_all:
  assumes "key_sorted ds" and "distinct fs" and "\<forall>f \<in> set fs. map_of ds f \<noteq> None"
  shows "length (filter (\<lambda>x. fst x \<notin> set fs) ds) + length fs = length ds"
  using assms(2,3,1)
proof (induction fs arbitrary: ds)
  case (Cons f fs)
  have "\<forall>g \<in> set fs. map_of (ds_delete f ds) g \<noteq> None" using Cons.prems by (auto simp: map_of_ds_delete)
  then have "length (filter (\<lambda>x. fst x \<notin> set fs) (ds_delete f ds)) + length fs = length (ds_delete f ds)"
    using Cons by (simp add: ds_delete_sorted)
  moreover have "filter (\<lambda>x. fst x \<notin> set fs) (ds_delete f ds) = filter (\<lambda>x. fst x \<notin> set (f # fs)) ds"
    by (auto simp: ds_delete_def intro!: filter_cong)
  moreover have "length (ds_delete f ds) + 1 = length ds"
    using length_ds_delete [OF Cons.prems(3), of f] Cons.prems(2) by (cases ds) auto
  ultimately show ?case by simp
qed simp

lemma HDel_ok:
  assumes "db_healthy (env_db env) view" and "key_ok key" and "hash_at env (view (rds_db r)) key h" and "stats_ok r"
  shows "\<exists>r'. HDel env key fs r = Some ((OK, Some (of_nat (length h - length (filter (\<lambda>x. fst x \<notin> set fs) h)))), r') \<and> stats_ok r' \<and>
    hash_at env (view (rds_db r')) key (filter (\<lambda>x. fst x \<notin> set fs) h) \<and> hash_frame key (view (rds_db r)) (view (rds_db r'))"
  using assms(1-3)
proof (cases rule: get_meta_hash)
  case (live p ds)
  define gs where "gs = filter (\<lambda>f. map_of ds f \<noteq> None) (first_occurrences (\<lambda>f. f) fs [])"
  have sorted: "key_sorted ds" by (rule data_records_sorted [OF live(9)])
  have set: "set gs = set fs \<inter> fst ` set ds"
    using first_occurrences_keys(2) [of "\<lambda>f. f" fs "[]"] by (auto simp: gs_def map_of_eq_None_iff)
  have dist: "distinct gs" using first_occurrences_keys(1) [of "\<lambda>f. f" fs "[]"] by (simp add: gs_def)
  have kept: "filter (\<lambda>x. fst x \<notin> set gs) ds = filter (\<lambda>x. fst x \<notin> set fs) ds" using set by (auto intro!: filter_cong)
  have len: "length (filter (\<lambda>x. fst x \<notin> set fs) ds) + length gs = length ds"
    using length_delete_all [OF sorted dist] unfolding kept by (simp add: gs_def)
  have l: "live_coll kHashes kHashesDataCF (env_now env) (view (rds_db r)) key p ds" using live by (simp add: live_coll_def)
  let ?p = "pm_ModifyCount (- of_nat (length gs)) p"
  have count: "of_nat (length ds) - of_nat (length gs) = (of_nat (length (filter (\<lambda>x. fst x \<notin> set fs) ds)) :: i32)"
    unfolding len [symmetric] by simp
  have "writes_hash key r (map (member_write kHashesDataCF key (pv_version p)) (map MDelete gs @ [MMeta (pv_data ?p)]))
      (user_values (fold member_change (map MDelete gs @ [MMeta (pv_data ?p)]) ds))"
    by (rule change_hash [OF assms(1,2) l, of _ ?p])
      (use live count le_less_trans [OF length_filter_le live(11), of "\<lambda>x. fst x \<notin> set fs"]
        in \<open>simp_all add: delete_all_changes kept pm_intros\<close>)
  then obtain r1 where r1: "redis_Write env (map (\<lambda>f. Delete kHashesDataCF (member_key env key (pv_version p) f)) gs @
        [Put kMetaCF (base_meta_key env key) (pv_data ?p)]) r = (OK, r1)" "rds_statistics_store r1 = rds_statistics_store r"
      "hash_at env (view (rds_db r1)) key (filter (\<lambda>x. fst x \<notin> set fs) h)" "hash_frame key (view (rds_db r)) (view (rds_db r1))"
    by (auto simp: writes_hash_def delete_all_changes kept hashes.member_keys [OF assms(2)] live(13) filter_map comp_def)
  have "pm_CheckModifyCount (- of_nat (length gs)) p"
  proof -
    have "sint (- of_nat (length gs) :: i32) = - int (length gs)"
      by (rule sint_neg_count) (use len live(11) in linarith)
    then show ?thesis using live(10,11) sint_count [of "length ds"] len by (simp add: pm_CheckModifyCount_def Let_def)
  qed
  moreover have "stats_ok r1" using assms(4) r1(2) by (simp add: stats_ok_def)
  moreover have "length h - length (filter (\<lambda>x. fst x \<notin> set fs) h) = length gs" using len live(13) by (simp add: filter_map comp_def)
  moreover have "HDel_loop env key (pv_version p) (rds_db r) (first_occurrences (\<lambda>f. f) fs []) 0 [] =
      Inr (of_nat (length gs), map (\<lambda>f. Delete kHashesDataCF (member_key env key (pv_version p) f)) gs)"
    unfolding HDel_loop_ok [OF assms(1,2) live(9)] Let_def gs_def by simp
  ultimately show ?thesis
    using UpdateSpecificKeyStatistics_ok [of r1 kHashes key "ucast (of_nat (length gs) :: i32)"] live r1
    by (auto simp: HDel_def Let_def)
next
  case (missing st mv)
  then show ?thesis using assms(3,4) by (auto simp: HDel_def hash_frame_def)
next
  case (expired p)
  then show ?thesis using assms(3,4) by (auto simp: HDel_def hash_frame_def)
qed

end

end
