(* ===== verification/StreamUtils.thy ===== *)
theory StreamUtils
  imports StreamFormat PstdString
begin

text \<open>
  \<open>StreamUtils\<close> of \<open>src/src/storage/src/redis_streams.cc\<close>: the textual form of stream identifiers, the numbers in
  stream commands, and the serialisation of a message's fields and values into one string. The C library functions
  \<open>strtoull\<close>, \<open>strtoll\<close> and \<open>strtol\<close> return the value, what is left of the string and whether they set
  \<open>ERANGE\<close>. A C string is the list of its characters before the terminator.
\<close>

section \<open>The C library\<close>

definition c_isspace :: "byte \<Rightarrow> bool" where
  "c_isspace c \<longleftrightarrow> c = 32 \<or> 9 \<le> c \<and> c \<le> 13"

definition c_isdigit :: "byte \<Rightarrow> bool" where
  "c_isdigit c \<longleftrightarrow> 48 \<le> c \<and> c \<le> 57"

text \<open>What the three functions share: blanks, a sign, digits in base ten; \<open>None\<close> without any digit.\<close>

definition strto_parts :: "bytes \<Rightarrow> (bool \<times> nat \<times> bytes) option" where
  "strto_parts s =
     (let s = dropWhile c_isspace s;
          (negative, s) = (case s of c # t \<Rightarrow> if c = 45 then (True, t) else if c = 43 then (False, t) else (False, s) | [] \<Rightarrow> (False, s));
          ds = takeWhile c_isdigit s
      in if ds = [] then None else Some (negative, digits_val 0 ds, dropWhile c_isdigit s))"

definition strtoull :: "bytes \<Rightarrow> u64 \<times> bytes \<times> bool" where
  "strtoull s =
     (case strto_parts s of None \<Rightarrow> (0, s, False)
      | Some (negative, n, rest) \<Rightarrow>
          if n \<ge> 2 ^ 64 then (- 1, rest, True) else (if negative then - of_nat n else of_nat n, rest, False))"

definition strtoll :: "bytes \<Rightarrow> i64 \<times> bytes \<times> bool" where
  "strtoll s =
     (case strto_parts s of None \<Rightarrow> (0, s, False)
      | Some (negative, n, rest) \<Rightarrow>
          if negative then (if n > 2 ^ 63 then (- (2 ^ 63), rest, True) else (- of_nat n, rest, False))
          else (if n \<ge> 2 ^ 63 then (2 ^ 63 - 1, rest, True) else (of_nat n, rest, False)))"

text \<open>\<open>c_str()\<close> of a string, which may contain zero bytes.\<close>

definition c_string :: "bytes \<Rightarrow> bytes" where
  "c_string s = takeWhile (\<lambda>c. c \<noteq> 0) s"

section \<open>Numbers\<close>

definition string2uint64 :: "bytes \<Rightarrow> u64 option" where
  "string2uint64 s =
     (if s = [] then None
      else let (tmp, end, erange) = strtoull s in if end \<noteq> [] \<or> erange then None else Some tmp)"

definition string2int64 :: "bytes \<Rightarrow> i64 option" where
  "string2int64 s =
     (if s = [] then None
      else let (tmp, end, erange) = strtoll s in if end \<noteq> [] \<or> erange then None else Some tmp)"

definition string2int32 :: "bytes \<Rightarrow> i32 option" where
  "string2int32 s =
     (if s = [] then None
      else
        let (tmp, end, erange) = strtoll s
        in if end \<noteq> [] \<or> erange \<or> sint tmp < - (2 ^ 31) \<or> sint tmp > 2 ^ 31 - 1 then None else Some (scast tmp))"

section \<open>Identifiers\<close>

definition sid_ToString :: "streamID \<Rightarrow> bytes" where
  "sid_ToString i = dec_nat (unat (ms i)) @ [45] @ dec_nat (unat (seq i))"

text \<open>
  The result, the identifier and the flag behind \<open>seq_given\<close>, which is \<open>None\<close> for a null pointer. The identifier and
  the flag keep what they had where the source does not assign them.
\<close>

definition StreamGenericParseID :: "bytes \<Rightarrow> streamID \<Rightarrow> u64 \<Rightarrow> bool \<Rightarrow> bool option \<Rightarrow> bool \<times> streamID \<times> bool option" where
  "StreamGenericParseID var sid missing_seq strict seq_given =
     (if length var > 128 - 1 then (False, sid, seq_given)
      else
        let buf = c_string var
        in if strict \<and> (buf = [45] \<or> buf = [43]) then (False, sid, seq_given)
           else
             let given = map_option (\<lambda>_. True) seq_given
             in if buf = [45] then (True, streamID 0 0, given)
                else if buf = [43] then (True, streamID (- 1) (- 1), given)
                else
                  let (head, dot) = (takeWhile (\<lambda>c. c \<noteq> 45) buf, dropWhile (\<lambda>c. c \<noteq> 45) buf)
                  in (case string2uint64 head of None \<Rightarrow> (False, sid, given)
                     | Some m \<Rightarrow>
                         (case dot of [] \<Rightarrow> (True, streamID m missing_seq, given)
                          | _ # tail \<Rightarrow>
                              if seq_given \<noteq> None \<and> tail = [42] then (True, streamID m 0, Some False)
                              else (case string2uint64 tail of None \<Rightarrow> (False, sid, given)
                                    | Some s \<Rightarrow> (True, streamID m s, given)))))"

definition StreamParseID :: "bytes \<Rightarrow> streamID \<Rightarrow> u64 \<Rightarrow> bool \<times> streamID" where
  "StreamParseID var sid missing_seq =
     (let (ok, sid, _) = StreamGenericParseID var sid missing_seq False None in (ok, sid))"

definition StreamParseStrictID :: "bytes \<Rightarrow> streamID \<Rightarrow> u64 \<Rightarrow> bool option \<Rightarrow> bool \<times> streamID \<times> bool option" where
  "StreamParseStrictID var sid missing_seq seq_given = StreamGenericParseID var sid missing_seq True seq_given"

definition StreamParseIntervalId :: "bytes \<Rightarrow> streamID \<Rightarrow> bool option \<Rightarrow> u64 \<Rightarrow> bool \<times> streamID \<times> bool option" where
  "StreamParseIntervalId var sid exclude missing_seq =
     (let exclude = map_option (\<lambda>_. length var > 1 \<and> var ! 0 = 40) exclude
      in if exclude = Some True
         then let (ok, sid, _) = StreamParseStrictID (drop 1 var) sid missing_seq None in (ok, sid, exclude)
         else let (ok, sid) = StreamParseID var sid missing_seq in (ok, sid, exclude))"

section \<open>Messages\<close>

fun SerializeMessage_loop :: "bytes list \<Rightarrow> bytes" where
  "SerializeMessage_loop [] = []"
| "SerializeMessage_loop (v # vs) = EncodeFixed32 (of_nat (length v)) @ v @ SerializeMessage_loop vs"

definition SerializeMessage :: "bytes list \<Rightarrow> nat \<Rightarrow> bytes" where
  "SerializeMessage field_values field_pos = SerializeMessage_loop (drop field_pos field_values)"

text \<open>
  The position is a 32-bit number, so the sum that is checked may wrap around. Reading a length beyond the end is
  \<open>None\<close>, as is a loop that never ends.
\<close>

partial_function (option) DeserializeMessage_loop :: "bytes \<Rightarrow> u32 \<Rightarrow> bytes list \<Rightarrow> (bool \<times> bytes list) option" where
  "DeserializeMessage_loop message pos parsed_message =
     (if unat pos < length message then
        if unat pos + 4 > length message then None
        else
          let len = DecodeFixed32 (drop (unat pos) message);
              pos = pos + 4
          in if unat (pos + len) > length message then Some (False, parsed_message)
             else DeserializeMessage_loop message (pos + len)
               (parsed_message @ [take (unat len) (drop (unat pos) message)])
      else Some (True, parsed_message))"

definition DeserializeMessage :: "bytes \<Rightarrow> (bool \<times> bytes list) option" where
  "DeserializeMessage message = DeserializeMessage_loop message 0 []"

section \<open>Identifiers survive their textual form\<close>

lemma length_dec_nat_le: "n < 10 ^ Suc k \<Longrightarrow> length (dec_nat n) \<le> Suc k"
proof (induction k arbitrary: n)
  case 0
  then show ?case by (simp add: length_dec_nat_small)
next
  case (Suc k)
  show ?case
  proof (cases "n < 10")
    case False
    have "n div 10 < 10 ^ Suc k" using Suc.prems by (simp add: less_mult_imp_div_less mult.commute)
    from Suc.IH [OF this] show ?thesis using False by (subst dec_nat.simps) simp
  qed (simp add: length_dec_nat_small)
qed

lemma dec_nat_u64_length: "length (dec_nat (unat (x :: u64))) \<le> 20"
  using length_dec_nat_le [of "unat x" 19] unsigned_less [of x, where 'a = nat] by simp

lemma dec_nat_digit: "d \<in> set (dec_nat n) \<Longrightarrow> c_isdigit d"
  using dec_nat_bytes [of n] by (simp add: c_isdigit_def)

lemma digit_char: "c_isdigit d \<Longrightarrow> d \<noteq> 45 \<and> d \<noteq> 43 \<and> d \<noteq> 0 \<and> d \<noteq> 42 \<and> \<not> c_isspace d"
  unfolding c_isdigit_def c_isspace_def by (auto simp: word_le_nat_alt)

lemma strto_parts_dec_nat: "strto_parts (dec_nat n) = Some (False, n, [])"
proof -
  obtain d ds where d: "dec_nat n = d # ds" using dec_nat_not_Nil [of n] by (cases "dec_nat n") auto
  then have c: "\<not> c_isspace d" "d \<noteq> 45" "d \<noteq> 43" using dec_nat_digit [of d n] digit_char [of d] by auto
  have all: "\<forall>x \<in> set (dec_nat n). c_isdigit x" using dec_nat_digit by blast
  have "takeWhile c_isdigit (dec_nat n) = dec_nat n" "dropWhile c_isdigit (dec_nat n) = []"
    using all by (simp_all add: takeWhile_eq_all_conv)
  then show ?thesis using c digits_val_dec_nat [of n] unfolding strto_parts_def d by (simp add: Let_def)
qed

lemma string2uint64_dec_nat: "n < 2 ^ 64 \<Longrightarrow> string2uint64 (dec_nat n) = Some (of_nat n)"
  by (simp add: string2uint64_def strtoull_def strto_parts_dec_nat)

lemma sid_ToString_parts:
  "takeWhile (\<lambda>c. c \<noteq> 45) (sid_ToString i) = dec_nat (unat (ms i))"
  "dropWhile (\<lambda>c. c \<noteq> 45) (sid_ToString i) = 45 # dec_nat (unat (seq i))"
  "c_string (sid_ToString i) = sid_ToString i"
proof -
  have "\<forall>x \<in> set (dec_nat n). x \<noteq> 45" "\<forall>x \<in> set (dec_nat n). x \<noteq> 0" for n using dec_nat_digit digit_char by blast+
  then show "takeWhile (\<lambda>c. c \<noteq> 45) (sid_ToString i) = dec_nat (unat (ms i))"
    "dropWhile (\<lambda>c. c \<noteq> 45) (sid_ToString i) = 45 # dec_nat (unat (seq i))"
    "c_string (sid_ToString i) = sid_ToString i"
    unfolding sid_ToString_def c_string_def
    by (auto simp: takeWhile_append2 dropWhile_append2 takeWhile_eq_all_conv)
qed

lemma sid_ToString_length: "length (sid_ToString i) \<le> 41" "3 \<le> length (sid_ToString i)"
proof -
  have "0 < length (dec_nat n)" for n using dec_nat_not_Nil [of n] by simp
  from this [of "unat (ms i)"] this [of "unat (seq i)"] show "3 \<le> length (sid_ToString i)"
    unfolding sid_ToString_def length_append list.size by linarith
  show "length (sid_ToString i) \<le> 41"
    using dec_nat_u64_length [of "ms i"] dec_nat_u64_length [of "seq i"] by (simp add: sid_ToString_def)
qed

text \<open>An identifier survives its textual form: what \<open>ToString\<close> prints, the parser of identifiers reads back,
  strict or not, whatever sequence number is to replace a missing one, and it reports the sequence number as given.\<close>

theorem streamID_text_roundtrip:
  "StreamGenericParseID (sid_ToString i) i0 missing_seq strict given = (True, i, map_option (\<lambda>_. True) given)"
proof -
  have "sid_ToString i \<noteq> [c]" for c using sid_ToString_length(2) [of i] by auto
  moreover have "string2uint64 (dec_nat (unat x)) = Some x" for x :: u64
    using string2uint64_dec_nat [of "unat x"] unsigned_less [of x, where 'a = nat] by simp
  moreover have "dec_nat (unat x) \<noteq> [42]" for x :: u64 using dec_nat_digit [of 42 "unat x"] digit_char [of 42] by force
  ultimately show ?thesis
    using sid_ToString_length(1) [of i] by (simp add: StreamGenericParseID_def sid_ToString_parts Let_def)
qed

section \<open>Messages survive their serialisation\<close>

lemma length_SerializeMessage_loop: "length (SerializeMessage_loop vs) = sum_list (map (\<lambda>v. 4 + length v) vs)"
  by (induction vs) simp_all

lemma unat_u32: "n < 2 ^ 32 \<Longrightarrow> unat (of_nat n :: u32) = n"
  by (simp add: unsigned_of_nat take_bit_nat_eq_self)

lemma DeserializeMessage_loop_ok:
  assumes "length pre + length (SerializeMessage_loop vs) < 2 ^ 32"
  shows "DeserializeMessage_loop (pre @ SerializeMessage_loop vs) (of_nat (length pre)) acc = Some (True, acc @ vs)"
  using assms
proof (induction vs arbitrary: pre acc)
  case Nil
  then show ?case by (subst DeserializeMessage_loop.simps) (simp add: unat_u32)
next
  case (Cons v vs)
  let ?len = "of_nat (length v) :: u32"
  let ?message = "pre @ SerializeMessage_loop (v # vs)"
  have bound: "length pre + 4 + length v < 2 ^ 32" using Cons.prems by simp
  have len: "DecodeFixed32 (drop (length pre) ?message) = ?len" by simp
  have nxt: "of_nat (length pre) + 4 + ?len = (of_nat (length (pre @ EncodeFixed32 ?len @ v)) :: u32)"
    by simp
  have pos: "unat (of_nat (length pre) + 4 :: u32) = length pre + 4" using bound unat_u32 [of "length pre + 4"] by simp
  have fin: "unat (of_nat (length pre) + 4 + ?len) = length pre + 4 + length v"
    using bound unat_u32 [of "length pre + 4 + length v"] by simp
  have "DeserializeMessage_loop ?message (of_nat (length pre)) acc =
      DeserializeMessage_loop ((pre @ EncodeFixed32 ?len @ v) @ SerializeMessage_loop vs)
        (of_nat (length (pre @ EncodeFixed32 ?len @ v))) (acc @ [v])"
    using bound by (subst DeserializeMessage_loop.simps) (simp add: unat_u32 len pos fin Let_def flip: nxt add.assoc)
  then show ?case using Cons.IH [of "pre @ EncodeFixed32 ?len @ v" "acc @ [v]"] Cons.prems by simp
qed

text \<open>A message survives its serialisation: the fields and values from \<open>field_pos\<close> on come back in order, each with
  its bytes, and parsing ends, as long as the serialised message has less than four gigabytes.\<close>

theorem message_roundtrip:
  assumes "length (SerializeMessage field_values field_pos) < 2 ^ 32"
  shows "DeserializeMessage (SerializeMessage field_values field_pos) = Some (True, drop field_pos field_values)"
  using DeserializeMessage_loop_ok [of "[]" "drop field_pos field_values" "[]"] assms
  by (simp add: DeserializeMessage_def SerializeMessage_def)

theorem message_roundtrip_witness:
  "DeserializeMessage (SerializeMessage [[9], [102], [1, 0, 2]] 1) = Some (True, [[102], [1, 0, 2]])"
proof -
  have "length (SerializeMessage [[9], [102], [1, 0, 2]] 1) < 2 ^ 32"
    by (simp add: SerializeMessage_def length_SerializeMessage_loop)
  from message_roundtrip [OF this] show ?thesis by simp
qed

text \<open>
  A stored message that was not serialised here may make the parser run for ever: a length of \<open>2\<^sup>3\<^sup>2 - 4\<close> passes the check
  because the sum wraps around, and takes the position back to where it was.
\<close>

definition wrapping_message :: bytes where
  "wrapping_message = EncodeFixed32 (- 4)"

lemma DeserializeMessage_loop_diverges:
  assumes "DeserializeMessage_loop message pos acc = Some res"
  shows "\<not> (message = wrapping_message \<and> pos = 0)"
proof (rule DeserializeMessage_loop.raw_induct [OF _ assms, where P = "\<lambda>message pos acc res. \<not> (message = wrapping_message \<and> pos = 0)"])
  have "DecodeFixed32 wrapping_message = - 4" "length wrapping_message = 4" by (simp_all add: wrapping_message_def)
  then show "\<not> (message = wrapping_message \<and> pos = 0)"
    if "\<And>message pos acc res. loop message pos acc = Some res \<Longrightarrow> \<not> (message = wrapping_message \<and> pos = 0)"
      and "(if unat pos < length message
            then if length message < unat pos + 4 then None
                 else let len = DecodeFixed32 (drop (unat pos) message); pos = pos + 4
                      in if length message < unat (pos + len) then Some (False, acc)
                         else loop message (pos + len) (acc @ [take (unat len) (drop (unat pos) message)])
            else Some (True, acc)) = Some res"
    for loop :: "bytes \<Rightarrow> u32 \<Rightarrow> bytes list \<Rightarrow> (bool \<times> bytes list) option" and message pos acc res
    using that(2) that(1) [of wrapping_message 0 "acc @ [[]]" res] by (auto simp: Let_def)
qed

lemma DeserializeMessage_may_diverge: "DeserializeMessage wrapping_message = None"
  using DeserializeMessage_loop_diverges [of wrapping_message 0 "[]"]
  by (cases "DeserializeMessage_loop wrapping_message 0 []") (auto simp: DeserializeMessage_def)

end
