(* ===== verification/HashesScan.thy ===== *)
theory HashesScan
  imports HashesOps StreamUtils
begin

text \<open>The counters of hashes, their removal, and the scans.\<close>

declare apply_op.simps [simp del]

section \<open>HINCRBY\<close>

lemma length_decimal: "length (decimal (sint (w :: i64))) < 32"
proof -
  have "nat \<bar>sint w\<bar> < 10 ^ 19"
    using sint_greater_eq [of w] sint_less [of w] by simp
  then have "length (dec_nat (nat \<bar>sint w\<bar>)) \<le> 19"
    using length_dec_nat_le [of "nat \<bar>sint w\<bar>" 18] by simp
  then show ?thesis by (auto simp: decimal_def abs_if split: if_splits)
qed

lemma decimal_no_zero: "0 \<notin> set (decimal i)"
  using dec_nat_bytes [of "nat i"] dec_nat_bytes [of "nat (- i)"] by (auto simp: decimal_def word_le_nat_alt)

lemma int_val_decimal: "int_val env w = i_val env (decimal (sint w))"
proof -
  have "takeWhile (\<lambda>c. c \<noteq> 0) (decimal (sint w) @ 0 # xs) = decimal (sint w)" for xs
    using decimal_no_zero [of "sint w"] by (subst takeWhile_append2) (auto intro: ccontr)
  then show ?thesis
    using ll2string_decimal [of w 32 "replicate 32 0"] length_decimal [of w]
    by (simp add: int_val_def Int64ToStr_def memcpy_at_def)
qed

lemma increment_overflow:
  fixes v i :: i64
  shows "sint v \<ge> 0 \<and> sint (2 ^ 63 - 1 - v) < sint i \<or> sint v < 0 \<and> sint (- (2 ^ 63) - v) > sint i \<longleftrightarrow>
    \<not> (- (2 ^ 63) \<le> sint i + sint v \<and> sint i + sint v < 2 ^ 63)"
proof -
  have sub: "sint (a - v) = sint a - sint v" if "- (2 ^ 63) \<le> sint a - sint v" "sint a - sint v < 2 ^ 63" for a :: i64
    using that by (simp add: sint_word_ariths signed_take_bit_int_eq_self)
  have c: "sint (2 ^ 63 - 1 :: i64) = 2 ^ 63 - 1" "sint (- (2 ^ 63) :: i64) = - (2 ^ 63)" by simp_all
  have "sint v \<ge> 0 \<Longrightarrow> sint (2 ^ 63 - 1 - v) = 2 ^ 63 - 1 - sint v" using sub [of "2 ^ 63 - 1"] sint_less [of v] c by simp
  moreover have "sint v < 0 \<Longrightarrow> sint (- (2 ^ 63) - v) = - (2 ^ 63) - sint v" using sub [of "- (2 ^ 63)"] sint_greater_eq [of v] c by simp
  ultimately show ?thesis using sint_less [of i] sint_greater_eq [of i] by (cases "sint v \<ge> 0") auto
qed

lemma sint_sum:
  "- (2 ^ 63) \<le> sint (i :: i64) + sint v \<Longrightarrow> sint i + sint v < 2 ^ 63 \<Longrightarrow> sint (i + v) = sint i + sint v"
  by (simp add: sint_word_ariths signed_take_bit_int_eq_self)

context engine
begin

lemma HIncrby_ok:
  assumes "db_healthy (env_db env) view" and "key_ok key" and "hash_at env (view (rds_db r)) key h" and "stats_ok r"
    and "stamp_ok (env_now env)" and "version_room (view (rds_db r)) key" and "length h + 1 < 2 ^ 31"
  shows "case (case map_of h f of None \<Rightarrow> Some 0 | Some old \<Rightarrow> StrToInt64 old) of
      None \<Rightarrow> HIncrby env key f v r = Some ((Corruption ''hash value is not an integer'', 0), r)
    | Some i \<Rightarrow>
        if - (2 ^ 63) \<le> sint i + sint v \<and> sint i + sint v < 2 ^ 63
        then \<exists>r'. HIncrby env key f v r = Some ((OK, i + v), r') \<and> stats_ok r' \<and>
          hash_at env (view (rds_db r')) key (ds_put f (decimal (sint i + sint v)) h) \<and> hash_frame key (view (rds_db r)) (view (rds_db r'))
        else HIncrby env key f v r = Some ((InvalidArgument ''Overflow'', 0), r)"
  using assms(1-3)
proof (cases rule: get_meta_hash)
  case (missing st mv)
  obtain version meta where new: "new_base_meta env kHashes 1 = (version, meta)" by fastforce
  show ?thesis
    using hash_commit_ok [OF put_new_field [OF assms(1,2,5) missing(5) new, of f "decimal (sint v)"] assms(4), of 0 v] missing(1-4) new
      sint_less [of v] sint_greater_eq [of v]
    by (simp add: HIncrby_def ds_put_def int_val_decimal)
next
  case (expired p)
  let ?p = "pv_SetEtime 0 (pm_SetCount 1 (pm_UpdateVersion (env_now env) p))"
  have "writes_hash key r [Put kMetaCF (base_meta_key env key) (pv_data ?p),
      Put kHashesDataCF (member_key env key (pv_version ?p) f) (i_val env (decimal (sint v)))] [(f, decimal (sint v))]"
    by (rule put_renewed_field [OF assms(1,2,6) expired(3,4,8)]) (use expired(4,5) in \<open>simp_all add: pm_intros\<close>)
  from hash_commit_ok [OF this assms(4), of 0 v] show ?thesis
    using expired sint_less [of v] sint_greater_eq [of v] by (simp add: HIncrby_def ds_put_def Let_def int_val_decimal)
next
  case (live p ds)
  let ?g = "db_Get (env_db env) (rds_db r) kHashesDataCF (member_key env key (pv_version p) f)"
  have l: "live_coll kHashes kHashesDataCF (env_now env) (view (rds_db r)) key p ds" using live by (simp add: live_coll_def)
  show ?thesis
  proof (cases "map_of ds f")
    case None
    then have g: "is_NotFound (fst ?g)" using hashes.Get_member(2) [OF assms(1,2) live(9)] by simp
    have "pm_CheckModifyCount 1 p" using CheckModifyCount_ok [OF live(10)] assms(7) live(13) by simp
    then show ?thesis
      using hash_commit_ok [OF put_live_field(2) [OF assms(1,2) l live(12) None, of "decimal (sint v)"] assms(4), of 0 v] g None assms(7) live
        sint_less [of v] sint_greater_eq [of v]
      by (cases ?g; cases "fst ?g") (simp_all add: HIncrby_def map_of_user_values int_val_decimal)
  next
    case (Some old)
    then have g: "?g = (OK, old)" using hashes.Get_member(1) [OF assms(1,2) live(9)] by simp
    let ?old = "ParsedBaseDataValue_UserValue old"
    show ?thesis
    proof (cases "StrToInt64 ?old")
      case None
      then show ?thesis using live Some g long_values [OF live(12) Some] by (simp add: HIncrby_def map_of_user_values StripSuffix_user)
    next
      case (Some i)
      show ?thesis
        using hash_commit_ok [OF put_live_field(1) [OF assms(1,2) l live(12), of f "decimal (sint (i + v))"] assms(4), of 1 "i + v"]
          live \<open>map_of ds f = Some old\<close> Some g long_values [OF live(12) \<open>map_of ds f = Some old\<close>] increment_overflow [of v i] sint_sum [of i v]
        by (cases "- (2 ^ 63) \<le> sint i + sint v \<and> sint i + sint v < 2 ^ 63")
          (simp_all add: HIncrby_def map_of_user_values StripSuffix_user int_val_decimal)
    qed
  qed
qed

section \<open>Removal and expiry\<close>

lemma HashesDel_ok:
  assumes "db_healthy (env_db env) view" and "key_ok key" and "hash_at env (view (rds_db r)) key h" and "stats_ok r" and "h \<noteq> []"
    and "version_room (view (rds_db r)) key"
  shows "\<exists>r'. HashesDel env key [] r = Some (OK, r') \<and> stats_ok r' \<and>
    (\<forall>t. hash_at (env\<lparr>env_now := t\<rparr>) (view (rds_db r')) key []) \<and> hash_frame key (view (rds_db r)) (view (rds_db r'))"
  using assms(1-3)
proof (cases rule: get_meta_hash)
  case (live p ds)
  have l: "live_coll kHashes kHashesDataCF (env_now env) (view (rds_db r)) key p ds" using live by (simp add: live_coll_def)
  obtain r1 where r1: "redis_Write env [Put kMetaCF (base_meta_key env key) (pv_data (pm_InitialMetaValue (env_now env) p))] r = (OK, r1)"
      "rds_statistics_store r1 = rds_statistics_store r" "\<And>t. coll_at kHashes kHashesDataCF t (view (rds_db r1)) key []"
      "data_frame key 0 kHashesDataCF (view (rds_db r)) (view (rds_db r1))"
    using hashes.renew_meta [OF assms(1,2) l assms(6)] by blast
  then have gone: "hash_at (env\<lparr>env_now := t\<rparr>) (view (rds_db r1)) key []" for t by (simp add: hash_at_def)
  have "stats_ok r1" using assms(4) r1(2) by (simp add: stats_ok_def)
  from UpdateSpecificKeyStatistics_ok [OF this, of kHashes key "ucast (pm_count p)"] show ?thesis
    using live r1(1) hash_frameI [OF r1(4)] gone by (auto simp: HashesDel_def Let_def)
qed (use assms(5) in simp_all)

text \<open>A hash whose meta value is replaced by one with another expiry: it is there until that time and gone afterwards.\<close>

lemma restamp_hash:
  assumes "db_healthy (env_db env) view" and "key_ok key" and "live_coll kHashes kHashesDataCF (env_now env) (view (rds_db r)) key p ds"
    and "\<forall>x \<in> set ds. 24 \<le> length (snd x)" and "ds \<noteq> []"
    and "pm_wf p'" and "pv_type p' = kHashes" and "pv_version p' = pv_version p" and "pm_count p' = pm_count p"
  shows "\<exists>r'. redis_Write env [Put kMetaCF (base_meta_key env key) (pv_data p')] r = (OK, r') \<and> rds_statistics_store r' = rds_statistics_store r \<and>
    (\<forall>t. hash_at (env\<lparr>env_now := t\<rparr>) (view (rds_db r')) key (if pv_IsStale t p' then [] else user_values ds)) \<and>
    hash_frame key (view (rds_db r)) (view (rds_db r'))"
proof -
  obtain r1 where r1: "redis_Write env [Put kMetaCF (base_meta_key env key) (pv_data p')] r = (OK, r1)" "rds_statistics_store r1 = rds_statistics_store r"
      "\<And>t. coll_at kHashes kHashesDataCF t (view (rds_db r1)) key (if pv_IsStale t p' then [] else ds)"
      "data_frame key 0 kHashesDataCF (view (rds_db r)) (view (rds_db r1))"
    using hashes.restamp_meta [OF assms(1-3,5-9)] by blast
  have "hash_at (env\<lparr>env_now := t\<rparr>) (view (rds_db r1)) key (if pv_IsStale t p' then [] else user_values ds)" for t
    using r1(3) [of t] assms(4) by (auto simp: hash_at_def)
  then show ?thesis using r1(1,2) hash_frameI [OF r1(4)] by blast
qed

lemma HashesExpire_ok:
  assumes "db_healthy (env_db env) view" and "key_ok key" and "hash_at env (view (rds_db r)) key h" and "stats_ok r" and "h \<noteq> []"
    and "0 < sint ttl" and "stamp_ok (env_now env + ttl)" and "env_now env + ttl \<noteq> 0"
  shows "\<exists>r'. HashesExpire env key ttl [] r = Some (OK, r') \<and> stats_ok r' \<and>
    (\<forall>t. hash_at (env\<lparr>env_now := t\<rparr>) (view (rds_db r')) key (if env_now env + ttl < t then [] else h)) \<and>
    hash_frame key (view (rds_db r)) (view (rds_db r'))"
  using assms(1-3)
proof (cases rule: get_meta_hash)
  case (live p ds)
  have l: "live_coll kHashes kHashesDataCF (env_now env) (view (rds_db r)) key p ds" using live by (simp add: live_coll_def)
  let ?p = "pv_SetRelativeTimestamp (env_now env) ttl p"
  have stale: "pv_IsStale t ?p \<longleftrightarrow> env_now env + ttl < t" for t using assms(8) by (simp add: pv_IsStale_def pv_SetRelativeTimestamp_def)
  have "\<exists>r'. redis_Write env [Put kMetaCF (base_meta_key env key) (pv_data ?p)] r = (OK, r') \<and> rds_statistics_store r' = rds_statistics_store r \<and>
    (\<forall>t. hash_at (env\<lparr>env_now := t\<rparr>) (view (rds_db r')) key (if pv_IsStale t ?p then [] else user_values ds)) \<and>
    hash_frame key (view (rds_db r)) (view (rds_db r'))"
    by (rule restamp_hash [OF assms(1,2) l live(12,14)]) (use live(4,5) assms(7) in \<open>simp_all add: pv_SetRelativeTimestamp_def pm_intros\<close>)
  then obtain r' where r': "redis_Write env [Put kMetaCF (base_meta_key env key) (pv_data ?p)] r = (OK, r')"
      "rds_statistics_store r' = rds_statistics_store r"
      "\<forall>t. hash_at (env\<lparr>env_now := t\<rparr>) (view (rds_db r')) key (if env_now env + ttl < t then [] else h)"
      "hash_frame key (view (rds_db r)) (view (rds_db r'))"
    unfolding stale live(13) by blast
  have "HashesExpire env key ttl [] r = Some (OK, r')" using live(1,2,6,7) assms(6) r'(1) by (simp add: HashesExpire_def Let_def)
  moreover have "stats_ok r'" using assms(4) r'(2) by (simp add: stats_ok_def)
  ultimately show ?thesis using r'(3,4) by blast
qed (use assms(5) in simp_all)

lemma HashesPersist_ok:
  assumes "db_healthy (env_db env) view" and "key_ok key" and "hash_at env (view (rds_db r)) key h" and "stats_ok r" and "h \<noteq> []"
  shows "\<exists>st r'. HashesPersist env key [] r = Some (st, r') \<and> stats_ok r' \<and> (st = OK \<or> is_NotFound st) \<and>
    (\<forall>t. hash_at (env\<lparr>env_now := t\<rparr>) (view (rds_db r')) key h) \<and> hash_frame key (view (rds_db r)) (view (rds_db r'))"
  using assms(1-3)
proof (cases rule: get_meta_hash)
  case (live p ds)
  have l: "live_coll kHashes kHashesDataCF (env_now env) (view (rds_db r)) key p ds" using live by (simp add: live_coll_def)
  show ?thesis
  proof (cases "pv_etime p = 0")
    case True
    then have "coll_at kHashes kHashesDataCF t (view (rds_db r)) key ds" for t
      using live by (intro coll_atI [of _ _ p]) (simp_all add: pv_IsStale_def)
    then have "hash_at (env\<lparr>env_now := t\<rparr>) (view (rds_db r)) key h" for t using live(12,13) by (auto simp: hash_at_def)
    then show ?thesis using True live assms(4) by (auto simp: HashesPersist_def hash_frame_def)
  next
    case False
    have "\<exists>r'. redis_Write env [Put kMetaCF (base_meta_key env key) (pv_data (pv_SetEtime 0 p))] r = (OK, r') \<and>
      rds_statistics_store r' = rds_statistics_store r \<and>
      (\<forall>t. hash_at (env\<lparr>env_now := t\<rparr>) (view (rds_db r')) key (if pv_IsStale t (pv_SetEtime 0 p) then [] else user_values ds)) \<and>
      hash_frame key (view (rds_db r)) (view (rds_db r'))"
      by (rule restamp_hash [OF assms(1,2) l live(12,14)]) (use live(4,5) in \<open>simp_all add: pm_intros\<close>)
    then show ?thesis using live assms(4) False by (auto simp: HashesPersist_def stats_ok_def pv_IsStale_def)
  qed
qed (use assms(5) in simp_all)

end

section \<open>Scans\<close>

text \<open>The fields a pattern matches.\<close>

definition matching :: "bytes \<Rightarrow> (bytes \<times> bytes) list \<Rightarrow> FieldValue list" where
  "matching pattern h = map (\<lambda>(f, v). FieldValue f v) (filter (\<lambda>(f, v). StringMatch pattern f False = Some True) h)"

lemma matching_append: "matching pattern (xs @ ys) = matching pattern xs @ matching pattern ys"
  by (simp add: matching_def)

lemma sint_pred_i64: "0 < sint (n :: i64) \<Longrightarrow> sint (n - 1) = sint n - 1"
proof -
  assume "0 < sint n"
  then have "signed_take_bit 63 (sint n - 1) = sint n - 1"
    using sint_less [of n] by (intro signed_take_bit_int_eq_self) simp_all
  then show ?thesis by (simp add: signed_minus_1 sint_word_ariths)
qed

lemma HScan_loop_run:
  assumes "key_ok key" and "rest \<noteq> [] \<Longrightarrow> \<not> prefix (data_prefix key version) (fst (hd rest))"
    and "\<forall>x \<in> set ds. StringMatch pattern (fst x) False \<noteq> None"
  shows "HScan_loop (data_prefix key version) pattern (map (\<lambda>(d, v). (data_key key version d, v)) ds @ rest) n =
    Some (matching pattern (take (nat (sint n)) (user_values ds)), map (\<lambda>(d, v). (data_key key version d, v)) (drop (nat (sint n)) ds) @ rest)"
  using assms(3)
proof (induction ds arbitrary: n)
  case Nil
  show ?case using assms(2) by (cases rest) (auto simp: matching_def)
next
  case (Cons x ds)
  obtain d v where x: "x = (d, v)" by (cases x)
  obtain b where b: "StringMatch pattern d False = Some b" using Cons.prems x by auto
  show ?case
  proof (cases "sint n > 0")
    case True
    then have n: "nat (sint n) = Suc (nat (sint (n - 1)))" using sint_pred_i64 [of n] by simp
    show ?thesis
      using True assms(1) Cons.IH [of "n - 1"] Cons.prems b unfolding n x
      by (simp add: BaseDataKey_decode_Encode Let_def matching_def)
  qed (simp add: x matching_def)
qed

lemma iter_field_run:
  assumes "key_ok key" and "rest \<noteq> [] \<Longrightarrow> \<not> prefix (data_prefix key version) (fst (hd rest))"
  shows "iter_field (data_prefix key version) (map (\<lambda>(d, v). (data_key key version d, v)) ds @ rest) =
    Some (case ds of [] \<Rightarrow> None | x # _ \<Rightarrow> Some (fst x))"
proof (cases ds)
  case Nil
  then show ?thesis using assms(2) by (cases rest) auto
next
  case (Cons x xs)
  then show ?thesis using assms(1) by (cases x) (simp add: BaseDataKey_decode_Encode)
qed

lemma find_last: "\<forall>e \<in> set es. fst e \<noteq> k \<Longrightarrow> find (\<lambda>(k', v, ch). k' = k) (es @ [(k, v, c)]) = Some (k, v, c)"
  by (induction es) auto

text \<open>The entry inserted last stays in a cache with room for one.\<close>

lemma spec_lookup_inserted:
  assumes "cap \<noteq> 0"
  shows "spec_lookup k (spec_trim cap (spec_remove k es @ [(k, v, 1)])) = Some v"
proof -
  have "spec_lookup k (spec_trim cap (es @ [(k, v, 1)])) = Some v" if "\<forall>e \<in> set es. fst e \<noteq> k" for es
    using that
  proof (induction es)
    case Nil
    have "\<not> cap < 1" using assms by (simp add: word_less_nat_alt unat_eq_0 Suc_le_eq not_less unat_gt_0)
    then show ?case by (simp add: spec_lookup_def charges_simps)
  next
    case (Cons e es)
    then show ?case using find_last [of es k v] by (cases e) (auto simp: spec_lookup_def)
  qed
  moreover have "\<forall>e \<in> set (spec_remove k es). fst e \<noteq> k" by (auto simp: spec_remove_def)
  ultimately show ?thesis by blast
qed

text \<open>The point stored for a cursor.\<close>

definition scan_point :: "'s redis \<Rightarrow> DataType \<Rightarrow> bytes \<Rightarrow> bytes \<Rightarrow> i64 \<Rightarrow> bytes option \<Rightarrow> bool" where
  "scan_point r dt key pattern cursor point \<longleftrightarrow> (\<exists>es k. lru_rel (rds_scan_cursors_store r) es \<and>
     lc_capacity (rds_scan_cursors_store r) \<noteq> 0 \<and> scan_index_key dt key pattern cursor = Some k \<and> spec_lookup k es = point)"

lemma scan_start_ok:
  assumes "scan_point r dt key pattern cursor point"
  shows "\<exists>store es. scan_start dt key pattern cursor r =
      Some (case point of Some s \<Rightarrow> (s, cursor) | None \<Rightarrow> (if isTailWildcard pattern then butlast pattern else [], 0), r\<lparr>rds_scan_cursors_store := store\<rparr>) \<and>
    lru_rel store es \<and> lc_capacity store \<noteq> 0"
proof -
  obtain es k where es: "lru_rel (rds_scan_cursors_store r) es" "lc_capacity (rds_scan_cursors_store r) \<noteq> 0"
      "scan_index_key dt key pattern cursor = Some k" "spec_lookup k es = point"
    using assms by (auto simp: scan_point_def)
  from Lookup_ok [OF es(1), of k] show ?thesis
    using es(2-4) by (auto simp: scan_start_def GetScanStartPoint_def)
qed

lemma StoreScanNextPoint_ok:
  assumes "lru_rel (rds_scan_cursors_store r) es" and "lc_capacity (rds_scan_cursors_store r) \<noteq> 0" and "DataTypeTag dt \<noteq> None"
  shows "\<exists>store. StoreScanNextPoint dt key pattern cursor point r = Some (r\<lparr>rds_scan_cursors_store := store\<rparr>) \<and>
    scan_point (r\<lparr>rds_scan_cursors_store := store\<rparr>) dt key pattern cursor (Some point)"
proof -
  obtain k where k: "scan_index_key dt key pattern cursor = Some k" using assms(3) by (auto simp: scan_index_key_def)
  from Insert_ok [OF assms(1,2), of k point 1] obtain c where c: "Insert k point 1 (rds_scan_cursors_store r) = Some (OK, c)"
      "lru_rel c (spec_trim (lc_capacity (rds_scan_cursors_store r)) (spec_remove k es @ [(k, point, 1)]))"
      "lc_capacity c = lc_capacity (rds_scan_cursors_store r)" by auto
  then show ?thesis
    using k assms(2) spec_lookup_inserted [OF assms(2), of k es point]
    by (intro exI [of _ c]) (auto simp: StoreScanNextPoint_def scan_point_def)
qed

lemma scan_point_guard:
  "rds_scan_cursors_store r' = rds_scan_cursors_store r \<Longrightarrow> scan_point r' dt key pattern cursor point \<longleftrightarrow> scan_point r dt key pattern cursor point"
  by (simp add: scan_point_def)

context engine
begin

lemma hash_scan_from:
  assumes "db_healthy (env_db env) view" and "key_ok key" and "hash_at env (view s) key h" and "h \<noteq> []"
  obtains p ds rest where "get_meta env kHashes key key s = Some (Inr (OK, pv_data p))"
    "ParsedBaseMetaValue_parse True (pv_data p) = Some p" "\<not> pv_IsStale (env_now env) p" "pm_count p \<noteq> 0" "h = user_values ds"
    "it_Seek (env_db env) s kHashesDataCF (data_key key (pv_version p) start) =
      map (\<lambda>(d, v). (data_key key (pv_version p) d, v)) (filter (\<lambda>x. start \<le> fst x) ds) @ rest"
    "rest \<noteq> [] \<Longrightarrow> \<not> prefix (data_prefix key (pv_version p)) (fst (hd rest))"
  using assms(1-3)
proof (cases rule: get_meta_hash)
  case (live p ds)
  obtain rest where rest: "it_Seek (env_db env) s kHashesDataCF (data_key key (pv_version p) start) =
      map (\<lambda>(d, v). (data_key key (pv_version p) d, v)) (filter (\<lambda>x. start \<le> fst x) ds) @ rest"
      "rest \<noteq> [] \<Longrightarrow> \<not> prefix (data_prefix key (pv_version p)) (fst (hd rest))"
    using seek_records [OF hashes.member_cf(1) assms(2) live(9), of start] by blast
  show thesis by (rule that [OF live(1,2,6,7,13) rest])
qed (use assms(4) in simp_all)

lemma HScanx_ok:
  fixes start :: bytes
  assumes "db_healthy (env_db env) view" and "key_ok key" and "hash_at env (view (rds_db r)) key h" and "stats_ok r" and "h \<noteq> []"
    and "\<forall>x \<in> set h. StringMatch pattern (fst x) False \<noteq> None"
  defines "fs \<equiv> filter (\<lambda>x. start \<le> fst x) h"
  shows "\<exists>r'. HScanx env us key start pattern count r = Some ((OK, matching pattern (take (nat (sint count)) fs),
      case drop (nat (sint count)) fs of [] \<Rightarrow> [] | x # _ \<Rightarrow> fst x), r') \<and> stats_ok r' \<and> rds_db r' = rds_db r"
proof -
  obtain p ds rest where p: "get_meta env kHashes key key (rds_db r) = Some (Inr (OK, pv_data p))"
      "ParsedBaseMetaValue_parse True (pv_data p) = Some p" "\<not> pv_IsStale (env_now env) p" "pm_count p \<noteq> 0" "h = user_values ds"
      "it_Seek (env_db env) (rds_db r) kHashesDataCF (data_key key (pv_version p) start) =
        map (\<lambda>(d, v). (data_key key (pv_version p) d, v)) (filter (\<lambda>x. start \<le> fst x) ds) @ rest"
      "rest \<noteq> [] \<Longrightarrow> \<not> prefix (data_prefix key (pv_version p)) (fst (hd rest))"
    using hash_scan_from [OF assms(1-3,5)] by blast
  let ?ds = "filter (\<lambda>x. start \<le> fst x) ds"
  have fs: "fs = user_values ?ds" by (simp add: fs_def p(5) filter_map comp_def)
  have total: "\<forall>x \<in> set ?ds. StringMatch pattern (fst x) False \<noteq> None" using assms(6) p(5) by auto
  obtain r' where r': "KeyStatisticsDurationGuard us kHashes key r = Some r'" "stats_ok r'" "rds_db r' = rds_db r"
    using guard_ok [OF assms(4) hashes.member_cf(4), of us key] by blast
  have "(case drop n fs of [] \<Rightarrow> [] | x # _ \<Rightarrow> fst x) = (case (case drop n ?ds of [] \<Rightarrow> None | x # _ \<Rightarrow> Some (fst x)) of Some f \<Rightarrow> f | None \<Rightarrow> [])" for n
    unfolding fs drop_map by (cases "drop n ?ds") auto
  then show ?thesis
    using p(1-4) r' HScan_loop_run [OF assms(2) p(7) total, of count] iter_field_run [OF assms(2) p(7), of "drop (nat (sint count)) ?ds"] fs
    by (simp add: HScanx_def Let_def hashes.member_keys [OF assms(2)] p(6))
qed

text \<open>An iterator that has left the records of a key stands behind them.\<close>

lemma behind_records:
  assumes "bytewise cf" and "it_Seek (env_db env) s cf (data_key key version d) = xs @ rest" and "key_ok key"
    and "rest \<noteq> [] \<Longrightarrow> \<not> prefix (data_prefix key version) (fst (hd rest))" and "rest = (k, v) # es"
  shows "\<not> env_compare env k (data_prefix key version) \<le> 0"
proof -
  have "(k, v) \<in> set (it_Seek (env_db env) s cf (data_key key version d))" unfolding assms(2,5) by simp
  then have "data_key key version d \<le> k" using seek_filter [OF assms(1)] by auto
  moreover have "data_prefix key version \<le> data_key key version d" by (rule prefix_le) (simp add: assms(3))
  moreover have "k \<noteq> data_prefix key version" using assms(4,5) by auto
  ultimately have "data_prefix key version < k" by simp
  then show ?thesis using slice_compare_less [of k "data_prefix key version"] slice_compare_eq [of k "data_prefix key version"]
    by (auto simp: le_less)
qed

lemma HScan_step:
  fixes point :: "bytes option" and cursor count :: i64
  assumes "db_healthy (env_db env) view" and "key_ok key" and "hash_at env (view (rds_db r)) key h" and "stats_ok r" and "h \<noteq> []"
    and "\<forall>x \<in> set h. StringMatch pattern (fst x) False \<noteq> None" and "\<not> isTailWildcard pattern" and "0 \<le> sint cursor"
    and "scan_point r kHashes key pattern cursor point"
  defines "fs \<equiv> filter (\<lambda>x. (case point of Some s \<Rightarrow> s | None \<Rightarrow> []) \<le> fst x) h"
    and "n \<equiv> nat (sint count)" and "nxt \<equiv> (case point of Some _ \<Rightarrow> cursor | None \<Rightarrow> 0) + count"
  shows "\<exists>r'. HScan env us key cursor pattern count r =
      Some ((OK, matching pattern (take n fs), if n < length fs then nxt else 0), r') \<and>
    stats_ok r' \<and> rds_db r' = rds_db r \<and> (n < length fs \<longrightarrow> scan_point r' kHashes key pattern nxt (Some (fst (fs ! n))))"
proof -
  let ?start = "case point of Some s \<Rightarrow> s | None \<Rightarrow> []" and ?cur = "case point of Some _ \<Rightarrow> cursor | None \<Rightarrow> 0"
  obtain p ds rest where p: "get_meta env kHashes key key (rds_db r) = Some (Inr (OK, pv_data p))"
      "ParsedBaseMetaValue_parse True (pv_data p) = Some p" "\<not> pv_IsStale (env_now env) p" "pm_count p \<noteq> 0" "h = user_values ds"
      "it_Seek (env_db env) (rds_db r) kHashesDataCF (data_key key (pv_version p) ?start) =
        map (\<lambda>(d, v). (data_key key (pv_version p) d, v)) (filter (\<lambda>x. ?start \<le> fst x) ds) @ rest"
      "rest \<noteq> [] \<Longrightarrow> \<not> prefix (data_prefix key (pv_version p)) (fst (hd rest))"
    using hash_scan_from [OF assms(1-3,5)] by blast
  define ss where "ss = filter (\<lambda>x. ?start \<le> fst x) ds"
  have fs: "fs = user_values ss" by (simp add: fs_def ss_def p(5) filter_map comp_def)
  have total: "\<forall>x \<in> set ss. StringMatch pattern (fst x) False \<noteq> None" using assms(6) p(5) by (auto simp: ss_def)
  obtain store es where store: "scan_start kHashes key pattern cursor r = Some ((?start, ?cur), r\<lparr>rds_scan_cursors_store := store\<rparr>)"
      "lru_rel store es" "lc_capacity store \<noteq> 0"
    using scan_start_ok [OF assms(9)] assms(7) by (cases point) auto
  let ?r = "r\<lparr>rds_scan_cursors_store := store\<rparr>"
  note loop = HScan_loop_run [OF assms(2) p(7) total, of count, folded n_def]
  show ?thesis
  proof (cases "n < length fs")
    case True
    then obtain x xs where x: "drop n ss = x # xs" "fs ! n = map_prod (\<lambda>d. d) ParsedBaseDataValue_UserValue x"
      using fs by (metis Cons_nth_drop_Suc length_map nth_map)
    obtain store' where store': "StoreScanNextPoint kHashes key pattern nxt (fst x) ?r = Some (?r\<lparr>rds_scan_cursors_store := store'\<rparr>)"
        "scan_point (?r\<lparr>rds_scan_cursors_store := store'\<rparr>) kHashes key pattern nxt (Some (fst x))"
      using StoreScanNextPoint_ok [of ?r es kHashes key pattern nxt "fst x"] store(2,3) by auto
    let ?r' = "?r\<lparr>rds_scan_cursors_store := store'\<rparr>"
    have "stats_ok ?r'" using assms(4) by (simp add: stats_ok_def)
    then obtain r' where r': "KeyStatisticsDurationGuard us kHashes key ?r' = Some r'" "stats_ok r'" "rds_db r' = rds_db ?r'"
        "rds_scan_cursors_store r' = rds_scan_cursors_store ?r'"
      using guard_ok [OF _ hashes.member_cf(4), of ?r' us key] by blast
    have "HScan env us key cursor pattern count r = Some ((OK, matching pattern (take n fs), nxt), r')"
      using p(1-4) store(1) loop store'(1) r'(1) assms(2,7,8) x(1)
      by (cases x) (simp add: HScan_def Let_def hashes.member_keys [OF assms(2)] p(6) fs BaseDataKey_decode_Encode nxt_def flip: ss_def)
    moreover have "scan_point r' kHashes key pattern nxt (Some (fst (fs ! n)))"
      using store'(2) scan_point_guard [OF r'(4)] x(2) by (cases x) simp
    ultimately show ?thesis using True r' by auto
  next
    case False
    then have "drop n ss = []" using fs by simp
    have "stats_ok ?r" using assms(4) by (simp add: stats_ok_def)
    then obtain r' where r': "KeyStatisticsDurationGuard us kHashes key ?r = Some r'" "stats_ok r'" "rds_db r' = rds_db ?r"
      using guard_ok [OF _ hashes.member_cf(4), of ?r us key] by blast
    have behind: "(\<not> env_compare env k (data_prefix key (pv_version p)) \<le> 0) \<and> \<not> prefix (data_prefix key (pv_version p)) k"
      if "rest = (k, v) # es" for k v es
      using behind_records [OF hashes.member_cf(1) p(6) assms(2) p(7) that] p(7) that by auto
    have "HScan env us key cursor pattern count r = Some ((OK, matching pattern (take n fs), 0), r')"
      using p(1-4) store(1) loop r'(1) assms(2,7,8) \<open>drop n ss = []\<close> behind
      by (cases rest) (auto simp: HScan_def Let_def hashes.member_keys [OF assms(2)] p(6) fs simp flip: ss_def)
    then show ?thesis using False r' by auto
  qed
qed

end

text \<open>A client that iterates: it calls \<open>HScan\<close> with the cursor of the last reply until that is 0. The clock readings of the
  calls are a sequence.\<close>

inductive hscan_run ::
    "'s env \<Rightarrow> bytes \<Rightarrow> bytes \<Rightarrow> i64 \<Rightarrow> (nat \<Rightarrow> u64 \<times> u64) \<Rightarrow> i64 \<Rightarrow> 's redis \<Rightarrow> FieldValue list \<Rightarrow> 's redis \<Rightarrow> bool"
  for env key pattern count where
  stop: "HScan env (us 0) key cursor pattern count r = Some ((OK, fvs, 0), r') \<Longrightarrow> hscan_run env key pattern count us cursor r fvs r'"
| more: "HScan env (us 0) key cursor pattern count r = Some ((OK, fvs, nxt), r1) \<Longrightarrow> nxt \<noteq> 0 \<Longrightarrow>
    hscan_run env key pattern count (us \<circ> Suc) nxt r1 fvs' r' \<Longrightarrow> hscan_run env key pattern count us cursor r (fvs @ fvs') r'"

lemma sint_of_nat_i64: "n < 2 ^ 31 \<Longrightarrow> sint (of_nat n :: i64) = int n"
  by (simp add: sint_uint unsigned_of_nat signed_take_bit_int_eq_self take_bit_nat_eq_self)

lemma filter_sorted_drop: "key_sorted h \<Longrightarrow> i < length h \<Longrightarrow> filter (\<lambda>x. fst (h ! i) \<le> fst x) h = drop i h"
proof (induction h arbitrary: i)
  case (Cons x h)
  show ?case
  proof (cases i)
    case 0
    then show ?thesis using Cons.prems(1) by (simp add: filter_id_conv less_imp_le)
  next
    case (Suc j)
    then have "h ! j \<in> set h" using Cons.prems(2) by simp
    then have "\<not> fst (h ! j) \<le> fst x" using Cons.prems(1) by (simp add: not_le)
    then show ?thesis using Cons Suc by simp
  qed
qed simp

context engine
begin

lemma hash_at_length: "hash_at env m key h \<Longrightarrow> length h < 2 ^ 31"
  by (auto simp: hash_at_def elim!: coll_at.cases)

lemma hscan_run_from:
  assumes "db_healthy (env_db env) view" and "key_ok key" and "h \<noteq> []" and "0 < sint count"
    and "\<forall>x \<in> set h. StringMatch pattern (fst x) False \<noteq> None" and "\<not> isTailWildcard pattern"
  shows "hash_at env (view (rds_db r)) key h \<Longrightarrow> stats_ok r \<Longrightarrow> i < length h \<Longrightarrow>
    scan_point r kHashes key pattern (of_nat i) (if i = 0 then None else Some (fst (h ! i))) \<Longrightarrow>
    \<exists>r'. hscan_run env key pattern count us (of_nat i) r (matching pattern (drop i h)) r' \<and> rds_db r' = rds_db r"
proof (induction "length h - i" arbitrary: i r us rule: less_induct)
  case less
  let ?point = "if i = 0 then None else Some (fst (h ! i))" and ?n = "nat (sint count)"
  note h = hash_at_sorted [OF less.prems(1)] hash_at_length [OF less.prems(1)]
  have i: "sint (of_nat i :: i64) = int i" using less.prems(3) h(2) by (simp add: sint_of_nat_i64)
  have fs: "filter (\<lambda>x. (case ?point of Some s \<Rightarrow> s | None \<Rightarrow> []) \<le> fst x) h = drop i h"
    using filter_sorted_drop [OF h(1) less.prems(3)] by simp
  have nxt: "(case ?point of Some _ \<Rightarrow> of_nat i | None \<Rightarrow> 0) + count = of_nat (i + ?n)"
    using assms(4) by (auto simp: of_nat_nat)
  obtain r1 where r1: "HScan env (us 0) key (of_nat i) pattern count r =
      Some ((OK, matching pattern (take ?n (drop i h)), if ?n < length (drop i h) then of_nat (i + ?n) else 0), r1)"
      "stats_ok r1" "rds_db r1 = rds_db r"
      "?n < length (drop i h) \<longrightarrow> scan_point r1 kHashes key pattern (of_nat (i + ?n)) (Some (fst (drop i h ! ?n)))"
    using HScan_step [OF assms(1,2) less.prems(1,2) assms(3,5,6) _ less.prems(4), where count = count and us = "us 0"] i unfolding fs nxt by auto
  show ?case
  proof (cases "?n < length (drop i h)")
    case True
    have "sint (of_nat (i + ?n) :: i64) = int (i + ?n)" using True h(2) by (intro sint_of_nat_i64) simp
    then have "(of_nat (i + ?n) :: i64) \<noteq> 0" using assms(4) by (intro notI) simp
    moreover have "length h - (i + ?n) < length h - i" "i + ?n < length h" "i + ?n \<noteq> 0" "drop i h ! ?n = h ! (i + ?n)"
      using True less.prems(3) assms(4) by auto
    moreover from this obtain r' where "hscan_run env key pattern count (us \<circ> Suc) (of_nat (i + ?n)) r1 (matching pattern (drop (i + ?n) h)) r'"
        "rds_db r' = rds_db r1"
      using less.hyps [of "i + ?n" r1 "us \<circ> Suc"] less.prems(1) r1(2-4) True by (auto simp del: of_nat_add)
    ultimately have "hscan_run env key pattern count us (of_nat i) r (matching pattern (take ?n (drop i h)) @ matching pattern (drop (i + ?n) h)) r'"
      using hscan_run.more [of env us key "of_nat i"] r1(1) True by auto
    then show ?thesis using r1(3) \<open>rds_db r' = rds_db r1\<close>
      by (metis add.commute append_take_drop_id drop_drop matching_append)
  next
    case False
    then have "HScan env (us 0) key (of_nat i) pattern count r = Some ((OK, matching pattern (drop i h), 0), r1)"
      using r1(1) by simp
    then show ?thesis using hscan_run.stop r1(3) by blast
  qed
qed

text \<open>The value \<open>HSet\<close> takes for the stored one.\<close>

lemma HSet_ignores:
  assumes "db_healthy (env_db env) view" and "key_ok key" and "hash_at env (view (rds_db r)) key h" and "map_of h f = Some old"
  shows "\<exists>v. v \<noteq> old \<and> HSet env key f v r = Some ((OK, Some 0), r) \<and> HGet env key f r = Some (OK, old)"
  using assms(1-3)
proof (cases rule: get_meta_hash)
  case (live p ds)
  then obtain v where v: "map_of ds f = Some v" "old = ParsedBaseDataValue_UserValue v" using assms(4) by (auto simp: map_of_user_values)
  have "v \<noteq> old" using long_values [OF live(12) v(1)] v(2) by (auto simp: StripSuffix_user ParsedBaseDataValue_UserValue_def dest: arg_cong [of _ _ length])
  moreover have "HSet env key f v r = Some ((OK, Some 0), r)"
    using live hashes.Get_member(1) [OF assms(1,2) live(9) v(1)] by (simp add: HSet_def)
  ultimately show ?thesis using HGet_ok [OF assms(1-3), of f] assms(4) by auto
qed (use assms(4) in simp_all)

lemma HMSet_reports_OK:
  assumes "db_Get (env_db env) (rds_db r) kMetaCF (base_meta_key env key) = (st, mv)" and "st \<noteq> OK" and "\<not> is_NotFound st"
    and "db_Write (env_db env) (rds_db r) [] = (OK, db')" and "stats_ok r"
  shows "\<exists>r'. HMSet env key fvs r = Some ((OK, ()), r') \<and> (\<forall>cf. cf \<noteq> kZsetsScoreCF \<longrightarrow> view (rds_db r') cf = view (rds_db r) cf)"
proof -
  have "view db' cf = view (rds_db r) cf" if "cf \<noteq> kZsetsScoreCF" for cf using view_Write [OF assms(4) that] by simp
  moreover have "stats_ok (r\<lparr>rds_db := db'\<rparr>)" using assms(5) by (simp add: stats_ok_def)
  then obtain r' where "UpdateSpecificKeyStatistics kHashes key 0 (r\<lparr>rds_db := db'\<rparr>) = Some r'" "rds_db r' = db'"
    using UpdateSpecificKeyStatistics_ok [of "r\<lparr>rds_db := db'\<rparr>" kHashes key 0] by auto
  ultimately show ?thesis using assms(1-4) by (auto simp: HMSet_def get_meta_def hash_commit_def redis_Write_def base_meta_key_def)
qed

end

end
