(* ===== verification/SetsCorrect.thy ===== *)
theory SetsCorrect
  imports Sets HashesScan
begin

text \<open>
  What it means that the database holds a set, and the set commands that read: members, cardinality and the set
  algebra, for every database that behaves as documented and answers.
\<close>

declare apply_op.simps [simp del]

section \<open>Sets in the database\<close>

text \<open>The set of \<open>key\<close> is \<open>A\<close>; an absent, removed or expired one is empty.\<close>

definition set_at :: "'s env \<Rightarrow> contents \<Rightarrow> bytes \<Rightarrow> bytes set \<Rightarrow> bool" where
  "set_at env m key A \<longleftrightarrow> (\<exists>ds. coll_at kSets kSetsDataCF (env_now env) m key ds \<and> A = fst ` set ds)"

text \<open>Only the meta value of \<open>key\<close> and member records of one version of it may differ.\<close>

definition set_frame :: "bytes \<Rightarrow> contents \<Rightarrow> contents \<Rightarrow> bool" where
  "set_frame key m m' \<longleftrightarrow> (\<exists>version. data_frame key version kSetsDataCF m m')"

lemma set_frameI: "data_frame key version kSetsDataCF m m' \<Longrightarrow> set_frame key m m'"
  by (auto simp: set_frame_def)

lemma set_frame_refl [simp, intro]: "set_frame key m m"
  by (auto simp: set_frame_def)

lemma key_sorted_keys: "key_sorted ds \<Longrightarrow> map fst ds = sorted_list_of_set (fst ` set ds)" "key_sorted ds \<Longrightarrow> length ds = card (fst ` set ds)"
proof -
  assume "key_sorted ds"
  then have "sorted_wrt (<) (map fst ds)" by (simp add: sorted_wrt_map)
  then have s: "sorted (map fst ds)" "distinct (map fst ds)" by (simp_all add: strict_sorted_iff)
  then show "map fst ds = sorted_list_of_set (fst ` set ds)"
    using sorted_list_of_set.idem_if_sorted_distinct [OF s] by simp
  show "length ds = card (fst ` set ds)" using distinct_card [OF s(2)] by simp
qed

lemma filter_sorted_list_of_set: "finite A \<Longrightarrow> filter P (sorted_list_of_set A) = sorted_list_of_set {m \<in> A. P m}"
  by (rule sorted_distinct_set_unique) (auto intro: sorted_wrt_filter)

lemma set_at_finite: "set_at env m key A \<Longrightarrow> finite A"
  by (auto simp: set_at_def)

lemma set_at_card: "set_at env m key A \<Longrightarrow> card A < 2 ^ 31"
proof -
  assume "set_at env m key A"
  then obtain ds where ds: "coll_at kSets kSetsDataCF (env_now env) m key ds" "A = fst ` set ds" by (auto simp: set_at_def)
  show ?thesis using coll_at_small [OF ds(1)] key_sorted_keys(2) [OF coll_at_sorted [OF ds(1)]] ds(2) by simp
qed

sublocale engine \<subseteq> sets: members env view kSets kSetsDataCF
  by unfold_locales simp

lemma SMembers_loop_run:
  assumes "key_ok key" and "rest \<noteq> [] \<Longrightarrow> \<not> prefix (data_prefix key version) (fst (hd rest))"
  shows "SMembers_loop (data_prefix key version) (map (\<lambda>(d, v). (data_key key version d, v)) ds @ rest) = Some (map fst ds)"
proof (induction ds)
  case Nil
  show ?case using assms(2) by (cases rest) auto
qed (auto simp: assms(1) BaseDataKey_decode_Encode)

lemma select_loop_run:
  assumes "key_ok key" and "rest \<noteq> [] \<Longrightarrow> \<not> prefix (data_prefix key version) (fst (hd rest))" and "\<And>m. keep m = Inr (P m)"
  shows "select_loop keep (data_prefix key version) (map (\<lambda>(d, v). (data_key key version d, v)) ds @ rest) = Some (OK, filter P (map fst ds))"
proof (induction ds)
  case Nil
  show ?case using assms(2) by (cases rest) auto
qed (auto simp: assms(1,3) BaseDataKey_decode_Encode)

lemma SUnion_add_run:
  assumes "key_ok key" and "rest \<noteq> [] \<Longrightarrow> \<not> prefix (data_prefix key version) (fst (hd rest))" and "distinct (map fst ds)"
  shows "SUnion_add (data_prefix key version) (map (\<lambda>(d, v). (data_key key version d, v)) ds @ rest) acc =
    Some (acc @ filter (\<lambda>m. m \<notin> set acc) (map fst ds))"
  using assms(3)
proof (induction ds arbitrary: acc)
  case Nil
  show ?case using assms(2) by (cases rest) auto
next
  case (Cons x ds)
  have "filter (\<lambda>m. m \<notin> set (acc @ [fst x])) (map fst ds) = filter (\<lambda>m. m \<notin> set acc) (map fst ds)"
    using Cons.prems by (intro filter_cong) (auto simp: image_iff)
  then show ?case using Cons assms(1) by (cases x) (simp add: BaseDataKey_decode_Encode Let_def)
qed

text \<open>The union lists the members of each set that have not been listed before.\<close>

definition union_list :: "bytes set list \<Rightarrow> bytes list" where
  "union_list As = fold (\<lambda>A acc. acc @ filter (\<lambda>m. m \<notin> set acc) (sorted_list_of_set A)) As []"

lemma union_fold:
  assumes "distinct acc" and "\<forall>A \<in> set As. finite A"
  shows "distinct (fold (\<lambda>A acc. acc @ filter (\<lambda>m. m \<notin> set acc) (sorted_list_of_set A)) As acc) \<and>
    set (fold (\<lambda>A acc. acc @ filter (\<lambda>m. m \<notin> set acc) (sorted_list_of_set A)) As acc) = set acc \<union> \<Union> (set As)"
  using assms
proof (induction As arbitrary: acc)
  case (Cons A As)
  let ?acc = "acc @ filter (\<lambda>m. m \<notin> set acc) (sorted_list_of_set A)"
  have "distinct ?acc" "set ?acc = set acc \<union> A" using Cons.prems by (auto intro: distinct_filter)
  then show ?case using Cons.IH [of ?acc] Cons.prems(2) by auto
qed simp

lemma union_list:
  assumes "\<forall>A \<in> set As. finite A"
  shows "distinct (union_list As)" "set (union_list As) = \<Union> (set As)"
  using union_fold [OF _ assms, of "[]"] by (auto simp: union_list_def)

section \<open>Reading commands\<close>

context engine
begin

lemma get_meta_set [consumes 3, case_names missing expired live]:
  assumes "db_healthy (env_db env) view" and "key_ok key" and "set_at env (view s) key A"
  obtains (missing) st mv where "get_meta env kSets key key s = Some (Inr (st, mv))" "is_NotFound st" "st \<noteq> OK" "A = {}"
      "unused_from (view s) kSetsDataCF key (\<lambda>v. env_now env \<le> v)"
  | (expired) p where "get_meta env kSets key key s = Some (Inr (OK, pv_data p))" "ParsedBaseMetaValue_parse True (pv_data p) = Some p"
      "meta_of (view s) key = Some (pv_data p)" "pm_wf p" "pv_type p = kSets" "pv_IsStale (env_now env) p \<or> pm_count p = 0" "A = {}"
      "unused_from (view s) kSetsDataCF key (\<lambda>v. pv_version p < v)"
  | (live) p ds where "get_meta env kSets key key s = Some (Inr (OK, pv_data p))" "ParsedBaseMetaValue_parse True (pv_data p) = Some p"
      "meta_of (view s) key = Some (pv_data p)" "pm_wf p" "pv_type p = kSets" "\<not> pv_IsStale (env_now env) p" "pm_count p \<noteq> 0"
      "unused_from (view s) kSetsDataCF key (\<lambda>v. pv_version p < v)" "data_records (view s) kSetsDataCF key (pv_version p) ds"
      "pm_count p = of_nat (length ds)" "length ds < 2 ^ 31" "A = fst ` set ds" "A \<noteq> {}"
proof -
  obtain ds where ds: "coll_at kSets kSetsDataCF (env_now env) (view s) key ds" "A = fst ` set ds"
    using assms(3) by (auto simp: set_at_def)
  show thesis
  proof (cases rule: sets.get_meta_coll [OF assms(1,2) ds(1), of key])
    case (1 st mv)
    then show thesis using ds that(1) by simp
  next
    case (2 p)
    then show thesis using ds that(2) by simp
  next
    case (3 p)
    then have "A \<noteq> {}" using ds(2) by auto
    from that(3) [OF 3 ds(2) this] show thesis .
  qed
qed

text \<open>What an iteration over a set that is not empty finds.\<close>

lemma set_scan:
  assumes "db_healthy (env_db env) view" and "key_ok key" and "set_at env (view (rds_db r)) key A" and "stats_ok r" and "A \<noteq> {}"
  obtains p ds rest r' where "get_meta env kSets key key (rds_db r) = Some (Inr (OK, pv_data p))"
    "ParsedBaseMetaValue_parse True (pv_data p) = Some p" "\<not> pv_IsStale (env_now env) p" "pm_count p \<noteq> 0"
    "data_records (view (rds_db r)) kSetsDataCF key (pv_version p) ds" "map fst ds = sorted_list_of_set A"
    "it_Seek (env_db env) (rds_db r) kSetsDataCF (data_prefix key (pv_version p)) =
      map (\<lambda>(d, v). (data_key key (pv_version p) d, v)) ds @ rest"
    "rest \<noteq> [] \<Longrightarrow> \<not> prefix (data_prefix key (pv_version p)) (fst (hd rest))"
    "KeyStatisticsDurationGuard us kSets key r = Some r'" "stats_ok r'" "rds_db r' = rds_db r"
  using assms(1-3)
proof (cases rule: get_meta_set)
  case (live p ds)
  obtain rest where rest: "it_Seek (env_db env) (rds_db r) kSetsDataCF (data_prefix key (pv_version p)) =
      map (\<lambda>(d, v). (data_key key (pv_version p) d, v)) ds @ rest"
      "rest \<noteq> [] \<Longrightarrow> \<not> prefix (data_prefix key (pv_version p)) (fst (hd rest))"
    using seek_all_records [OF sets.member_cf(1) assms(2) live(9)] by blast
  obtain r' where r': "KeyStatisticsDurationGuard us kSets key r = Some r'" "stats_ok r'" "rds_db r' = rds_db r"
    using guard_ok [OF assms(4) sets.member_cf(4), of us key] by blast
  have "map fst ds = sorted_list_of_set A" using key_sorted_keys(1) [OF data_records_sorted [OF live(9)]] live(12) by simp
  then show thesis by (rule that [OF live(1,2,6,7,9) _ rest r'])
qed (use assms(5) in simp_all)

lemma SMembers_ok:
  assumes "db_healthy (env_db env) view" and "key_ok key" and "set_at env (view (rds_db r)) key A" and "stats_ok r"
  shows "\<exists>st r'. SMembers env us key r = Some ((st, sorted_list_of_set A), r') \<and> (if A = {} then is_NotFound st else st = OK) \<and>
    stats_ok r' \<and> rds_db r' = rds_db r"
proof (cases "A = {}")
  case True
  show ?thesis using assms(1-3) by (cases rule: get_meta_set) (use assms(4) True in \<open>auto simp: SMembers_def\<close>)
next
  case False
  show ?thesis
    by (rule set_scan [OF assms False, of us])
      (use False in \<open>auto simp: SMembers_def sets.member_keys [OF assms(2)] Let_def SMembers_loop_run [OF assms(2)]\<close>)
qed

lemma SCard_ok:
  assumes "db_healthy (env_db env) view" and "key_ok key" and "set_at env (view (rds_db r)) key A"
  shows "\<exists>st. SCard env key [] r = Some (st, of_nat (card A)) \<and> (if A = {} then is_NotFound st else st = OK)"
  using assms
proof (cases rule: get_meta_set)
  case (live p ds)
  then show ?thesis using key_sorted_keys(2) [OF data_records_sorted [OF live(9)]] by (auto simp: SCard_def)
qed (auto simp: SCard_def)

lemma SIsmember_ok:
  assumes "db_healthy (env_db env) view" and "key_ok key" and "set_at env (view (rds_db r)) key A"
  shows "\<exists>st. SIsmember env key member r = Some (st, if member \<in> A then 1 else 0) \<and> (if member \<in> A then st = OK else is_NotFound st)"
  using assms
proof (cases rule: get_meta_set)
  case (live p ds)
  let ?s = "fst (db_Get (env_db env) (rds_db r) kSetsDataCF (member_key env key (pv_version p) member))"
  have "member \<in> A \<longleftrightarrow> map_of ds member \<noteq> None" unfolding live(12) by (simp add: map_of_eq_None_iff)
  then have s: "member \<in> A \<Longrightarrow> ?s = OK" "member \<notin> A \<Longrightarrow> is_NotFound ?s" "member \<notin> A \<Longrightarrow> ?s \<noteq> OK"
    using sets.Get_member [OF assms(1,2) live(9), of member] by auto
  have "SIsmember env key member r = Some (?s, if ?s = OK then 1 else 0)" using live(1,2,6,7) by (simp add: SIsmember_def Let_def)
  then show ?thesis using s by (cases "member \<in> A") simp_all
qed (auto simp: SIsmember_def)

section \<open>Set algebra\<close>

text \<open>Reading one set for the commands that take several: it is skipped when it is empty, and otherwise membership can
  be looked up under the version found.\<close>

lemma read_set:
  assumes "db_healthy (env_db env) view" and "key_ok key" and "set_at env (view s) key A"
  obtains (empty) st mv where "get_meta env kSets key key s = Some (Inr (st, mv))" "is_NotFound st" "st \<noteq> OK" "A = {}"
  | (expired) p where "get_meta env kSets key key s = Some (Inr (OK, pv_data p))" "ParsedBaseMetaValue_parse True (pv_data p) = Some p"
      "pv_IsStale (env_now env) p \<or> pm_count p = 0" "A = {}"
  | (live) p where "get_meta env kSets key key s = Some (Inr (OK, pv_data p))" "ParsedBaseMetaValue_parse True (pv_data p) = Some p"
      "\<not> pv_IsStale (env_now env) p" "pm_count p \<noteq> 0" "A \<noteq> {}"
      "\<And>m. m \<in> A \<Longrightarrow> fst (db_Get (env_db env) s kSetsDataCF (member_key env key (pv_version p) m)) = OK"
      "\<And>m. m \<notin> A \<Longrightarrow> is_NotFound (fst (db_Get (env_db env) s kSetsDataCF (member_key env key (pv_version p) m)))"
  using assms
proof (cases rule: get_meta_set)
  case (live p ds)
  have d: "m \<in> A \<longleftrightarrow> map_of ds m \<noteq> None" for m unfolding live(12) by (simp add: map_of_eq_None_iff)
  show thesis
    by (rule that(3) [OF live(1,2,6,7,13)]) (use d sets.Get_member [OF assms(1,2) live(9)] in auto)
qed (use that(1,2) in blast)+

lemma not_found: "is_NotFound st \<Longrightarrow> st \<noteq> OK"
  by auto

lemma vaild_sets_ok:
  assumes "db_healthy (env_db env) view"
  shows "\<forall>k \<in> set keys. key_ok k \<and> set_at env (view s) k (A k) \<Longrightarrow> \<exists>kvs. vaild_sets env s keys = Some (Inr kvs) \<and>
    (\<forall>m. SDiff_found env s m kvs = Inr (\<exists>k \<in> set keys. m \<in> A k))"
proof (induction keys)
  case (Cons key keys)
  then obtain kvs where kvs: "vaild_sets env s keys = Some (Inr kvs)" "\<And>m. SDiff_found env s m kvs = Inr (\<exists>k \<in> set keys. m \<in> A k)"
    by auto
  have key: "key_ok key" "set_at env (view s) key (A key)" using Cons.prems by auto
  show ?case
  proof (cases rule: read_set [OF assms key])
    case (3 p)
    then have "SDiff_found env s m (KeyVersion key (pv_version p) # kvs) = Inr (m \<in> A key \<or> (\<exists>k \<in> set keys. m \<in> A k))" for m
      using kvs(2) [of m] 3(6,7) [of m] not_found by (cases "m \<in> A key") auto
    then show ?thesis using 3(1-4) kvs(1) by auto
  qed (use kvs in auto)
qed simp

lemma vaild_all_sets_ok:
  assumes "db_healthy (env_db env) view"
  shows "\<forall>k \<in> set keys. key_ok k \<and> set_at env (view s) k (A k) \<Longrightarrow>
    if \<exists>k \<in> set keys. A k = {} then vaild_all_sets env s keys = Some (Inr None)
    else \<exists>kvs. vaild_all_sets env s keys = Some (Inr (Some kvs)) \<and> (\<forall>m. SInter_reliable env s m kvs = Inr (\<forall>k \<in> set keys. m \<in> A k))"
proof (induction keys)
  case (Cons key keys)
  have key: "key_ok key" "set_at env (view s) key (A key)" using Cons.prems by auto
  show ?case
  proof (cases rule: read_set [OF assms key])
    case (3 p)
    show ?thesis
    proof (cases "\<exists>k \<in> set keys. A k = {}")
      case True
      then show ?thesis using Cons 3 by auto
    next
      case False
      then obtain kvs where kvs: "vaild_all_sets env s keys = Some (Inr (Some kvs))" "\<And>m. SInter_reliable env s m kvs = Inr (\<forall>k \<in> set keys. m \<in> A k)"
        using Cons by auto
      have "SInter_reliable env s m (KeyVersion key (pv_version p) # kvs) = Inr (m \<in> A key \<and> (\<forall>k \<in> set keys. m \<in> A k))" for m
        using kvs(2) [of m] 3(6,7) [of m] not_found by (cases "m \<in> A key") auto
      then show ?thesis using False 3(1-5) kvs(1) by auto
    qed
  qed auto
qed simp

lemma select_set:
  assumes "db_healthy (env_db env) view" and "key_ok key" and "set_at env (view (rds_db r)) key A" and "stats_ok r" and "A \<noteq> {}"
    and "\<And>m. keep m = Inr (P m)"
  shows "\<exists>p r'. get_meta env kSets key key (rds_db r) = Some (Inr (OK, pv_data p)) \<and> ParsedBaseMetaValue_parse True (pv_data p) = Some p \<and>
    \<not> pv_IsStale (env_now env) p \<and> pm_count p \<noteq> 0 \<and>
    select_loop keep (member_seek_key env key (pv_version p) [])
      (it_Seek (env_db env) (rds_db r) kSetsDataCF (member_seek_key env key (pv_version p) [])) = Some (OK, sorted_list_of_set {m \<in> A. P m}) \<and>
    KeyStatisticsDurationGuard us kSets key r = Some r' \<and> stats_ok r' \<and> rds_db r' = rds_db r"
proof (rule set_scan [OF assms(1-5), of us])
  fix p ds rest r'
  assume p: "get_meta env kSets key key (rds_db r) = Some (Inr (OK, pv_data p))"
    "ParsedBaseMetaValue_parse True (pv_data p) = Some p" "\<not> pv_IsStale (env_now env) p" "pm_count p \<noteq> 0"
    "map fst ds = sorted_list_of_set A"
    "it_Seek (env_db env) (rds_db r) kSetsDataCF (data_prefix key (pv_version p)) = map (\<lambda>(d, v). (data_key key (pv_version p) d, v)) ds @ rest"
    "rest \<noteq> [] \<Longrightarrow> \<not> prefix (data_prefix key (pv_version p)) (fst (hd rest))"
    "KeyStatisticsDurationGuard us kSets key r = Some r'" "stats_ok r'" "rds_db r' = rds_db r"
  have "filter P (map fst ds) = sorted_list_of_set {m \<in> A. P m}"
    unfolding p(5) by (rule filter_sorted_list_of_set [OF set_at_finite [OF assms(3)]])
  then show ?thesis using p select_loop_run [OF assms(2) p(7), of keep P ds] assms(6) by (auto simp: sets.member_keys [OF assms(2)])
qed

lemma SDiff_members_ok:
  assumes "db_healthy (env_db env) view" and "stats_ok r"
    and "\<forall>k \<in> set (key0 # keys). key_ok k \<and> set_at env (view (rds_db r)) k (A k)"
  shows "\<exists>r'. SDiff_members env us key0 keys r = Some ((OK, sorted_list_of_set {m \<in> A key0. \<forall>k \<in> set keys. m \<notin> A k}), r') \<and>
    stats_ok r' \<and> rds_db r' = rds_db r"
proof -
  obtain kvs where kvs: "vaild_sets env (rds_db r) keys = Some (Inr kvs)" "\<And>m. SDiff_found env (rds_db r) m kvs = Inr (\<exists>k \<in> set keys. m \<in> A k)"
    using vaild_sets_ok [OF assms(1), of keys "rds_db r" A] assms(3) by auto
  have key: "key_ok key0" "set_at env (view (rds_db r)) key0 (A key0)" using assms(3) by auto
  show ?thesis
  proof (cases "A key0 = {}")
    case True
    show ?thesis by (cases rule: read_set [OF assms(1) key]) (use True kvs(1) assms(2) in \<open>auto simp: SDiff_members_def\<close>)
  next
    case False
    have "map_sum (\<lambda>st. st) Not (SDiff_found env (rds_db r) m kvs) = Inr (\<forall>k \<in> set keys. m \<notin> A k)" for m using kvs(2) by simp
    from select_set [where us = us and keep = "\<lambda>m. map_sum (\<lambda>st. st) Not (SDiff_found env (rds_db r) m kvs)" and P = "\<lambda>m. \<forall>k \<in> set keys. m \<notin> A k",
        OF assms(1) key assms(2) False this]
    show ?thesis using kvs(1) by (auto simp: SDiff_members_def)
  qed
qed

lemma SInter_members_ok:
  assumes "db_healthy (env_db env) view" and "stats_ok r"
    and "\<forall>k \<in> set (key0 # keys). key_ok k \<and> set_at env (view (rds_db r)) k (A k)"
  shows "\<exists>r'. SInter_members env us key0 keys r = Some ((OK, sorted_list_of_set {m \<in> A key0. \<forall>k \<in> set keys. m \<in> A k}), r') \<and>
    stats_ok r' \<and> rds_db r' = rds_db r"
proof (cases "\<exists>k \<in> set keys. A k = {}")
  case True
  then have none: "{m \<in> A key0. \<forall>k \<in> set keys. m \<in> A k} = {}" by blast
  have "vaild_all_sets env (rds_db r) keys = Some (Inr None)"
    using vaild_all_sets_ok [OF assms(1), of keys "rds_db r" A] assms(3) True by auto
  then show ?thesis using assms(2) unfolding none by (auto simp: SInter_members_def)
next
  case False
  then obtain kvs where kvs: "vaild_all_sets env (rds_db r) keys = Some (Inr (Some kvs))"
      "\<And>m. SInter_reliable env (rds_db r) m kvs = Inr (\<forall>k \<in> set keys. m \<in> A k)"
    using vaild_all_sets_ok [OF assms(1), of keys "rds_db r" A] assms(3) by auto
  have key: "key_ok key0" "set_at env (view (rds_db r)) key0 (A key0)" using assms(3) by auto
  show ?thesis
  proof (cases "A key0 = {}")
    case True
    show ?thesis by (cases rule: read_set [OF assms(1) key]) (use True kvs(1) assms(2) in \<open>auto simp: SInter_members_def\<close>)
  next
    case False
    from select_set [where us = us and keep = "\<lambda>m. SInter_reliable env (rds_db r) m kvs" and P = "\<lambda>m. \<forall>k \<in> set keys. m \<in> A k",
        OF assms(1) key assms(2) False kvs(2)]
    show ?thesis using kvs(1) by (auto simp: SInter_members_def)
  qed
qed

lemma SUnion_loop_ok:
  assumes "db_healthy (env_db env) view"
  shows "\<forall>k \<in> set keys. key_ok k \<and> set_at env (view s) k (A k) \<Longrightarrow> \<exists>kvs. vaild_sets env s keys = Some (Inr kvs) \<and>
    (\<forall>us acc r. rds_db r = s \<longrightarrow> stats_ok r \<longrightarrow> (\<exists>r'. SUnion_loop env us kvs acc r =
      Some (fold (\<lambda>A acc. acc @ filter (\<lambda>m. m \<notin> set acc) (sorted_list_of_set A)) (map A keys) acc, r') \<and> stats_ok r' \<and> rds_db r' = s))"
proof (induction keys)
  case (Cons key keys)
  let ?f = "fold (\<lambda>A acc. acc @ filter (\<lambda>m. m \<notin> set acc) (sorted_list_of_set A)) (map A keys)"
  obtain kvs where kvs: "vaild_sets env s keys = Some (Inr kvs)"
      "\<And>us acc r. rds_db r = s \<Longrightarrow> stats_ok r \<Longrightarrow> \<exists>r'. SUnion_loop env us kvs acc r = Some (?f acc, r') \<and> stats_ok r' \<and> rds_db r' = s"
    using Cons by auto
  have key: "key_ok key" "set_at env (view s) key (A key)" using Cons.prems by auto
  show ?case
  proof (cases "A key = {}")
    case True
    show ?thesis by (cases rule: read_set [OF assms key]) (use True kvs in auto)
  next
    case False
    obtain p where p: "get_meta env kSets key key s = Some (Inr (OK, pv_data p))" "ParsedBaseMetaValue_parse True (pv_data p) = Some p"
        "\<not> pv_IsStale (env_now env) p" "pm_count p \<noteq> 0"
      by (cases rule: read_set [OF assms key]) (use False in auto)
    have "\<exists>r'. SUnion_loop env us (KeyVersion key (pv_version p) # kvs) acc r =
        Some (?f (acc @ filter (\<lambda>m. m \<notin> set acc) (sorted_list_of_set (A key))), r') \<and> stats_ok r' \<and> rds_db r' = s"
      if r: "rds_db r = s" "stats_ok r" for us acc r
    proof (rule set_scan [OF assms key(1) key(2) [folded r(1)] r(2) False, of "us 0"])
      fix p' ds rest r'
      assume a: "get_meta env kSets key key (rds_db r) = Some (Inr (OK, pv_data p'))" "ParsedBaseMetaValue_parse True (pv_data p') = Some p'"
        "data_records (view (rds_db r)) kSetsDataCF key (pv_version p') ds" "map fst ds = sorted_list_of_set (A key)"
        "it_Seek (env_db env) (rds_db r) kSetsDataCF (data_prefix key (pv_version p')) = map (\<lambda>(d, v). (data_key key (pv_version p') d, v)) ds @ rest"
        "rest \<noteq> [] \<Longrightarrow> \<not> prefix (data_prefix key (pv_version p')) (fst (hd rest))"
        "KeyStatisticsDurationGuard (us 0) kSets key r = Some r'" "stats_ok r'" "rds_db r' = rds_db r"
      have "p' = p" using a(1,2) p(1,2) r(1) by auto
      moreover have "distinct (map fst ds)" unfolding a(4) by simp
      ultimately show ?thesis
        using a SUnion_add_run [OF key(1) a(6), of ds acc] kvs(2) [of r' "us \<circ> Suc"] r(1)
        by (auto simp: sets.member_keys [OF key(1)] Let_def)
    qed
    then show ?thesis using p kvs(1) by auto
  qed
qed auto

lemma SUnion_ok:
  assumes "db_healthy (env_db env) view" and "stats_ok r" and "\<forall>k \<in> set keys. key_ok k \<and> set_at env (view (rds_db r)) k (A k)" and "keys \<noteq> []"
  shows "\<exists>r'. SUnion env us keys r = Some ((OK, union_list (map A keys)), r') \<and> stats_ok r' \<and> rds_db r' = rds_db r"
proof -
  obtain kvs r' where "vaild_sets env (rds_db r) keys = Some (Inr kvs)" "SUnion_loop env us kvs [] r = Some (union_list (map A keys), r')"
      "stats_ok r'" "rds_db r' = rds_db r"
    using SUnion_loop_ok [OF assms(1,3)] assms(2) unfolding union_list_def by blast
  then show ?thesis using assms(4) by (simp add: SUnion_def)
qed

end

end
