(* ===== verification/SetsOps.thy ===== *)
theory SetsOps
  imports SetsCorrect
begin

text \<open>The set commands that write, for every database that behaves as documented and answers.\<close>

declare apply_op.simps [simp del]

section \<open>Putting and deleting members\<close>

abbreviation member_puts :: "'s env \<Rightarrow> bytes list \<Rightarrow> member_op list" where
  "member_puts env xs \<equiv> map (\<lambda>m. MPut m (i_val env [])) xs"

lemma member_puts_all: "fold member_change (member_puts env xs) ds = put_all (map (\<lambda>m. (m, i_val env [])) xs) ds"
  using put_all_changes [of "map (\<lambda>m. (m, i_val env [])) xs" ds] by (simp add: comp_def)

lemma put_all_keys:
  assumes "key_sorted ds" and "distinct xs"
  shows "fst ` set (put_all (map (\<lambda>m. (m, v)) xs) ds) = fst ` set ds \<union> set xs"
    and "length (put_all (map (\<lambda>m. (m, v)) xs) ds) = length ds + length (filter (\<lambda>m. map_of ds m = None) xs)"
proof -
  have d: "distinct (map fst (map (\<lambda>m. (m, v)) xs))" using assms(2) by (simp add: comp_def)
  have "dom (map_of (put_all (map (\<lambda>m. (m, v)) xs) ds)) = dom (map_of ds) \<union> dom (map_of (map (\<lambda>m. (m, v)) xs))"
    unfolding map_of_put_all [OF assms(1) d] by auto
  then show "fst ` set (put_all (map (\<lambda>m. (m, v)) xs) ds) = fst ` set ds \<union> set xs"
    by (simp add: dom_map_of_conv_image_fst image_image)
  show "length (put_all (map (\<lambda>m. (m, v)) xs) ds) = length ds + length (filter (\<lambda>m. map_of ds m = None) xs)"
    using length_put_all [OF assms(1) d] by (simp add: filter_map comp_def)
qed

section \<open>Committing changes of a set\<close>

context engine
begin

lemma put_members_ops:
  "key_ok key \<Longrightarrow> put_members env key version xs = map (member_write kSetsDataCF key version) (member_puts env xs)"
  by (simp add: put_members_def sets.member_keys)

text \<open>Writing the batch \<open>ops\<close> succeeds and makes the set of \<open>key\<close> equal to \<open>A\<close>.\<close>

definition writes_set :: "bytes \<Rightarrow> 's redis \<Rightarrow> WriteOp list \<Rightarrow> bytes set \<Rightarrow> bool" where
  "writes_set key r ops A \<longleftrightarrow> (\<exists>r1. redis_Write env ops r = (OK, r1) \<and> rds_statistics_store r1 = rds_statistics_store r \<and>
     set_at env (view (rds_db r1)) key A \<and> set_frame key (view (rds_db r)) (view (rds_db r1)))"

lemma writes_setD:
  assumes "writes_set key r ops A" and "stats_ok r"
  shows "\<exists>r1. redis_Write env ops r = (OK, r1) \<and> stats_ok r1 \<and> set_at env (view (rds_db r1)) key A \<and>
    set_frame key (view (rds_db r)) (view (rds_db r1))"
  using assms by (auto simp: writes_set_def stats_ok_def)

lemma put_new_members:
  assumes "db_healthy (env_db env) view" and "key_ok key" and "stamp_ok (env_now env)"
    and "unused_from (view (rds_db r)) kSetsDataCF key (\<lambda>v. env_now env \<le> v)"
    and "new_base_meta env kSets (of_nat (length xs)) = (version, mv)" and "distinct xs" and "length xs < 2 ^ 31"
  shows "writes_set key r (Put kMetaCF (base_meta_key env key) mv # put_members env key version xs) (set xs)"
proof -
  have len: "length (fold member_change (member_puts env xs) []) = length xs"
    unfolding member_puts_all using put_all_keys(2) [of "[]" xs] assms(6) by simp
  have "fst ` set (fold member_change (member_puts env xs) []) = set xs"
    unfolding member_puts_all using put_all_keys(1) [of "[]" xs] assms(6) by simp
  then show ?thesis
    using sets.commit_new [OF assms(1-4), of "member_puts env xs" version mv] assms(5,7) len
    unfolding writes_set_def set_at_def put_members_ops [OF assms(2)] sets.member_keys [OF assms(2)] by (fastforce intro: set_frameI)
qed

lemma put_renewed_members:
  assumes "db_healthy (env_db env) view" and "key_ok key" and "version_room (view (rds_db r)) key"
    and "meta_of (view (rds_db r)) key = Some (pv_data p0)" and "pm_wf p0" and "pv_type p0 = kSets"
    and "unused_from (view (rds_db r)) kSetsDataCF key (\<lambda>v. pv_version p0 < v)"
    and "distinct xs" and "length xs < 2 ^ 31"
  defines "p \<equiv> pm_SetCount (of_nat (length xs)) (pm_InitialMetaValue (env_now env) p0)"
  shows "writes_set key r (Put kMetaCF (base_meta_key env key) (pv_data p) # put_members env key (pv_version p) xs) (set xs)"
proof -
  have len: "length (fold member_change (member_puts env xs) []) = length xs"
    unfolding member_puts_all using put_all_keys(2) [of "[]" xs] assms(8) by simp
  have keys: "fst ` set (fold member_change (member_puts env xs) []) = set xs"
    unfolding member_puts_all using put_all_keys(1) [of "[]" xs] assms(8) by simp
  have "\<exists>r'. redis_Write env (map (member_write kSetsDataCF key (pv_version p)) (MMeta (pv_data p) # member_puts env xs)) r = (OK, r') \<and>
    rds_statistics_store r' = rds_statistics_store r \<and>
    coll_at kSets kSetsDataCF (env_now env) (view (rds_db r')) key (fold member_change (member_puts env xs) []) \<and>
    data_frame key (pv_version p) kSetsDataCF (view (rds_db r)) (view (rds_db r'))"
    by (rule sets.commit_renewed [OF assms(1-5,7)]) (use assms(5,6,9) len in \<open>auto simp: p_def pm_intros\<close>)
  then show ?thesis
    using keys unfolding writes_set_def set_at_def put_members_ops [OF assms(2)] sets.member_keys [OF assms(2)] by (fastforce intro: set_frameI)
qed

lemma change_set:
  assumes "db_healthy (env_db env) view" and "key_ok key" and "live_coll kSets kSetsDataCF (env_now env) (view (rds_db r)) key p ds"
    and "fold meta_change ops (Some (pv_data p)) = Some (pv_data p')" and "pm_wf p'" and "pv_type p' = kSets"
    and "pv_version p' = pv_version p" and "pv_etime p' = pv_etime p"
    and "pm_count p' = of_nat (length (fold member_change ops ds))" and "length (fold member_change ops ds) < 2 ^ 31"
  shows "writes_set key r (map (member_write kSetsDataCF key (pv_version p)) ops) (fst ` set (fold member_change ops ds))"
  using sets.change_live [OF assms] unfolding writes_set_def set_at_def by (fastforce intro: set_frameI)

section \<open>SADD\<close>

lemma SAdd_loop_ok:
  assumes "db_healthy (env_db env) view" and "key_ok key" and "data_records (view s) kSetsDataCF key version ds"
  shows "SAdd_loop env key version s xs cnt batch =
    (let new = filter (\<lambda>m. map_of ds m = None) xs in Inr (cnt + of_nat (length new), batch @ put_members env key version new))"
proof (induction xs arbitrary: cnt batch)
  case (Cons m xs)
  let ?g = "db_Get (env_db env) s kSetsDataCF (member_key env key version m)"
  show ?case
  proof (cases "map_of ds m")
    case None
    then have "is_NotFound (fst ?g)" using sets.Get_member(2) [OF assms] by simp
    then obtain e where "fst ?g = e" "e \<noteq> OK" "is_NotFound e" by (cases "fst ?g") auto
    then show ?thesis using Cons None by (simp add: Let_def put_members_def add.assoc)
  next
    case (Some v)
    then have "?g = (OK, v)" using sets.Get_member(1) [OF assms] by simp
    then show ?thesis using Cons Some by (simp add: Let_def)
  qed
qed (simp add: put_members_def)

lemma SAdd_ok:
  assumes "db_healthy (env_db env) view" and "key_ok key" and "set_at env (view (rds_db r)) key A" and "stats_ok r"
    and "stamp_ok (env_now env)" and "version_room (view (rds_db r)) key" and "card A + length xs < 2 ^ 31"
  shows "\<exists>r'. SAdd env key xs r = Some ((OK, Some (of_nat (card (set xs - A)))), r') \<and> stats_ok r' \<and>
    set_at env (view (rds_db r')) key (A \<union> set xs) \<and> set_frame key (view (rds_db r)) (view (rds_db r'))"
proof -
  define fs where "fs = first_occurrences (\<lambda>m. m) xs []"
  have fs: "distinct fs" "set fs = set xs" using first_occurrences_keys [of "\<lambda>m. m" xs "[]"] by (simp_all add: fs_def)
  have "length fs \<le> length xs" unfolding fs_def by (rule length_first_occurrences)
  then have small: "length fs < 2 ^ 31" "card A + length fs < 2 ^ 31" using assms(7) by linarith+
  have card: "card (set xs) = length fs" using distinct_card [OF fs(1)] fs(2) by simp
  show ?thesis
    using assms(1-3)
  proof (cases rule: get_meta_set)
    case (missing st mv)
    obtain version meta where new: "new_base_meta env kSets (of_nat (length fs)) = (version, meta)" by fastforce
    from writes_setD [OF put_new_members [OF assms(1,2,5) missing(5) new fs(1) small(1)] assms(4)] show ?thesis
      using missing(1-4) new fs(2) card by (auto simp: SAdd_def Let_def fs_def)
  next
    case (expired p)
    have "pm_check_set_count (of_nat (length fs))"
      using small(1) by (simp add: pm_check_set_count_def word_less_nat_alt signed_of_nat signed_take_bit_int_eq_self unat_of_nat)
    with writes_setD [OF put_renewed_members [OF assms(1,2,6) expired(3-5,8) fs(1) small(1)] assms(4)] show ?thesis
      using expired(1,2,6,7) fs(2) card by (auto simp: SAdd_def Let_def fs_def)
  next
    case (live p ds)
    define new where "new = filter (\<lambda>m. map_of ds m = None) fs"
    have sorted: "key_sorted ds" by (rule data_records_sorted [OF live(9)])
    have set_new: "set new = set xs - A" using fs(2) live(12) by (auto simp: new_def map_of_eq_None_iff)
    have new: "distinct new" "card (set xs - A) = length new"
      using fs(1) distinct_card [of new] set_new by (simp_all add: new_def)
    have l: "live_coll kSets kSetsDataCF (env_now env) (view (rds_db r)) key p ds" using live by (simp add: live_coll_def)
    have "length new \<le> length fs" unfolding new_def by (rule length_filter_le)
    then have c: "length ds + length new < 2 ^ 31" using small(2) key_sorted_keys(2) [OF sorted] live(12) by simp
    show ?thesis
    proof (cases "new = []")
      case True
      then have e: "A \<union> set xs = A" "set xs - A = {}" using set_new by auto
      have "SAdd_loop env key (pv_version p) (rds_db r) fs 0 [] = Inr (0, [])"
        using True SAdd_loop_ok [OF assms(1,2) live(9), of fs 0 "[]"] by (simp add: put_members_def flip: new_def)
      then show ?thesis unfolding e using live(1,2,6,7) assms(3,4) by (simp add: SAdd_def flip: fs_def)
    next
      case False
      let ?p = "pm_ModifyCount (of_nat (length new)) p" and ?ops = "member_puts env new"
      have none: "filter (\<lambda>m. map_of ds m = None) new = new" by (simp add: new_def)
      have len: "length (put_all (map (\<lambda>m. (m, i_val env [])) new) ds) = length ds + length new"
        using put_all_keys(2) [OF sorted new(1)] none by simp
      have "writes_set key r (map (member_write kSetsDataCF key (pv_version p)) (?ops @ [MMeta (pv_data ?p)]))
          (fst ` set (fold member_change (?ops @ [MMeta (pv_data ?p)]) ds))"
        by (rule change_set [OF assms(1,2) l, of _ ?p]) (use live len c in \<open>auto simp: member_puts_all pm_intros\<close>)
      moreover have "fst ` set (put_all (map (\<lambda>m. (m, i_val env [])) new) ds) = A \<union> set xs"
        using put_all_keys(1) [OF sorted new(1)] live(12) set_new by auto
      ultimately have w: "writes_set key r (put_members env key (pv_version p) new @ [Put kMetaCF (base_meta_key env key) (pv_data ?p)]) (A \<union> set xs)"
        by (simp add: put_members_ops [OF assms(2)] sets.member_keys [OF assms(2)] member_puts_all)
      have "pm_CheckModifyCount (of_nat (length new)) p"
        using live(10) sint_count [of "length ds"] sint_count [of "length new"] c by (simp add: pm_CheckModifyCount_def Let_def)
      moreover have "(of_nat (length new) :: i32) \<noteq> 0"
      proof
        assume "(of_nat (length new) :: i32) = 0"
        then have "sint (of_nat (length new) :: i32) = 0" by simp
        then show False using sint_count [of "length new"] c False by simp
      qed
      ultimately show ?thesis
        using writes_setD [OF w assms(4)] live SAdd_loop_ok [OF assms(1,2) live(9), of fs 0 "[]"] new(2)
        by (auto simp: SAdd_def Let_def simp flip: fs_def new_def)
    qed
  qed
qed

section \<open>SREM\<close>

lemma SRem_loop_ok:
  assumes "db_healthy (env_db env) view" and "key_ok key" and "data_records (view s) kSetsDataCF key version ds"
  shows "SRem_loop env key version s xs cnt batch =
    (let present = filter (\<lambda>m. map_of ds m \<noteq> None) xs
     in Inr (cnt + of_nat (length present), batch @ map (\<lambda>m. Delete kSetsDataCF (member_key env key version m)) present))"
proof (induction xs arbitrary: cnt batch)
  case (Cons m xs)
  let ?g = "db_Get (env_db env) s kSetsDataCF (member_key env key version m)"
  show ?case
  proof (cases "map_of ds m")
    case None
    then have "is_NotFound (fst ?g)" using sets.Get_member(2) [OF assms] by simp
    then obtain e where "fst ?g = e" "e \<noteq> OK" "is_NotFound e" by (cases "fst ?g") auto
    then show ?thesis using Cons None by (simp add: Let_def)
  next
    case (Some v)
    then have "?g = (OK, v)" using sets.Get_member(1) [OF assms] by simp
    then show ?thesis using Cons Some by (simp add: Let_def add.assoc)
  qed
qed simp

text \<open>The last part of \<open>SRem\<close> on a live set, when writing gives the set \<open>B\<close>.\<close>

lemma SRem_live:
  assumes "db_healthy (env_db env) view" and "key_ok key" and "stats_ok r"
    and "get_meta env kSets key key (rds_db r) = Some (Inr (OK, pv_data p))" and "ParsedBaseMetaValue_parse True (pv_data p) = Some p"
    and "\<not> pv_IsStale (env_now env) p" and "pm_count p \<noteq> 0" and "data_records (view (rds_db r)) kSetsDataCF key (pv_version p) ds"
    and "pm_count p = of_nat (length ds)" and "length ds < 2 ^ 31"
    and "filter (\<lambda>m. map_of ds m \<noteq> None) xs = gone" and "length gone \<le> length ds"
    and "writes_set key r (map (member_write kSetsDataCF key (pv_version p)) (map MDelete gone @ [MMeta (pv_data (pm_ModifyCount (- of_nat (length gone)) p))])) B"
  shows "\<exists>r'. SRem env key xs r = Some ((OK, of_nat (length gone)), r') \<and> stats_ok r' \<and> set_at env (view (rds_db r')) key B \<and>
    set_frame key (view (rds_db r)) (view (rds_db r'))"
proof -
  let ?p = "pm_ModifyCount (- of_nat (length gone)) p"
  obtain r1 where r1: "redis_Write env (map (\<lambda>m. Delete kSetsDataCF (member_key env key (pv_version p) m)) gone @
        [Put kMetaCF (base_meta_key env key) (pv_data ?p)]) r = (OK, r1)" "stats_ok r1" "set_at env (view (rds_db r1)) key B"
      "set_frame key (view (rds_db r)) (view (rds_db r1))"
    using writes_setD [OF assms(13,3)] by (auto simp: sets.member_keys [OF assms(2)] comp_def)
  have "SRem_loop env key (pv_version p) (rds_db r) xs 0 [] =
      Inr (of_nat (length gone), map (\<lambda>m. Delete kSetsDataCF (member_key env key (pv_version p) m)) gone)"
    unfolding SRem_loop_ok [OF assms(1,2,8)] Let_def assms(11) by simp
  moreover have "pm_CheckModifyCount (- of_nat (length gone)) p"
    using sint_neg_count [of "length gone"] sint_count [of "length ds"] assms(9,10,12) by (simp add: pm_CheckModifyCount_def Let_def)
  ultimately show ?thesis
    using UpdateSpecificKeyStatistics_ok [OF r1(2), of kSets key "ucast (of_nat (length gone) :: i32)"] r1 assms(4-7)
    by (auto simp: SRem_def)
qed

text \<open>Deleting members that are there, each once, with the count adapted.\<close>

lemma delete_members:
  assumes "db_healthy (env_db env) view" and "key_ok key" and "live_coll kSets kSetsDataCF (env_now env) (view (rds_db r)) key p ds"
    and "distinct gone" and "set gone \<subseteq> fst ` set ds"
  shows "writes_set key r (map (member_write kSetsDataCF key (pv_version p)) (map MDelete gone @ [MMeta (pv_data (pm_ModifyCount (- of_nat (length gone)) p))]))
    (fst ` set ds - set gone)"
proof -
  let ?p = "pm_ModifyCount (- of_nat (length gone)) p" and ?kept = "filter (\<lambda>x. fst x \<notin> set gone) ds"
  have l: "pm_wf p" "pv_type p = kSets" "data_records (view (rds_db r)) kSetsDataCF key (pv_version p) ds" "pm_count p = of_nat (length ds)" "length ds < 2 ^ 31"
    using assms(3) by (auto simp: live_coll_def)
  have "\<forall>m \<in> set gone. map_of ds m \<noteq> None" using assms(5) by (auto simp: map_of_eq_None_iff)
  then have len: "length ?kept + length gone = length ds"
    using length_delete_all [OF data_records_sorted [OF l(3)] assms(4)] by simp
  have count: "of_nat (length ds) - of_nat (length gone) = (of_nat (length ?kept) :: i32)" unfolding len [symmetric] by simp
  have "writes_set key r (map (member_write kSetsDataCF key (pv_version p)) (map MDelete gone @ [MMeta (pv_data ?p)]))
      (fst ` set (fold member_change (map MDelete gone @ [MMeta (pv_data ?p)]) ds))"
    by (rule change_set [OF assms(1-3), of _ ?p]) (use l count len in \<open>simp_all add: delete_all_changes pm_intros\<close>)
  moreover have "fst ` set (fold member_change (map MDelete gone @ [MMeta (pv_data ?p)]) ds) = fst ` set ds - set gone"
    by (auto simp: delete_all_changes)
  ultimately show ?thesis by simp
qed

lemma SRem_ok:
  assumes "db_healthy (env_db env) view" and "key_ok key" and "set_at env (view (rds_db r)) key A" and "stats_ok r" and "distinct xs" and "A \<noteq> {}"
  shows "\<exists>r'. SRem env key xs r = Some ((OK, of_nat (card (A \<inter> set xs))), r') \<and> stats_ok r' \<and>
    set_at env (view (rds_db r')) key (A - set xs) \<and> set_frame key (view (rds_db r)) (view (rds_db r'))"
  using assms(1-3)
proof (cases rule: get_meta_set)
  case (live p ds)
  define gone where "gone = filter (\<lambda>m. map_of ds m \<noteq> None) xs"
  have gone: "distinct gone" "set gone = A \<inter> set xs" using assms(5) live(12) by (auto simp: gone_def map_of_eq_None_iff)
  have l: "live_coll kSets kSetsDataCF (env_now env) (view (rds_db r)) key p ds" using live by (simp add: live_coll_def)
  have "A - set gone = A - set xs" using gone(2) by auto
  then have "writes_set key r (map (member_write kSetsDataCF key (pv_version p)) (map MDelete gone @ [MMeta (pv_data (pm_ModifyCount (- of_nat (length gone)) p))]))
      (A - set xs)"
    using delete_members [OF assms(1,2) l gone(1)] gone(2) live(12) by simp
  moreover have "card (A \<inter> set xs) = length gone" using distinct_card [OF gone(1)] gone(2) by simp
  moreover have "length gone \<le> length ds"
    using distinct_card [OF gone(1)] gone(2) live(12) card_mono [of A "A \<inter> set xs"] key_sorted_keys(2) [OF data_records_sorted [OF live(9)]] by simp
  ultimately show ?thesis
    using SRem_live [OF assms(1,2,4) live(1,2,6,7,9,10,11) gone_def [symmetric]] by simp
qed (use assms(6) in simp_all)

text \<open>Changes after which the count is zero.\<close>

lemma empty_set:
  assumes "db_healthy (env_db env) view" and "key_ok key" and "unused_from (view (rds_db r)) kSetsDataCF key (\<lambda>v. pv_version p < v)"
    and "fold meta_change ops (meta_of (view (rds_db r)) key) = Some (pv_data p)" and "pm_wf p" and "pv_type p = kSets" and "pm_count p = 0"
  shows "writes_set key r (map (member_write kSetsDataCF key (pv_version p)) ops) {}"
proof -
  let ?ops = "map (member_write kSetsDataCF key (pv_version p)) ops"
  let ?m = "apply_batch sc ?ops (view (rds_db r))"
  obtain r' where r': "redis_Write env ?ops r = (OK, r')" "rds_statistics_store r' = rds_statistics_store r"
      "\<And>cf. cf \<noteq> kZsetsScoreCF \<Longrightarrow> view (rds_db r') cf = ?m cf"
    using redis_Write_healthy [OF assms(1), of ?ops r] by blast
  have "data_frame key (pv_version p) kSetsDataCF (view (rds_db r)) ?m"
    by (rule data_op_frame [OF slice_order_axioms sets.member_cf(1,2) assms(2)]) (auto simp: member_write_data_op)
  then have frame: "data_frame key (pv_version p) kSetsDataCF (view (rds_db r)) (view (rds_db r'))"
    using r'(3) by (simp add: data_frame_def)
  have "coll_at kSets kSetsDataCF (env_now env) (view (rds_db r')) key []"
  proof (rule coll_at.expired [OF _ assms(5,6)])
    show "meta_of (view (rds_db r')) key = Some (pv_data p)"
      using member_ops_meta [OF slice_order_axioms sets.member_cf(2) assms(2), of "pv_version p" ops "view (rds_db r)"] r'(3) [of kMetaCF] assms(2,4)
      by (simp add: meta_of_def)
    show "unused_from (view (rds_db r')) kSetsDataCF key (\<lambda>v. pv_version p < v)"
      by (rule unused_frame [OF frame assms(2) sets.member_cf(2) assms(3)]) simp
  qed (use assms(7) in simp)
  then show ?thesis using r'(1,2) frame unfolding writes_set_def set_at_def by (fastforce intro: set_frameI)
qed

text \<open>A member given twice is counted twice.\<close>

lemma SRem_twice:
  assumes "db_healthy (env_db env) view" and "key_ok key" and "set_at env (view (rds_db r)) key {a, b}" and "stats_ok r" and "a \<noteq> b"
  shows "\<exists>r'. SRem env key [a, a] r = Some ((OK, 2), r') \<and> set_at env (view (rds_db r')) key {}"
  using assms(1-3)
proof (cases rule: get_meta_set)
  case (live p ds)
  have "map_of ds a \<noteq> None" using live(12) by (auto simp: map_of_eq_None_iff)
  then have gone: "filter (\<lambda>m. map_of ds m \<noteq> None) [a, a] = [a, a]" by simp
  have len: "length ds = 2" using key_sorted_keys(2) [OF data_records_sorted [OF live(9)]] live(12) [symmetric] assms(5) by simp
  let ?p = "pm_ModifyCount (- of_nat (length [a, a])) p"
  have "writes_set key r (map (member_write kSetsDataCF key (pv_version ?p)) (map MDelete [a, a] @ [MMeta (pv_data ?p)])) {}"
    by (rule empty_set [OF assms(1,2)]) (use live len in \<open>simp_all add: pm_intros\<close>)
  then show ?thesis using SRem_live [OF assms(1,2,4) live(1,2,6,7,9,10,11) gone] len by auto
qed auto

end

end
