(* ===== verification/SetsAlgebra.thy ===== *)
theory SetsAlgebra
  imports SetsOps
begin

text \<open>The set commands that work on several keys: storing a difference, an intersection or a union, and moving a member.\<close>

declare apply_op.simps [simp del]

section \<open>Changes of one set leave the others alone\<close>

lemma coll_at_cong:
  assumes "\<And>cf'. cf' \<in> {kMetaCF, cf} \<Longrightarrow> m cf' = m' cf'" and "coll_at dt cf now m key ds"
  shows "coll_at dt cf now m' key ds"
proof -
  have same: "meta_of m key = meta_of m' key" "unused_from m cf key P = unused_from m' cf key P" "data_records m cf key v ds = data_records m' cf key v ds" for P v
    using assms(1) [of kMetaCF] assms(1) [of cf] by (simp_all add: meta_of_def unused_from_def data_records_def)
  from assms(2) show ?thesis by cases (auto simp: same intro: coll_at.intros)
qed

lemma set_at_cong:
  "(\<And>cf. cf \<noteq> kZsetsScoreCF \<Longrightarrow> m cf = m' cf) \<Longrightarrow> set_at env m key A \<Longrightarrow> set_at env m' key A"
  using coll_at_cong [of kSetsDataCF m m' kSets] by (fastforce simp: set_at_def)

lemma set_frame_other:
  assumes "set_frame key m m'" and "key_ok key" and "key_ok key'" and "key \<noteq> key'"
  shows "meta_of m' key' = meta_of m key'" "unused_from m' kSetsDataCF key' P = unused_from m kSetsDataCF key' P"
    "data_records m' kSetsDataCF key' v ds = data_records m kSetsDataCF key' v ds"
proof -
  obtain version where f: "data_frame key version kSetsDataCF m m'" using assms(1) by (auto simp: set_frame_def)
  have "BaseKey_Encode (\<lambda>_. 0) key' \<noteq> BaseKey_Encode (\<lambda>_. 0) key"
    using assms(2-4) BaseKey_decode_Encode by (metis option.inject)
  then show "meta_of m' key' = meta_of m key'" using f by (simp add: data_frame_def meta_of_def)
  have rec: "data_records m' kSetsDataCF key' v ds = data_records m kSetsDataCF key' v ds" for v ds
    using data_frame_records [OF f assms(2,3)] assms(4) by simp
  then show "unused_from m' kSetsDataCF key' P = unused_from m kSetsDataCF key' P" "data_records m' kSetsDataCF key' v ds = data_records m kSetsDataCF key' v ds"
    by (simp_all add: unused_from_def)
qed

lemma set_at_other:
  assumes "set_frame key m m'" and "key_ok key" and "key_ok key'" and "key \<noteq> key'" and "set_at env m key' A"
  shows "set_at env m' key' A"
proof -
  obtain ds where ds: "coll_at kSets kSetsDataCF (env_now env) m key' ds" "A = fst ` set ds" using assms(5) by (auto simp: set_at_def)
  from ds(1) have "coll_at kSets kSetsDataCF (env_now env) m' key' ds"
    by cases (auto simp: set_frame_other [OF assms(1-4)] intro: coll_at.intros)
  then show ?thesis using ds(2) by (auto simp: set_at_def)
qed

context engine
begin

section \<open>Storing a set\<close>

lemma check_set_count_small: "n < 2 ^ 31 \<Longrightarrow> pm_check_set_count (of_nat n)"
  by (simp add: pm_check_set_count_def word_less_nat_alt signed_of_nat signed_take_bit_int_eq_self unat_of_nat)

lemma store_members_ok:
  assumes "db_healthy (env_db env) view" and "key_ok dest" and "set_at env (view (rds_db r)) dest D" and "stats_ok r"
    and "stamp_ok (env_now env)" and "version_room (view (rds_db r)) dest" and "distinct xs" and "length xs < 2 ^ 31"
  shows "\<exists>r'. store_members env (base_meta_key env dest) dest xs r = Some ((OK, Some (xs, of_nat (length xs))), r') \<and> stats_ok r' \<and>
    set_at env (view (rds_db r')) dest (set xs) \<and> set_frame dest (view (rds_db r)) (view (rds_db r'))"
proof -
  have finish: "\<exists>r'. (let (s, r) = redis_Write env ops r in do {
        r \<leftarrow> UpdateSpecificKeyStatistics kSets dest (ucast n) r;
        Some ((s, Some (xs, of_nat (length xs) :: i32)), r) }) = Some ((OK, Some (xs, of_nat (length xs))), r') \<and> stats_ok r' \<and>
      set_at env (view (rds_db r')) dest (set xs) \<and> set_frame dest (view (rds_db r)) (view (rds_db r'))"
    if w: "writes_set dest r ops (set xs)" for ops n
  proof -
    obtain r1 where r1: "redis_Write env ops r = (OK, r1)" "stats_ok r1" "set_at env (view (rds_db r1)) dest (set xs)"
        "set_frame dest (view (rds_db r)) (view (rds_db r1))"
      using writes_setD [OF w assms(4)] by blast
    then show ?thesis using UpdateSpecificKeyStatistics_ok [OF r1(2), of kSets dest "ucast n"] by auto
  qed
  have renewed: ?thesis
    if "get_meta env kSets dest dest (rds_db r) = Some (Inr (OK, pv_data p))" "ParsedBaseMetaValue_parse True (pv_data p) = Some p"
      "meta_of (view (rds_db r)) dest = Some (pv_data p)" "pm_wf p" "pv_type p = kSets"
      "unused_from (view (rds_db r)) kSetsDataCF dest (\<lambda>v. pv_version p < v)" for p
    using finish [OF put_renewed_members [OF assms(1,2,6) that(3-6) assms(7,8)], of "pm_count p"] that(1,2) check_set_count_small [OF assms(8)]
    by (simp add: store_members_def Let_def)
  show ?thesis
    using assms(1-3)
  proof (cases rule: get_meta_set)
    case (missing st mv)
    obtain version meta where new: "new_base_meta env kSets (of_nat (length xs)) = (version, meta)" by fastforce
    from finish [OF put_new_members [OF assms(1,2,5) missing(5) new assms(7,8)], of "0 :: i32"] show ?thesis
      using missing(1-3) new by (simp add: store_members_def Let_def)
  next
    case (expired p)
    then show ?thesis using renewed by simp
  next
    case (live p ds)
    then show ?thesis using renewed by simp
  qed
qed

lemma SDiffstore_ok:
  assumes "db_healthy (env_db env) view" and "stats_ok r"
    and "\<forall>k \<in> set (key0 # keys). key_ok k \<and> set_at env (view (rds_db r)) k (A k)"
    and "key_ok dest" and "set_at env (view (rds_db r)) dest D" and "stamp_ok (env_now env)" and "version_room (view (rds_db r)) dest"
  defines "B \<equiv> {m \<in> A key0. \<forall>k \<in> set keys. m \<notin> A k}"
  shows "\<exists>r'. SDiffstore env us dest (key0 # keys) r = Some ((OK, Some (sorted_list_of_set B, of_nat (card B))), r') \<and> stats_ok r' \<and>
    set_at env (view (rds_db r')) dest B \<and> set_frame dest (view (rds_db r)) (view (rds_db r'))"
proof -
  have A: "set_at env (view (rds_db r)) key0 (A key0)" using assms(3) by simp
  have fin: "finite B" using set_at_finite [OF A] by (simp add: B_def)
  have "card B \<le> card (A key0)" using set_at_finite [OF A] by (auto simp: B_def intro: card_mono)
  then have small: "length (sorted_list_of_set B) < 2 ^ 31" using set_at_card [OF A] by simp
  obtain r1 where r1: "SDiff_members env us key0 keys r = Some ((OK, sorted_list_of_set B), r1)" "stats_ok r1" "rds_db r1 = rds_db r"
    using SDiff_members_ok [OF assms(1-3)] unfolding B_def by blast
  then show ?thesis
    using store_members_ok [OF assms(1,4) _ r1(2) assms(6) _ _ small, of D] assms(5,7) fin by (simp add: SDiffstore_def)
qed

lemma SInterstore_ok:
  assumes "db_healthy (env_db env) view" and "stats_ok r"
    and "\<forall>k \<in> set (key0 # keys). key_ok k \<and> set_at env (view (rds_db r)) k (A k)"
    and "key_ok dest" and "set_at env (view (rds_db r)) dest D" and "stamp_ok (env_now env)" and "version_room (view (rds_db r)) dest"
  defines "B \<equiv> {m \<in> A key0. \<forall>k \<in> set keys. m \<in> A k}"
  shows "\<exists>r'. SInterstore env us dest (key0 # keys) r = Some ((OK, Some (sorted_list_of_set B, of_nat (card B))), r') \<and> stats_ok r' \<and>
    set_at env (view (rds_db r')) dest B \<and> set_frame dest (view (rds_db r)) (view (rds_db r'))"
proof -
  have A: "set_at env (view (rds_db r)) key0 (A key0)" using assms(3) by simp
  have fin: "finite B" using set_at_finite [OF A] by (simp add: B_def)
  have "card B \<le> card (A key0)" using set_at_finite [OF A] by (auto simp: B_def intro: card_mono)
  then have small: "length (sorted_list_of_set B) < 2 ^ 31" using set_at_card [OF A] by simp
  obtain r1 where r1: "SInter_members env us key0 keys r = Some ((OK, sorted_list_of_set B), r1)" "stats_ok r1" "rds_db r1 = rds_db r"
    using SInter_members_ok [OF assms(1-3)] unfolding B_def by blast
  then show ?thesis
    using store_members_ok [OF assms(1,4) _ r1(2) assms(6) _ _ small, of D] assms(5,7) fin by (simp add: SInterstore_def)
qed

section \<open>SUNIONSTORE\<close>

text \<open>A meta value that is found, and the members under its version.\<close>

lemma get_meta_found:
  assumes "db_healthy (env_db env) view" and "key_ok key" and "meta_of (view s) key = Some (pv_data p)" and "pm_wf p" and "pv_type p = kSets"
  shows "get_meta env kSets key key s = Some (Inr (OK, pv_data p))"
proof -
  have "view s kMetaCF (BaseKey_Encode (env_junk env) key) = Some (pv_data p)"
    using assms(2,3) by (simp add: meta_of_def BaseKey_Encode_junk [of key "env_junk env"])
  then have "db_Get (env_db env) s kMetaCF (BaseKey_Encode (env_junk env) key) = (OK, pv_data p)" using Get_healthy(1) [OF assms(1)] by simp
  then show ?thesis using assms(4,5) by (simp add: get_meta_def ExpectedMetaValue_def GetMetaValueType_pm)
qed

lemma SMembers_found:
  assumes "db_healthy (env_db env) view" and "key_ok key" and "meta_of (view (rds_db r)) key = Some (pv_data p)" and "pm_wf p" and "pv_type p = kSets"
    and "\<not> pv_IsStale (env_now env) p" and "pm_count p \<noteq> 0" and "data_records (view (rds_db r)) kSetsDataCF key (pv_version p) ds" and "stats_ok r"
  shows "\<exists>r'. SMembers env us key r = Some ((OK, map fst ds), r')"
proof -
  obtain rest where rest: "it_Seek (env_db env) (rds_db r) kSetsDataCF (data_prefix key (pv_version p)) =
      map (\<lambda>(d, v). (data_key key (pv_version p) d, v)) ds @ rest"
      "rest \<noteq> [] \<Longrightarrow> \<not> prefix (data_prefix key (pv_version p)) (fst (hd rest))"
    using seek_all_records [OF sets.member_cf(1) assms(2,8)] by blast
  obtain r' where r': "KeyStatisticsDurationGuard us kSets key r = Some r'"
    using guard_ok [OF assms(9) sets.member_cf(4), of us key] by blast
  show ?thesis
    using get_meta_found [OF assms(1-5)] pm_wf_D [OF assms(4)] assms(6,7) r'
    by (simp add: SMembers_def sets.member_keys [OF assms(2)] rest(1) SMembers_loop_run [OF assms(2) rest(2)])
qed

text \<open>The key under which \<open>SUnionstore\<close> puts the meta value is not the one under which it is looked up.\<close>

lemma raw_key: "key_ok key \<Longrightarrow> BaseKey_Encode j key \<noteq> key"
proof
  assume "key_ok key" "BaseKey_Encode j key = key"
  then have "length (reserve1 @ esc key @ [0, 0] @ reserve2) = length key" by (simp add: BaseKey_Encode_layout)
  moreover have "length key \<le> length (esc key)" by (induction key) auto
  ultimately show False by simp
qed

lemma SUnionstore_keeps:
  assumes "db_healthy (env_db env) view" and "stats_ok r" and "\<forall>k \<in> set keys. key_ok k \<and> set_at env (view (rds_db r)) k (A k)" and "keys \<noteq> []"
    and "key_ok dest" and "set_at env (view (rds_db r)) dest D" and "D \<noteq> {}" and "version_room (view (rds_db r)) dest"
    and "card (\<Union>k \<in> set keys. A k) < 2 ^ 31"
  shows "\<exists>r' r''. SUnionstore env us dest keys r = Some ((OK, Some (union_list (map A keys), of_nat (card (\<Union>k \<in> set keys. A k)))), r') \<and>
    SMembers env us' dest r' = Some ((OK, sorted_list_of_set D), r'')"
  using assms(1,5,6)
proof (cases rule: get_meta_set)
  case (live p ds)
  let ?xs = "union_list (map A keys)"
  have fin: "\<forall>A \<in> set (map A keys). finite A" using assms(3) by (auto intro: set_at_finite)
  have card: "length ?xs = card (\<Union>k \<in> set keys. A k)" using distinct_card [OF union_list(1) [OF fin]] union_list(2) [OF fin] by simp
  obtain kvs r1 where r1: "vaild_sets env (rds_db r) keys = Some (Inr kvs)" "SUnion_loop env us kvs [] r = Some (?xs, r1)"
      "stats_ok r1" "rds_db r1 = rds_db r"
    using SUnion_loop_ok [OF assms(1,3)] assms(2) unfolding union_list_def by blast
  let ?p = "pm_SetCount (of_nat (length ?xs)) (pm_InitialMetaValue (env_now env) p)"
  let ?ops = "Put kMetaCF dest (pv_data ?p) # put_members env dest (pv_version ?p) ?xs"
  obtain r2 where r2: "redis_Write env ?ops r1 = (OK, r2)" "rds_statistics_store r2 = rds_statistics_store r1"
      "\<And>cf. cf \<noteq> kZsetsScoreCF \<Longrightarrow> view (rds_db r2) cf = apply_batch sc ?ops (view (rds_db r1)) cf"
    using redis_Write_healthy [OF assms(1), of ?ops r1] by blast
  have "stats_ok r2" using r1(3) r2(2) by (simp add: stats_ok_def)
  from UpdateSpecificKeyStatistics_ok [OF this, of kSets dest "ucast (pm_count p)"] obtain r3 where r3:
      "UpdateSpecificKeyStatistics kSets dest (ucast (pm_count p)) r2 = Some r3" "stats_ok r3" "rds_db r3 = rds_db r2" by auto
  let ?m = "apply_op sc (Put kMetaCF dest (pv_data ?p)) (view (rds_db r))"
  have less: "pv_version p < pv_version ?p"
    using next_version_increases [OF version_roomD [OF assms(8) live(3,4)], of "env_now env"] by simp
  have meta: "meta_of (view (rds_db r3)) dest = Some (pv_data p)"
  proof -
    have "meta_of (apply_batch sc ?ops (view (rds_db r))) dest = meta_of ?m dest"
      using member_ops_meta [OF slice_order_axioms sets.member_cf(2) assms(5), of "pv_version ?p" "member_puts env ?xs" ?m]
        fold_meta_change [of "member_puts env ?xs"] by (simp add: put_members_ops [OF assms(5)])
    moreover have "meta_of ?m dest = meta_of (view (rds_db r)) dest"
      using raw_key [OF assms(5), of "\<lambda>_. 0", symmetric] by (simp add: meta_of_def apply_op.simps)
    moreover have "meta_of (view (rds_db r3)) dest = meta_of (apply_batch sc ?ops (view (rds_db r))) dest"
      using r2(3) [of kMetaCF] r3(3) r1(4) by (simp add: meta_of_def)
    ultimately show ?thesis using live(3) by simp
  qed
  have records: "data_records (view (rds_db r3)) kSetsDataCF dest (pv_version p) ds"
  proof -
    have "data_frame dest (pv_version ?p) kSetsDataCF ?m (apply_batch sc (put_members env dest (pv_version ?p) ?xs) ?m)"
      unfolding put_members_ops [OF assms(5)]
      by (rule data_op_frame [OF slice_order_axioms sets.member_cf(1,2) assms(5)]) (auto simp: data_op_def)
    from data_frame_records [OF this assms(5,5) sets.member_cf(2), of "pv_version p" ds] less
    have "data_records (apply_batch sc ?ops (view (rds_db r))) kSetsDataCF dest (pv_version p) ds \<longleftrightarrow> data_records ?m kSetsDataCF dest (pv_version p) ds"
      by simp
    moreover have "data_records ?m kSetsDataCF dest (pv_version p) ds"
      using live(9) meta_put(2) [OF slice_order_axioms assms(5), of kSetsDataCF] by (simp add: data_records_def)
    moreover have "view (rds_db r3) kSetsDataCF = apply_batch sc ?ops (view (rds_db r)) kSetsDataCF" using r2(3) r3(3) r1(4) by simp
    ultimately show ?thesis using data_records_cong by blast
  qed
  have "SUnionstore env us dest keys r = Some ((OK, Some (?xs, of_nat (card (\<Union>k \<in> set keys. A k)))), r3)"
    using assms(4) r1 live(1,2) r2(1) r3(1) check_set_count_small [of "length ?xs"] assms(9) card
    by (simp add: SUnionstore_def store_members_def Let_def)
  moreover have "map fst ds = sorted_list_of_set D" using key_sorted_keys(1) [OF data_records_sorted [OF live(9)]] live(12) by simp
  ultimately show ?thesis using SMembers_found [OF assms(1,5) meta live(4-7) records r3(2), of us'] by auto
qed (use assms(7) in simp_all)

section \<open>SMOVE\<close>

text \<open>Two batches for different keys, written as one.\<close>

lemma write_both:
  assumes "db_healthy (env_db env) view" and "key_ok key1" and "key_ok key2" and "key1 \<noteq> key2"
    and "redis_Write env ops1 r = (OK, r1)" and "set_at env (view (rds_db r1)) key1 A1" and "stats_ok r"
    and "writes_set key2 r1 ops2 A2"
  shows "\<exists>r'. redis_Write env (ops1 @ ops2) r = (OK, r') \<and> stats_ok r' \<and> set_at env (view (rds_db r')) key1 A1 \<and> set_at env (view (rds_db r')) key2 A2"
proof -
  obtain r2 where r2: "redis_Write env ops2 r1 = (OK, r2)" "set_at env (view (rds_db r2)) key2 A2" "set_frame key2 (view (rds_db r1)) (view (rds_db r2))"
    using assms(8) by (auto simp: writes_set_def)
  have v: "view (rds_db b) cf = apply_batch sc ops (view (rds_db a)) cf" if "redis_Write env ops a = (OK, b)" "cf \<noteq> kZsetsScoreCF" for ops a b cf
    using redis_Write_healthy [OF assms(1), of ops a] that by (metis prod.inject)
  obtain r' where r': "redis_Write env (ops1 @ ops2) r = (OK, r')" "rds_statistics_store r' = rds_statistics_store r"
    using redis_Write_healthy [OF assms(1), of "ops1 @ ops2" r] by blast
  have same: "view (rds_db r2) cf = view (rds_db r') cf" if "cf \<noteq> kZsetsScoreCF" for cf
    using v [OF r2(1) that] v [OF r'(1) that] v [OF assms(5) that]
      apply_batch_cong [of "view (rds_db r1)" cf "apply_batch sc ops1 (view (rds_db r))" sc ops2] by simp
  have "set_at env (view (rds_db r2)) key1 A1" by (rule set_at_other [OF r2(3) assms(3,2) assms(4) [symmetric] assms(6)])
  then show ?thesis using r' assms(7) set_at_cong [OF same] r2(2) by (auto simp: stats_ok_def)
qed

lemma SMove_add_ok:
  assumes "db_healthy (env_db env) view" and "key_ok source" and "key_ok dest" and "source \<noteq> dest"
    and "set_at env (view (rds_db r)) dest B" and "stamp_ok (env_now env)" and "version_room (view (rds_db r)) dest" and "card B + 1 < 2 ^ 31"
    and "set_frame source (view (rds_db r)) (view (rds_db r1))"
  shows "\<exists>ops. SMove_add env dest x (rds_db r) = Some (Inr ops) \<and> writes_set dest r1 ops (insert x B)"
proof -
  note same = set_frame_other [OF assms(9,2,3,4)]
  have room: "version_room (view (rds_db r1)) dest" using assms(7) by (simp add: version_room_def same)
  show ?thesis
    using assms(1,3,5)
  proof (cases rule: get_meta_set)
    case (missing st mv)
    obtain version meta where new: "new_base_meta env kSets 1 = (version, meta)" by fastforce
    have "writes_set dest r1 (Put kMetaCF (base_meta_key env dest) meta # put_members env dest version [x]) (set [x])"
      by (rule put_new_members [OF assms(1,3,6)]) (use missing(5) new in \<open>simp_all add: same\<close>)
    then show ?thesis using missing(1-4) new by (simp add: SMove_add_def put_members_def)
  next
    case (expired p)
    have "writes_set dest r1 (Put kMetaCF (base_meta_key env dest) (pv_data (pm_SetCount (of_nat (length [x])) (pm_InitialMetaValue (env_now env) p))) #
        put_members env dest (pv_version (pm_SetCount (of_nat (length [x])) (pm_InitialMetaValue (env_now env) p))) [x]) (set [x])"
      by (rule put_renewed_members [OF assms(1,3) room]) (use expired in \<open>simp_all add: same\<close>)
    then show ?thesis using expired(1,2,6,7) by (simp add: SMove_add_def put_members_def Let_def)
  next
    case (live p ds)
    have l: "live_coll kSets kSetsDataCF (env_now env) (view (rds_db r1)) dest p ds" using live by (simp add: live_coll_def same)
    have sorted: "key_sorted ds" by (rule data_records_sorted [OF live(9)])
    let ?g = "db_Get (env_db env) (rds_db r) kSetsDataCF (member_key env dest (pv_version p) x)"
    show ?thesis
    proof (cases "map_of ds x")
      case None
      have "is_NotFound (fst ?g)" using sets.Get_member(2) [OF assms(1,3) live(9) None] .
      moreover have "pm_CheckModifyCount 1 p"
        using CheckModifyCount_ok [OF live(10)] assms(8) key_sorted_keys(2) [OF sorted] live(12) by simp
      moreover have "writes_set dest r1 (map (member_write kSetsDataCF dest (pv_version p)) [MMeta (pv_data (pm_ModifyCount 1 p)), MPut x (i_val env [])])
          (fst ` set (fold member_change [MMeta (pv_data (pm_ModifyCount 1 p)), MPut x (i_val env [])] ds))"
        by (rule change_set [OF assms(1,3) l, of _ "pm_ModifyCount 1 p"])
          (use live assms(8) None length_ds_put [OF sorted, of x "i_val env []"] key_sorted_keys(2) [OF sorted] in \<open>simp_all add: pm_intros\<close>)
      moreover have "fst ` set (ds_put x (i_val env []) ds) = insert x B"
        using put_all_keys(1) [OF sorted, of "[x]" "i_val env []"] live(12) by simp
      ultimately show ?thesis using live(1,2,6,7) by (auto simp: SMove_add_def Let_def sets.member_keys [OF assms(3)])
    next
      case (Some v)
      have "?g = (OK, v)" using sets.Get_member(1) [OF assms(1,3) live(9) Some] .
      moreover have "writes_set dest r1 (map (member_write kSetsDataCF dest (pv_version p)) []) (fst ` set (fold member_change [] ds))"
        by (rule change_set [OF assms(1,3) l, of _ p]) (use live in simp_all)
      moreover have "insert x B = B" using Some live(12) map_of_SomeD [OF Some] by force
      ultimately show ?thesis using live(1,2,6,7,12) by (auto simp: SMove_add_def Let_def)
    qed
  qed
qed

lemma SMove_ok:
  assumes "db_healthy (env_db env) view" and "key_ok source" and "key_ok dest" and "source \<noteq> dest" and "stats_ok r"
    and "set_at env (view (rds_db r)) source A" and "set_at env (view (rds_db r)) dest B" and "x \<in> A"
    and "stamp_ok (env_now env)" and "version_room (view (rds_db r)) dest" and "card B + 1 < 2 ^ 31"
  shows "\<exists>r'. SMove env source dest x r = Some ((OK, 1), r') \<and> stats_ok r' \<and>
    set_at env (view (rds_db r')) source (A - {x}) \<and> set_at env (view (rds_db r')) dest (insert x B)"
  using assms(1,2,6)
proof (cases rule: get_meta_set)
  case (live p ds)
  let ?p = "pm_ModifyCount (- 1) p"
  have sorted: "key_sorted ds" by (rule data_records_sorted [OF live(9)])
  obtain v where v: "map_of ds x = Some v" using assms(8) live(12) by (metis map_of_eq_None_iff not_None_eq)
  have g: "db_Get (env_db env) (rds_db r) kSetsDataCF (member_key env source (pv_version p) x) = (OK, v)"
    using sets.Get_member(1) [OF assms(1,2) live(9) v] .
  have l: "live_coll kSets kSetsDataCF (env_now env) (view (rds_db r)) source p ds" using live by (simp add: live_coll_def)
  have pos: "0 < length ds" using v by (cases ds) auto
  have len: "Suc (length (ds_delete x ds)) = length ds" using length_ds_delete [OF sorted, of x] v pos by simp
  then have count: "of_nat (length ds) - 1 = (of_nat (length (ds_delete x ds)) :: i32)" by (metis add_diff_cancel_left' of_nat_Suc)
  have "writes_set source r (map (member_write kSetsDataCF source (pv_version p)) [MMeta (pv_data ?p), MDelete x])
      (fst ` set (fold member_change [MMeta (pv_data ?p), MDelete x] ds))"
    by (rule change_set [OF assms(1,2) l, of _ ?p]) (use live len count in \<open>simp_all add: pm_intros\<close>)
  moreover have "fst ` set (ds_delete x ds) = A - {x}" using live(12) by (auto simp: ds_delete_def)
  ultimately have w: "writes_set source r [Put kMetaCF (base_meta_key env source) (pv_data ?p), Delete kSetsDataCF (member_key env source (pv_version p) x)] (A - {x})"
    by (simp add: sets.member_keys [OF assms(2)])
  then obtain r1 where r1: "redis_Write env [Put kMetaCF (base_meta_key env source) (pv_data ?p), Delete kSetsDataCF (member_key env source (pv_version p) x)] r = (OK, r1)"
      "set_at env (view (rds_db r1)) source (A - {x})" "set_frame source (view (rds_db r)) (view (rds_db r1))"
    using writes_setD [OF w assms(5)] by blast
  obtain ops where ops: "SMove_add env dest x (rds_db r) = Some (Inr ops)" "writes_set dest r1 ops (insert x B)"
    using SMove_add_ok [OF assms(1-4,7,9-11) r1(3)] by blast
  obtain r2 where r2: "redis_Write env ([Put kMetaCF (base_meta_key env source) (pv_data ?p), Delete kSetsDataCF (member_key env source (pv_version p) x)] @ ops) r = (OK, r2)"
      "stats_ok r2" "set_at env (view (rds_db r2)) source (A - {x})" "set_at env (view (rds_db r2)) dest (insert x B)"
    using write_both [OF assms(1-4) r1(1,2) assms(5) ops(2)] by blast
  have "pm_CheckModifyCount (- 1) p"
    using sint_neg_count [of 1] sint_count [of "length ds"] live(10,11) pos by (simp add: pm_CheckModifyCount_def Let_def)
  then show ?thesis
    using assms(4) live(1,2,6,7) g ops(1) r2 UpdateSpecificKeyStatistics_ok [OF r2(2), of kSets source 1] by (auto simp: SMove_def)
qed (use assms(8) in simp_all)

end

end
