(* ===== verification/SetsScan.thy ===== *)
theory SetsScan
  imports SetsAlgebra
begin

text \<open>\<open>SSCAN\<close>: one call, and the iteration of a client that never ends.\<close>

declare apply_op.simps [simp del]

definition matching_members :: "bytes \<Rightarrow> bytes list \<Rightarrow> bytes list" where
  "matching_members pattern xs = filter (\<lambda>x. StringMatch pattern x False = Some True) xs"

lemma SScan_loop_run:
  assumes "key_ok key" and "rest \<noteq> [] \<Longrightarrow> \<not> prefix (data_prefix key version) (fst (hd rest))"
    and "\<forall>x \<in> set ds. StringMatch pattern (fst x) False \<noteq> None"
  shows "SScan_loop (data_prefix key version) pattern (map (\<lambda>(d, v). (data_key key version d, v)) ds @ rest) n =
    Some (matching_members pattern (take (nat (sint n)) (map fst ds)), map (\<lambda>(d, v). (data_key key version d, v)) (drop (nat (sint n)) ds) @ rest)"
  using assms(3)
proof (induction ds arbitrary: n)
  case Nil
  show ?case using assms(2) by (cases rest) (auto simp: matching_members_def)
next
  case (Cons x ds)
  obtain d v where x: "x = (d, v)" by (cases x)
  obtain b where b: "StringMatch pattern d False = Some b" using Cons.prems x by auto
  show ?case
  proof (cases "sint n > 0")
    case True
    then have n: "nat (sint n) = Suc (nat (sint (n - 1)))" using sint_pred_i64 [of n] by simp
    show ?thesis
      using True assms(1) Cons.IH [of "n - 1"] Cons.prems b unfolding n x
      by (simp add: BaseDataKey_decode_Encode Let_def matching_members_def)
  qed (simp add: x matching_members_def)
qed

lemma append_le: "p @ a \<le> p @ (b :: bytes) \<longleftrightarrow> a \<le> b"
  by (induction p) auto

text \<open>A client that makes \<open>n\<close> calls, each with the cursor of the last reply, and stops when that is 0.\<close>

fun sscan_calls ::
    "'s env \<Rightarrow> bytes \<Rightarrow> bytes \<Rightarrow> i64 \<Rightarrow> (nat \<Rightarrow> u64 \<times> u64) \<Rightarrow> nat \<Rightarrow> i64 \<Rightarrow> 's redis \<Rightarrow> (bytes list list \<times> i64 \<times> 's redis) option" where
  "sscan_calls env key pattern count us 0 cursor r = Some ([], cursor, r)"
| "sscan_calls env key pattern count us (Suc n) cursor r = do {
     ((s, ms, nxt), r) \<leftarrow> SScan env (us 0) key cursor pattern count r;
     if nxt = 0 then Some ([ms], 0, r)
     else do {
       (mss, cursor, r) \<leftarrow> sscan_calls env key pattern count (us \<circ> Suc) n nxt r;
       Some (ms # mss, cursor, r) } }"

context engine
begin

lemma seek_key_layout: "key_ok key \<Longrightarrow> member_seek_key env key version d = data_prefix key version @ d"
  by (simp add: member_seek_key_def BaseDataKey_EncodeSeekKey_layout)

text \<open>One call. The seek key of the start point has no reserved suffix, so the call starts at the first member that is not
  smaller when the suffix is appended to it.\<close>

lemma SScan_step:
  fixes point :: "bytes option" and cursor count :: i64
  assumes "db_healthy (env_db env) view" and "key_ok key" and "set_at env (view (rds_db r)) key A" and "stats_ok r" and "A \<noteq> {}"
    and "\<forall>x \<in> A. StringMatch pattern x False \<noteq> None" and "\<not> isTailWildcard pattern" and "0 \<le> sint cursor"
    and "scan_point r kSets key pattern cursor point"
  defines "xs \<equiv> filter (\<lambda>x. (case point of Some s \<Rightarrow> s | None \<Rightarrow> []) \<le> x @ reserve2) (sorted_list_of_set A)"
    and "n \<equiv> nat (sint count)" and "nxt \<equiv> (case point of Some _ \<Rightarrow> cursor | None \<Rightarrow> 0) + count"
  assumes "n < length xs"
  shows "\<exists>r'. SScan env us key cursor pattern count r = Some ((OK, matching_members pattern (take n xs), nxt), r') \<and>
    stats_ok r' \<and> rds_db r' = rds_db r \<and> scan_point r' kSets key pattern nxt (Some (xs ! n))"
  using assms(1-3)
proof (cases rule: get_meta_set)
  case (live p ds)
  let ?start = "case point of Some s \<Rightarrow> s | None \<Rightarrow> []" and ?cur = "case point of Some _ \<Rightarrow> cursor | None \<Rightarrow> 0"
  let ?k = "data_prefix key (pv_version p) @ ?start"
  define ss where "ss = filter (\<lambda>x. ?start \<le> fst x @ reserve2) ds"
  have xs: "xs = map fst ss"
    unfolding xs_def ss_def live(12) key_sorted_keys(1) [OF data_records_sorted [OF live(9)], symmetric] by (simp add: filter_map comp_def)
  obtain rest where rest: "it_Seek (env_db env) (rds_db r) kSetsDataCF ?k = map (\<lambda>(d, v). (data_key key (pv_version p) d, v)) ss @ rest"
      "rest \<noteq> [] \<Longrightarrow> \<not> prefix (data_prefix key (pv_version p)) (fst (hd rest))"
  proof (rule seek_records_at [OF sets.member_cf(1) assms(2) live(9), of ?k])
    fix rest
    assume "it_Seek (env_db env) (rds_db r) kSetsDataCF ?k =
        filter (\<lambda>x. ?k \<le> fst x) (map (\<lambda>(d, v). (data_key key (pv_version p) d, v)) ds) @ rest"
      and "rest \<noteq> [] \<Longrightarrow> \<not> prefix (data_prefix key (pv_version p)) (fst (hd rest))"
    then show thesis
      using that [of rest] by (simp add: ss_def filter_map comp_def case_prod_unfold data_key_eq [OF assms(2)] append_le)
  qed simp
  have total: "\<forall>x \<in> set ss. StringMatch pattern (fst x) False \<noteq> None" using assms(6) live(12) by (auto simp: ss_def)
  obtain store es where store: "scan_start kSets key pattern cursor r = Some ((?start, ?cur), r\<lparr>rds_scan_cursors_store := store\<rparr>)"
      "lru_rel store es" "lc_capacity store \<noteq> 0"
    using scan_start_ok [OF assms(9)] assms(7) by (cases point) auto
  let ?r = "r\<lparr>rds_scan_cursors_store := store\<rparr>"
  obtain x ys where x: "drop n ss = x # ys" "xs ! n = fst x" using assms(13) xs by (metis Cons_nth_drop_Suc length_map nth_map)
  obtain store' where store': "StoreScanNextPoint kSets key pattern nxt (fst x) ?r = Some (?r\<lparr>rds_scan_cursors_store := store'\<rparr>)"
      "scan_point (?r\<lparr>rds_scan_cursors_store := store'\<rparr>) kSets key pattern nxt (Some (fst x))"
    using StoreScanNextPoint_ok [of ?r es kSets key pattern nxt "fst x"] store(2,3) by auto
  let ?r' = "?r\<lparr>rds_scan_cursors_store := store'\<rparr>"
  have "stats_ok ?r'" using assms(4) by (simp add: stats_ok_def)
  then obtain r' where r': "KeyStatisticsDurationGuard us kSets key ?r' = Some r'" "stats_ok r'" "rds_db r' = rds_db ?r'"
      "rds_scan_cursors_store r' = rds_scan_cursors_store ?r'"
    using guard_ok [OF _ sets.member_cf(4), of ?r' us key] by blast
  have "SScan env us key cursor pattern count r = Some ((OK, matching_members pattern (take n xs), nxt), r')"
    using live(1,2,6,7) store(1) SScan_loop_run [OF assms(2) rest(2) total, of count, folded n_def] store'(1) r'(1) assms(2,7,8) x(1)
    by (cases x) (simp add: SScan_def Let_def seek_key_layout [OF assms(2)] rest(1) xs BaseDataKey_decode_Encode nxt_def)
  moreover have "scan_point r' kSets key pattern nxt (Some (xs ! n))"
    using store'(2) scan_point_guard [OF r'(4)] x(2) by simp
  ultimately show ?thesis using r' by auto
qed (use assms(5) in simp_all)

text \<open>A member and the same with a zero byte appended: the scan comes back to the first one for ever.\<close>

lemma SScan_stuck:
  assumes "db_healthy (env_db env) view" and "key_ok key" and "x = y @ [0]" and "StringMatch pattern y False = Some True" and "StringMatch pattern x False \<noteq> None"
    and "\<not> isTailWildcard pattern"
  shows "set_at env (view (rds_db r)) key {y, x} \<Longrightarrow> stats_ok r \<Longrightarrow> i + n < 2 ^ 31 \<Longrightarrow>
    scan_point r kSets key pattern (of_nat i) (if i = 0 then None else Some x) \<Longrightarrow>
    \<exists>r'. sscan_calls env key pattern 1 us n (of_nat i) r = Some (replicate n [y], of_nat (i + n), r')"
proof (induction n arbitrary: i r us)
  case (Suc n)
  let ?point = "if i = 0 then None else Some x"
  have "y \<le> x" unfolding assms(3) by (rule prefix_le) simp
  then have "y < x" unfolding assms(3) by (simp add: less_le)
  then have sorted: "sorted_list_of_set {y, x} = [y, x]" using sorted_list_of_set.idem_if_sorted_distinct [of "[y, x]"] by auto
  have "[0] \<le> reserve2" by (rule prefix_le) (simp add: reserve2_def numeral_eq_Suc)
  then have "x \<le> y @ reserve2" unfolding assms(3) append_le .
  moreover have "x \<le> x @ reserve2" by (rule prefix_le) simp
  ultimately have xs: "filter (\<lambda>z. (case ?point of Some s \<Rightarrow> s | None \<Rightarrow> []) \<le> z @ reserve2) (sorted_list_of_set {y, x}) = [y, x]"
    unfolding sorted by simp
  have i: "sint (of_nat i :: i64) = int i" using Suc.prems(3) by (simp add: sint_of_nat_i64)
  have nxt: "(case ?point of Some _ \<Rightarrow> of_nat i | None \<Rightarrow> 0) + 1 = (of_nat (i + 1) :: i64)" by auto
  have total: "\<forall>z \<in> {y, x}. StringMatch pattern z False \<noteq> None" using assms(4,5) by auto
  obtain r1 where r1: "SScan env (us 0) key (of_nat i) pattern 1 r = Some ((OK, [y], of_nat (i + 1)), r1)" "stats_ok r1" "rds_db r1 = rds_db r"
      "scan_point r1 kSets key pattern (of_nat (i + 1)) (Some x)"
    using SScan_step [OF assms(1,2) Suc.prems(1,2) _ total assms(6) _ Suc.prems(4), where count = 1 and us = "us 0"] i assms(4)
    unfolding xs nxt by (auto simp: matching_members_def)
  have "sint (of_nat (i + 1) :: i64) = int (i + 1)" using Suc.prems(3) by (intro sint_of_nat_i64) simp
  then have "(of_nat (i + 1) :: i64) \<noteq> 0" by (intro notI) simp
  moreover have "\<exists>r'. sscan_calls env key pattern 1 (us \<circ> Suc) n (of_nat (i + 1)) r1 = Some (replicate n [y], of_nat (i + 1 + n), r')"
    by (rule Suc.IH) (use Suc.prems(1,3) r1(2-4) in \<open>simp_all del: of_nat_add\<close>)
  ultimately show ?case using r1(1) by (auto simp del: of_nat_add of_nat_Suc)
qed simp

end

end
