(* ===== verification/SetsPop.thy ===== *)
theory SetsPop
  imports SetsScan
begin

text \<open>\<open>SPOP\<close>: the drawing of positions ends for every engine whose numbers reach all positions again and again, and the
  members at the positions drawn are taken out of the set. Then removal and expiry.\<close>

declare apply_op.simps [simp del]

section \<open>Drawing positions\<close>

text \<open>What \<open>SPOP\<close> relies on of the random engine: modulo the size of the set it produces every number infinitely often.\<close>

definition fair_engine :: "(nat \<Rightarrow> u64) \<Rightarrow> nat \<Rightarrow> bool" where
  "fair_engine rnd n \<longleftrightarrow> (\<forall>i. \<forall>t < n. \<exists>j \<ge> i. unat (rnd j) mod n = t)"

lemma drawn_index:
  assumes "0 < sint (modnum :: i32)"
  shows "ucast (w mod scast modnum :: u64) = (of_nat (unat w mod nat (sint modnum)) :: i32)"
proof -
  have "uint (scast modnum :: u64) = take_bit 64 (sint modnum)" by transfer simp
  also have "\<dots> = sint modnum" using assms sint_lt [of modnum] by (simp add: take_bit_int_eq_self)
  finally have "unat (scast modnum :: u64) = nat (sint modnum)" by (simp only: unat_eq_nat_uint)
  then have "unat (w mod scast modnum) = unat w mod nat (sint modnum)" by (simp only: unat_mod)
  then show ?thesis by (metis of_nat_unat)
qed

lemma SPop_draw_ok:
  assumes "0 < sint modnum" and "fair_engine rnd (nat (sint modnum))" and "t < nat (sint modnum)" and "of_nat t \<notin> set sets_index"
  shows "\<exists>t i'. SPop_draw rnd modnum sets_index i = Some (of_nat t, i') \<and> t < nat (sint modnum) \<and> of_nat t \<notin> set sets_index"
proof -
  obtain j where "i \<le> j" "unat (rnd j) mod nat (sint modnum) = t" using assms(2,3) by (auto simp: fair_engine_def)
  then show ?thesis
  proof (induction "j - i" arbitrary: i)
    case 0
    then show ?case using assms(3,4) by (subst SPop_draw.simps) (auto simp: drawn_index [OF assms(1)])
  next
    case (Suc d)
    show ?case
    proof (cases "of_nat (unat (rnd i) mod nat (sint modnum)) \<in> set sets_index")
      case True
      then show ?thesis using Suc by (subst SPop_draw.simps) (auto simp: drawn_index [OF assms(1)])
    next
      case False
      then show ?thesis using assms(1) by (subst SPop_draw.simps) (auto simp: drawn_index [OF assms(1)] intro!: exI [of _ "unat (rnd i) mod nat (sint modnum)"])
    qed
  qed
qed

text \<open>The positions drawn are different ones in the range.\<close>

lemma SPop_draws_ok:
  assumes "0 < sint modnum" and "fair_engine rnd (nat (sint modnum))"
  shows "distinct ts \<Longrightarrow> \<forall>t \<in> set ts. t < nat (sint modnum) \<Longrightarrow> length ts + n \<le> nat (sint modnum) \<Longrightarrow>
    \<exists>ts'. SPop_draws rnd modnum n (map of_nat ts) i = Some (map of_nat ts') \<and> distinct ts' \<and> (\<forall>t \<in> set ts'. t < nat (sint modnum)) \<and>
      length ts' = length ts + n"
proof (induction n arbitrary: ts i)
  case (Suc n)
  have small: "nat (sint modnum) < 2 ^ 31" using sint_lt [of modnum] by simp
  have inj: "of_nat s = (of_nat t :: i32) \<Longrightarrow> s = t" if "s < nat (sint modnum)" "t < nat (sint modnum)" for s t
    using that small sint_count [of s] sint_count [of t] by (metis less_trans of_nat_eq_iff)
  have "card (set ts) < card {..<nat (sint modnum)}" using Suc.prems(3) distinct_card [OF Suc.prems(1)] by simp
  then obtain t where "t < nat (sint modnum)" "t \<notin> set ts"
    by (metis card_mono finite_set lessThan_iff not_less subsetI)
  then have "of_nat t \<notin> set (map of_nat ts :: i32 list)" using inj Suc.prems(2) by auto
  then obtain t' i' where t': "SPop_draw rnd modnum (map of_nat ts) i = Some (of_nat t', i')" "t' < nat (sint modnum)" "t' \<notin> set ts"
    using SPop_draw_ok [OF assms \<open>t < _\<close>, of "map of_nat ts" i] by auto
  then show ?case using Suc.IH [of "t' # ts" i'] Suc.prems by auto
qed auto

section \<open>Taking the members\<close>

lemma SPop_loop_run:
  assumes "key_ok key" and "length ds + c = nat (sint sz)" and "m < 2 ^ 31"
    and "n + length (nths ds {i. of_nat (c + i) \<in> set sets_index}) = m"
  shows "SPop_loop (map (\<lambda>(d, v). (data_key key version d, v)) ds @ rest) (of_nat c) sz sets_index (of_nat n) (of_nat m) =
    (let ms = map fst (nths ds {i. of_nat (c + i) \<in> set sets_index}) in Some (ms, map (\<lambda>d. Delete kSetsDataCF (data_key key version d)) ms))"
  using assms(2,4)
proof (induction ds arbitrary: c n)
  case Nil
  have "c < 2 ^ 31" using Nil sint_lt [of sz] by simp
  then have "\<not> sint (of_nat c :: i32) < sint sz" using Nil sint_count [of c] by simp
  then show ?case by (cases rest) auto
next
  case (Cons x ds)
  obtain d v where x: "x = (d, v)" by (cases x)
  have "c < 2 ^ 31" using Cons.prems sint_lt [of sz] by simp
  then have c: "sint (of_nat c :: i32) < sint sz" using Cons.prems(1) sint_count [of c] by simp
  have shift: "{j. of_nat (c + Suc j) \<in> set sets_index} = {i. of_nat (Suc c + i) \<in> set sets_index}" by simp
  have "sint (of_nat n :: i64) = int n" "sint (of_nat m :: i64) = int m" using Cons.prems(2) assms(3) by (auto intro!: sint_of_nat_i64)
  then have n: "(of_nat n :: i64) = of_nat m \<longleftrightarrow> n = m" by (metis of_nat_eq_iff)
  note IH = Cons.IH [of "Suc c"]
  show ?case
  proof (cases "n = m")
    case True
    then have "nths (x # ds) {i. of_nat (c + i) \<in> set sets_index} = []" using Cons.prems(2) by simp
    then show ?thesis using True n unfolding x by simp
  next
    case False
    then show ?thesis
      using n c IH [of n] IH [of "Suc n"] Cons.prems assms(1) unfolding x
      by (auto simp: nths_Cons shift Let_def BaseDataKey_decode_Encode add.commute simp del: of_nat_add)
  qed
qed

lemma ucast_uminus_of_nat: "ucast (- of_nat n :: i64) = (- of_nat n :: i32)"
  by transfer (simp add: take_bit_take_bit)

context engine
begin

lemma SPop_ok:
  assumes "db_healthy (env_db env) view" and "key_ok key" and "set_at env (view (rds_db r)) key A" and "stats_ok r" and "A \<noteq> {}"
    and "n \<le> card A" and "fair_engine rnd (card A)"
  shows "\<exists>ms r'. SPop env rnd us key (of_nat n) r = Some ((OK, ms), r') \<and> distinct ms \<and> set ms \<subseteq> A \<and> length ms = n \<and> stats_ok r' \<and>
    set_at env (view (rds_db r')) key (A - set ms) \<and> set_frame key (view (rds_db r)) (view (rds_db r'))"
  using assms(1-3)
proof (cases rule: get_meta_set)
  case (live p ds)
  have sorted: "key_sorted ds" by (rule data_records_sorted [OF live(9)])
  have card: "card A = length ds" using key_sorted_keys(2) [OF sorted] live(12) by simp
  have sz: "sint (pm_count p) = int (length ds)" using live(10,11) sint_count [of "length ds"] by simp
  have n: "n < 2 ^ 31" using assms(6) card live(11) by simp
  obtain ts where ts: "SPop_draws rnd (pm_count p) n [] 0 = Some (map of_nat ts)" "distinct ts" "\<forall>t \<in> set ts. t < length ds" "length ts = n"
  proof -
    have "length ds \<noteq> 0" using assms(5) live(12) by auto
    then show thesis using that SPop_draws_ok [of "pm_count p" rnd "[]" n 0] assms(6,7) unfolding card sz by auto
  qed
  let ?I = "{i. of_nat (0 + i) \<in> set (map of_nat ts :: i32 list)}"
  define gone where "gone = map fst (nths ds ?I)"
  have inj: "of_nat s = (of_nat t :: i32) \<Longrightarrow> s = t" if "s < length ds" "t < length ds" for s t
    using that live(11) sint_count [of s] sint_count [of t] by (metis less_trans of_nat_eq_iff)
  have "{i. i < length ds \<and> i \<in> ?I} = set ts" using ts(3) inj by auto
  then have len: "length (nths ds ?I) = n" using ts(2,4) distinct_card [of ts] by (simp add: length_nths)
  have "distinct (map fst ds)" unfolding key_sorted_keys(1) [OF sorted] by simp
  then have gone: "distinct gone" "set gone \<subseteq> A" "length gone = n"
    using live(12) len set_nths_subset [of ds ?I] distinct_nthsI [of "map fst ds" ?I] unfolding gone_def nths_map by auto
  obtain rest where rest: "it_Seek (env_db env) (rds_db r) kSetsDataCF (data_prefix key (pv_version p)) =
      map (\<lambda>(d, v). (data_key key (pv_version p) d, v)) ds @ rest"
    using seek_all_records [OF sets.member_cf(1) assms(2) live(9)] by blast
  have loop: "SPop_loop (map (\<lambda>(d, v). (data_key key (pv_version p) d, v)) ds @ rest) 0 (pm_count p) (map of_nat ts) 0 (of_nat n) =
      Some (gone, map (\<lambda>d. Delete kSetsDataCF (data_key key (pv_version p) d)) gone)"
    using SPop_loop_run [OF assms(2), of ds 0 "pm_count p" n 0 "map of_nat ts" "pv_version p" rest] sz n len by (simp add: gone_def Let_def)
  obtain r1 where r1: "KeyStatisticsDurationGuard us kSets key r = Some r1" "stats_ok r1" "rds_db r1 = rds_db r"
    using guard_ok [OF assms(4) sets.member_cf(4), of us key] by blast
  let ?p = "pm_ModifyCount (- of_nat n) p"
  have "live_coll kSets kSetsDataCF (env_now env) (view (rds_db r1)) key p ds" using live r1(3) by (simp add: live_coll_def)
  from delete_members [OF assms(1,2) this gone(1)] gone(2,3) live(12)
  have "writes_set key r1 (map (\<lambda>d. Delete kSetsDataCF (data_key key (pv_version p) d)) gone @ [Put kMetaCF (base_meta_key env key) (pv_data ?p)]) (A - set gone)"
    by (simp add: sets.member_keys [OF assms(2)] comp_def)
  from writes_setD [OF this r1(2)] obtain r2 where
    r2: "redis_Write env (map (\<lambda>d. Delete kSetsDataCF (data_key key (pv_version p) d)) gone @ [Put kMetaCF (base_meta_key env key) (pv_data ?p)]) r1 = (OK, r2)"
      "stats_ok r2" "set_at env (view (rds_db r2)) key (A - set gone)" "set_frame key (view (rds_db r1)) (view (rds_db r2))" by blast
  have "pm_CheckModifyCount (- of_nat n) p"
    using sint_neg_count [of n] sz assms(6) card live(11) n by (simp add: pm_CheckModifyCount_def Let_def)
  moreover have "\<not> sint (pm_count p) < sint (of_nat n :: i64)" "nat (sint (of_nat n :: i64)) = n" using sz assms(6) card sint_of_nat_i64 [OF n] by simp_all
  ultimately have "SPop env rnd us key (of_nat n) r = Some ((OK, gone), r2)"
    using live(1,2,6,7) ts(1) loop rest r1(1) r2(1)
    by (simp add: SPop_def Let_def sets.member_keys [OF assms(2)] ucast_uminus_of_nat)
  then show ?thesis using gone r2 r1(3) by auto
qed (use assms(5) in simp_all)

section \<open>Removal and expiry\<close>

lemma SetsDel_ok:
  assumes "db_healthy (env_db env) view" and "key_ok key" and "set_at env (view (rds_db r)) key A" and "stats_ok r" and "A \<noteq> {}"
    and "version_room (view (rds_db r)) key"
  shows "\<exists>r'. SetsDel env key [] r = Some (OK, r') \<and> stats_ok r' \<and> (\<forall>t. set_at (env\<lparr>env_now := t\<rparr>) (view (rds_db r')) key {}) \<and>
    set_frame key (view (rds_db r)) (view (rds_db r'))"
  using assms(1-3)
proof (cases rule: get_meta_set)
  case (live p ds)
  have l: "live_coll kSets kSetsDataCF (env_now env) (view (rds_db r)) key p ds" using live by (simp add: live_coll_def)
  obtain r1 where r1: "redis_Write env [Put kMetaCF (base_meta_key env key) (pv_data (pm_InitialMetaValue (env_now env) p))] r = (OK, r1)"
      "rds_statistics_store r1 = rds_statistics_store r" "\<And>t. coll_at kSets kSetsDataCF t (view (rds_db r1)) key []"
      "data_frame key 0 kSetsDataCF (view (rds_db r)) (view (rds_db r1))"
    using sets.renew_meta [OF assms(1,2) l assms(6)] by blast
  then have gone: "set_at (env\<lparr>env_now := t\<rparr>) (view (rds_db r1)) key {}" for t by (force simp: set_at_def)
  have "stats_ok r1" using assms(4) r1(2) by (simp add: stats_ok_def)
  from UpdateSpecificKeyStatistics_ok [OF this, of kSets key "ucast (pm_count p)"] show ?thesis
    using live r1(1) set_frameI [OF r1(4)] gone by (auto simp: SetsDel_def Let_def)
qed (use assms(5) in simp_all)

lemma restamp_set:
  assumes "db_healthy (env_db env) view" and "key_ok key" and "live_coll kSets kSetsDataCF (env_now env) (view (rds_db r)) key p ds" and "ds \<noteq> []"
    and "pm_wf p'" and "pv_type p' = kSets" and "pv_version p' = pv_version p" and "pm_count p' = pm_count p" and "stats_ok r"
  shows "\<exists>r'. redis_Write env [Put kMetaCF (base_meta_key env key) (pv_data p')] r = (OK, r') \<and> stats_ok r' \<and>
    (\<forall>t. set_at (env\<lparr>env_now := t\<rparr>) (view (rds_db r')) key (if pv_IsStale t p' then {} else fst ` set ds)) \<and>
    set_frame key (view (rds_db r)) (view (rds_db r'))"
proof -
  obtain r1 where r1: "redis_Write env [Put kMetaCF (base_meta_key env key) (pv_data p')] r = (OK, r1)" "rds_statistics_store r1 = rds_statistics_store r"
      "\<And>t. coll_at kSets kSetsDataCF t (view (rds_db r1)) key (if pv_IsStale t p' then [] else ds)"
      "data_frame key 0 kSetsDataCF (view (rds_db r)) (view (rds_db r1))"
    using sets.restamp_meta [OF assms(1-8)] by blast
  have "set_at (env\<lparr>env_now := t\<rparr>) (view (rds_db r1)) key (if pv_IsStale t p' then {} else fst ` set ds)" for t
    using r1(3) [of t] by (force simp: set_at_def)
  then show ?thesis using r1(1,2) set_frameI [OF r1(4)] assms(9) by (auto simp: stats_ok_def)
qed

lemma SetsExpire_ok:
  assumes "db_healthy (env_db env) view" and "key_ok key" and "set_at env (view (rds_db r)) key A" and "stats_ok r" and "A \<noteq> {}"
    and "0 < sint ttl" and "stamp_ok (env_now env + ttl)" and "env_now env + ttl \<noteq> 0"
  shows "\<exists>r'. SetsExpire env key ttl [] r = Some (OK, r') \<and> stats_ok r' \<and>
    (\<forall>t. set_at (env\<lparr>env_now := t\<rparr>) (view (rds_db r')) key (if env_now env + ttl < t then {} else A)) \<and>
    set_frame key (view (rds_db r)) (view (rds_db r'))"
  using assms(1-3)
proof (cases rule: get_meta_set)
  case (live p ds)
  have l: "live_coll kSets kSetsDataCF (env_now env) (view (rds_db r)) key p ds" and "ds \<noteq> []" using live by (auto simp: live_coll_def)
  let ?p = "pv_SetRelativeTimestamp (env_now env) ttl p"
  have stale: "pv_IsStale t ?p \<longleftrightarrow> env_now env + ttl < t" for t using assms(8) by (simp add: pv_IsStale_def pv_SetRelativeTimestamp_def)
  have "\<exists>r'. redis_Write env [Put kMetaCF (base_meta_key env key) (pv_data ?p)] r = (OK, r') \<and> stats_ok r' \<and>
    (\<forall>t. set_at (env\<lparr>env_now := t\<rparr>) (view (rds_db r')) key (if pv_IsStale t ?p then {} else fst ` set ds)) \<and>
    set_frame key (view (rds_db r)) (view (rds_db r'))"
    by (rule restamp_set [OF assms(1,2) l \<open>ds \<noteq> []\<close>]) (use live(4,5) assms(4,7) in \<open>simp_all add: pv_SetRelativeTimestamp_def pm_intros\<close>)
  then show ?thesis unfolding stale live(12) using live(1,2,6,7) assms(6) by (auto simp: SetsExpire_def Let_def split del: if_split)
qed (use assms(5) in simp_all)

lemma SetsPersist_ok:
  assumes "db_healthy (env_db env) view" and "key_ok key" and "set_at env (view (rds_db r)) key A" and "stats_ok r" and "A \<noteq> {}"
  shows "\<exists>st r'. SetsPersist env key [] r = Some (st, r') \<and> stats_ok r' \<and> (\<forall>t. set_at (env\<lparr>env_now := t\<rparr>) (view (rds_db r')) key A) \<and>
    set_frame key (view (rds_db r)) (view (rds_db r'))"
  using assms(1-3)
proof (cases rule: get_meta_set)
  case (live p ds)
  have l: "live_coll kSets kSetsDataCF (env_now env) (view (rds_db r)) key p ds" and "ds \<noteq> []" using live by (auto simp: live_coll_def)
  show ?thesis
  proof (cases "pv_etime p = 0")
    case True
    then have "coll_at kSets kSetsDataCF t (view (rds_db r)) key ds" for t
      using live by (intro coll_atI [of _ _ p]) (simp_all add: pv_IsStale_def)
    then have "set_at (env\<lparr>env_now := t\<rparr>) (view (rds_db r)) key A" for t using live(12) by (auto simp: set_at_def)
    then show ?thesis using True live assms(4) by (auto simp: SetsPersist_def)
  next
    case False
    have "\<exists>r'. redis_Write env [Put kMetaCF (base_meta_key env key) (pv_data (pv_SetEtime 0 p))] r = (OK, r') \<and> stats_ok r' \<and>
      (\<forall>t. set_at (env\<lparr>env_now := t\<rparr>) (view (rds_db r')) key (if pv_IsStale t (pv_SetEtime 0 p) then {} else fst ` set ds)) \<and>
      set_frame key (view (rds_db r)) (view (rds_db r'))"
      by (rule restamp_set [OF assms(1,2) l \<open>ds \<noteq> []\<close>]) (use live(4,5) assms(4) in \<open>simp_all add: pm_intros\<close>)
    then show ?thesis using live False by (auto simp: SetsPersist_def pv_IsStale_def)
  qed
qed (use assms(5) in simp_all)

end

end
