(* ===== verification/HashesTheorems.thy ===== *)
theory HashesTheorems
  imports HashesScan ListsTheorems
begin

text \<open>
  The properties of the hash commands for every database that keeps the contract \<open>engine\<close>, and the hash
  commands on the reference database.
\<close>

section \<open>A hash in the reference database\<close>

text \<open>What \<open>HMSet\<close> leaves behind on an empty database.\<close>

definition example_fields :: "(bytes \<times> bytes) list" where
  "example_fields = [([1], [49]), ([2], [50]), ([3], [51])]"

definition example_hash :: "WriteOp list redis" where
  "example_hash = example_redis\<lparr>rds_db := rds_db (snd (the (HMSet example_env [7] (map (\<lambda>(f, v). FieldValue f v) example_fields) example_redis)))\<rparr>"

lemma example_stamp: "stamp_ok (env_now example_env)"
  by (simp add: stamp_okI)

lemma example_nothing: "example_view (rds_db example_redis) cf k = None" "meta_of (example_view (rds_db example_redis)) key = None"
  by (simp_all add: example_redis_def log_view_def log_scan_def meta_of_def)

lemma example_no_hash: "hash_at example_env (example_view (rds_db example_redis)) key []"
  by (auto simp: hash_at_def unused_from_def data_records_def example_nothing intro!: coll_at.absent)

lemma example_room: "version_room (example_view (rds_db example_redis)) key"
  by (simp add: version_room_def example_nothing)

lemma key_sorted_unique: "key_sorted h \<Longrightarrow> key_sorted h' \<Longrightarrow> map_of h = map_of h' \<Longrightarrow> h = h'"
proof (rule sorted_wrt_unique)
  have "distinct (map fst l)" if "key_sorted l" for l :: "(bytes \<times> bytes) list" using that by (induction l) auto
  then show "set h = set h'" if "key_sorted h" "key_sorted h'" "map_of h = map_of h'"
    using that by (metis map_of_eqI map_of_inject_set)
qed simp_all

lemma example_hash_at:
  "stats_ok example_hash" "hash_at example_env (example_view (rds_db example_hash)) [7] example_fields"
proof -
  obtain r' h' where r': "HMSet example_env [7] (map (\<lambda>(f, v). FieldValue f v) example_fields) example_redis = Some ((OK, ()), r')"
      "stats_ok r'" "hash_at example_env (example_view (rds_db r')) [7] h'"
      "map_of h' = map_of [] ++ map_of (rev (map (\<lambda>fv. (fv_field fv, fv_value fv)) (map (\<lambda>(f, v). FieldValue f v) example_fields)))"
    using reference.HMSet_ok [OF reference_healthy example_key(1) example_no_hash example_stats(1) example_stamp example_room,
        of "map (\<lambda>(f, v). FieldValue f v) example_fields"] by (auto simp: example_fields_def)
  moreover have "map_of h' = map_of example_fields" unfolding r'(4) by (auto simp: example_fields_def fun_eq_iff)
  then have "h' = example_fields"
    by (rule key_sorted_unique [OF hash_at_sorted [OF r'(3)], rotated]) (simp add: example_fields_def)
  ultimately show "stats_ok example_hash" "hash_at example_env (example_view (rds_db example_hash)) [7] example_fields"
    using example_stats(1) by (simp_all add: example_hash_def stats_ok_def)
qed

section \<open>Properties\<close>



text \<open>\<open>HMSET\<close> sets all the fields it is given, the last value of a field given twice, keeps the others, and changes no
  other key.\<close>

theorem HMSet_sets:
  assumes "engine env view" and "db_healthy (env_db env) view" and "key_ok key" and "hash_at env (view (rds_db r)) key h" and "stats_ok r"
    and "stamp_ok (env_now env)" and "version_room (view (rds_db r)) key" and "length h + length fvs < 2 ^ 31"
  shows "\<exists>r' h'. HMSet env key fvs r = Some ((OK, ()), r') \<and> stats_ok r' \<and> hash_at env (view (rds_db r')) key h' \<and>
    map_of h' = map_of h ++ map_of (rev (map (\<lambda>fv. (fv_field fv, fv_value fv)) fvs)) \<and>
    hash_frame key (view (rds_db r)) (view (rds_db r'))"
  by (rule engine.HMSet_ok [OF assms])

theorem HMSet_sets_witness:
  "\<exists>r' h'. HMSet example_env [7] [FieldValue [1] [2], FieldValue [3] [4], FieldValue [1] [5]] example_redis = Some ((OK, ()), r') \<and>
    hash_at example_env (example_view (rds_db r')) [7] h' \<and> map_of h' = [[3] \<mapsto> [4], [1] \<mapsto> [5]]"
  using HMSet_sets [OF reference.engine_axioms reference_healthy example_key(1) example_no_hash example_stats(1) example_stamp example_room,
      of "[FieldValue [1] [2], FieldValue [3] [4], FieldValue [1] [5]]"]
  by auto

text \<open>C20: \<open>HDEL\<close> removes exactly the fields it is given, returns how many of them there were, and changes no other key.\<close>

theorem HDel_deletes:
  assumes "engine env view" and "db_healthy (env_db env) view" and "key_ok key" and "hash_at env (view (rds_db r)) key h" and "stats_ok r"
  shows "\<exists>r'. HDel env key fs r = Some ((OK, Some (of_nat (length h - length (filter (\<lambda>x. fst x \<notin> set fs) h)))), r') \<and> stats_ok r' \<and>
    hash_at env (view (rds_db r')) key (filter (\<lambda>x. fst x \<notin> set fs) h) \<and> hash_frame key (view (rds_db r)) (view (rds_db r'))"
  by (rule engine.HDel_ok [OF assms])

theorem HDel_deletes_witness:
  "\<exists>r'. HDel example_env [7] [[2], [9], [2]] example_hash = Some ((OK, Some 1), r') \<and>
    hash_at example_env (example_view (rds_db r')) [7] [([1], [49]), ([3], [51])]"
  using HDel_deletes [OF reference.engine_axioms reference_healthy example_key(1) example_hash_at(2,1), of "[[2], [9], [2]]"]
  by (auto simp: example_fields_def)

text \<open>C21: The reading commands agree with each other: \<open>HGET\<close> and \<open>HMGET\<close> look a field up, \<open>HGETALL\<close>, \<open>HKEYS\<close> and
  \<open>HVALS\<close> list the same fields in the same order, and \<open>HLEN\<close> counts them.\<close>

theorem hash_reads:
  assumes "engine env view" and "db_healthy (env_db env) view" and "key_ok key" and "hash_at env (view (rds_db r)) key h" and "stats_ok r" and "h \<noteq> []"
  shows "(case map_of h f of Some v \<Rightarrow> HGet env key f r = Some (OK, v) | None \<Rightarrow> \<exists>st v. HGet env key f r = Some (st, v) \<and> is_NotFound st) \<and>
    HMGet env key fs r = Some (OK, map (\<lambda>f. case map_of h f of Some v \<Rightarrow> ValueStatus v OK | None \<Rightarrow> ValueStatus [] (NotFound [])) fs) \<and>
    (\<exists>r'. HGetall env us key r = Some ((OK, map (\<lambda>(f, v). FieldValue f v) h), r') \<and> stats_ok r' \<and> rds_db r' = rds_db r) \<and>
    (\<exists>r'. HKeys env us key r = Some ((OK, map fst h), r') \<and> stats_ok r' \<and> rds_db r' = rds_db r) \<and>
    (\<exists>r'. HVals env us key r = Some ((OK, map snd h), r') \<and> stats_ok r' \<and> rds_db r' = rds_db r) \<and>
    HLen env key [] r = Some (OK, of_nat (length h))"
  using engine.HGet_ok [OF assms(1-4), of f] engine.HMGet_ok [OF assms(1-4), of fs] engine.HGetall_ok [OF assms(1-5), of us]
    engine.HKeys_ok [OF assms(1-5), of us] engine.HVals_ok [OF assms(1-5), of us] engine.HLen_ok [OF assms(1-4)] assms(6)
  by auto

theorem hash_reads_witness:
  "HMGet example_env [7] [[2], [9]] example_hash = Some (OK, [ValueStatus [50] OK, ValueStatus [] (NotFound [])]) \<and>
    (\<exists>r'. HKeys example_env (0, 0) [7] example_hash = Some ((OK, [[1], [2], [3]]), r')) \<and> HLen example_env [7] [] example_hash = Some (OK, 3)"
  using hash_reads [OF reference.engine_axioms reference_healthy example_key(1) example_hash_at(2,1), of "[1]" "[[2], [9]]" "(0, 0)"]
  by (auto simp: example_fields_def)

text \<open>C22: \<open>HINCRBY\<close> adds to the integer a field holds, counting an absent field as 0, and stores the decimal text of the
  sum; a field that does not hold an integer and a sum out of range are refused without a change.\<close>

theorem HIncrby_adds:
  assumes "engine env view" and "db_healthy (env_db env) view" and "key_ok key" and "hash_at env (view (rds_db r)) key h" and "stats_ok r"
    and "stamp_ok (env_now env)" and "version_room (view (rds_db r)) key" and "length h + 1 < 2 ^ 31"
  shows "case (case map_of h f of None \<Rightarrow> Some 0 | Some old \<Rightarrow> StrToInt64 old) of
      None \<Rightarrow> HIncrby env key f v r = Some ((Corruption ''hash value is not an integer'', 0), r)
    | Some i \<Rightarrow>
        if - (2 ^ 63) \<le> sint i + sint v \<and> sint i + sint v < 2 ^ 63
        then \<exists>r'. HIncrby env key f v r = Some ((OK, i + v), r') \<and> stats_ok r' \<and>
          hash_at env (view (rds_db r')) key (ds_put f (decimal (sint i + sint v)) h) \<and> hash_frame key (view (rds_db r)) (view (rds_db r'))
        else HIncrby env key f v r = Some ((InvalidArgument ''Overflow'', 0), r)"
  by (rule engine.HIncrby_ok [OF assms])

theorem HIncrby_adds_witness:
  "\<exists>r'. HIncrby example_env [7] [1] 7 example_redis = Some ((OK, 7), r') \<and> hash_at example_env (example_view (rds_db r')) [7] [([1], decimal 7)]"
  using HIncrby_adds [OF reference.engine_axioms reference_healthy example_key(1) example_no_hash example_stats(1) example_stamp example_room, of "[1]" 7]
  by (auto simp: ds_put_def)


lemma example_scan_point: "scan_point example_hash kHashes key pattern cursor None"
  using LRUCache_new_ok by (auto simp: scan_point_def example_hash_def example_redis_def scan_index_key_def spec_lookup_def lru_rel_capacity intro!: exI [of _ "[]"])


text \<open>C24: \<open>EXPIRE\<close> keeps a hash until the time given and removes it afterwards, \<open>PERSIST\<close> makes it stay for ever and \<open>DEL\<close>
  removes it for ever; none of them changes another key.\<close>

theorem hash_lifetime:
  assumes "engine env view" and "db_healthy (env_db env) view" and "key_ok key" and "hash_at env (view (rds_db r)) key h" and "stats_ok r" and "h \<noteq> []"
    and "0 < sint ttl" and "stamp_ok (env_now env + ttl)" and "env_now env + ttl \<noteq> 0" and "version_room (view (rds_db r)) key"
  shows "(\<exists>r'. HashesExpire env key ttl [] r = Some (OK, r') \<and>
      (\<forall>t. hash_at (env\<lparr>env_now := t\<rparr>) (view (rds_db r')) key (if env_now env + ttl < t then [] else h)) \<and>
      hash_frame key (view (rds_db r)) (view (rds_db r'))) \<and>
    (\<exists>st r'. HashesPersist env key [] r = Some (st, r') \<and> (\<forall>t. hash_at (env\<lparr>env_now := t\<rparr>) (view (rds_db r')) key h) \<and>
      hash_frame key (view (rds_db r)) (view (rds_db r'))) \<and>
    (\<exists>r'. HashesDel env key [] r = Some (OK, r') \<and> (\<forall>t. hash_at (env\<lparr>env_now := t\<rparr>) (view (rds_db r')) key []) \<and>
      hash_frame key (view (rds_db r)) (view (rds_db r')))"
  using engine.HashesExpire_ok [OF assms(1-9)] engine.HashesPersist_ok [OF assms(1-6)] engine.HashesDel_ok [OF assms(1-6,10)] by blast

lemma example_hash_room: "version_room (example_view (rds_db example_hash)) [7]"
  by code_simp

theorem hash_lifetime_witness:
  "\<exists>r'. HashesExpire example_env [7] 10 [] example_hash = Some (OK, r') \<and>
    (\<forall>t. hash_at (example_env\<lparr>env_now := t\<rparr>) (example_view (rds_db r')) [7] (if 15 < t then [] else example_fields))"
proof -
  have "example_fields \<noteq> []" by (simp add: example_fields_def)
  from hash_lifetime [OF reference.engine_axioms reference_healthy example_key(1) example_hash_at(2,1) this, of 10] example_hash_room
  show ?thesis by (auto simp: stamp_okI split del: if_split)
qed

section \<open>Where the code leaves the contract\<close>

text \<open>C36: \<open>HSET\<close> compares the new value with the stored record, which carries a suffix, instead of the stored value. So
  there is a value it takes for the one already there: it reports success and does not store it.\<close>

theorem HSet_loses_update:
  assumes "engine env view" and "db_healthy (env_db env) view" and "key_ok key" and "hash_at env (view (rds_db r)) key h" and "map_of h f = Some old"
  shows "\<exists>v. v \<noteq> old \<and> HSet env key f v r = Some ((OK, Some 0), r) \<and> HGet env key f r = Some (OK, old)"
  by (rule engine.HSet_ignores [OF assms])

theorem HSet_loses_update_witness:
  "\<exists>v. v \<noteq> [50] \<and> HSet example_env [7] [2] v example_hash = Some ((OK, Some 0), example_hash)"
  using HSet_loses_update [OF reference.engine_axioms reference_healthy example_key(1) example_hash_at(2), of "[2]" "[50]"]
  by (auto simp: example_fields_def)

text \<open>When the database cannot read the meta value, \<open>HMSET\<close> writes an empty batch and returns the status of that, so it
  reports success and stores nothing.\<close>

theorem HMSet_swallows_error:
  assumes "engine env view" and "db_Get (env_db env) (rds_db r) kMetaCF (base_meta_key env key) = (st, mv)" and "st \<noteq> OK" and "\<not> is_NotFound st"
    and "db_Write (env_db env) (rds_db r) [] = (OK, db')" and "stats_ok r"
  shows "\<exists>r'. HMSet env key fvs r = Some ((OK, ()), r') \<and> (\<forall>cf. cf \<noteq> kZsetsScoreCF \<longrightarrow> view (rds_db r') cf = view (rds_db r) cf)"
  by (rule engine.HMSet_reports_OK [OF assms])

text \<open>A database that fails to read.\<close>

definition failing_env :: "WriteOp list env" where
  "failing_env = example_env\<lparr>env_db := (log_db pstd_Slice_compare)\<lparr>db_Get := \<lambda>s cf k. (OtherStatus 5 [], [])\<rparr>\<rparr>"

theorem HMSet_swallows_error_witness:
  "\<exists>r'. HMSet failing_env [7] [FieldValue [1] [2]] example_redis = Some ((OK, ()), r')"
proof -
  have e: "env_compare failing_env = pstd_Slice_compare"
    "env_db failing_env = (log_db pstd_Slice_compare)\<lparr>db_Get := \<lambda>s cf k. (OtherStatus 5 [], [])\<rparr>"
    by (simp_all add: failing_env_def)
  have "engine failing_env example_view"
    unfolding engine_def rocksdb_def rocksdb_axioms_def e log_db_def rocksdb.simps
    using pstd_slice.slice_order_axioms by (auto simp: log_view_append log_view_eq log_scan_sorted split: option.splits)
  then show ?thesis
    using HMSet_swallows_error [of failing_env example_view example_redis "[7]" "OtherStatus 5 []" "[]" "[]" "[FieldValue [1] [2]]"] example_stats(1)
    by (auto simp: failing_env_def log_db_def example_redis_def)
qed

text \<open>The server keeps the point where a scan goes on under a text in which key and pattern are only separated by an
  underscore. Two scans of different keys with different patterns can share it: the second one goes on where the
  first one stopped.\<close>

theorem scan_points_collide:
  assumes "lru_rel (rds_scan_cursors_store r) es" and "lc_capacity (rds_scan_cursors_store r) \<noteq> 0" and "DataTypeTag dt \<noteq> None"
  shows "\<exists>r' r''. StoreScanNextPoint dt (key @ [95] @ x) pattern cursor point r = Some r' \<and>
    scan_start dt key (x @ [95] @ pattern) cursor r' = Some ((point, cursor), r'')"
proof -
  have same: "scan_index_key dt key (x @ [95] @ pattern) cursor = scan_index_key dt (key @ [95] @ x) pattern cursor"
    by (simp add: scan_index_key_def)
  obtain store where store: "StoreScanNextPoint dt (key @ [95] @ x) pattern cursor point r = Some (r\<lparr>rds_scan_cursors_store := store\<rparr>)"
      "scan_point (r\<lparr>rds_scan_cursors_store := store\<rparr>) dt (key @ [95] @ x) pattern cursor (Some point)"
    using StoreScanNextPoint_ok [OF assms] by blast
  from store(2) have "scan_point (r\<lparr>rds_scan_cursors_store := store\<rparr>) dt key (x @ [95] @ pattern) cursor (Some point)"
    unfolding scan_point_def same .
  from scan_start_ok [OF this] store(1) show ?thesis by auto
qed

theorem scan_points_collide_witness:
  "\<exists>r' r''. StoreScanNextPoint kHashes [7, 95, 8] [42] 3 [1] example_redis = Some r' \<and> scan_start kHashes [7] [8, 95, 42] 3 r' = Some (([1], 3), r'')"
proof -
  have "lru_rel (rds_scan_cursors_store example_redis) []" "lc_capacity (rds_scan_cursors_store example_redis) \<noteq> 0" "DataTypeTag kHashes \<noteq> None"
    by (simp_all add: example_redis_def lru_rel_capacity LRUCache_new_ok)
  from scan_points_collide [OF this, of "[7]" "[8]" "[42]" 3 "[1]"] show ?thesis by simp
qed

end
