(* ===== verification/SetsTheorems.thy ===== *)
theory SetsTheorems
  imports SetsPop HashesTheorems
begin

text \<open>
  The properties of the set commands for every database that keeps the contract \<open>engine\<close>, and the set commands on the
  reference database.
\<close>

section \<open>Sets in the reference database\<close>

text \<open>What two calls of \<open>SAdd\<close> leave behind on an empty database: the key \<open>7\<close> holds two members, one the other with a zero
  byte appended, and the key \<open>8\<close> holds two members, one of them in common.\<close>

definition example_set :: "WriteOp list redis" where
  "example_set = example_redis\<lparr>rds_db := rds_db (snd (the (SAdd example_env [7] [[1], [1, 0]] example_redis)))\<rparr>"

definition example_sets :: "WriteOp list redis" where
  "example_sets = example_set\<lparr>rds_db := rds_db (snd (the (SAdd example_env [8] [[2], [1]] example_set)))\<rparr>"

lemma example_no_set: "set_at example_env (example_view (rds_db example_redis)) key {}"
  by (auto simp: set_at_def unused_from_def data_records_def example_nothing intro!: coll_at.absent)

lemma example_set_at:
  "stats_ok example_set" "set_at example_env (example_view (rds_db example_set)) [7] {[1], [1, 0]}"
  "[7] \<noteq> key \<Longrightarrow> key_ok key \<Longrightarrow> set_at example_env (example_view (rds_db example_set)) key {}"
proof -
  obtain r' where r': "SAdd example_env [7] [[1], [1, 0]] example_redis = Some ((OK, Some 2), r')"
      "set_at example_env (example_view (rds_db r')) [7] {[1], [1, 0]}" "set_frame [7] (example_view (rds_db example_redis)) (example_view (rds_db r'))"
    using reference.SAdd_ok [OF reference_healthy example_key(1) example_no_set example_stats(1) example_stamp example_room, of "[[1], [1, 0]]"]
    by auto
  then show "stats_ok example_set" "set_at example_env (example_view (rds_db example_set)) [7] {[1], [1, 0]}"
    using example_stats(1) by (simp_all add: example_set_def stats_ok_def)
  show "set_at example_env (example_view (rds_db example_set)) key {}" if "[7] \<noteq> key" "key_ok key"
    using set_at_other [OF r'(3) example_key(1) that(2,1) example_no_set] r'(1) by (simp add: example_set_def)
qed

lemma example_set_room: "version_room (example_view (rds_db example_set)) [7]" "version_room (example_view (rds_db example_set)) [8]"
  by code_simp+

lemma example_sets_at:
  "stats_ok example_sets" "set_at example_env (example_view (rds_db example_sets)) [7] {[1], [1, 0]}"
  "set_at example_env (example_view (rds_db example_sets)) [8] {[2], [1]}"
proof -
  obtain r' where r': "SAdd example_env [8] [[2], [1]] example_set = Some ((OK, Some 2), r')"
      "set_at example_env (example_view (rds_db r')) [8] {[2], [1]}" "set_frame [8] (example_view (rds_db example_set)) (example_view (rds_db r'))"
    using reference.SAdd_ok [OF reference_healthy example_key(2) example_set_at(3) example_set_at(1) example_stamp example_set_room(2), of "[[2], [1]]"]
    example_key(2) by auto
  then show "stats_ok example_sets" "set_at example_env (example_view (rds_db example_sets)) [8] {[2], [1]}"
    using example_set_at(1) by (simp_all add: example_sets_def stats_ok_def)
  show "set_at example_env (example_view (rds_db example_sets)) [7] {[1], [1, 0]}"
    using set_at_other [OF r'(3) example_key(2,1) _ example_set_at(2)] r'(1) by (simp add: example_sets_def)
qed

lemma example_sets_room: "version_room (example_view (rds_db example_sets)) [7]" "version_room (example_view (rds_db example_sets)) [8]"
  by code_simp+

section \<open>Properties\<close>

text \<open>C25: \<open>SADD\<close> adds exactly the members it is given, creating the set when it is absent or expired, returns how many are
  new, however often each is given, and changes no other key.\<close>

theorem SAdd_adds:
  assumes "engine env view" and "db_healthy (env_db env) view" and "key_ok key" and "set_at env (view (rds_db r)) key A" and "stats_ok r"
    and "stamp_ok (env_now env)" and "version_room (view (rds_db r)) key" and "card A + length xs < 2 ^ 31"
  shows "\<exists>r'. SAdd env key xs r = Some ((OK, Some (of_nat (card (set xs - A)))), r') \<and> stats_ok r' \<and>
    set_at env (view (rds_db r')) key (A \<union> set xs) \<and> set_frame key (view (rds_db r)) (view (rds_db r'))"
  by (rule engine.SAdd_ok [OF assms])

theorem SAdd_adds_witness:
  "\<exists>r'. SAdd example_env [8] [[1], [3], [3]] example_sets = Some ((OK, Some 1), r') \<and>
    set_at example_env (example_view (rds_db r')) [8] {[1], [2], [3]}"
proof -
  have "{[2], [1]} \<union> set [[1], [3], [3]] = {[1], [2], [3 :: 8 word]}" "card (set [[1], [3], [3]] - {[2], [1 :: 8 word]}) = 1" by auto
  then show ?thesis
    using SAdd_adds [OF reference.engine_axioms reference_healthy example_key(2) example_sets_at(3,1) example_stamp example_sets_room(2),
        of "[[1], [3], [3]]"] by auto
qed

text \<open>C26: \<open>SREM\<close> of different members removes exactly those from a set, returns how many there were, and changes no other
  key.\<close>

theorem SRem_removes:
  assumes "engine env view" and "db_healthy (env_db env) view" and "key_ok key" and "set_at env (view (rds_db r)) key A" and "stats_ok r"
    and "distinct xs" and "A \<noteq> {}"
  shows "\<exists>r'. SRem env key xs r = Some ((OK, of_nat (card (A \<inter> set xs))), r') \<and> stats_ok r' \<and>
    set_at env (view (rds_db r')) key (A - set xs) \<and> set_frame key (view (rds_db r)) (view (rds_db r'))"
  by (rule engine.SRem_ok [OF assms])

theorem SRem_removes_witness:
  "\<exists>r'. SRem example_env [8] [[1], [3]] example_sets = Some ((OK, 1), r') \<and> set_at example_env (example_view (rds_db r')) [8] {[2]}"
proof -
  have "{[2], [1]} - set [[1], [3]] = {[2 :: 8 word]}" "{[2], [1]} \<inter> set [[1], [3]] = {[1 :: 8 word]}" by auto
  then show ?thesis
    using SRem_removes [OF reference.engine_axioms reference_healthy example_key(2) example_sets_at(3,1), of "[[1], [3]]"] by auto
qed

text \<open>C27: The reading commands compute the operations on sets: \<open>SMEMBERS\<close> lists a set in order, \<open>SCARD\<close> counts it and
  \<open>SISMEMBER\<close> decides membership; \<open>SDIFF\<close>, \<open>SINTER\<close> and \<open>SUNION\<close> return, each member once, the difference of the first set
  and the others, the intersection and the union of all of them, absent and expired keys counting as empty sets.\<close>

theorem set_reads:
  assumes "engine env view" and "db_healthy (env_db env) view" and "stats_ok r"
    and "\<forall>k \<in> set (key0 # keys). key_ok k \<and> set_at env (view (rds_db r)) k (A k)"
  shows "(\<exists>st r'. SMembers env us key0 r = Some ((st, sorted_list_of_set (A key0)), r') \<and> rds_db r' = rds_db r) \<and>
    (\<exists>st. SCard env key0 [] r = Some (st, of_nat (card (A key0)))) \<and>
    (\<exists>st. SIsmember env key0 x r = Some (st, if x \<in> A key0 then 1 else 0)) \<and>
    (\<exists>r'. SDiff env us (key0 # keys) r = Some ((OK, sorted_list_of_set (A key0 - (\<Union>k \<in> set keys. A k))), r') \<and> rds_db r' = rds_db r) \<and>
    (\<exists>r'. SInter env us (key0 # keys) r = Some ((OK, sorted_list_of_set (\<Inter>k \<in> set (key0 # keys). A k)), r') \<and> rds_db r' = rds_db r) \<and>
    (\<exists>xs r'. SUnion env clocks (key0 # keys) r = Some ((OK, xs), r') \<and> rds_db r' = rds_db r \<and> distinct xs \<and>
      set xs = (\<Union>k \<in> set (key0 # keys). A k))"
proof -
  have key: "key_ok key0" "set_at env (view (rds_db r)) key0 (A key0)" using assms(4) by simp_all
  have fin: "\<forall>B \<in> set (map A (key0 # keys)). finite B" using assms(4) by (auto intro: set_at_finite)
  have diff: "A key0 - (\<Union>k \<in> set keys. A k) = {m \<in> A key0. \<forall>k \<in> set keys. m \<notin> A k}"
    and inter: "(\<Inter>k \<in> set (key0 # keys). A k) = {m \<in> A key0. \<forall>k \<in> set keys. m \<in> A k}" by auto
  show ?thesis
    unfolding diff inter
    using engine.SMembers_ok [OF assms(1,2) key assms(3), of us] engine.SCard_ok [OF assms(1,2) key] engine.SIsmember_ok [OF assms(1,2) key, of x]
      engine.SDiff_members_ok [OF assms(1-4), of us] engine.SInter_members_ok [OF assms(1-4), of us]
      engine.SUnion_ok [OF assms(1-4), of clocks] union_list [OF fin]
    by (intro conjI) (fastforce simp: SDiff_def SInter_def)+
qed

theorem set_reads_witness:
  "(\<exists>r'. SDiff example_env (0, 0) [[7], [8]] example_sets = Some ((OK, [[1, 0]]), r')) \<and>
    (\<exists>r'. SInter example_env (0, 0) [[7], [8]] example_sets = Some ((OK, [[1]]), r')) \<and>
    (\<exists>xs r'. SUnion example_env (\<lambda>_. (0, 0)) [[7], [8]] example_sets = Some ((OK, xs), r') \<and> set xs = {[1], [1, 0], [2]})"
proof -
  let ?A = "\<lambda>k :: bytes. if k = [7] then {[1], [1, 0]} else {[2], [1 :: 8 word]}"
  have "?A [7] - (\<Union>k \<in> set [[8]]. ?A k) = {[1, 0]}" "(\<Inter>k \<in> set [[7], [8]]. ?A k) = {[1]}" "(\<Union>k \<in> set [[7], [8]]. ?A k) = {[1], [1, 0], [2]}"
    by auto
  then show ?thesis
    using set_reads [OF reference.engine_axioms reference_healthy example_sets_at(1), of "[7]" "[[8]]" ?A "(0, 0)" "[1]" "\<lambda>_. (0, 0)"] example_key example_sets_at(2,3)
    by auto
qed

text \<open>C28: \<open>SDIFFSTORE\<close> and \<open>SINTERSTORE\<close> store what \<open>SDIFF\<close> and \<open>SINTER\<close> return: afterwards the destination, whatever set it
  held before and also when it is one of the sources, holds exactly the difference or the intersection, the reply is
  its size, and no other key changes.\<close>

theorem set_stores:
  assumes "engine env view" and "db_healthy (env_db env) view" and "stats_ok r"
    and "\<forall>k \<in> set (key0 # keys). key_ok k \<and> set_at env (view (rds_db r)) k (A k)"
    and "key_ok dest" and "set_at env (view (rds_db r)) dest D" and "stamp_ok (env_now env)" and "version_room (view (rds_db r)) dest"
  shows "(\<exists>r'. SDiffstore env us dest (key0 # keys) r =
      Some ((OK, Some (sorted_list_of_set (A key0 - (\<Union>k \<in> set keys. A k)), of_nat (card (A key0 - (\<Union>k \<in> set keys. A k))))), r') \<and> stats_ok r' \<and>
      set_at env (view (rds_db r')) dest (A key0 - (\<Union>k \<in> set keys. A k)) \<and> set_frame dest (view (rds_db r)) (view (rds_db r'))) \<and>
    (\<exists>r'. SInterstore env us dest (key0 # keys) r =
      Some ((OK, Some (sorted_list_of_set (\<Inter>k \<in> set (key0 # keys). A k), of_nat (card (\<Inter>k \<in> set (key0 # keys). A k)))), r') \<and> stats_ok r' \<and>
      set_at env (view (rds_db r')) dest (\<Inter>k \<in> set (key0 # keys). A k) \<and> set_frame dest (view (rds_db r)) (view (rds_db r')))"
proof -
  have diff: "A key0 - (\<Union>k \<in> set keys. A k) = {m \<in> A key0. \<forall>k \<in> set keys. m \<notin> A k}"
    and inter: "(\<Inter>k \<in> set (key0 # keys). A k) = {m \<in> A key0. \<forall>k \<in> set keys. m \<in> A k}" by auto
  show ?thesis
    unfolding diff inter using engine.SDiffstore_ok [OF assms] engine.SInterstore_ok [OF assms] by (rule conjI)
qed

theorem set_stores_witness:
  "\<exists>r'. SInterstore example_env (0, 0) [8] [[7], [8]] example_sets = Some ((OK, Some ([[1]], 1)), r') \<and>
    set_at example_env (example_view (rds_db r')) [8] {[1]}"
proof -
  let ?A = "\<lambda>k :: bytes. if k = [7] then {[1], [1, 0]} else {[2], [1 :: 8 word]}"
  have "(\<Inter>k \<in> set [[7], [8]]. ?A k) = {[1]}" by auto
  then show ?thesis
    using set_stores [OF reference.engine_axioms reference_healthy example_sets_at(1) _ example_key(2) example_sets_at(3) example_stamp example_sets_room(2),
        of "[7]" "[[8]]" ?A "(0, 0)"] example_key example_sets_at(2,3)
    by auto
qed

text \<open>C29: \<open>SMOVE\<close> takes a member out of one set and puts it into another one, in one step, whether the other one exists,
  holds the member already or not.\<close>

theorem SMove_moves:
  assumes "engine env view" and "db_healthy (env_db env) view" and "key_ok source" and "key_ok dest" and "source \<noteq> dest" and "stats_ok r"
    and "set_at env (view (rds_db r)) source A" and "set_at env (view (rds_db r)) dest B" and "x \<in> A"
    and "stamp_ok (env_now env)" and "version_room (view (rds_db r)) dest" and "card B + 1 < 2 ^ 31"
  shows "\<exists>r'. SMove env source dest x r = Some ((OK, 1), r') \<and> stats_ok r' \<and>
    set_at env (view (rds_db r')) source (A - {x}) \<and> set_at env (view (rds_db r')) dest (insert x B)"
  by (rule engine.SMove_ok [OF assms])

theorem SMove_moves_witness:
  "\<exists>r'. SMove example_env [7] [8] [1, 0] example_sets = Some ((OK, 1), r') \<and> set_at example_env (example_view (rds_db r')) [7] {[1]} \<and>
    set_at example_env (example_view (rds_db r')) [8] {[1, 0], [2], [1]}"
proof -
  have "{[1], [1, 0]} - {[1, 0]} = {[1 :: 8 word]}" by auto
  then show ?thesis
    using SMove_moves [OF reference.engine_axioms reference_healthy example_key _ example_sets_at(1-3) _ example_stamp example_sets_room(2), of "[1, 0]"]
    by auto
qed

text \<open>C30: \<open>SPOP\<close> of a number of members that does not exceed the size of the set returns, takes that many different members
  out of the set and returns exactly those, and changes no other key. The random engine is only assumed to reach, modulo
  the size of the set, every position again and again.\<close>

theorem SPop_pops:
  assumes "engine env view" and "db_healthy (env_db env) view" and "key_ok key" and "set_at env (view (rds_db r)) key A" and "stats_ok r" and "A \<noteq> {}"
    and "n \<le> card A" and "fair_engine rnd (card A)"
  shows "\<exists>ms r'. SPop env rnd us key (of_nat n) r = Some ((OK, ms), r') \<and> distinct ms \<and> set ms \<subseteq> A \<and> length ms = n \<and> stats_ok r' \<and>
    set_at env (view (rds_db r')) key (A - set ms) \<and> set_frame key (view (rds_db r)) (view (rds_db r'))"
  by (rule engine.SPop_ok [OF assms])

theorem SPop_pops_witness:
  "\<exists>m r'. SPop example_env (\<lambda>i. if even i then 4 else 7) (0, 0) [8] 1 example_sets = Some ((OK, [m]), r') \<and> m \<in> {[2], [1]} \<and>
    set_at example_env (example_view (rds_db r')) [8] ({[2], [1]} - {m})"
proof -
  have "fair_engine (\<lambda>i. if even i then 4 else 7) 2"
    unfolding fair_engine_def
  proof (intro allI impI)
    fix i t :: nat
    assume "t < 2"
    then show "\<exists>j \<ge> i. unat (if even j then 4 else 7 :: u64) mod 2 = t"
      by (intro exI [of _ "2 * i + t"]) (auto simp: less_2_cases_iff)
  qed
  moreover have "card {[2], [1 :: 8 word]} = 2" by simp
  ultimately obtain ms r' where "SPop example_env (\<lambda>i. if even i then 4 else 7) (0, 0) [8] 1 example_sets = Some ((OK, ms), r')" "set ms \<subseteq> {[2], [1]}"
      "length ms = 1" "set_at example_env (example_view (rds_db r')) [8] ({[2], [1]} - set ms)"
    using SPop_pops [OF reference.engine_axioms reference_healthy example_key(2) example_sets_at(3,1), of 1 "\<lambda>i. if even i then 4 else 7" "(0, 0)"]
    by (auto simp: numeral_2_eq_2)
  then show ?thesis by (auto simp: length_Suc_conv)
qed

text \<open>C31: \<open>EXPIRE\<close> keeps a set until the time given and removes it afterwards, \<open>PERSIST\<close> makes it stay for ever and \<open>DEL\<close>
  removes it for ever; none of them changes another key.\<close>

theorem set_lifetime:
  assumes "engine env view" and "db_healthy (env_db env) view" and "key_ok key" and "set_at env (view (rds_db r)) key A" and "stats_ok r" and "A \<noteq> {}"
    and "0 < sint ttl" and "stamp_ok (env_now env + ttl)" and "env_now env + ttl \<noteq> 0" and "version_room (view (rds_db r)) key"
  shows "(\<exists>r'. SetsExpire env key ttl [] r = Some (OK, r') \<and>
      (\<forall>t. set_at (env\<lparr>env_now := t\<rparr>) (view (rds_db r')) key (if env_now env + ttl < t then {} else A)) \<and>
      set_frame key (view (rds_db r)) (view (rds_db r'))) \<and>
    (\<exists>st r'. SetsPersist env key [] r = Some (st, r') \<and> (\<forall>t. set_at (env\<lparr>env_now := t\<rparr>) (view (rds_db r')) key A) \<and>
      set_frame key (view (rds_db r)) (view (rds_db r'))) \<and>
    (\<exists>r'. SetsDel env key [] r = Some (OK, r') \<and> (\<forall>t. set_at (env\<lparr>env_now := t\<rparr>) (view (rds_db r')) key {}) \<and>
      set_frame key (view (rds_db r)) (view (rds_db r')))"
  using engine.SetsExpire_ok [OF assms(1-9)] engine.SetsPersist_ok [OF assms(1-6)] engine.SetsDel_ok [OF assms(1-6,10)] by blast

theorem set_lifetime_witness:
  "\<exists>r'. SetsExpire example_env [8] 10 [] example_sets = Some (OK, r') \<and>
    (\<forall>t. set_at (example_env\<lparr>env_now := t\<rparr>) (example_view (rds_db r')) [8] (if 15 < t then {} else {[2], [1]}))"
  using set_lifetime [OF reference.engine_axioms reference_healthy example_key(2) example_sets_at(3,1), of 10] example_sets_room(2)
  by (auto simp: stamp_okI split del: if_split)

section \<open>Where the code leaves the contract of a set\<close>

text \<open>C37: \<open>SUNIONSTORE\<close> writes the new meta value of an existing destination under the user key instead of the encoded meta
  key. It returns the union and its size, and the destination still holds its old members.\<close>

theorem SUnionstore_keeps_destination:
  assumes "engine env view" and "db_healthy (env_db env) view" and "stats_ok r"
    and "\<forall>k \<in> set keys. key_ok k \<and> set_at env (view (rds_db r)) k (A k)" and "keys \<noteq> []"
    and "key_ok dest" and "set_at env (view (rds_db r)) dest D" and "D \<noteq> {}" and "version_room (view (rds_db r)) dest"
    and "card (\<Union>k \<in> set keys. A k) < 2 ^ 31"
  shows "\<exists>r' r''. SUnionstore env us dest keys r = Some ((OK, Some (union_list (map A keys), of_nat (card (\<Union>k \<in> set keys. A k)))), r') \<and>
    SMembers env us' dest r' = Some ((OK, sorted_list_of_set D), r'')"
  by (rule engine.SUnionstore_keeps [OF assms])

theorem SUnionstore_keeps_destination_witness:
  "\<exists>r' r''. SUnionstore example_env (\<lambda>_. (0, 0)) [8] [[7]] example_sets = Some ((OK, Some ([[1], [1, 0]], 2)), r') \<and>
    SMembers example_env (0, 0) [8] r' = Some ((OK, [[1], [2]]), r'')"
proof -
  have "sorted_list_of_set {[1], [1, 0 :: 8 word]} = [[1], [1, 0]]" "sorted_list_of_set {[2], [1 :: 8 word]} = [[1], [2]]"
    by simp_all
  then show ?thesis
    using SUnionstore_keeps_destination [OF reference.engine_axioms reference_healthy example_sets_at(1) _ _ example_key(2) example_sets_at(3) _ example_sets_room(2),
        of "[[7]]" "\<lambda>_. {[1], [1, 0]}" "\<lambda>_. (0, 0)" "(0, 0)"] example_key(1) example_sets_at(2)
    by (auto simp: union_list_def)
qed

text \<open>C38: \<open>SREM\<close> counts a member that is given twice twice: it reports two removed members where there was one, and a set
  of two members is empty afterwards.\<close>

theorem SRem_counts_twice:
  assumes "engine env view" and "db_healthy (env_db env) view" and "key_ok key" and "set_at env (view (rds_db r)) key {a, b}" and "stats_ok r"
    and "a \<noteq> b"
  shows "\<exists>r'. SRem env key [a, a] r = Some ((OK, 2), r') \<and> set_at env (view (rds_db r')) key {}"
  by (rule engine.SRem_twice [OF assms])

theorem SRem_counts_twice_witness:
  "\<exists>r'. SRem example_env [8] [[2], [2]] example_sets = Some ((OK, 2), r') \<and> set_at example_env (example_view (rds_db r')) [8] {}"
  using SRem_counts_twice [OF reference.engine_axioms reference_healthy example_key(2) example_sets_at(3,1)] by simp

text \<open>C39: \<open>SSCAN\<close> goes on at the stored member without the suffix the record keys carry. When a set holds a member and the
  same member with a zero byte appended, a client that scans one member at a time gets the shorter one again and
  again and never reaches the cursor 0, whatever the number \<open>n\<close> of its calls below the range of the cursor shown here.\<close>

theorem SScan_never_ends:
  assumes "engine env view" and "db_healthy (env_db env) view" and "key_ok key" and "set_at env (view (rds_db r)) key {y, y @ [0]}" and "stats_ok r"
    and "StringMatch pattern y False = Some True" and "StringMatch pattern (y @ [0]) False \<noteq> None" and "\<not> isTailWildcard pattern"
    and "scan_point r kSets key pattern 0 None" and "n < 2 ^ 31"
  shows "\<exists>r'. sscan_calls env key pattern 1 us n 0 r = Some (replicate n [y], of_nat n, r')"
  using engine.SScan_stuck [OF assms(1-3) refl assms(6-8,4,5), of 0 n us] assms(9,10) by simp

theorem SScan_never_ends_witness:
  "\<exists>r'. sscan_calls example_env [7] [42] 1 (\<lambda>_. (0, 0)) 1000 0 example_sets = Some (replicate 1000 [[1]], 1000, r')"
proof -
  have "StringMatch [42] [1] False = Some True" "StringMatch [42] ([1] @ [0]) False \<noteq> None" "\<not> isTailWildcard [42]"
    by code_simp+
  moreover have "scan_point example_sets kSets [7] [42] 0 None"
    using LRUCache_new_ok
    by (auto simp: scan_point_def example_sets_def example_set_def example_redis_def scan_index_key_def spec_lookup_def lru_rel_capacity intro!: exI [of _ "[]"])
  ultimately show ?thesis
    using SScan_never_ends [OF reference.engine_axioms reference_healthy example_key(1) _ example_sets_at(1), of "[1]" "[42]" 1000 "\<lambda>_. (0, 0)"]
      example_sets_at(2) by simp
qed


end
