(* ===== verification/Streams.thy ===== *)
theory Streams
  imports RedisBase StreamUtils
begin

text \<open>
  The stream commands of \<open>src/src/storage/src/redis_streams.cc\<close>. A stream is its meta value and one record per
  message, keyed by user key, version and serialised identifier. The statuses the source builds from the text of
  another status use \<open>tostr\<close>, which stands for \<open>rocksdb::Status::ToString\<close>. Assertions are not compiled in; a
  loop that never ends is \<open>None\<close>.
\<close>

section \<open>Arguments and results\<close>

datatype StreamTrimStrategy = TRIM_STRATEGY_NONE | TRIM_STRATEGY_MAXLEN | TRIM_STRATEGY_MINID

record StreamAddTrimArgs =
  sa_id :: streamID
  sa_id_given :: bool
  sa_seq_given :: bool
  sa_no_mkstream :: bool
  sa_trim_strategy :: StreamTrimStrategy
  sa_maxlen :: u64
  sa_minid :: streamID

record StreamReadGroupReadArgs =
  sr_keys :: "bytes list"
  sr_unparsed_ids :: "bytes list"
  sr_count :: i32

record StreamScanArgs =
  ss_start_sid :: streamID
  ss_end_sid :: streamID
  ss_limit :: i32
  ss_start_ex :: bool
  ss_end_ex :: bool

record StreamInfoResult =
  si_length :: i32
  si_last_id_str :: bytes
  si_max_deleted_entry_id_str :: bytes
  si_entries_added :: u64
  si_first_id_str :: bytes

record ScanStreamOptions =
  so_key :: bytes
  so_version :: u64
  so_start_sid :: streamID
  so_end_sid :: streamID
  so_limit :: i32
  so_start_ex :: bool
  so_end_ex :: bool
  so_is_reverse :: bool

datatype IdMessage = IdMessage (im_field: bytes) (im_value: bytes)

record TrimRet =
  tr_count :: i32
  tr_next_field :: bytes
  tr_max_deleted_field :: bytes

definition TrimRet_new :: TrimRet where
  "TrimRet_new = \<lparr>tr_count = 0, tr_next_field = [], tr_max_deleted_field = []\<rparr>"

definition kDEFAULT_TRIM_BATCH_SIZE :: i32 where "kDEFAULT_TRIM_BATCH_SIZE = 1000"

section \<open>Reading the meta value\<close>

definition stream_wrong_type :: "string \<Rightarrow> bytes \<Rightarrow> bytes \<Rightarrow> Status option" where
  "stream_wrong_type got key meta_value = do {
     t \<leftarrow> DataTypeStrings (GetMetaValueType meta_value);
     Some (InvalidArgument (''WRONGTYPE, key: '' @ string_of_bytes key @ '', expected type: '' @ ''streams'' @ got @ t)) }"

text \<open>The status and the value a stream command goes on with, or the error it returns at once.\<close>

definition read_stream_meta :: "'s env \<Rightarrow> string \<Rightarrow> bytes \<Rightarrow> bytes \<Rightarrow> 's \<Rightarrow> (Status + Status \<times> bytes) option" where
  "read_stream_meta env got key prefetch_meta db =
     (if prefetch_meta = [] then
        let (s, meta_value) = db_Get (env_db env) db kMetaCF (BaseKey_Encode (env_junk env) key)
        in if s = OK \<and> \<not> ExpectedMetaValue kStreams meta_value then do {
             stale \<leftarrow> ExpectedStale (env_now env) meta_value;
             if stale then Some (Inr (NotFound [], meta_value))
             else map_option Inl (stream_wrong_type got key meta_value) }
           else Some (Inr (s, meta_value))
      else Some (Inr (OK, prefetch_meta)))"

definition GetStreamMeta :: "'s env \<Rightarrow> StreamMetaValue \<Rightarrow> bytes \<Rightarrow> bytes \<Rightarrow> 's \<Rightarrow> (Status \<times> StreamMetaValue) option" where
  "GetStreamMeta env stream_meta key prefetch_meta db = do {
     m \<leftarrow> read_stream_meta env '', got type: '' key prefetch_meta db;
     case m of Inl st \<Rightarrow> Some (st, stream_meta)
     | Inr (s, meta_value) \<Rightarrow>
         if s = OK then Some (OK, smv_ParseFrom meta_value stream_meta) else Some (s, stream_meta) }"

section \<open>Scanning\<close>

abbreviation stream_data_key :: "'s env \<Rightarrow> bytes \<Rightarrow> u64 \<Rightarrow> bytes \<Rightarrow> bytes" where
  "stream_data_key env key version field \<equiv> BaseDataKey_Encode (env_junk env) key version field"

abbreviation stream_prefix :: "'s env \<Rightarrow> bytes \<Rightarrow> u64 \<Rightarrow> bytes" where
  "stream_prefix env key version \<equiv> BaseDataKey_EncodeSeekKey (env_junk env) key version []"

text \<open>The messages, and the entries the iterator still has in front of it.\<close>

fun StreamScanRange_loop ::
    "bytes \<Rightarrow> bytes \<Rightarrow> bytes \<Rightarrow> (bytes \<times> bytes) list \<Rightarrow> i32 \<Rightarrow> (IdMessage list \<times> (bytes \<times> bytes) list) option" where
  "StreamScanRange_loop pre id_end pattern [] remain = Some ([], [])"
| "StreamScanRange_loop pre id_end pattern ((k, v) # es) remain =
     (if sint remain > 0 \<and> prefix pre k then do {
        parsed \<leftarrow> ParsedBaseDataKey_decode k;
        let sid = bdk_data parsed;
        if id_end \<noteq> [] \<and> sid > id_end then Some ([], (k, v) # es)
        else do {
          matches \<leftarrow> StringMatch pattern sid False;
          (msgs, es) \<leftarrow> StreamScanRange_loop pre id_end pattern es (remain - 1);
          Some (if matches then IdMessage sid v # msgs else msgs, es) } }
      else Some ([], (k, v) # es))"

definition StreamScanRange ::
    "'s env \<Rightarrow> bytes \<Rightarrow> u64 \<Rightarrow> bytes \<Rightarrow> bytes \<Rightarrow> bytes \<Rightarrow> i32 \<Rightarrow> 's \<Rightarrow> (Status \<times> IdMessage list \<times> bytes) option" where
  "StreamScanRange env key version id_start id_end pattern limit db =
     (let start_no_limit = env_compare env id_start [] = 0;
          end_no_limit = (id_end = [])
      in if \<not> start_no_limit \<and> \<not> end_no_limit \<and> env_compare env id_start id_end > 0
         then Some (InvalidArgument ''error in given range'', [], [])
         else do {
           let pre = stream_prefix env key version;
           (msgs, es) \<leftarrow> StreamScanRange_loop pre id_end pattern
             (it_Seek (env_db env) db kStreamsDataCF
                (if start_no_limit then pre else stream_data_key env key version id_start)) limit;
           next_id \<leftarrow> (case es of [] \<Rightarrow> Some []
             | (k, v) # _ \<Rightarrow>
                 if prefix pre k then do {
                   parsed \<leftarrow> ParsedBaseDataKey_decode k;
                   Some (if end_no_limit \<or> env_compare env (bdk_data parsed) id_end \<le> 0 then bdk_data parsed else []) }
                 else Some []);
           Some (OK, msgs, next_id) })"

fun StreamReScanRange_loop ::
    "bytes \<Rightarrow> bytes \<Rightarrow> bytes \<Rightarrow> (bytes \<times> bytes) list \<Rightarrow> i32 \<Rightarrow> (IdMessage list \<times> (bytes \<times> bytes) list) option" where
  "StreamReScanRange_loop pre id_end pattern [] remain = Some ([], [])"
| "StreamReScanRange_loop pre id_end pattern ((k, v) # es) remain =
     (if sint remain > 0 \<and> prefix pre k then do {
        parsed \<leftarrow> ParsedBaseDataKey_decode k;
        let sid = bdk_data parsed;
        if id_end \<noteq> [] \<and> sid < id_end then Some ([], (k, v) # es)
        else do {
          matches \<leftarrow> StringMatch pattern sid False;
          (msgs, es) \<leftarrow> StreamReScanRange_loop pre id_end pattern es (remain - 1);
          Some (if matches then IdMessage sid v # msgs else msgs, es) } }
      else Some ([], (k, v) # es))"

definition StreamReScanRange ::
    "'s env \<Rightarrow> bytes \<Rightarrow> u64 \<Rightarrow> bytes \<Rightarrow> bytes \<Rightarrow> bytes \<Rightarrow> i32 \<Rightarrow> 's \<Rightarrow> (Status \<times> IdMessage list \<times> bytes) option" where
  "StreamReScanRange env key version id_start id_end pattern limit db =
     (let start_no_limit = env_compare env id_start [] = 0;
          end_no_limit = (id_end = [])
      in if \<not> start_no_limit \<and> \<not> end_no_limit \<and> env_compare env id_start id_end < 0
         then Some (InvalidArgument ''error in given range'', [], [])
         else do {
           let start_key_version = (if start_no_limit then version + 1 else version);
           let start_key_id = (if start_no_limit then [] else id_start);
           let pre = stream_prefix env key version;
           (msgs, es) \<leftarrow> StreamReScanRange_loop pre id_end pattern
             (it_SeekForPrev (env_db env) db kStreamsDataCF
                (stream_data_key env key start_key_version start_key_id)) limit;
           next_id \<leftarrow> (case es of [] \<Rightarrow> Some []
             | (k, v) # _ \<Rightarrow>
                 if prefix pre k then do {
                   parsed \<leftarrow> ParsedBaseDataKey_decode k;
                   Some (if end_no_limit \<or> env_compare env (bdk_data parsed) id_end \<ge> 0 then bdk_data parsed else []) }
                 else Some []);
           Some (OK, msgs, next_id) })"

definition ScanStream :: "'s env \<Rightarrow> ScanStreamOptions \<Rightarrow> 's \<Rightarrow> (Status \<times> IdMessage list \<times> bytes) option" where
  "ScanStream env op db = do {
     (s, field_values, next_field) \<leftarrow>
       (if so_is_reverse op then
          let end_field = [];
              start_field = sid_Serialize (so_end_sid op);
              start_field = (if sid_eq (so_start_sid op) kSTREAMID_MAX then [] else sid_Serialize (so_start_sid op))
          in StreamReScanRange env (so_key op) (so_version op) start_field end_field [42] (so_limit op) db
        else
          let start_field = sid_Serialize (so_start_sid op);
              end_field = (if sid_eq (so_end_sid op) kSTREAMID_MAX then [] else sid_Serialize (so_end_sid op))
          in StreamScanRange env (so_key op) (so_version op) start_field end_field [42] (so_limit op) db);
     field_values \<leftarrow>
       (if so_start_ex op \<and> field_values \<noteq> [] then do {
          sid \<leftarrow> sid_DeserializeFrom (im_field (hd field_values));
          Some (if sid_eq sid (so_start_sid op) then tl field_values else field_values) }
        else Some field_values);
     field_values \<leftarrow>
       (if so_end_ex op \<and> field_values \<noteq> [] then do {
          sid \<leftarrow> sid_DeserializeFrom (im_field (last field_values));
          Some (if sid_eq sid (so_end_sid op) then butlast field_values else field_values) }
        else Some field_values);
     Some (s, field_values, next_field) }"

section \<open>Deleting and trimming\<close>

definition DeleteStreamMessages :: "'s env \<Rightarrow> bytes \<Rightarrow> StreamMetaValue \<Rightarrow> bytes list \<Rightarrow> 's redis \<Rightarrow> Status \<times> 's redis" where
  "DeleteStreamMessages env key stream_meta serialized_ids r =
     redis_Write env
       (map (\<lambda>sid. Delete kStreamsDataCF (stream_data_key env key (smv_version stream_meta) sid)) serialized_ids) r"

definition DeleteStreamMessages_ids :: "'s env \<Rightarrow> bytes \<Rightarrow> StreamMetaValue \<Rightarrow> streamID list \<Rightarrow> 's redis \<Rightarrow> Status \<times> 's redis" where
  "DeleteStreamMessages_ids env key stream_meta ids r =
     DeleteStreamMessages env key stream_meta (map sid_Serialize ids) r"

text \<open>
  The length is a signed, the maximum an unsigned number: the comparison and the difference are taken after
  the conversion to 64 bits, and the difference is cut to 32 bits again.
\<close>

partial_function (option) TrimByMaxlen ::
    "'s env \<Rightarrow> StreamMetaValue \<Rightarrow> bytes \<Rightarrow> StreamAddTrimArgs \<Rightarrow> TrimRet \<Rightarrow> 's redis \<Rightarrow> (Status \<times> TrimRet \<times> 's redis) option" where
  "TrimByMaxlen env stream_meta key args trim_ret r =
     (if scast (smv_length stream_meta - tr_count trim_ret) > sa_maxlen args then do {
        let left = (scast (scast (smv_length stream_meta - tr_count trim_ret) - sa_maxlen args) :: i32);
        let cur_batch = (if sint kDEFAULT_TRIM_BATCH_SIZE < sint left then kDEFAULT_TRIM_BATCH_SIZE else left);
        (s, id_messages, next_field) \<leftarrow> ScanStream env
          \<lparr>so_key = key, so_version = smv_version stream_meta, so_start_sid = smv_first_id stream_meta,
           so_end_sid = kSTREAMID_MAX, so_limit = cur_batch, so_start_ex = False, so_end_ex = False, so_is_reverse = False\<rparr>
          (rds_db r);
        if s \<noteq> OK then Some (s, trim_ret\<lparr>tr_next_field := next_field\<rparr>, r)
        else if id_messages = [] then None
        else do {
          let trim_ret = trim_ret\<lparr>tr_count := tr_count trim_ret + cur_batch, tr_next_field := next_field,
                tr_max_deleted_field := im_field (last id_messages)\<rparr>;
          let (s, r) = DeleteStreamMessages env key stream_meta (map im_field id_messages) r;
          if s \<noteq> OK then Some (s, trim_ret, r)
          else TrimByMaxlen env stream_meta key args trim_ret r } }
      else Some (OK, trim_ret, r))"

text \<open>The scanned messages without the one whose identifier is \<open>minid\<close> itself, and what is noted about them.\<close>

definition TrimByMinid_pick :: "streamID \<Rightarrow> IdMessage list \<Rightarrow> TrimRet \<Rightarrow> IdMessage list \<times> TrimRet" where
  "TrimByMinid_pick minid id_messages trim_ret =
     (if id_messages \<noteq> [] then
        let (id_messages, trim_ret) =
          (if im_field (last id_messages) = sid_Serialize minid
           then (butlast id_messages, trim_ret\<lparr>tr_next_field := sid_Serialize minid\<rparr>)
           else (id_messages, trim_ret))
        in (id_messages, if id_messages \<noteq> [] then trim_ret\<lparr>tr_max_deleted_field := im_field (last id_messages)\<rparr> else trim_ret)
      else (id_messages, trim_ret))"

text \<open>One round of the loop of \<open>TrimByMinid\<close>.\<close>

definition TrimByMinid_batch ::
    "'s env \<Rightarrow> StreamMetaValue \<Rightarrow> bytes \<Rightarrow> StreamAddTrimArgs \<Rightarrow> TrimRet \<Rightarrow> 's redis \<Rightarrow> (Status \<times> TrimRet \<times> 's redis) option" where
  "TrimByMinid_batch env stream_meta key args trim_ret r = do {
     let left = smv_length stream_meta - tr_count trim_ret;
     let cur_batch = (if sint kDEFAULT_TRIM_BATCH_SIZE < sint left then kDEFAULT_TRIM_BATCH_SIZE else left);
     (s, id_messages, next_field) \<leftarrow> ScanStream env
       \<lparr>so_key = key, so_version = smv_version stream_meta, so_start_sid = smv_first_id stream_meta,
        so_end_sid = sa_minid args, so_limit = cur_batch, so_start_ex = False, so_end_ex = False, so_is_reverse = False\<rparr>
       (rds_db r);
     let trim_ret = trim_ret\<lparr>tr_next_field := next_field\<rparr>;
     if s \<noteq> OK then Some (s, trim_ret, r)
     else do {
       let (id_messages, trim_ret) = TrimByMinid_pick (sa_minid args) id_messages trim_ret;
       let trim_ret = trim_ret\<lparr>tr_count := tr_count trim_ret + of_nat (length id_messages)\<rparr>;
       let (s, r) = DeleteStreamMessages env key stream_meta (map im_field id_messages) r;
       Some (s, trim_ret, r) } }"

partial_function (option) TrimByMinid_loop ::
    "'s env \<Rightarrow> StreamMetaValue \<Rightarrow> bytes \<Rightarrow> StreamAddTrimArgs \<Rightarrow> TrimRet \<Rightarrow> 's redis \<Rightarrow> (Status \<times> TrimRet \<times> 's redis) option" where
  "TrimByMinid_loop env stream_meta key args trim_ret r =
     (if tr_next_field trim_ret < sid_Serialize (sa_minid args) \<and> sint (smv_length stream_meta - tr_count trim_ret) > 0 then do {
        (s, trim_ret, r) \<leftarrow> TrimByMinid_batch env stream_meta key args trim_ret r;
        if s \<noteq> OK then Some (s, trim_ret, r) else TrimByMinid_loop env stream_meta key args trim_ret r }
      else Some (OK, trim_ret, r))"

definition TrimByMinid ::
    "'s env \<Rightarrow> StreamMetaValue \<Rightarrow> bytes \<Rightarrow> StreamAddTrimArgs \<Rightarrow> TrimRet \<Rightarrow> 's redis \<Rightarrow> (Status \<times> TrimRet \<times> 's redis) option" where
  "TrimByMinid env stream_meta key args trim_ret r =
     TrimByMinid_loop env stream_meta key args (trim_ret\<lparr>tr_next_field := sid_Serialize (smv_first_id stream_meta)\<rparr>) r"

definition TrimStream ::
    "'s env \<Rightarrow> StreamMetaValue \<Rightarrow> bytes \<Rightarrow> StreamAddTrimArgs \<Rightarrow> 's redis \<Rightarrow> (Status \<times> i32 \<times> StreamMetaValue \<times> 's redis) option" where
  "TrimStream env stream_meta key args r = do {
     (s, trim_ret, r) \<leftarrow>
       (if sa_trim_strategy args = TRIM_STRATEGY_MAXLEN then TrimByMaxlen env stream_meta key args TrimRet_new r
        else TrimByMinid env stream_meta key args TrimRet_new r);
     if s \<noteq> OK then Some (s, 0, stream_meta, r)
     else if tr_count trim_ret = 0 then Some (s, 0, stream_meta, r)
     else do {
       first_id \<leftarrow> (if smv_length stream_meta = tr_count trim_ret then Some kSTREAMID_MIN
         else sid_DeserializeFrom (tr_next_field trim_ret));
       max_deleted_id \<leftarrow> sid_DeserializeFrom (tr_max_deleted_field trim_ret);
       let m = smv_set_first_id first_id stream_meta;
       let m = (if sid_greater max_deleted_id (smv_max_deleted_entry_id m) then smv_set_max_deleted_entry_id max_deleted_id m else m);
       let m = smv_set_length (smv_length m - tr_count trim_ret) m;
       Some (OK, tr_count trim_ret, m, r) } }"

section \<open>Commands\<close>

text \<open>The identifier of a new message; the clock is read only when no identifier is given.\<close>

definition GenerateStreamID :: "u64 \<Rightarrow> StreamMetaValue \<Rightarrow> StreamAddTrimArgs \<Rightarrow> Status \<times> StreamAddTrimArgs" where
  "GenerateStreamID now stream_meta args =
     (let last_id = smv_last_id stream_meta
      in if sa_id_given args \<and> sa_seq_given args \<and> ms (sa_id args) = 0 \<and> seq (sa_id args) = 0
         then (InvalidArgument ''The ID specified in XADD must be greater than 0-0'', args)
         else if \<not> sa_id_given args \<or> \<not> sa_seq_given args then
           let sid = (if \<not> sa_id_given args then streamID now (seq (sa_id args)) else sa_id args)
           in if \<not> sa_id_given args \<and> ms sid < ms last_id then
                let m = ms last_id
                in (OK, args\<lparr>sa_id := (if seq last_id = - 1 then streamID (m + 1) 0 else streamID m (seq sid + 1))\<rparr>)
              else if ms sid < ms last_id
              then (InvalidArgument ''The ID specified in XADD is equal or smaller'', args\<lparr>sa_id := sid\<rparr>)
              else if ms sid = ms last_id then
                (if seq last_id = - 1 then (InvalidArgument ''The ID specified in XADD is equal or smaller'', args\<lparr>sa_id := sid\<rparr>)
                 else (OK, args\<lparr>sa_id := streamID (ms sid) (seq last_id + 1)\<rparr>))
              else (OK, args\<lparr>sa_id := streamID (ms sid) 0\<rparr>)
         else if ms (sa_id args) < ms last_id \<or> ms (sa_id args) = ms last_id \<and> seq (sa_id args) \<le> seq last_id
         then (InvalidArgument ''INVALID ID given'', args)
         else (OK, args))"

text \<open>\<open>XAdd\<close> from the check for an exhausted sequence number on, with the meta value it has read or made.\<close>

definition XAdd_append ::
    "(Status \<Rightarrow> string) \<Rightarrow> 's env \<Rightarrow> bytes \<Rightarrow> bytes \<Rightarrow> StreamAddTrimArgs \<Rightarrow> StreamMetaValue \<Rightarrow> 's redis \<Rightarrow>
     (Status \<times> StreamAddTrimArgs \<times> 's redis) option" where
  "XAdd_append tostr env key serialized_message args stream_meta r =
     (if ms (smv_last_id stream_meta) = - 1 \<and> seq (smv_last_id stream_meta) = - 1
      then Some (Corruption ''Fatal! Sequence number overflow !'', args, r)
      else do {
        let (s, args) = GenerateStreamID (env_now env) stream_meta args;
        if s \<noteq> OK then Some (s, args, r)
        else do {
          let (s, r) = redis_Write env [Put kStreamsDataCF
            (stream_data_key env key (smv_version stream_meta) (sid_Serialize (sa_id args))) serialized_message] r;
          if s \<noteq> OK then Some (Corruption (''error from XADD, insert stream message failed 1: '' @ tostr s), args, r)
          else do {
            let m = (if smv_length stream_meta = 0 then smv_set_first_id (sa_id args) stream_meta else stream_meta);
            let m = smv_set_entries_added (smv_entries_added m + 1) m;
            let m = smv_set_last_id (sa_id args) m;
            let m = smv_set_length (smv_length m + 1) m;
            (s, m, r) \<leftarrow>
              (if sa_trim_strategy args \<noteq> TRIM_STRATEGY_NONE then do {
                 (s, count, m, r) \<leftarrow> TrimStream env m key args r; Some (s, m, r) }
               else Some (OK, m, r));
            if s \<noteq> OK then Some (Corruption (''error from XADD, trim stream failed: '' @ tostr s), args, r)
            else do {
              let (s, r) = redis_Write env [Put kMetaCF (BaseKey_Encode (env_junk env) key) (smv_value m)] r;
              Some (if s \<noteq> OK then s else OK, args, r) } } } })"

definition XAdd ::
    "(Status \<Rightarrow> string) \<Rightarrow> 's env \<Rightarrow> bytes \<Rightarrow> bytes \<Rightarrow> StreamAddTrimArgs \<Rightarrow> 's redis \<Rightarrow> (Status \<times> StreamAddTrimArgs \<times> 's redis) option" where
  "XAdd tostr env key serialized_message args r = do {
     (s, stream_meta) \<leftarrow> GetStreamMeta env StreamMetaValue_new key [] (rds_db r);
     if is_NotFound s \<and> sa_no_mkstream args then Some (NotFound ''no_mkstream'', args, r)
     else if \<not> is_NotFound s \<and> s \<noteq> OK
     then Some (Corruption (''error from XADD, get stream meta failed: '' @ tostr s), args, r)
     else do {
       let stream_meta = (if is_NotFound s then InitMetaValue stream_meta else stream_meta);
       if smv_length stream_meta = 0 \<and> sa_no_mkstream args then Some (NotFound ''no_mkstream'', args, r)
       else
         let stream_meta = (if smv_length stream_meta = 0 then InitMetaValue stream_meta else stream_meta)
         in XAdd_append tostr env key serialized_message args stream_meta r } }"

definition XTrim :: "'s env \<Rightarrow> bytes \<Rightarrow> StreamAddTrimArgs \<Rightarrow> 's redis \<Rightarrow> ((Status \<times> i32) \<times> 's redis) option" where
  "XTrim env key args r = do {
     (s, stream_meta) \<leftarrow> GetStreamMeta env StreamMetaValue_new key [] (rds_db r);
     if s \<noteq> OK then Some ((s, 0), r)
     else do {
       (s, count, stream_meta, r) \<leftarrow> TrimStream env stream_meta key args r;
       if s \<noteq> OK then Some ((s, count), r)
       else do {
         let (s, r) = redis_Write env [Put kMetaCF (BaseKey_Encode (env_junk env) key) (smv_value stream_meta)] r;
         Some ((if s \<noteq> OK then s else OK, count), r) } } }"

text \<open>Deleting the last message assigns the first identifier, too: the source has one setter for both.\<close>

definition SetFirstOrLastID ::
    "(Status \<Rightarrow> string) \<Rightarrow> 's env \<Rightarrow> bytes \<Rightarrow> StreamMetaValue \<Rightarrow> bool \<Rightarrow> 's \<Rightarrow> (Status \<times> StreamMetaValue) option" where
  "SetFirstOrLastID tostr env key stream_meta is_set_first db =
     (if smv_length stream_meta = 0 then Some (OK, smv_set_first_id kSTREAMID_MIN stream_meta)
      else do {
        (s, id_messages, next_field) \<leftarrow>
          (if is_set_first then ScanStream env
             \<lparr>so_key = key, so_version = smv_version stream_meta, so_start_sid = kSTREAMID_MIN, so_end_sid = kSTREAMID_MAX,
              so_limit = 1, so_start_ex = False, so_end_ex = False, so_is_reverse = False\<rparr> db
           else ScanStream env
             \<lparr>so_key = key, so_version = smv_version stream_meta, so_start_sid = kSTREAMID_MAX, so_end_sid = kSTREAMID_MIN,
              so_limit = 1, so_start_ex = False, so_end_ex = False, so_is_reverse = True\<rparr> db);
        if s \<noteq> OK \<and> \<not> is_NotFound s then Some (Corruption (''Internal error: scan stream failed: '' @ tostr s), stream_meta)
        else case id_messages of [] \<Rightarrow> Some (Corruption ''Internal error: no messages found but stream length is not 0'', stream_meta)
          | msg # _ \<Rightarrow> do {
              sid \<leftarrow> sid_DeserializeFrom (im_field msg);
              Some (OK, smv_set_first_id sid stream_meta) } })"

definition SetFirstID where "SetFirstID tostr env key stream_meta db = SetFirstOrLastID tostr env key stream_meta True db"

definition SetLastID where "SetLastID tostr env key stream_meta db = SetFirstOrLastID tostr env key stream_meta False db"

text \<open>The first loop of \<open>XDel\<close>: how many of the messages are missing, or the error that ends it.\<close>

fun XDel_missing :: "'s env \<Rightarrow> bytes \<Rightarrow> u64 \<Rightarrow> streamID list \<Rightarrow> 's \<Rightarrow> i32 \<Rightarrow> Status + i32" where
  "XDel_missing env key version [] db count = Inr count"
| "XDel_missing env key version (sid # ids) db count =
     (let (s, unused) = db_Get (env_db env) db kStreamsDataCF (stream_data_key env key version (sid_Serialize sid))
      in if is_NotFound s then XDel_missing env key version ids db (count - 1)
         else if s \<noteq> OK then Inl s
         else XDel_missing env key version ids db count)"

fun XDel_update ::
    "(Status \<Rightarrow> string) \<Rightarrow> 's env \<Rightarrow> bytes \<Rightarrow> streamID list \<Rightarrow> 's \<Rightarrow> StreamMetaValue \<Rightarrow> (Status \<times> StreamMetaValue) option" where
  "XDel_update tostr env key [] db m = Some (OK, m)"
| "XDel_update tostr env key (sid # ids) db m = do {
     let m = (if sid_greater sid (smv_max_deleted_entry_id m) then smv_set_max_deleted_entry_id sid m else m);
     (s, m) \<leftarrow> (if sid_eq sid (smv_first_id m) then SetFirstID tostr env key m db
       else if sid_eq sid (smv_last_id m) then SetLastID tostr env key m db
       else Some (OK, m));
     if s \<noteq> OK then Some (s, m) else XDel_update tostr env key ids db m }"

text \<open>The count is an output the caller reads only after \<open>OK\<close>; with an error before the deletion it is given as zero.\<close>

definition XDel ::
    "(Status \<Rightarrow> string) \<Rightarrow> 's env \<Rightarrow> bytes \<Rightarrow> streamID list \<Rightarrow> 's redis \<Rightarrow> ((Status \<times> i32) \<times> 's redis) option" where
  "XDel tostr env key ids r = do {
     (s, stream_meta) \<leftarrow> GetStreamMeta env StreamMetaValue_new key [] (rds_db r);
     if s \<noteq> OK then Some ((s, 0), r)
     else if length ids > 2 ^ 31 - 1 then Some ((InvalidArgument ''Too many IDs specified'', 0), r)
     else case XDel_missing env key (smv_version stream_meta) ids (rds_db r) (of_nat (length ids)) of
       Inl s \<Rightarrow> Some ((s, 0), r)
     | Inr count \<Rightarrow> do {
         let (s, r) = DeleteStreamMessages_ids env key stream_meta ids r;
         if s \<noteq> OK then Some ((s, count), r)
         else do {
           (s, m) \<leftarrow> XDel_update tostr env key ids (rds_db r) (smv_set_length (smv_length stream_meta - count) stream_meta);
           if s \<noteq> OK then Some ((s, count), r)
           else do {
             let (s, r) = redis_Write env [Put kMetaCF (BaseKey_Encode (env_junk env) key) (smv_value m)] r;
             Some ((s, count), r) } } } }"

definition XRange :: "'s env \<Rightarrow> bytes \<Rightarrow> StreamScanArgs \<Rightarrow> bytes \<Rightarrow> 's \<Rightarrow> (Status \<times> IdMessage list) option" where
  "XRange env key args prefetch_meta db = do {
     (s, stream_meta) \<leftarrow> GetStreamMeta env StreamMetaValue_new key prefetch_meta db;
     if s \<noteq> OK then Some (s, [])
     else do {
       (s, field_values, next_field) \<leftarrow> ScanStream env
         \<lparr>so_key = key, so_version = smv_version stream_meta, so_start_sid = ss_start_sid args, so_end_sid = ss_end_sid args,
          so_limit = ss_limit args, so_start_ex = ss_start_ex args, so_end_ex = ss_end_ex args, so_is_reverse = False\<rparr> db;
       Some (s, field_values) } }"

definition XRevrange :: "'s env \<Rightarrow> bytes \<Rightarrow> StreamScanArgs \<Rightarrow> 's \<Rightarrow> (Status \<times> IdMessage list) option" where
  "XRevrange env key args db = do {
     (s, stream_meta) \<leftarrow> GetStreamMeta env StreamMetaValue_new key [] db;
     if s \<noteq> OK then Some (s, [])
     else do {
       (s, field_values, next_field) \<leftarrow> ScanStream env
         \<lparr>so_key = key, so_version = smv_version stream_meta, so_start_sid = ss_start_sid args, so_end_sid = ss_end_sid args,
          so_limit = ss_limit args, so_start_ex = ss_start_ex args, so_end_ex = ss_end_ex args, so_is_reverse = True\<rparr> db;
       Some (s, field_values) } }"

definition XLen :: "'s env \<Rightarrow> bytes \<Rightarrow> 's \<Rightarrow> (Status \<times> i32) option" where
  "XLen env key db = do {
     (s, stream_meta) \<leftarrow> GetStreamMeta env StreamMetaValue_new key [] db;
     Some (if s \<noteq> OK then (s, 0) else (OK, smv_length stream_meta)) }"

text \<open>The two loops of \<open>XRead\<close>: the streams that exist with the position of their key, then the scan of each.\<close>

fun XRead_metas ::
    "'s env \<Rightarrow> bytes list \<Rightarrow> nat \<Rightarrow> nat \<Rightarrow> 's \<Rightarrow> (Status + (StreamMetaValue \<times> nat) list) option" where
  "XRead_metas env keys i 0 db = Some (Inr [])"
| "XRead_metas env keys i (Suc n) db =
     (if i \<ge> length keys then None
      else do {
        (s, stream_meta) \<leftarrow> GetStreamMeta env StreamMetaValue_new (keys ! i) [] db;
        if is_NotFound s then XRead_metas env keys (i + 1) n db
        else if s \<noteq> OK then Some (Inl s)
        else do {
          rest \<leftarrow> XRead_metas env keys (i + 1) n db;
          Some (case rest of Inl s \<Rightarrow> Inl s | Inr metas \<Rightarrow> Inr ((stream_meta, i) # metas)) } })"

fun XRead_scans ::
    "'s env \<Rightarrow> StreamReadGroupReadArgs \<Rightarrow> (StreamMetaValue \<times> nat) list \<Rightarrow> 's \<Rightarrow> (Status \<times> IdMessage list list \<times> bytes list) option" where
  "XRead_scans env args [] db = Some (OK, [], [])"
| "XRead_scans env args ((stream_meta, idx) # metas) db =
     (let unparsed_id = sr_unparsed_ids args ! idx;
          key = sr_keys args ! idx;
          start =
            (if unparsed_id = [60] then Inl (Corruption (''The > ID can be specified only when calling '' @
               ''XREADGROUP using the GROUP <group> '' @ ''<consumer> option.''))
             else if unparsed_id = [36] then Inr (smv_last_id stream_meta)
             else
               let (ok, sid, _) = StreamParseStrictID unparsed_id (streamID 0 0) 0 None
               in if \<not> ok then Inl (Corruption ''Invalid stream ID specified as stream '') else Inr sid)
      in case start of Inl s \<Rightarrow> Some (s, [], [])
         | Inr sid \<Rightarrow> do {
             (s, field_values, next_field) \<leftarrow> ScanStream env
               \<lparr>so_key = key, so_version = smv_version stream_meta, so_start_sid = sid, so_end_sid = kSTREAMID_MAX,
                so_limit = sr_count args, so_start_ex = True, so_end_ex = False, so_is_reverse = False\<rparr> db;
             if s \<noteq> OK \<and> \<not> is_NotFound s then Some (s, [], [])
             else do {
               (s, results, reserved_keys) \<leftarrow> XRead_scans env args metas db;
               Some (s, field_values # results, key # reserved_keys) } })"

definition XRead :: "'s env \<Rightarrow> StreamReadGroupReadArgs \<Rightarrow> 's \<Rightarrow> (Status \<times> IdMessage list list \<times> bytes list) option" where
  "XRead env args db = do {
     streammeta_idx \<leftarrow> XRead_metas env (sr_keys args) 0 (length (sr_unparsed_ids args)) db;
     case streammeta_idx of Inl s \<Rightarrow> Some (s, [], [])
     | Inr metas \<Rightarrow> if metas = [] then Some (OK, [], []) else XRead_scans env args metas db }"

definition XInfo :: "'s env \<Rightarrow> bytes \<Rightarrow> 's \<Rightarrow> (Status \<times> StreamInfoResult option) option" where
  "XInfo env key db = do {
     (s, stream_meta) \<leftarrow> GetStreamMeta env StreamMetaValue_new key [] db;
     Some (if s \<noteq> OK then (s, None)
       else (OK, Some \<lparr>si_length = smv_length stream_meta, si_last_id_str = sid_ToString (smv_last_id stream_meta),
         si_max_deleted_entry_id_str = sid_ToString (smv_max_deleted_entry_id stream_meta),
         si_entries_added = smv_entries_added stream_meta, si_first_id_str = sid_ToString (smv_first_id stream_meta)\<rparr>)) }"

text \<open>The numbers of live and of emptied streams.\<close>

definition ScanStreamsKeyNum :: "'s env \<Rightarrow> 's \<Rightarrow> u64 \<times> u64" where
  "ScanStreamsKeyNum env db =
     fold (\<lambda>(k, v) (keys, invaild_keys).
         if \<not> ExpectedMetaValue kStreams v then (keys, invaild_keys)
         else if smv_length (ParsedStreamMetaValue_parse v) = 0 then (keys, invaild_keys + 1)
         else (keys + 1, invaild_keys))
       (it_SeekToFirst (env_db env) db kMetaCF) (0, 0)"

definition StreamsDel :: "'s env \<Rightarrow> bytes \<Rightarrow> bytes \<Rightarrow> 's redis \<Rightarrow> (Status \<times> 's redis) option" where
  "StreamsDel env key prefetch_meta r = do {
     m \<leftarrow> read_stream_meta env '', get type: '' key prefetch_meta (rds_db r);
     case m of Inl st \<Rightarrow> Some (st, r)
     | Inr (s, meta_value) \<Rightarrow>
         if s = OK then do {
           let m = smv_ParseFrom meta_value StreamMetaValue_new;
           if smv_length m = 0 then Some (NotFound [], r)
           else do {
             let statistic = (ucast (smv_length m) :: u32);
             let m = InitMetaValue m;
             let (s, r) = redis_Write env [Put kMetaCF (BaseKey_Encode (env_junk env) key) (smv_value m)] r;
             r \<leftarrow> UpdateSpecificKeyStatistics kStreams key (ucast statistic) r;
             Some (s, r) } }
         else Some (s, r) }"

end
