(* ===== verification/StreamsCorrect.thy ===== *)
theory StreamsCorrect
  imports Streams DataScan ListsTheorems
begin

text \<open>
  What the stream commands do to streams. \<open>stream_at m key p es\<close> says that the contents \<open>m\<close> of the database hold under
  \<open>key\<close> a stream with the meta value \<open>p\<close> and the messages \<open>es\<close>, in the order of their identifiers. The lemmas are
  about databases that answer every call; the commands of a stream write the message records and the meta value
  separately, so a failure between the two leaves records the meta value does not count.
\<close>

section \<open>Streams in the database\<close>

abbreviation message_records :: "(streamID \<times> bytes) list \<Rightarrow> (bytes \<times> bytes) list" where
  "message_records es \<equiv> map (\<lambda>(i, v). (sid_Serialize i, v)) es"

definition stream_records :: "contents \<Rightarrow> bytes \<Rightarrow> u64 \<Rightarrow> (streamID \<times> bytes) list \<Rightarrow> bool" where
  "stream_records m key version es \<longleftrightarrow> data_records m kStreamsDataCF key version (message_records es)"

definition stream_at :: "contents \<Rightarrow> bytes \<Rightarrow> StreamMetaValue \<Rightarrow> (streamID \<times> bytes) list \<Rightarrow> bool" where
  "stream_at m key p es \<longleftrightarrow>
     meta_of m key = Some (smv_value p) \<and> smv_wf p \<and> smv_type p = kStreams \<and>
     stream_records m key (smv_version p) es \<and>
     length es < 2 ^ 31 \<and> smv_length p = of_nat (length es) \<and>
     (es \<noteq> [] \<longrightarrow> smv_first_id p = fst (hd es)) \<and> (\<forall>e \<in> set es. fst e \<le> smv_last_id p)"

definition to_message :: "streamID \<times> bytes \<Rightarrow> IdMessage" where
  "to_message e = IdMessage (sid_Serialize (fst e)) (snd e)"

abbreviation streams_frame :: "bytes \<Rightarrow> u64 \<Rightarrow> contents \<Rightarrow> contents \<Rightarrow> bool" where
  "streams_frame key version m m' \<equiv> data_frame key version kStreamsDataCF m m'"

lemma bytewise_streams [simp]: "bytewise kStreamsDataCF" "kStreamsDataCF \<noteq> kMetaCF"
  by (simp_all add: bytewise_def)

lemma sid_Serialize_le: "sid_Serialize a \<le> sid_Serialize b \<longleftrightarrow> a \<le> b"
  by (simp add: le_less sid_Serialize_less)

lemma sid_Serialize_not_Nil [simp]: "sid_Serialize i \<noteq> []"
  using length_sid_Serialize [of True i] by (metis list.size(3) zero_neq_numeral)

lemma sid_Deserialize_exact [simp]: "sid_DeserializeFrom (sid_Serialize i) = Some i"
  using sid_Deserialize_Serialize [of True i "[]"] by simp

lemma stream_records_sorted: "stream_records m key version es \<Longrightarrow> sorted_wrt (\<lambda>x y. fst x < fst y) es"
  by (simp add: stream_records_def data_records_def sorted_wrt_map case_prod_unfold sid_Serialize_less)

lemma StringMatch_star [simp]: "StringMatch [42] s nocase = Some True"
  by (simp add: StringMatch_def stringmatchlen.simps [of nocase "[42, 0]"])

section \<open>Scanning\<close>

lemma sint_pred: "0 < sint (n :: i32) \<Longrightarrow> sint (n - 1) = sint n - 1"
proof -
  assume "0 < sint n"
  then have "signed_take_bit 31 (sint n - 1) = sint n - 1"
    using sint_less [of n] by (intro signed_take_bit_int_eq_self) simp_all
  then show ?thesis by (simp add: signed_minus_1 sint_word_ariths)
qed

lemma StreamScanRange_loop_run:
  assumes "key_ok key" and "rest \<noteq> [] \<Longrightarrow> \<not> prefix (data_prefix key version) (fst (hd rest))"
  defines "enc \<equiv> \<lambda>(d, v). (data_key key version d, v)"
  shows "StreamScanRange_loop (data_prefix key version) id_end [42] (map enc ds @ rest) remain =
    (let run = takeWhile (\<lambda>x. id_end = [] \<or> fst x \<le> id_end) (take (nat (sint remain)) ds)
     in Some (map (\<lambda>(d, v). IdMessage d v) run, map enc (drop (length run) ds) @ rest))"
proof (induction ds arbitrary: remain)
  case Nil
  show ?case using assms(2) by (cases rest) auto
next
  case (Cons x ds)
  obtain d v where x: "x = (d, v)" by (cases x)
  show ?case
  proof (cases "sint remain > 0")
    case True
    then have n: "nat (sint remain) = Suc (nat (sint (remain - 1)))" using sint_pred [of remain] by simp
    show ?thesis
      using True assms(1) Cons.IH [of "remain - 1"] unfolding n x
      by (auto simp: enc_def BaseDataKey_decode_Encode Let_def not_le)
  qed (auto simp: enc_def x)
qed

lemma StreamReScanRange_loop_run:
  assumes "key_ok key" and "rest \<noteq> [] \<Longrightarrow> \<not> prefix (data_prefix key version) (fst (hd rest))"
  defines "enc \<equiv> \<lambda>(d, v). (data_key key version d, v)"
  shows "StreamReScanRange_loop (data_prefix key version) [] [42] (map enc ds @ rest) remain =
    (let run = take (nat (sint remain)) ds
     in Some (map (\<lambda>(d, v). IdMessage d v) run, map enc (drop (length run) ds) @ rest))"
proof (induction ds arbitrary: remain)
  case Nil
  show ?case using assms(2) by (cases rest) auto
next
  case (Cons x ds)
  obtain d v where x: "x = (d, v)" by (cases x)
  show ?case
  proof (cases "sint remain > 0")
    case True
    then have n: "nat (sint remain) = Suc (nat (sint (remain - 1)))" using sint_pred [of remain] by simp
    show ?thesis
      using True assms(1) Cons.IH [of "remain - 1"] unfolding n x
      by (auto simp: enc_def BaseDataKey_decode_Encode Let_def)
  qed (auto simp: enc_def x)
qed

text \<open>The messages with identifiers from \<open>a\<close> to \<open>b\<close>.\<close>

definition in_range :: "streamID \<Rightarrow> streamID \<Rightarrow> (streamID \<times> bytes) list \<Rightarrow> (streamID \<times> bytes) list" where
  "in_range a b es = filter (\<lambda>e. a \<le> fst e \<and> fst e \<le> b) es"

text \<open>The identifier of the message behind the first \<open>n\<close>, serialised, or the empty string.\<close>

definition next_field :: "nat \<Rightarrow> (streamID \<times> bytes) list \<Rightarrow> bytes" where
  "next_field n es = (if n < length es then sid_Serialize (fst (es ! n)) else [])"

lemma sorted_takeWhile_le:
  "sorted_wrt (\<lambda>x y. fst x < (fst y :: streamID)) es \<Longrightarrow> takeWhile (\<lambda>e. fst e \<le> b) es = filter (\<lambda>e. fst e \<le> b) es"
proof (induction es)
  case (Cons x es)
  show ?case
  proof (cases "fst x \<le> b")
    case False
    then have "\<forall>y \<in> set es. \<not> fst y \<le> b" using Cons.prems by (auto simp: not_le intro: less_trans)
    then show ?thesis using False by (auto simp: filter_empty_conv)
  qed (use Cons in simp)
qed simp

lemma takeWhile_run: "takeWhile P (take n xs) = take n (takeWhile P xs)"
  by (induction xs arbitrary: n) (auto simp: take_Cons' )

lemma drop_run:
  "drop (length (take n (takeWhile P xs))) xs = drop n (takeWhile P xs) @ dropWhile P xs"
proof -
  have "xs = take n (takeWhile P xs) @ drop n (takeWhile P xs) @ dropWhile P xs"
    unfolding append_assoc [symmetric] append_take_drop_id takeWhile_dropWhile_id ..
  then show ?thesis by (metis append_eq_conv_conj append_assoc)
qed

context engine
begin

lemma sc_le: "sc a b \<le> 0 \<longleftrightarrow> a \<le> b" "0 < sc a b \<longleftrightarrow> b < a"
proof -
  have "0 < sc a b \<longleftrightarrow> \<not> (sc a b < 0 \<or> sc a b = 0)" "sc a b \<le> 0 \<longleftrightarrow> sc a b < 0 \<or> sc a b = 0" by arith+
  then show "sc a b \<le> 0 \<longleftrightarrow> a \<le> b" "0 < sc a b \<longleftrightarrow> b < a"
    using slice_compare_less [of a b] slice_compare_eq [of a b] by (auto simp: le_less)
qed

lemma StreamScanRange_ok:
  fixes limit :: i32
  assumes "key_ok key" and "stream_records (view s) key version es" and "id_end = [] \<or> sid_Serialize a \<le> id_end"
  defines "R \<equiv> takeWhile (\<lambda>x. id_end = [] \<or> fst x \<le> id_end) (message_records (filter (\<lambda>e. a \<le> fst e) es))"
  defines "n \<equiv> nat (sint limit)"
  shows "StreamScanRange env key version (sid_Serialize a) id_end [42] limit s =
    Some (OK, map (\<lambda>(d, v). IdMessage d v) (take n R), if n < length R then fst (R ! n) else [])"
proof -
  let ?enc = "\<lambda>(d, v). (data_key key version d, v)"
  let ?ds = "message_records (filter (\<lambda>e. a \<le> fst e) es)"
  let ?P = "\<lambda>x. id_end = [] \<or> fst x \<le> id_end"
  obtain rest where rest: "it_Seek (env_db env) s kStreamsDataCF (data_key key version (sid_Serialize a)) = map ?enc ?ds @ rest"
      "rest \<noteq> [] \<Longrightarrow> \<not> prefix (data_prefix key version) (fst (hd rest))"
    using seek_records [OF bytewise_streams(1) assms(1) assms(2) [unfolded stream_records_def], of "sid_Serialize a"]
    by (auto simp: filter_map comp_def case_prod_unfold sid_Serialize_le)
  have loop: "StreamScanRange_loop (data_prefix key version) id_end [42] (map ?enc ?ds @ rest) limit =
      Some (map (\<lambda>(d, v). IdMessage d v) (take n R), map ?enc (drop n R @ dropWhile ?P ?ds) @ rest)"
    using StreamScanRange_loop_run [OF assms(1) rest(2), of id_end ?ds limit]
    unfolding Let_def takeWhile_run R_def [symmetric] n_def [symmetric] drop_run [of n ?P ?ds, folded R_def] .
  have nxt: "(case map ?enc (drop n R @ dropWhile ?P ?ds) @ rest of [] \<Rightarrow> Some []
      | (k, v) # _ \<Rightarrow> if prefix (data_prefix key version) k then do {
            parsed \<leftarrow> ParsedBaseDataKey_decode k;
            Some (if id_end = [] \<or> sc (bdk_data parsed) id_end \<le> 0 then bdk_data parsed else []) }
          else Some []) = Some (if n < length R then fst (R ! n) else [])"
  proof (cases "n < length R")
    case True
    then have "drop n R = R ! n # drop (Suc n) R" by (simp add: Cons_nth_drop_Suc)
    moreover have "?P (R ! n)" using set_takeWhileD [of "R ! n" ?P ?ds] nth_mem [OF True] unfolding R_def by blast
    ultimately show ?thesis using True assms(1)
      by (cases "R ! n") (auto simp: BaseDataKey_decode_Encode sc_le)
  next
    case False
    then have R: "drop n R = []" by simp
    show ?thesis
    proof (cases "dropWhile ?P ?ds")
      case Nil
      show ?thesis unfolding R Nil using False rest(2) by (cases rest) auto
    next
      case (Cons x xs)
      then have "\<not> ?P x" using hd_dropWhile [of ?P ?ds] by simp
      then show ?thesis unfolding R Cons using False assms(1) by (cases x) (auto simp: BaseDataKey_decode_Encode sc_le)
    qed
  qed
  have c: "(sc (sid_Serialize a) [] = 0) = False" "(\<not> False \<and> id_end \<noteq> [] \<and> 0 < sc (sid_Serialize a) id_end) = False"
    using assms(3) by (auto simp: sc_le)
  show ?thesis
    by (simp only: StreamScanRange_def Let_def data_prefix_junk [OF assms(1), of "env_junk env"]
        data_key_junk [OF assms(1), of "env_junk env"] c if_False rest(1)
        loop bind.bind_lunit prod.case nxt)
qed

lemma exclude_start:
  "(if ex \<and> map to_message M \<noteq> [] then do {
      sid \<leftarrow> sid_DeserializeFrom (im_field (hd (map to_message M)));
      Some (if sid = a then tl (map to_message M) else map to_message M) }
    else Some (map to_message M)) =
   Some (map to_message (if ex \<and> M \<noteq> [] \<and> fst (hd M) = a then tl M else M))"
  by (cases M) (auto simp: to_message_def)

lemma exclude_end:
  "(if ex \<and> map to_message M \<noteq> [] then do {
      sid \<leftarrow> sid_DeserializeFrom (im_field (last (map to_message M)));
      Some (if sid = b then butlast (map to_message M) else map to_message M) }
    else Some (map to_message M)) =
   Some (map to_message (if ex \<and> M \<noteq> [] \<and> fst (last M) = b then butlast M else M))"
  by (cases M rule: rev_cases) (auto simp: to_message_def)

text \<open>The messages a forward scan returns, before the exclusion of its ends.\<close>

lemma ScanStream_forward:
  fixes limit :: i32
  assumes "key_ok key" and "stream_records (view s) key version es" and "a \<le> b"
  defines "n \<equiv> nat (sint limit)"
  shows "ScanStream env \<lparr>so_key = key, so_version = version, so_start_sid = a, so_end_sid = b, so_limit = limit,
      so_start_ex = start_ex, so_end_ex = end_ex, so_is_reverse = False\<rparr> s =
    (let msgs = take n (in_range a b es);
         msgs = (if start_ex \<and> msgs \<noteq> [] \<and> fst (hd msgs) = a then tl msgs else msgs);
         msgs = (if end_ex \<and> msgs \<noteq> [] \<and> fst (last msgs) = b then butlast msgs else msgs)
     in Some (OK, map to_message msgs, next_field n (in_range a b es)))"
proof -
  let ?upto = "if b = kSTREAMID_MAX then [] else sid_Serialize b"
  let ?es = "filter (\<lambda>e. a \<le> fst e) es"
  have sorted: "sorted_wrt (\<lambda>x y. fst x < fst y) ?es" by (intro sorted_wrt_filter stream_records_sorted [OF assms(2)])
  have "(\<lambda>x. ?upto = [] \<or> fst x \<le> ?upto) \<circ> (\<lambda>(i, v :: bytes). (sid_Serialize i, v)) = (\<lambda>e. fst e \<le> b)"
    by (rule ext) (auto simp: sid_Serialize_le)
  then have "takeWhile (\<lambda>x. ?upto = [] \<or> fst x \<le> ?upto) (message_records ?es) = message_records (takeWhile (\<lambda>e. fst e \<le> b) ?es)"
    unfolding takeWhile_map by simp
  also have "takeWhile (\<lambda>e. fst e \<le> b) ?es = in_range a b es"
    unfolding sorted_takeWhile_le [OF sorted] by (simp add: in_range_def conj_commute)
  finally have R: "takeWhile (\<lambda>x. ?upto = [] \<or> fst x \<le> ?upto) (message_records ?es) = message_records (in_range a b es)" .
  have fin: "?upto = [] \<or> sid_Serialize a \<le> ?upto" using assms(3) by (simp add: sid_Serialize_le)
  have "StreamScanRange env key version (sid_Serialize a) ?upto [42] limit s =
      Some (OK, map to_message (take n (in_range a b es)), next_field n (in_range a b es))"
  proof -
    have "map (\<lambda>(d, v). IdMessage d v) (take n (message_records M)) = map to_message (take n M)"
      "(if n < length (message_records M) then fst (message_records M ! n) else []) = next_field n M" for M
      by (simp_all add: next_field_def take_map to_message_def case_prod_unfold comp_def)
    then show ?thesis unfolding StreamScanRange_ok [OF assms(1,2) fin] R n_def by simp
  qed
  then show ?thesis
    by (simp only: ScanStream_def ScanStreamOptions.select_convs sid_operators if_False Let_def bind.bind_lunit prod.case
        exclude_start exclude_end)
qed

lemma StreamReScanRange_ok:
  fixes limit :: i32 and a :: streamID
  assumes "key_ok key" and "stream_records (view s) key version es"
  defines "R \<equiv> message_records (rev (filter (\<lambda>e. fst e \<le> a) es))"
  defines "n \<equiv> nat (sint limit)"
  shows "StreamReScanRange env key version (sid_Serialize a) [] [42] limit s =
    Some (OK, map (\<lambda>(d, v). IdMessage d v) (take n R), if n < length R then fst (R ! n) else [])"
proof -
  let ?enc = "\<lambda>(d, v). (data_key key version d, v)"
  obtain rest where rest: "it_SeekForPrev (env_db env) s kStreamsDataCF (data_key key version (sid_Serialize a)) = map ?enc R @ rest"
      "rest \<noteq> [] \<Longrightarrow> \<not> prefix (data_prefix key version) (fst (hd rest))"
    using seek_prev_records [OF bytewise_streams(1) assms(1) assms(2) [unfolded stream_records_def], of "sid_Serialize a"]
    by (auto simp: R_def filter_map comp_def case_prod_unfold sid_Serialize_le rev_map)
  have loop: "StreamReScanRange_loop (data_prefix key version) [] [42] (map ?enc R @ rest) limit =
      Some (map (\<lambda>(d, v). IdMessage d v) (take n R), map ?enc (drop n R) @ rest)"
  proof -
    have d: "drop (length (take n R)) R = drop n R" by (cases "n \<le> length R") (simp_all add: min_def)
    show ?thesis
      using StreamReScanRange_loop_run [OF assms(1) rest(2), of R limit] unfolding Let_def n_def [symmetric] d .
  qed
  have nxt: "(case map ?enc (drop n R) @ rest of [] \<Rightarrow> Some []
      | (k, v) # _ \<Rightarrow> if prefix (data_prefix key version) k then do {
            parsed \<leftarrow> ParsedBaseDataKey_decode k;
            Some (if True \<or> 0 \<le> sc (bdk_data parsed) [] then bdk_data parsed else []) }
          else Some []) = Some (if n < length R then fst (R ! n) else [])"
  proof (cases "n < length R")
    case True
    then have "drop n R = R ! n # drop (Suc n) R" by (simp add: Cons_nth_drop_Suc)
    then show ?thesis using True assms(1) by (cases "R ! n") (auto simp: BaseDataKey_decode_Encode)
  next
    case False
    then show ?thesis using rest(2) by (cases rest) auto
  qed
  have c: "(sc (sid_Serialize a) [] = 0) = False" "(\<not> False \<and> \<not> True \<and> sc (sid_Serialize a) [] < 0) = False" by simp_all
  show ?thesis
    by (simp only: StreamReScanRange_def Let_def data_prefix_junk [OF assms(1), of "env_junk env"]
        data_key_junk [OF assms(1), of "env_junk env"] refl c if_False rest(1) loop bind.bind_lunit prod.case nxt)
qed

text \<open>A backward scan from \<open>a\<close> ignores where it is to end.\<close>

lemma ScanStream_backward:
  fixes limit :: i32
  assumes "key_ok key" and "stream_records (view s) key version es" and "a \<noteq> kSTREAMID_MAX"
  defines "n \<equiv> nat (sint limit)"
  shows "ScanStream env \<lparr>so_key = key, so_version = version, so_start_sid = a, so_end_sid = b, so_limit = limit,
      so_start_ex = start_ex, so_end_ex = end_ex, so_is_reverse = True\<rparr> s =
    (let below = rev (filter (\<lambda>e. fst e \<le> a) es);
         msgs = take n below;
         msgs = (if start_ex \<and> msgs \<noteq> [] \<and> fst (hd msgs) = a then tl msgs else msgs);
         msgs = (if end_ex \<and> msgs \<noteq> [] \<and> fst (last msgs) = b then butlast msgs else msgs)
     in Some (OK, map to_message msgs, next_field n below))"
proof -
  let ?below = "rev (filter (\<lambda>e. fst e \<le> a) es)"
  have M: "map (\<lambda>(d, v). IdMessage d v) (take n (message_records M)) = map to_message (take n M)"
      "(if n < length (message_records M) then fst (message_records M ! n) else []) = next_field n M" for M
    by (simp_all add: next_field_def take_map to_message_def case_prod_unfold comp_def)
  have "StreamReScanRange env key version (sid_Serialize a) [] [42] limit s =
      Some (OK, map to_message (take n ?below), next_field n ?below)"
    unfolding StreamReScanRange_ok [OF assms(1,2)] n_def [symmetric] M ..
  moreover have "(a = kSTREAMID_MAX) = False" using assms(3) by simp
  ultimately show ?thesis
    by (simp only: ScanStream_def ScanStreamOptions.select_convs sid_operators if_True if_False Let_def bind.bind_lunit prod.case
        exclude_start exclude_end)
qed

section \<open>The meta value\<close>

lemma GetMetaValueType_stream: "smv_wf p \<Longrightarrow> GetMetaValueType (smv_value p) = smv_type p"
  by (cases "smv_value p") (auto simp: GetMetaValueType_def smv_wf_iff)

lemma GetStreamMeta_present:
  assumes "db_healthy (env_db env) view" and "key_ok key" and "meta_of (view s) key = Some (smv_value p)"
    and "smv_wf p" and "smv_type p = kStreams"
  shows "GetStreamMeta env m0 key [] s = Some (OK, p)"
proof -
  have "db_Get (env_db env) s kMetaCF (BaseKey_Encode (env_junk env) key) = (OK, smv_value p)"
    using assms(2,3) BaseKey_Encode_junk [OF assms(2), of "env_junk env"]
    by (intro Get_healthy(1) [OF assms(1)]) (simp add: meta_of_def)
  then show ?thesis
    using GetMetaValueType_stream [OF assms(4)] assms(4,5) smv_ParseFrom_value [OF assms(4), of m0]
    by (simp add: GetStreamMeta_def read_stream_meta_def ExpectedMetaValue_def)
qed

lemma GetStreamMeta_absent:
  assumes "db_healthy (env_db env) view" and "key_ok key" and "meta_of (view s) key = None"
  obtains st where "GetStreamMeta env m0 key [] s = Some (st, m0)" "is_NotFound st"
proof -
  have "is_NotFound (fst (db_Get (env_db env) s kMetaCF (BaseKey_Encode (env_junk env) key)))"
    using assms(2,3) BaseKey_Encode_junk [OF assms(2), of "env_junk env"]
    by (intro Get_healthy(2) [OF assms(1)]) (simp add: meta_of_def)
  then obtain st v where st: "db_Get (env_db env) s kMetaCF (BaseKey_Encode (env_junk env) key) = (st, v)" "is_NotFound st"
    by (cases "db_Get (env_db env) s kMetaCF (BaseKey_Encode (env_junk env) key)") auto
  moreover have "st \<noteq> OK" using st(2) by auto
  ultimately have "GetStreamMeta env m0 key [] s = Some (st, m0)" by (simp add: GetStreamMeta_def read_stream_meta_def)
  then show thesis using that st(2) by blast
qed

lemma stream_at_meta:
  assumes "db_healthy (env_db env) view" and "key_ok key" and "stream_at (view s) key p es"
  shows "GetStreamMeta env m0 key [] s = Some (OK, p)"
  using assms by (intro GetStreamMeta_present) (auto simp: stream_at_def)

end

end
