(* ===== verification/StreamsOps.thy ===== *)
theory StreamsOps
  imports StreamsCorrect
begin

text \<open>
  The effect of the stream commands: appending, reading ranges, trimming and deleting, each against the list of
  messages a client sees.
\<close>

declare apply_op.simps [simp del]

section \<open>Writing messages\<close>

lemma stream_records_append:
  assumes "slice_order sc" and "key_ok key" and "stream_records m key version es" and "\<forall>e \<in> set es. fst e < i"
  shows "stream_records (apply_op sc (Put kStreamsDataCF (data_key key version (sid_Serialize i)) v) m) key version (es @ [(i, v)])"
proof -
  have "ds_put (sid_Serialize i) v (message_records es) = message_records (es @ [(i, v)])"
  proof -
    have "filter (\<lambda>x. fst x < sid_Serialize i) (message_records es) = message_records es"
      using assms(4) by (intro filter_True) (auto simp: sid_Serialize_less)
    moreover have "filter (\<lambda>x. sid_Serialize i < fst x) (message_records es) = []"
    proof (intro filter_False ballI)
      fix x assume "x \<in> set (message_records es)"
      then obtain e where "e \<in> set es" "fst x = sid_Serialize (fst e)" by auto
      then show "\<not> sid_Serialize i < fst x" using assms(4) order.asym [of "fst e" i] by (auto simp: sid_Serialize_less)
    qed
    ultimately show ?thesis by (simp add: ds_put_def)
  qed
  then show ?thesis
    using data_records_put [OF assms(1) bytewise_streams(1) assms(2) assms(3) [unfolded stream_records_def], of "sid_Serialize i" v]
    by (simp add: stream_records_def)
qed

lemma stream_records_delete:
  assumes "slice_order sc" and "key_ok key" and "stream_records m key version es"
  shows "stream_records (apply_batch sc (map (\<lambda>i. Delete kStreamsDataCF (data_key key version (sid_Serialize i))) ids) m) key version
    (filter (\<lambda>e. fst e \<notin> set ids) es)"
  using assms(3)
proof (induction ids arbitrary: m es)
  case (Cons i ids)
  have "ds_delete (sid_Serialize i) (message_records es) = message_records (filter (\<lambda>e. fst e \<noteq> i) es)"
    by (auto simp: ds_delete_def filter_map comp_def case_prod_unfold)
  then have "stream_records (apply_op sc (Delete kStreamsDataCF (data_key key version (sid_Serialize i))) m) key version
      (filter (\<lambda>e. fst e \<noteq> i) es)"
    using data_records_delete [OF assms(1) bytewise_streams(1) assms(2) Cons.prems [unfolded stream_records_def], of "sid_Serialize i"]
    by (simp add: stream_records_def)
  from Cons.IH [OF this] show ?case by (simp add: conj_commute)
qed simp

text \<open>Records and meta value only depend on two column families.\<close>

lemma stream_records_cong:
  "m kStreamsDataCF = m' kStreamsDataCF \<Longrightarrow> stream_records m key version es \<longleftrightarrow> stream_records m' key version es"
  by (simp add: stream_records_def data_records_def)

lemma meta_of_cong: "m kMetaCF = m' kMetaCF \<Longrightarrow> meta_of m = meta_of m'"
  by (simp add: meta_of_def fun_eq_iff)

lemma stream_frame_cong:
  assumes "streams_frame key version m m'" and "\<And>cf. cf \<noteq> kZsetsScoreCF \<Longrightarrow> m'' cf = m' cf"
  shows "streams_frame key version m m''"
  using assms by (simp add: data_frame_def)

lemma stream_setters [simp]:
  "smv_value (smv_set_length n m) = memcpy_at (smv_value m) 61 (EncodeFixed32 n)"
  "smv_length (smv_set_length n m) = n" "smv_version (smv_set_length n m) = smv_version m" "smv_type (smv_set_length n m) = smv_type m"
  "smv_first_id (smv_set_length n m) = smv_first_id m" "smv_last_id (smv_set_length n m) = smv_last_id m"
  "smv_entries_added (smv_set_length n m) = smv_entries_added m" "smv_max_deleted_entry_id (smv_set_length n m) = smv_max_deleted_entry_id m"
  "smv_length (smv_set_first_id i m) = smv_length m" "smv_version (smv_set_first_id i m) = smv_version m"
  "smv_type (smv_set_first_id i m) = smv_type m" "smv_first_id (smv_set_first_id i m) = i" "smv_last_id (smv_set_first_id i m) = smv_last_id m"
  "smv_entries_added (smv_set_first_id i m) = smv_entries_added m" "smv_max_deleted_entry_id (smv_set_first_id i m) = smv_max_deleted_entry_id m"
  "smv_length (smv_set_last_id i m) = smv_length m" "smv_version (smv_set_last_id i m) = smv_version m"
  "smv_type (smv_set_last_id i m) = smv_type m" "smv_first_id (smv_set_last_id i m) = smv_first_id m" "smv_last_id (smv_set_last_id i m) = i"
  "smv_entries_added (smv_set_last_id i m) = smv_entries_added m" "smv_max_deleted_entry_id (smv_set_last_id i m) = smv_max_deleted_entry_id m"
  "smv_length (smv_set_max_deleted_entry_id i m) = smv_length m" "smv_version (smv_set_max_deleted_entry_id i m) = smv_version m"
  "smv_type (smv_set_max_deleted_entry_id i m) = smv_type m" "smv_first_id (smv_set_max_deleted_entry_id i m) = smv_first_id m"
  "smv_last_id (smv_set_max_deleted_entry_id i m) = smv_last_id m" "smv_max_deleted_entry_id (smv_set_max_deleted_entry_id i m) = i"
  "smv_entries_added (smv_set_max_deleted_entry_id i m) = smv_entries_added m"
  "smv_length (smv_set_entries_added n' m) = smv_length m" "smv_version (smv_set_entries_added n' m) = smv_version m"
  "smv_type (smv_set_entries_added n' m) = smv_type m" "smv_first_id (smv_set_entries_added n' m) = smv_first_id m"
  "smv_last_id (smv_set_entries_added n' m) = smv_last_id m" "smv_entries_added (smv_set_entries_added n' m) = n'"
  "smv_max_deleted_entry_id (smv_set_entries_added n' m) = smv_max_deleted_entry_id m"
  by (simp_all add: smv_set_length_def smv_set_first_id_def smv_set_last_id_def smv_set_max_deleted_entry_id_def
      smv_set_entries_added_def smv_poke_def)

lemmas smv_wf_setters = smv_setters_wf

section \<open>Appending\<close>

text \<open>The meta value and the messages \<open>XADD\<close> starts from; an absent or emptied stream begins with a new version.\<close>

inductive stream_start :: "contents \<Rightarrow> bytes \<Rightarrow> StreamMetaValue \<Rightarrow> (streamID \<times> bytes) list \<Rightarrow> bool" for m key where
  fresh: "meta_of m key = None \<Longrightarrow> stream_records m key 2 [] \<Longrightarrow>
    stream_start m key (InitMetaValue (InitMetaValue StreamMetaValue_new)) []"
| emptied: "meta_of m key = Some (smv_value p) \<Longrightarrow> smv_wf p \<Longrightarrow> smv_type p = kStreams \<Longrightarrow> smv_length p = 0 \<Longrightarrow>
    stream_records m key (smv_version p + 1) [] \<Longrightarrow> stream_start m key (InitMetaValue p) []"
| live: "stream_at m key p es \<Longrightarrow> es \<noteq> [] \<Longrightarrow> stream_start m key p es"

lemma stream_start_wf:
  "stream_start m key p es \<Longrightarrow> smv_wf p \<and> smv_type p = kStreams \<and> stream_records m key (smv_version p) es \<and>
    smv_length p = of_nat (length es) \<and> (es \<noteq> [] \<longrightarrow> smv_first_id p = fst (hd es)) \<and> (\<forall>e \<in> set es. fst e \<le> smv_last_id p)"
proof (induction rule: stream_start.induct)
  case fresh
  then show ?case using InitMetaValue_wf [of "InitMetaValue StreamMetaValue_new"] by (simp add: StreamMetaValue_new_def)
next
  case (emptied p)
  then show ?case using InitMetaValue_wf [of p] by simp
next
  case (live p es)
  then show ?case by (simp add: stream_at_def)
qed

text \<open>An identifier that is given, or generated while the clock is not behind the stream, is larger than the last.\<close>

lemma GenerateStreamID_larger:
  assumes "GenerateStreamID now m args = (OK, args')" and "sa_id_given args \<or> ms (smv_last_id m) \<le> now"
  shows "smv_last_id m < sa_id args'"
proof -
  obtain lm ls where l: "smv_last_id m = streamID lm ls" by (cases "smv_last_id m")
  obtain am as where a: "sa_id args = streamID am as" by (cases "sa_id args")
  have succ: "ls < ls + 1" if "ls \<noteq> - 1"
  proof -
    have "ls < - 1" using that word_order.not_eq_extremum [of ls] by simp
    then have "unat ls + 1 < 2 ^ 64" by (simp add: word_less_nat_alt unsigned_minus_1_eq_mask mask_eq_exp_minus_1)
    then show ?thesis by (simp add: word_less_nat_alt unat_succ)
  qed
  show ?thesis
  proof (cases "sa_id_given args \<and> sa_seq_given args")
    case True
    then have "args' = args" "\<not> (am < lm \<or> am = lm \<and> as \<le> ls)"
      using assms(1) by (auto simp: GenerateStreamID_def Let_def l a split: if_splits)
    then show ?thesis by (auto simp: l a streamID_less)
  next
    case False
    then show ?thesis
      using assms by (auto simp: GenerateStreamID_def Let_def l a streamID_less succ not_less split: if_splits)
  qed
qed

context engine
begin

lemma meta_after_put:
  assumes "key_ok key" and "\<And>cf. cf \<noteq> kZsetsScoreCF \<Longrightarrow> m' cf = apply_batch sc (ops @ [Put kMetaCF (BaseKey_Encode (env_junk env) key) v]) m cf"
  shows "meta_of m' key = Some v"
proof -
  have "m' kMetaCF (BaseKey_Encode (\<lambda>_. 0) key) = Some v"
    using assms(2) [of kMetaCF] meta_put(1) [OF slice_order_axioms assms(1), of "env_junk env" v] by simp
  then show ?thesis using assms(1) by (simp add: meta_of_def)
qed

lemma XAdd_append_ok:
  assumes "db_healthy (env_db env) view" and "key_ok key"
    and "stream_start (view (rds_db r)) key p es" and "length es + 1 < 2 ^ 31"
    and "sa_trim_strategy args = TRIM_STRATEGY_NONE"
    and "GenerateStreamID (env_now env) p args = (OK, args')" and "smv_last_id p < sa_id args'"
  shows "\<exists>r' p'. XAdd_append tostr env key msg args p r = Some (OK, args', r') \<and>
    stream_at (view (rds_db r')) key p' (es @ [(sa_id args', msg)]) \<and>
    smv_last_id p' = sa_id args' \<and> smv_entries_added p' = smv_entries_added p + 1 \<and> smv_version p' = smv_version p \<and>
    streams_frame key (smv_version p) (view (rds_db r)) (view (rds_db r'))"
proof -
  note wf = stream_start_wf [OF assms(3)]
  let ?id = "sa_id args'"
  let ?put = "Put kStreamsDataCF (data_key key (smv_version p) (sid_Serialize ?id)) msg"
  have trim: "sa_trim_strategy args' = TRIM_STRATEGY_NONE"
    using assms(5,6) by (auto simp: GenerateStreamID_def Let_def split: if_splits)
  have last: "\<not> (ms (smv_last_id p) = - 1 \<and> seq (smv_last_id p) = - 1)"
    using assms(7) streamID_bounds(2) [of ?id] by (cases "smv_last_id p") (auto simp: kSTREAMID_MAX_def)
  obtain r1 where r1: "redis_Write env [?put] r = (OK, r1)"
      "\<And>cf. cf \<noteq> kZsetsScoreCF \<Longrightarrow> view (rds_db r1) cf = apply_batch sc [?put] (view (rds_db r)) cf"
    using redis_Write_healthy [OF assms(1), of "[?put]" r] by blast
  define p1 where "p1 = (if smv_length p = 0 then smv_set_first_id ?id p else p)"
  define p' where "p' = smv_set_length (smv_length p1 + 1) (smv_set_last_id ?id (smv_set_entries_added (smv_entries_added p1 + 1) p1))"
  let ?meta = "Put kMetaCF (BaseKey_Encode (env_junk env) key) (smv_value p')"
  obtain r2 where r2: "redis_Write env [?meta] r1 = (OK, r2)"
      "\<And>cf. cf \<noteq> kZsetsScoreCF \<Longrightarrow> view (rds_db r2) cf = apply_batch sc [?meta] (view (rds_db r1)) cf"
    using redis_Write_healthy [OF assms(1), of "[?meta]" r1] by blast
  have "XAdd_append tostr env key msg args p r = Some (OK, args', r2)"
    unfolding XAdd_append_def using last assms(6) trim r1(1) r2(1)
    by (simp add: data_key_junk [OF assms(2), of "env_junk env"] p'_def p1_def Let_def)
  moreover have v: "view (rds_db r2) cf = apply_batch sc ([?put] @ [?meta]) (view (rds_db r)) cf" if "cf \<noteq> kZsetsScoreCF" for cf
    using r2(2) [OF that] apply_batch_cong [of "view (rds_db r1)" cf "apply_batch sc [?put] (view (rds_db r))" sc "[?meta]", OF r1(2) [OF that]]
    by simp
  moreover have "stream_at (view (rds_db r2)) key p' (es @ [(?id, msg)])"
    unfolding stream_at_def
  proof (intro conjI)
    show "meta_of (view (rds_db r2)) key = Some (smv_value p')" using meta_after_put [OF assms(2) v] .
    show "smv_wf p'" unfolding p'_def p1_def using wf by (auto intro!: smv_setters_wf)
    show "smv_type p' = kStreams" using wf by (simp add: p'_def p1_def)
    have version: "smv_version p' = smv_version p" by (simp add: p'_def p1_def)
    show "stream_records (view (rds_db r2)) key (smv_version p') (es @ [(?id, msg)])"
    proof -
      have "view (rds_db r2) kStreamsDataCF = apply_op sc ?put (view (rds_db r)) kStreamsDataCF"
        using v [of kStreamsDataCF] meta_put(2) [OF slice_order_axioms assms(2), of kStreamsDataCF] by simp
      then show ?thesis
        unfolding version using stream_records_append [OF slice_order_axioms assms(2), of "view (rds_db r)" "smv_version p" es ?id msg]
          wf assms(7) stream_records_cong [of "view (rds_db r2)" "apply_op sc ?put (view (rds_db r))"] by force
    qed
    show "length (es @ [(?id, msg)]) < 2 ^ 31" using assms(4) by simp
    show "smv_length p' = of_nat (length (es @ [(?id, msg)]))" using wf by (simp add: p'_def p1_def)
    have "smv_length p = 0 \<longleftrightarrow> es = []"
      using wf assms(4) unat_u32 [of "length es"] by (auto simp: unat_eq_0 [symmetric])
    then show "es @ [(?id, msg)] \<noteq> [] \<longrightarrow> smv_first_id p' = fst (hd (es @ [(?id, msg)]))"
      using wf by (auto simp: p'_def p1_def hd_append)
    show "\<forall>e \<in> set (es @ [(?id, msg)]). fst e \<le> smv_last_id p'"
      using wf assms(7) by (auto simp: p'_def p1_def)
  qed
  moreover have "streams_frame key (smv_version p) (view (rds_db r)) (view (rds_db r2))"
  proof (rule stream_frame_cong [OF _ v])
    show "streams_frame key (smv_version p) (view (rds_db r)) (apply_batch sc ([?put] @ [?meta]) (view (rds_db r)))"
      using BaseKey_Encode_junk [OF assms(2), of "env_junk env"]
      by (intro data_op_frame [OF slice_order_axioms bytewise_streams assms(2)]) (auto simp: data_op_def)
  qed
  moreover have "smv_last_id p' = ?id" "smv_entries_added p' = smv_entries_added p + 1" "smv_version p' = smv_version p"
    by (simp_all add: p'_def p1_def)
  ultimately show ?thesis by blast
qed

lemma XAdd_start:
  assumes "db_healthy (env_db env) view" and "key_ok key"
    and "stream_start (view (rds_db r)) key p es" and "length es < 2 ^ 31" and "es = [] \<Longrightarrow> \<not> sa_no_mkstream args"
  shows "XAdd tostr env key msg args r = XAdd_append tostr env key msg args p r"
  using assms(3)
proof cases
  case fresh
  obtain st where st: "GetStreamMeta env StreamMetaValue_new key [] (rds_db r) = Some (st, StreamMetaValue_new)" "is_NotFound st"
    using GetStreamMeta_absent [OF assms(1,2) fresh(3)] by blast
  then show ?thesis using assms(5) fresh by (simp add: XAdd_def)
next
  case (emptied q)
  have "GetStreamMeta env StreamMetaValue_new key [] (rds_db r) = Some (OK, q)"
    using GetStreamMeta_present [OF assms(1,2)] emptied by simp
  then show ?thesis using assms(5) emptied by (simp add: XAdd_def)
next
  case live
  have "smv_length p \<noteq> 0"
    using live assms(4) unat_u32 [of "length es"] by (auto simp: stream_at_def unat_eq_0 [symmetric])
  then show ?thesis using stream_at_meta [OF assms(1,2) live(1)] by (simp add: XAdd_def)
qed

section \<open>Reading\<close>

lemma XRange_ok:
  assumes "db_healthy (env_db env) view" and "key_ok key" and "stream_at (view s) key p es" and "ss_start_sid args \<le> ss_end_sid args"
  shows "XRange env key args [] s =
    (let msgs = take (nat (sint (ss_limit args))) (in_range (ss_start_sid args) (ss_end_sid args) es);
         msgs = (if ss_start_ex args \<and> msgs \<noteq> [] \<and> fst (hd msgs) = ss_start_sid args then tl msgs else msgs);
         msgs = (if ss_end_ex args \<and> msgs \<noteq> [] \<and> fst (last msgs) = ss_end_sid args then butlast msgs else msgs)
     in Some (OK, map to_message msgs))"
proof -
  have r: "stream_records (view s) key (smv_version p) es" using assms(3) by (simp add: stream_at_def)
  show ?thesis
    unfolding XRange_def stream_at_meta [OF assms(1-3)] bind.bind_lunit prod.case
    by (simp only: ScanStream_forward [OF assms(2) r assms(4)] Let_def bind.bind_lunit prod.case not_True_eq_False simp_thms if_False)
qed

lemma XRevrange_ok:
  assumes "db_healthy (env_db env) view" and "key_ok key" and "stream_at (view s) key p es" and "ss_start_sid args \<noteq> kSTREAMID_MAX"
  shows "XRevrange env key args s =
    (let msgs = take (nat (sint (ss_limit args))) (rev (filter (\<lambda>e. fst e \<le> ss_start_sid args) es));
         msgs = (if ss_start_ex args \<and> msgs \<noteq> [] \<and> fst (hd msgs) = ss_start_sid args then tl msgs else msgs);
         msgs = (if ss_end_ex args \<and> msgs \<noteq> [] \<and> fst (last msgs) = ss_end_sid args then butlast msgs else msgs)
     in Some (OK, map to_message msgs))"
proof -
  have r: "stream_records (view s) key (smv_version p) es" using assms(3) by (simp add: stream_at_def)
  show ?thesis
    unfolding XRevrange_def stream_at_meta [OF assms(1-3)] bind.bind_lunit prod.case
    by (simp only: ScanStream_backward [OF assms(2) r assms(4)] Let_def bind.bind_lunit prod.case not_True_eq_False simp_thms if_False)
qed

lemma XLen_ok:
  assumes "db_healthy (env_db env) view" and "key_ok key" and "stream_at (view s) key p es"
  shows "XLen env key s = Some (OK, of_nat (length es))"
  using stream_at_meta [OF assms] assms(3) by (simp add: XLen_def stream_at_def)

section \<open>Trimming\<close>

lemma DeleteStreamMessages_ok:
  assumes "db_healthy (env_db env) view" and "key_ok key" and "stream_records (view (rds_db r)) key (smv_version p) es"
  obtains r' where "DeleteStreamMessages env key p (map sid_Serialize ids) r = (OK, r')"
    "stream_records (view (rds_db r')) key (smv_version p) (filter (\<lambda>e. fst e \<notin> set ids) es)"
    "view (rds_db r') kMetaCF = view (rds_db r) kMetaCF"
    "streams_frame key (smv_version p) (view (rds_db r)) (view (rds_db r'))"
    "rds_statistics_store r' = rds_statistics_store r"
proof -
  let ?ops = "map (\<lambda>i. Delete kStreamsDataCF (data_key key (smv_version p) (sid_Serialize i))) ids"
  obtain r' where r': "redis_Write env ?ops r = (OK, r')" "rds_statistics_store r' = rds_statistics_store r"
      "\<And>cf. cf \<noteq> kZsetsScoreCF \<Longrightarrow> view (rds_db r') cf = apply_batch sc ?ops (view (rds_db r)) cf"
    using redis_Write_healthy [OF assms(1), of ?ops r] by blast
  have "DeleteStreamMessages env key p (map sid_Serialize ids) r = (OK, r')"
    unfolding DeleteStreamMessages_def using r'(1) by (simp add: comp_def data_key_junk [OF assms(2), of "env_junk env"])
  moreover have "stream_records (view (rds_db r')) key (smv_version p) (filter (\<lambda>e. fst e \<notin> set ids) es)"
    using stream_records_delete [OF slice_order_axioms assms(2,3), of ids]
      stream_records_cong [of "view (rds_db r')" "apply_batch sc ?ops (view (rds_db r))", OF r'(3)] by simp
  moreover have "view (rds_db r') kMetaCF = view (rds_db r) kMetaCF"
  proof -
    have "apply_batch sc ?ops m kMetaCF = m kMetaCF" for m
      by (induction ids arbitrary: m) (simp_all add: apply_op.simps)
    then show ?thesis using r'(3) [of kMetaCF] by simp
  qed
  moreover have "streams_frame key (smv_version p) (view (rds_db r)) (view (rds_db r'))"
    by (rule stream_frame_cong [OF _ r'(3)])
      (auto simp: data_op_def intro!: data_op_frame [OF slice_order_axioms bytewise_streams assms(2)])
  ultimately show thesis using that r'(2) by blast
qed

end

lemma scast_i32: "k < 2 ^ 31 \<Longrightarrow> (scast (of_nat k :: i32) :: u64) = of_nat k"
  by (simp add: signed_of_nat signed_take_bit_int_eq_self)

lemma scast_u64: "k < 2 ^ 31 \<Longrightarrow> (scast (of_nat k :: u64) :: i32) = of_nat k"
  by (simp add: signed_of_nat signed_take_bit_int_eq_self)

lemma sint_i32: "k < 2 ^ 31 \<Longrightarrow> sint (of_nat k :: i32) = int k"
  by (simp add: signed_of_nat signed_take_bit_int_eq_self)

lemma sorted_filter_take:
  assumes "sorted_wrt (\<lambda>x y. fst x < (fst y :: streamID)) es"
  shows "filter (\<lambda>e. fst e \<notin> set (map fst (take n es))) es = drop n es"
proof -
  have "distinct (map fst es)" using assms strict_sorted_iff [of "map fst es"] by (simp add: sorted_wrt_map)
  then have d: "distinct (map fst (take n es) @ map fst (drop n es))" by (simp flip: map_append)
  have "filter (\<lambda>e. fst e \<notin> set (map fst (take n es))) (take n es @ drop n es) = drop n es"
  proof -
    have "filter (\<lambda>e. fst e \<notin> set (map fst (take n es))) (take n es) = []" by (auto simp: filter_empty_conv)
    moreover have "filter (\<lambda>e. fst e \<notin> set (map fst (take n es))) (drop n es) = drop n es"
      using d by (intro filter_True) auto
    ultimately show ?thesis by (simp only: filter_append append_Nil)
  qed
  then show ?thesis by simp
qed

lemma sorted_from_first:
  assumes "sorted_wrt (\<lambda>x y. fst x < (fst y :: streamID)) es" and "es \<noteq> []"
  shows "in_range (fst (hd es)) kSTREAMID_MAX (drop c es) = drop c es"
  unfolding in_range_def
proof (rule filter_True, intro ballI conjI)
  fix e assume "e \<in> set (drop c es)"
  then have "e \<in> set es" by (rule in_set_dropD)
  then show "fst (hd es) \<le> fst e" using assms by (cases es) (auto simp: le_less)
qed simp

context engine
begin

lemma TrimByMaxlen_ok:
  assumes "db_healthy (env_db env) view" and "key_ok key" and "sorted_wrt (\<lambda>x y. fst x < fst y) es" and "length es < 2 ^ 31"
    and "smv_length p = of_nat (length es)" and "es \<noteq> [] \<Longrightarrow> smv_first_id p = fst (hd es)"
  shows "c \<le> length es \<Longrightarrow> stream_records (view (rds_db r)) key (smv_version p) (drop c es) \<Longrightarrow> tr_count tr = of_nat c \<Longrightarrow>
    \<exists>tr' r' c'. TrimByMaxlen env p key args tr r = Some (OK, tr', r') \<and> c' = max c (length es - unat (sa_maxlen args)) \<and>
      stream_records (view (rds_db r')) key (smv_version p) (drop c' es) \<and> tr_count tr' = of_nat c' \<and>
      (c < c' \<longrightarrow> tr_next_field tr' = next_field c' es \<and> tr_max_deleted_field tr' = sid_Serialize (fst (es ! (c' - 1)))) \<and>
      (c' = c \<longrightarrow> tr' = tr) \<and> view (rds_db r') kMetaCF = view (rds_db r) kMetaCF \<and> streams_frame key (smv_version p) (view (rds_db r)) (view (rds_db r')) \<and>
      rds_statistics_store r' = rds_statistics_store r"
proof (induction "length es - c" arbitrary: c r tr rule: less_induct)
  case less
  let ?n = "length es" and ?M = "unat (sa_maxlen args)"
  have left: "smv_length p - tr_count tr = of_nat (?n - c)" using less.prems(1,3) assms(5) by (simp add: of_nat_diff)
  have cond: "scast (smv_length p - tr_count tr) > sa_maxlen args \<longleftrightarrow> ?M < ?n - c"
    unfolding left using assms(4) scast_i32 [of "?n - c"] unat_small [of "?n - c"] by (simp add: word_less_nat_alt)
  show ?case
  proof (cases "?M < ?n - c")
    case False
    then have "TrimByMaxlen env p key args tr r = Some (OK, tr, r)" by (subst TrimByMaxlen.simps) (simp add: cond)
    moreover have "c = max c (?n - ?M)" using False by simp
    ultimately show ?thesis using less.prems by (intro exI [of _ tr] exI [of _ r] exI [of _ c]) simp
  next
    case True
    define j where "j = ?n - c - ?M"
    define k where "k = min 1000 (j)"
    have k: "0 < k" "k \<le> ?n - c" "c + k \<le> ?n - ?M" using True by (auto simp: k_def j_def)
    have "scast (smv_length p - tr_count tr) - sa_maxlen args = (of_nat (j) :: u64)"
      unfolding left using scast_i32 [of "?n - c"] assms(4) True by (simp add: of_nat_diff j_def)
    then have "scast (scast (smv_length p - tr_count tr) - sa_maxlen args) = (of_nat (j) :: i32)"
      using scast_u64 [of j] assms(4) by (simp add: j_def)
    moreover have "(if sint kDEFAULT_TRIM_BATCH_SIZE < sint (of_nat (j) :: i32) then kDEFAULT_TRIM_BATCH_SIZE
        else of_nat (j)) = of_nat k"
      using sint_i32 [of j] j_def assms(4) by (auto simp: kDEFAULT_TRIM_BATCH_SIZE_def k_def min_def)
    ultimately have batch: "(let left = scast (scast (smv_length p - tr_count tr) - sa_maxlen args)
        in if sint kDEFAULT_TRIM_BATCH_SIZE < sint left then kDEFAULT_TRIM_BATCH_SIZE else left) = of_nat k"
      by (simp add: Let_def)
    have ne: "es \<noteq> []" and ne_c: "\<not> length es \<le> c" using True by auto
    have range: "in_range (smv_first_id p) kSTREAMID_MAX (drop c es) = drop c es"
      using sorted_from_first [OF assms(3) ne] assms(6) [OF ne] by simp
    have "sint (of_nat k :: i32) = int k" using sint_i32 [of k] assms(4) k(2) by simp
    then have scan: "ScanStream env \<lparr>so_key = key, so_version = smv_version p, so_start_sid = smv_first_id p,
           so_end_sid = kSTREAMID_MAX, so_limit = of_nat k, so_start_ex = False, so_end_ex = False, so_is_reverse = False\<rparr>
          (rds_db r) = Some (OK, map to_message (take k (drop c es)), next_field k (drop c es))"
      using ScanStream_forward [OF assms(2) less.prems(2), of "smv_first_id p" kSTREAMID_MAX "of_nat k" False False] range
      by (simp add: Let_def)
    let ?ids = "map fst (take k (drop c es))"
    have fields: "map im_field (map to_message (take k (drop c es))) = map sid_Serialize ?ids" by (simp add: to_message_def)
    obtain r1 where r1: "DeleteStreamMessages env key p (map sid_Serialize ?ids) r = (OK, r1)"
        "stream_records (view (rds_db r1)) key (smv_version p) (filter (\<lambda>e. fst e \<notin> set ?ids) (drop c es))"
        "view (rds_db r1) kMetaCF = view (rds_db r) kMetaCF"
        "streams_frame key (smv_version p) (view (rds_db r)) (view (rds_db r1))"
        "rds_statistics_store r1 = rds_statistics_store r"
      using DeleteStreamMessages_ok [OF assms(1,2) less.prems(2), of ?ids] by blast
    have rec1: "stream_records (view (rds_db r1)) key (smv_version p) (drop (c + k) es)"
      using r1(2) sorted_filter_take [of "drop c es" k] assms(3) by (simp add: sorted_wrt_drop add.commute)
    define tr1 where "tr1 = tr\<lparr>tr_count := tr_count tr + of_nat k, tr_next_field := next_field k (drop c es),
      tr_max_deleted_field := im_field (last (map to_message (take k (drop c es))))\<rparr>"
    have step: "TrimByMaxlen env p key args tr r = TrimByMaxlen env p key args tr1 r1"
      using True k(1,2) batch scan r1(1) fields ne_c
      by (subst TrimByMaxlen.simps) (simp add: cond Let_def tr1_def del: map_map)
    have count1: "tr_count tr1 = of_nat (c + k)" using less.prems(3) by (simp add: tr1_def)
    have next1: "tr_next_field tr1 = next_field (c + k) es" using k(2) by (auto simp: tr1_def next_field_def)
    have "last (take k (drop c es)) = es ! (c + k - 1)"
      using k(1,2) by (simp add: last_conv_nth min_def)
    then have del1: "tr_max_deleted_field tr1 = sid_Serialize (fst (es ! (c + k - 1)))"
      using k(1,2) by (simp add: tr1_def last_map to_message_def)
    obtain tr' r' c' where ih: "TrimByMaxlen env p key args tr1 r1 = Some (OK, tr', r')" "c' = max (c + k) (?n - ?M)"
        "stream_records (view (rds_db r')) key (smv_version p) (drop c' es)" "tr_count tr' = of_nat c'"
        "c + k < c' \<longrightarrow> tr_next_field tr' = next_field c' es \<and> tr_max_deleted_field tr' = sid_Serialize (fst (es ! (c' - 1)))"
        "c' = c + k \<longrightarrow> tr' = tr1" "view (rds_db r') kMetaCF = view (rds_db r1) kMetaCF"
        "streams_frame key (smv_version p) (view (rds_db r1)) (view (rds_db r'))"
        "rds_statistics_store r' = rds_statistics_store r1"
    proof -
      have "?n - (c + k) < ?n - c" "c + k \<le> ?n" using k by simp_all
      from less.hyps [OF this(1) this(2) rec1 count1] that show thesis by blast
    qed
    have c': "c' = max c (?n - ?M)" "c < c'" using ih(2) k by simp_all
    have "tr_next_field tr' = next_field c' es \<and> tr_max_deleted_field tr' = sid_Serialize (fst (es ! (c' - 1)))"
    proof (cases "c' = c + k")
      case True
      then show ?thesis using ih(6) next1 del1 by simp
    next
      case False
      then show ?thesis using ih(2,5) by simp
    qed
    moreover have "streams_frame key (smv_version p) (view (rds_db r)) (view (rds_db r'))"
      using data_frame_trans [OF r1(4) ih(8)] .
    ultimately show ?thesis
      using step ih(1,3,4,7,9) c' r1(3,5) by (intro exI [of _ tr'] exI [of _ r'] exI [of _ c']) simp
  qed
qed

end

text \<open>What trimming makes of the meta value after removing the first \<open>c\<close> messages.\<close>

definition trimmed_meta :: "nat \<Rightarrow> (streamID \<times> bytes) list \<Rightarrow> StreamMetaValue \<Rightarrow> StreamMetaValue" where
  "trimmed_meta c es p =
     (let m = smv_set_first_id (if c < length es then fst (es ! c) else kSTREAMID_MIN) p;
          d = fst (es ! (c - 1));
          m = (if d > smv_max_deleted_entry_id m then smv_set_max_deleted_entry_id d m else m)
      in smv_set_length (smv_length m - of_nat c) m)"

lemma trimmed_meta_fields [simp]:
  "smv_version (trimmed_meta c es p) = smv_version p" "smv_last_id (trimmed_meta c es p) = smv_last_id p"
  "smv_type (trimmed_meta c es p) = smv_type p" "smv_length (trimmed_meta c es p) = smv_length p - of_nat c"
  "smv_first_id (trimmed_meta c es p) = (if c < length es then fst (es ! c) else kSTREAMID_MIN)"
  "smv_entries_added (trimmed_meta c es p) = smv_entries_added p"
  by (simp_all add: trimmed_meta_def Let_def)

lemma trimmed_meta_wf: "smv_wf p \<Longrightarrow> smv_wf (trimmed_meta c es p)"
  unfolding trimmed_meta_def Let_def by (auto intro!: smv_setters_wf)

context engine
begin

text \<open>Writing the meta value of a stream whose first messages have been deleted.\<close>

lemma stream_at_trimmed:
  assumes "key_ok key" and "stream_at m key p es" and "stream_records m1 key (smv_version p) (drop c es)" and "c \<le> length es"
    and "smv_wf p'" "smv_type p' = kStreams" "smv_version p' = smv_version p" "smv_length p' = smv_length p - of_nat c"
    and "c < length es \<Longrightarrow> smv_first_id p' = fst (es ! c)" "smv_last_id p' = smv_last_id p"
    and "\<And>cf. cf \<noteq> kZsetsScoreCF \<Longrightarrow> m2 cf = apply_batch sc [Put kMetaCF (BaseKey_Encode (env_junk env) key) (smv_value p')] m1 cf"
  shows "stream_at m2 key p' (drop c es)"
  unfolding stream_at_def
proof (intro conjI)
  show "meta_of m2 key = Some (smv_value p')" using meta_after_put [OF assms(1), of m2 "[]"] assms(11) by simp
  show "smv_wf p'" "smv_type p' = kStreams" by fact+
  have "m2 kStreamsDataCF = m1 kStreamsDataCF"
    using assms(11) [of kStreamsDataCF] meta_put(2) [OF slice_order_axioms assms(1), of kStreamsDataCF] by simp
  then show "stream_records m2 key (smv_version p') (drop c es)" using assms(3,7) stream_records_cong by metis
  show "length (drop c es) < 2 ^ 31" "smv_length p' = of_nat (length (drop c es))"
    using assms(2,4,8) by (auto simp: stream_at_def of_nat_diff)
  show "drop c es \<noteq> [] \<longrightarrow> smv_first_id p' = fst (hd (drop c es))" using assms(9) by (simp add: hd_drop_conv_nth)
  show "\<forall>e \<in> set (drop c es). fst e \<le> smv_last_id p'" using assms(2,10) by (auto simp: stream_at_def dest: in_set_dropD)
qed

lemma XTrim_finish:
  assumes "db_healthy (env_db env) view" and "key_ok key" and "stream_at (view (rds_db r)) key p es"
    and call: "(if sa_trim_strategy args = TRIM_STRATEGY_MAXLEN then TrimByMaxlen env p key args TrimRet_new r
      else TrimByMinid env p key args TrimRet_new r) = Some (OK, tr, r1)"
    and "c \<le> length es" and "stream_records (view (rds_db r1)) key (smv_version p) (drop c es)" and "tr_count tr = of_nat c"
    and "0 < c \<Longrightarrow> tr_next_field tr = next_field c es \<and> tr_max_deleted_field tr = sid_Serialize (fst (es ! (c - 1)))"
    and "streams_frame key (smv_version p) (view (rds_db r)) (view (rds_db r1))"
  shows "\<exists>r' p'. XTrim env key args r = Some ((OK, of_nat c), r') \<and> stream_at (view (rds_db r')) key p' (drop c es) \<and>
    smv_version p' = smv_version p \<and> smv_last_id p' = smv_last_id p \<and> smv_entries_added p' = smv_entries_added p \<and>
    streams_frame key (smv_version p) (view (rds_db r)) (view (rds_db r'))"
proof -
  have at: "smv_wf p" "smv_type p = kStreams" "length es < 2 ^ 31"
      "smv_length p = of_nat (length es)" "es \<noteq> [] \<Longrightarrow> smv_first_id p = fst (hd es)"
    using assms(3) by (auto simp: stream_at_def)
  define p' where "p' = (if c = 0 then p else trimmed_meta c es p)"
  have c32: "(of_nat c :: i32) = 0 \<longleftrightarrow> c = 0" "(of_nat (length es) :: i32) = of_nat c \<longleftrightarrow> length es = c"
    using at(3) assms(5) unat_u32 [of c] unat_u32 [of "length es"] by (auto simp flip: word_unat_eq_iff)
  have trim: "TrimStream env p key args r = Some (OK, of_nat c, p', r1)"
  proof (cases "c = 0")
    case True
    then show ?thesis using call assms(7) by (simp add: TrimStream_def p'_def)
  next
    case False
    then have "tr_next_field tr = next_field c es" "tr_max_deleted_field tr = sid_Serialize (fst (es ! (c - 1)))" using assms(8) by auto
    then show ?thesis
      unfolding TrimStream_def call using False assms(5,7) c32 at(4)
      by (cases "c < length es") (simp_all add: p'_def trimmed_meta_def next_field_def Let_def)
  qed
  let ?meta = "Put kMetaCF (BaseKey_Encode (env_junk env) key) (smv_value p')"
  obtain r2 where r2: "redis_Write env [?meta] r1 = (OK, r2)"
      "\<And>cf. cf \<noteq> kZsetsScoreCF \<Longrightarrow> view (rds_db r2) cf = apply_batch sc [?meta] (view (rds_db r1)) cf"
    using redis_Write_healthy [OF assms(1), of "[?meta]" r1] by blast
  have "XTrim env key args r = Some ((OK, of_nat c), r2)"
    using stream_at_meta [OF assms(1-3)] trim r2(1) by (simp add: XTrim_def)
  moreover have "stream_at (view (rds_db r2)) key p' (drop c es)"
  proof (rule stream_at_trimmed [OF assms(2,3,6,5) _ _ _ _ _ _ r2(2)])
    show "smv_wf p'" using at(1) trimmed_meta_wf by (simp add: p'_def)
    show "smv_type p' = kStreams" "smv_version p' = smv_version p" "smv_length p' = smv_length p - of_nat c" "smv_last_id p' = smv_last_id p"
      using at(2) by (simp_all add: p'_def)
    show "c < length es \<Longrightarrow> smv_first_id p' = fst (es ! c)" using at(5) by (auto simp: p'_def hd_conv_nth)
  qed
  moreover have "streams_frame key (smv_version p) (view (rds_db r)) (view (rds_db r2))"
  proof (rule data_frame_trans [OF assms(9) stream_frame_cong [OF _ r2(2)]])
    show "streams_frame key (smv_version p) (view (rds_db r1)) (apply_batch sc [?meta] (view (rds_db r1)))"
      using BaseKey_Encode_junk [OF assms(2), of "env_junk env"]
      by (intro data_op_frame [OF slice_order_axioms bytewise_streams assms(2)]) (auto simp: data_op_def)
  qed
  ultimately show ?thesis by (intro exI [of _ r2] exI [of _ p']) (simp add: p'_def)
qed

lemma XTrim_maxlen_ok:
  assumes "db_healthy (env_db env) view" and "key_ok key" and "stream_at (view (rds_db r)) key p es"
    and "sa_trim_strategy args = TRIM_STRATEGY_MAXLEN"
  defines "c \<equiv> length es - unat (sa_maxlen args)"
  shows "\<exists>r' p'. XTrim env key args r = Some ((OK, of_nat c), r') \<and> stream_at (view (rds_db r')) key p' (drop c es) \<and>
    smv_version p' = smv_version p \<and> smv_last_id p' = smv_last_id p \<and> smv_entries_added p' = smv_entries_added p \<and>
    streams_frame key (smv_version p) (view (rds_db r)) (view (rds_db r'))"
proof -
  have at: "stream_records (view (rds_db r)) key (smv_version p) es" "length es < 2 ^ 31"
      "smv_length p = of_nat (length es)" "es \<noteq> [] \<Longrightarrow> smv_first_id p = fst (hd es)"
    using assms(3) by (auto simp: stream_at_def)
  obtain tr r1 where tr: "TrimByMaxlen env p key args TrimRet_new r = Some (OK, tr, r1)"
      "stream_records (view (rds_db r1)) key (smv_version p) (drop c es)" "tr_count tr = of_nat c"
      "0 < c \<longrightarrow> tr_next_field tr = next_field c es \<and> tr_max_deleted_field tr = sid_Serialize (fst (es ! (c - 1)))"
      "streams_frame key (smv_version p) (view (rds_db r)) (view (rds_db r1))"
    using TrimByMaxlen_ok [OF assms(1,2) stream_records_sorted [OF at(1)] at(2-4), of 0 r TrimRet_new args] at(1)
    by (auto simp: TrimRet_new_def c_def)
  show ?thesis by (rule XTrim_finish [OF assms(1-3)]) (use assms(4) tr in \<open>auto simp: c_def\<close>)
qed

end

section \<open>Trimming below an identifier\<close>

text \<open>The number of messages below \<open>minid\<close>.\<close>

definition below :: "streamID \<Rightarrow> (streamID \<times> bytes) list \<Rightarrow> nat" where
  "below minid es = length (filter (\<lambda>e. fst e < minid) es)"

lemma below_nth:
  assumes "sorted_wrt (\<lambda>x y. fst x < (fst y :: streamID)) es"
  shows "i < length es \<Longrightarrow> fst (es ! i) < minid \<longleftrightarrow> i < below minid es" and "below minid es \<le> length es"
    and "filter (\<lambda>e. minid \<le> fst e) es = drop (below minid es) es"
proof -
  have "(i < length es \<longrightarrow> (fst (es ! i) < minid \<longleftrightarrow> i < below minid es)) \<and> filter (\<lambda>e. minid \<le> fst e) es = drop (below minid es) es" for i
    using assms
  proof (induction es arbitrary: i)
    case (Cons x es)
    show ?case
    proof (cases "fst x < minid")
      case True
      then have "below minid (x # es) = Suc (below minid es)" by (simp add: below_def)
      then show ?thesis using True Cons.IH [of "i - 1"] Cons.prems by (cases i) auto
    next
      case False
      then have all: "\<forall>y \<in> set es. \<not> fst y < minid" using Cons.prems by (auto simp: not_less le_less intro: less_trans)
      then have "below minid (x # es) = 0" using False by (simp add: below_def filter_empty_conv)
      then show ?thesis using False all Cons.IH [of "i - 1"] by (cases i) (auto simp: not_less)
    qed
  qed simp
  then show "i < length es \<Longrightarrow> fst (es ! i) < minid \<longleftrightarrow> i < below minid es"
    "filter (\<lambda>e. minid \<le> fst e) es = drop (below minid es) es" by simp_all
  show "below minid es \<le> length es" by (simp add: below_def)
qed

text \<open>Trimming ends when no message is between those to be removed and \<open>minid\<close> itself.\<close>

definition trimmable :: "streamID \<Rightarrow> (streamID \<times> bytes) list \<Rightarrow> bool" where
  "trimmable minid es \<longleftrightarrow>
     below minid es = 0 \<or> below minid es = length es \<or> fst (es ! below minid es) = minid"

lemma length_filter_eq_iff_all: "length (filter P xs) = length xs \<longleftrightarrow> (\<forall>x \<in> set xs. P x)"
  by (metis filter_True length_filter_less order_less_irrefl)

lemma trimmable_iff:
  assumes "sorted_wrt (\<lambda>x y. fst x < (fst y :: streamID)) es"
  shows "trimmable minid es \<longleftrightarrow>
    \<not> ((\<exists>e \<in> set es. fst e < minid) \<and> (\<exists>e \<in> set es. minid < fst e) \<and> minid \<notin> fst ` set es)"
proof -
  let ?k = "below minid es"
  note nth = below_nth(1) [OF assms, of _ minid] and le = below_nth(2) [OF assms, of minid]
  have "?k = 0 \<longleftrightarrow> \<not> (\<exists>e \<in> set es. fst e < minid)" by (auto simp: below_def filter_empty_conv)
  moreover have "?k = length es \<longleftrightarrow> \<not> (\<exists>e \<in> set es. minid \<le> fst e)"
    unfolding below_def length_filter_eq_iff_all by (auto simp: not_le)
  moreover have "minid \<in> fst ` set es \<Longrightarrow> fst (es ! ?k) = minid \<and> ?k < length es"
  proof -
    assume "minid \<in> fst ` set es"
    then obtain i where i: "i < length es" "fst (es ! i) = minid" by (auto simp: in_set_conv_nth)
    have "i = ?k"
    proof (rule ccontr)
      assume "i \<noteq> ?k"
      then have "?k < i" using nth [OF i(1)] i(2) by simp
      then have "fst (es ! ?k) < minid" using sorted_wrt_nth_less [OF assms, of ?k i] i by simp
      then show False using nth [of ?k] \<open>?k < i\<close> i(1) by simp
    qed
    then show "fst (es ! ?k) = minid \<and> ?k < length es" using i by simp
  qed
  moreover have "?k < length es \<Longrightarrow> fst (es ! ?k) = minid \<Longrightarrow> minid \<in> fst ` set es"
    by (rule image_eqI [of _ _ "es ! ?k"]) auto
  ultimately show ?thesis using le unfolding trimmable_def by (auto simp: le_less)
qed

lemma last_take_drop:
  assumes "c < c'" and "c' \<le> length es"
  shows "last (take (c' - c) (drop c es)) = es ! (c' - 1)"
proof -
  have len: "length (take (c' - c) (drop c es)) = c' - c" using assms by simp
  then have "take (c' - c) (drop c es) \<noteq> []" using assms by auto
  then show ?thesis using assms len by (simp add: last_conv_nth del: length_take)
qed

lemma takeWhile_upto_minid:
  assumes "sorted_wrt (\<lambda>x y. fst x < (fst y :: streamID)) es" and "c \<le> below minid es"
  defines "q \<equiv> (if below minid es < length es \<and> fst (es ! below minid es) = minid then Suc (below minid es) else below minid es)"
  shows "takeWhile (\<lambda>e. fst e \<le> minid) (drop c es) = take (q - c) (drop c es)"
proof (rule takeWhile_eq_take_P_nth)
  note nth = below_nth(1) [OF assms(1)]
  fix i assume i: "i < q - c" "i < length (drop c es)"
  then have "c + i < below minid es \<or> c + i = below minid es \<and> fst (es ! below minid es) = minid"
    using assms(2) by (auto simp: q_def split: if_splits)
  then show "fst (drop c es ! i) \<le> minid" using nth [of "c + i" minid] i by (auto simp: add.commute less_diff_conv less_imp_le)
next
  assume "q - c < length (drop c es)"
  then have q: "q < length es" using assms(2) by (auto simp: q_def split: if_splits)
  have "c \<le> q" using assms(2) by (simp add: q_def)
  then have "drop c es ! (q - c) = es ! q" using q by simp
  moreover have "minid < fst (es ! q)"
  proof (cases "fst (es ! below minid es) = minid")
    case True
    then have "q = Suc (below minid es)" using q below_nth(2) [OF assms(1), of minid] by (auto simp: q_def split: if_splits)
    then show ?thesis using sorted_wrt_nth_less [OF assms(1), of "below minid es" q] q True by simp
  next
    case False
    then have "q = below minid es" by (simp add: q_def)
    then show ?thesis using below_nth(1) [OF assms(1) q, of minid] False by (simp add: not_less le_less)
  qed
  ultimately show "\<not> fst (drop c es ! (q - c)) \<le> minid" by simp
qed

context engine
begin

lemma TrimByMinid_batch_ok:
  assumes "db_healthy (env_db env) view" and "key_ok key" and "sorted_wrt (\<lambda>x y. fst x < fst y) es" and "length es < 2 ^ 31"
    and "smv_length p = of_nat (length es)" and "smv_first_id p = fst (hd es)"
    and "stream_records (view (rds_db r)) key (smv_version p) (drop c es)" and "tr_count tr = of_nat c"
    and "c \<le> below (sa_minid args) es" and "c < length es" and "0 < below (sa_minid args) es"
  defines "k \<equiv> below (sa_minid args) es" and "b \<equiv> min 1000 (length es - c)"
  defines "c' \<equiv> min (c + b) k"
  obtains tr' r' where "TrimByMinid_batch env p key args tr r = Some (OK, tr', r')"
    "stream_records (view (rds_db r')) key (smv_version p) (drop c' es)" "tr_count tr' = of_nat c'"
    "tr_next_field tr' = (if c' < k \<or> c' < length es \<and> fst (es ! c') = sa_minid args then sid_Serialize (fst (es ! c')) else [])"
    "tr_max_deleted_field tr' = (if c < c' then sid_Serialize (fst (es ! (c' - 1))) else tr_max_deleted_field tr)"
    "view (rds_db r') kMetaCF = view (rds_db r) kMetaCF" "streams_frame key (smv_version p) (view (rds_db r)) (view (rds_db r'))"
    "rds_statistics_store r' = rds_statistics_store r"
proof -
  let ?n = "length es" and ?minid = "sa_minid args"
  define q where "q = (if k < ?n \<and> fst (es ! k) = ?minid then Suc k else k)"
  have b: "0 < b" "b \<le> ?n - c" using assms(10) by (auto simp: b_def)
  have "smv_length p - tr_count tr = of_nat (?n - c)" using assms(5,8,10) by (simp add: of_nat_diff)
  moreover have "(if sint kDEFAULT_TRIM_BATCH_SIZE < sint (of_nat (?n - c) :: i32) then kDEFAULT_TRIM_BATCH_SIZE
      else of_nat (?n - c)) = of_nat b"
    using sint_i32 [of "?n - c"] assms(4) by (auto simp: kDEFAULT_TRIM_BATCH_SIZE_def b_def min_def)
  ultimately have batch: "(let left = smv_length p - tr_count tr
      in if sint kDEFAULT_TRIM_BATCH_SIZE < sint left then kDEFAULT_TRIM_BATCH_SIZE else left) = of_nat b"
    by (simp add: Let_def)
  have ne: "es \<noteq> []" using assms(10) by auto
  have "fst (hd es) < ?minid" using below_nth(1) [OF assms(3), of 0 ?minid] assms(11) ne by (simp add: hd_conv_nth)
  then have first: "smv_first_id p \<le> ?minid" using assms(6) by simp
  have "in_range (smv_first_id p) ?minid (drop c es) = take (q - c) (drop c es)"
  proof -
    have "in_range (smv_first_id p) ?minid (drop c es) = filter (\<lambda>e. fst e \<le> ?minid) (in_range (smv_first_id p) kSTREAMID_MAX (drop c es))"
      by (simp add: in_range_def conj_commute)
    then show ?thesis
      using sorted_from_first [OF assms(3) ne, of c] assms(6) sorted_takeWhile_le [of "drop c es" ?minid] assms(3)
        takeWhile_upto_minid [OF assms(3,9), folded k_def, folded q_def] by (simp add: sorted_wrt_drop)
  qed
  moreover have "sint (of_nat b :: i32) = int b" using sint_i32 [of b] assms(4) b(2) by simp
  ultimately have scan: "ScanStream env \<lparr>so_key = key, so_version = smv_version p, so_start_sid = smv_first_id p,
         so_end_sid = ?minid, so_limit = of_nat b, so_start_ex = False, so_end_ex = False, so_is_reverse = False\<rparr>
        (rds_db r) = Some (OK, map to_message (take b (take (q - c) (drop c es))), next_field b (take (q - c) (drop c es)))"
    using ScanStream_forward [OF assms(2,7) first, of "of_nat b" False False] by (simp add: Let_def)
  define M where "M = take b (take (q - c) (drop c es))"
  define G where "G = take (c' - c) (drop c es)"
  define N where "N = (if c' < k \<or> c' < ?n \<and> fst (es ! c') = ?minid then sid_Serialize (fst (es ! c')) else [])"
  define X where "X = (if c < c' then sid_Serialize (fst (es ! (c' - 1))) else tr_max_deleted_field tr)"
  have kn: "k \<le> ?n" unfolding k_def using below_nth(2) [OF assms(3)] .
  have ck: "c \<le> k" using assms(9) by (simp add: k_def)
  have lower: "fst (es ! i) < ?minid" if "i < k" for i
    using below_nth(1) [OF assms(3), of i ?minid] that kn by (simp add: k_def)
  have lastG: "fst (last G) < ?minid" "fst (last G) = fst (es ! (c' - 1))" if "c < c'"
  proof -
    have "c' \<le> ?n" using kn by (simp add: c'_def)
    then have "last G = es ! (c' - 1)" unfolding G_def using that by (rule last_take_drop [rotated])
    then show "fst (last G) < ?minid" "fst (last G) = fst (es ! (c' - 1))" using lower [of "c' - 1"] that by (auto simp: c'_def)
  qed
  have G_Nil: "G = [] \<longleftrightarrow> \<not> c < c'" using kn ck b by (auto simp: G_def c'_def)
  have pick: "TrimByMinid_pick ?minid (map to_message M) (tr\<lparr>tr_next_field := next_field b (take (q - c) (drop c es))\<rparr>) =
    (map to_message G, tr\<lparr>tr_next_field := N, tr_max_deleted_field := X\<rparr>)"
  proof (cases "q = Suc k \<and> q - c \<le> b")
    case True
    then have k: "k < ?n" "fst (es ! k) = ?minid" "c' = k" using ck by (auto simp: q_def c'_def split: if_splits)
    have "M = take (Suc (k - c)) (drop c es)" using True ck by (auto simp: M_def min_def Suc_diff_le)
    then have "M = G @ [es ! k]" using k ck by (simp add: G_def take_Suc_conv_app_nth)
    moreover have "N = sid_Serialize ?minid" using k by (simp add: N_def)
    moreover have "tr\<lparr>tr_next_field := N, tr_max_deleted_field := X\<rparr> = tr\<lparr>tr_next_field := N\<rparr>" if "\<not> c < c'"
      using that by (cases tr) (simp add: X_def)
    ultimately show ?thesis
      using k(2) lastG G_Nil by (cases "c < c'") (auto simp: TrimByMinid_pick_def to_message_def last_map X_def butlast_append)
  next
    case False
    have MG: "M = G" using False ck kn by (auto simp: M_def G_def c'_def q_def min_def split: if_splits)
    have N: "next_field b (take (q - c) (drop c es)) = N"
    proof (cases "q = Suc k")
      case True
      then have k: "k < ?n" "fst (es ! k) = ?minid" by (auto simp: q_def split: if_splits)
      have "c' = c + b" "c + b \<le> k" "b < q - c" using False True by (auto simp: c'_def)
      then show ?thesis using k True by (auto simp: N_def next_field_def le_less)
    next
      case no: False
      then have q: "q = k" "\<not> (k < ?n \<and> fst (es ! k) = ?minid)" by (auto simp: q_def split: if_splits)
      show ?thesis
      proof (cases "b < k - c")
        case True
        then have "c' = c + b" "c + b < k" "b < ?n - c" using kn by (auto simp: c'_def)
        then show ?thesis using q True by (simp add: N_def next_field_def)
      next
        case False
        then have "c' = k" using ck by (simp add: c'_def)
        then show ?thesis using False q by (auto simp: N_def next_field_def)
      qed
    qed
    have "tr\<lparr>tr_next_field := N, tr_max_deleted_field := X\<rparr> = tr\<lparr>tr_next_field := N\<rparr>" if "\<not> c < c'"
      using that by (cases tr) (simp add: X_def)
    then show ?thesis
      unfolding MG N using lastG G_Nil by (cases "c < c'") (auto simp: TrimByMinid_pick_def to_message_def last_map X_def)
  qed
  have fields: "map im_field (map to_message G) = map sid_Serialize (map fst G)" by (simp add: to_message_def)
  obtain r' where r': "DeleteStreamMessages env key p (map sid_Serialize (map fst G)) r = (OK, r')"
      "stream_records (view (rds_db r')) key (smv_version p) (filter (\<lambda>e. fst e \<notin> set (map fst G)) (drop c es))"
      "view (rds_db r') kMetaCF = view (rds_db r) kMetaCF" "streams_frame key (smv_version p) (view (rds_db r)) (view (rds_db r'))"
      "rds_statistics_store r' = rds_statistics_store r"
    using DeleteStreamMessages_ok [OF assms(1,2,7), of "map fst G"] by blast
  have c': "c \<le> c'" "c' \<le> ?n" using ck kn by (auto simp: c'_def)
  have "stream_records (view (rds_db r')) key (smv_version p) (drop c' es)"
    using r'(2) sorted_filter_take [of "drop c es" "c' - c"] assms(3) c' by (simp add: sorted_wrt_drop G_def)
  moreover have "TrimByMinid_batch env p key args tr r =
      Some (OK, tr\<lparr>tr_next_field := N, tr_max_deleted_field := X, tr_count := of_nat c'\<rparr>, r')"
  proof -
    have "length G = c' - c" using c' by (simp add: G_def)
    then have "tr_count tr + of_nat (length (map to_message G)) = of_nat c'" using c' assms(8) by (simp add: of_nat_diff)
    then show ?thesis
      unfolding TrimByMinid_batch_def using batch scan [folded M_def] pick r'(1) fields
      by (simp add: Let_def del: map_map length_map)
  qed
  ultimately show thesis
    by (intro that [of "tr\<lparr>tr_next_field := N, tr_max_deleted_field := X, tr_count := of_nat c'\<rparr>" r'] r'(3-5)) (simp_all add: N_def X_def)
qed

text \<open>If \<open>minid\<close> falls between two messages, the loop never ends.\<close>

lemma TrimByMinid_loop_diverges:
  assumes "db_healthy (env_db env) view" and "key_ok key" and "sorted_wrt (\<lambda>x y. fst x < fst y) es" and "length es < 2 ^ 31"
    and "smv_length p = of_nat (length es)" and "smv_first_id p = fst (hd es)" and "\<not> trimmable (sa_minid args) es"
    and "TrimByMinid_loop env' p' key' args' tr r = Some res"
  shows "\<not> (env' = env \<and> p' = p \<and> key' = key \<and> args' = args \<and> tr_next_field tr < sid_Serialize (sa_minid args) \<and>
    (\<exists>c \<le> below (sa_minid args) es. stream_records (view (rds_db r)) key (smv_version p) (drop c es) \<and> tr_count tr = of_nat c))"
proof (rule TrimByMinid_loop.raw_induct [OF _ assms(8), where P = "\<lambda>env' p' key' args' tr r res.
    \<not> (env' = env \<and> p' = p \<and> key' = key \<and> args' = args \<and> tr_next_field tr < sid_Serialize (sa_minid args) \<and>
    (\<exists>c \<le> below (sa_minid args) es. stream_records (view (rds_db r)) key (smv_version p) (drop c es) \<and> tr_count tr = of_nat c))"])
  let ?k = "below (sa_minid args) es"
  fix loop :: "'s env \<Rightarrow> StreamMetaValue \<Rightarrow> bytes \<Rightarrow> StreamAddTrimArgs \<Rightarrow> TrimRet \<Rightarrow> 's redis \<Rightarrow> (Status \<times> TrimRet \<times> 's redis) option"
    and env' p' key' args' tr and r :: "'s redis" and res
  assume IH: "\<And>env' p' key' args' tr r res. loop env' p' key' args' tr r = Some res \<Longrightarrow>
      \<not> (env' = env \<and> p' = p \<and> key' = key \<and> args' = args \<and> tr_next_field tr < sid_Serialize (sa_minid args) \<and>
      (\<exists>c \<le> ?k. stream_records (view (rds_db r)) key (smv_version p) (drop c es) \<and> tr_count tr = of_nat c))"
    and step: "(if tr_next_field tr < sid_Serialize (sa_minid args') \<and> 0 < sint (smv_length p' - tr_count tr) then do {
        (s, trim_ret, r) \<leftarrow> TrimByMinid_batch env' p' key' args' tr r;
        if s \<noteq> OK then Some (s, trim_ret, r) else loop env' p' key' args' trim_ret r }
      else Some (OK, tr, r)) = Some res"
  show "\<not> (env' = env \<and> p' = p \<and> key' = key \<and> args' = args \<and> tr_next_field tr < sid_Serialize (sa_minid args) \<and>
      (\<exists>c \<le> ?k. stream_records (view (rds_db r)) key (smv_version p) (drop c es) \<and> tr_count tr = of_nat c))"
  proof
    assume "env' = env \<and> p' = p \<and> key' = key \<and> args' = args \<and> tr_next_field tr < sid_Serialize (sa_minid args) \<and>
      (\<exists>c \<le> ?k. stream_records (view (rds_db r)) key (smv_version p) (drop c es) \<and> tr_count tr = of_nat c)"
    then obtain c where eqs: "env' = env" "p' = p" "key' = key" "args' = args" and c: "tr_next_field tr < sid_Serialize (sa_minid args)"
        "c \<le> ?k" "stream_records (view (rds_db r)) key (smv_version p) (drop c es)" "tr_count tr = of_nat c" by blast
    have k: "0 < ?k" "?k < length es" "fst (es ! ?k) \<noteq> sa_minid args"
      using assms(7) below_nth(2) [OF assms(3), of "sa_minid args"] by (auto simp: trimmable_def le_less)
    have cn: "c < length es" using c(2) k(2) by simp
    obtain tr1 r1 c1 where b: "TrimByMinid_batch env p key args tr r = Some (OK, tr1, r1)"
        "stream_records (view (rds_db r1)) key (smv_version p) (drop c1 es)" "tr_count tr1 = of_nat c1" "c1 \<le> ?k"
        "tr_next_field tr1 = (if c1 < ?k \<or> c1 < length es \<and> fst (es ! c1) = sa_minid args then sid_Serialize (fst (es ! c1)) else [])"
      using TrimByMinid_batch_ok [OF assms(1-6) c(3,4,2) cn k(1)] by (metis min.cobounded2)
    have "tr_next_field tr1 < sid_Serialize (sa_minid args)"
    proof (cases "c1 < ?k")
      case True
      then show ?thesis using b(5) below_nth(1) [OF assms(3), of c1 "sa_minid args"] k(2) by (simp add: sid_Serialize_less)
    next
      case False
      then have "c1 = ?k" using b(4) by simp
      then show ?thesis using b(5) k(3) by (cases "sid_Serialize (sa_minid args)") (auto simp: sid_Serialize_not_Nil)
    qed
    moreover have "0 < sint (smv_length p - tr_count tr)"
      using sint_i32 [of "length es - c"] cn assms(4,5) c(4) by (simp add: of_nat_diff)
    then have "loop env p key args tr1 r1 = Some res" using step c(1) b(1) unfolding eqs by simp
    ultimately show False using IH [of env p key args tr1 r1 res] b(2-4) by blast
  qed
qed

lemma TrimByMinid_loop_ok:
  assumes "db_healthy (env_db env) view" and "key_ok key" and "sorted_wrt (\<lambda>x y. fst x < fst y) es" and "length es < 2 ^ 31"
    and "smv_length p = of_nat (length es)" and "smv_first_id p = fst (hd es)" and "trimmable (sa_minid args) es"
    and "0 < below (sa_minid args) es"
  defines "k \<equiv> below (sa_minid args) es"
  shows "c \<le> k \<Longrightarrow> stream_records (view (rds_db r)) key (smv_version p) (drop c es) \<Longrightarrow> tr_count tr = of_nat c \<Longrightarrow>
    tr_next_field tr = (if c < k \<or> c < length es \<and> fst (es ! c) = sa_minid args then sid_Serialize (fst (es ! c)) else []) \<Longrightarrow>
    c = 0 \<or> tr_max_deleted_field tr = sid_Serialize (fst (es ! (c - 1))) \<Longrightarrow>
    \<exists>tr' r'. TrimByMinid_loop env p key args tr r = Some (OK, tr', r') \<and>
      stream_records (view (rds_db r')) key (smv_version p) (drop k es) \<and> tr_count tr' = of_nat k \<and>
      tr_next_field tr' = next_field k es \<and> tr_max_deleted_field tr' = sid_Serialize (fst (es ! (k - 1))) \<and>
      streams_frame key (smv_version p) (view (rds_db r)) (view (rds_db r'))"
proof (induction "k - c" arbitrary: c r tr rule: less_induct)
  case less
  have kn: "k \<le> length es" unfolding k_def using below_nth(2) [OF assms(3)] .
  have sub: "smv_length p - tr_count tr = of_nat (length es - c)" using less.prems(1,3) kn assms(5) by (simp add: of_nat_diff)
  then have sint: "sint (smv_length p - tr_count tr) = int (length es - c)" using sint_i32 [of "length es - c"] assms(4) by simp
  show ?case
  proof (cases "c = k")
    case True
    have at: "k < length es \<Longrightarrow> fst (es ! k) = sa_minid args" using assms(7,8) by (auto simp: trimmable_def k_def)
    have "\<not> (tr_next_field tr < sid_Serialize (sa_minid args) \<and> 0 < sint (smv_length p - tr_count tr))"
      using less.prems(4) at sint True by (cases "k < length es") auto
    then have "TrimByMinid_loop env p key args tr r = Some (OK, tr, r)" by (subst TrimByMinid_loop.simps) (simp only: if_False)
    moreover have "tr_next_field tr = next_field k es" using less.prems(4) at True by (auto simp: next_field_def)
    ultimately show ?thesis using less.prems assms(8) True by (intro exI [of _ tr] exI [of _ r]) (simp add: k_def)
  next
    case False
    then have ck: "c < k" using less.prems(1) by simp
    have cn: "c < length es" using ck kn by simp
    obtain tr1 r1 c1 where b: "TrimByMinid_batch env p key args tr r = Some (OK, tr1, r1)"
        "stream_records (view (rds_db r1)) key (smv_version p) (drop c1 es)" "tr_count tr1 = of_nat c1"
        "tr_next_field tr1 = (if c1 < k \<or> c1 < length es \<and> fst (es ! c1) = sa_minid args then sid_Serialize (fst (es ! c1)) else [])"
        "tr_max_deleted_field tr1 = (if c < c1 then sid_Serialize (fst (es ! (c1 - 1))) else tr_max_deleted_field tr)"
        "streams_frame key (smv_version p) (view (rds_db r)) (view (rds_db r1))" "c1 = min (c + min 1000 (length es - c)) k"
      using TrimByMinid_batch_ok [OF assms(1-6) less.prems(2,3) less.prems(1) [unfolded k_def] cn assms(8), folded k_def] by metis
    have c1: "c < c1" "c1 \<le> k" "k - c1 < k - c" using b(7) ck cn by auto
    have "tr_next_field tr < sid_Serialize (sa_minid args)"
      using less.prems(4) ck below_nth(1) [OF assms(3) cn, of "sa_minid args"] by (simp add: sid_Serialize_less k_def)
    then have step: "TrimByMinid_loop env p key args tr r = TrimByMinid_loop env p key args tr1 r1"
      using sint cn b(1) by (subst TrimByMinid_loop.simps) simp
    obtain tr' r' where "TrimByMinid_loop env p key args tr1 r1 = Some (OK, tr', r')"
      "stream_records (view (rds_db r')) key (smv_version p) (drop k es)" "tr_count tr' = of_nat k"
      "tr_next_field tr' = next_field k es" "tr_max_deleted_field tr' = sid_Serialize (fst (es ! (k - 1)))"
      "streams_frame key (smv_version p) (view (rds_db r1)) (view (rds_db r'))"
      using less.hyps [OF c1(3,2) b(2-4)] b(5) c1(1) by auto
    then show ?thesis using step data_frame_trans [OF b(6)] by (intro exI [of _ tr'] exI [of _ r']) simp
  qed
qed

lemma XTrim_minid_ok:
  assumes "db_healthy (env_db env) view" and "key_ok key" and "stream_at (view (rds_db r)) key p es"
    and "sa_trim_strategy args = TRIM_STRATEGY_MINID" and "trimmable (sa_minid args) es"
  defines "c \<equiv> below (sa_minid args) es"
  shows "\<exists>r' p'. XTrim env key args r = Some ((OK, of_nat c), r') \<and> stream_at (view (rds_db r')) key p' (drop c es) \<and>
    smv_version p' = smv_version p \<and> smv_last_id p' = smv_last_id p \<and> smv_entries_added p' = smv_entries_added p \<and>
    streams_frame key (smv_version p) (view (rds_db r)) (view (rds_db r'))"
proof -
  have at: "stream_records (view (rds_db r)) key (smv_version p) es" "length es < 2 ^ 31"
      "smv_length p = of_nat (length es)" "es \<noteq> [] \<Longrightarrow> smv_first_id p = fst (hd es)"
    using assms(3) by (auto simp: stream_at_def)
  note sorted = stream_records_sorted [OF at(1)]
  let ?tr = "TrimRet_new\<lparr>tr_next_field := sid_Serialize (smv_first_id p)\<rparr>"
  have "\<exists>tr r1. TrimByMinid_loop env p key args ?tr r = Some (OK, tr, r1) \<and>
      stream_records (view (rds_db r1)) key (smv_version p) (drop c es) \<and> tr_count tr = of_nat c \<and>
      (0 < c \<longrightarrow> tr_next_field tr = next_field c es \<and> tr_max_deleted_field tr = sid_Serialize (fst (es ! (c - 1)))) \<and>
      streams_frame key (smv_version p) (view (rds_db r)) (view (rds_db r1))"
  proof (cases "c = 0")
    case True
    have "\<not> (tr_next_field ?tr < sid_Serialize (sa_minid args) \<and> 0 < sint (smv_length p - tr_count ?tr))"
    proof (cases "es = []")
      case False
      then have "\<not> fst (es ! 0) < sa_minid args" using below_nth(1) [OF sorted, of 0] True by (simp add: c_def)
      then show ?thesis using at(4) False by (simp add: sid_Serialize_less hd_conv_nth)
    qed (use at(3) in \<open>simp add: TrimRet_new_def\<close>)
    then have "TrimByMinid_loop env p key args ?tr r = Some (OK, ?tr, r)" by (subst TrimByMinid_loop.simps) (simp only: if_False)
    then show ?thesis using True at(1) by (intro exI [of _ ?tr] exI [of _ r]) (simp add: TrimRet_new_def)
  next
    case False
    then have "es \<noteq> []" by (auto simp: c_def below_def)
    then show ?thesis
      using TrimByMinid_loop_ok [OF assms(1,2) sorted at(2,3) at(4) assms(5), of 0 r ?tr] False at(1,4)
      by (auto simp: c_def TrimRet_new_def hd_conv_nth)
  qed
  then obtain tr r1 where tr: "TrimByMinid env p key args TrimRet_new r = Some (OK, tr, r1)"
      "stream_records (view (rds_db r1)) key (smv_version p) (drop c es)" "tr_count tr = of_nat c"
      "0 < c \<longrightarrow> tr_next_field tr = next_field c es \<and> tr_max_deleted_field tr = sid_Serialize (fst (es ! (c - 1)))"
      "streams_frame key (smv_version p) (view (rds_db r)) (view (rds_db r1))"
    unfolding TrimByMinid_def by blast
  show ?thesis by (rule XTrim_finish [OF assms(1-3)]) (use assms(4) tr below_nth(2) [OF sorted] in \<open>auto simp: c_def\<close>)
qed

lemma XTrim_minid_diverges:
  assumes "db_healthy (env_db env) view" and "key_ok key" and "stream_at (view (rds_db r)) key p es"
    and "sa_trim_strategy args = TRIM_STRATEGY_MINID" and "\<not> trimmable (sa_minid args) es"
  shows "XTrim env key args r = None"
proof -
  have at: "stream_records (view (rds_db r)) key (smv_version p) es" "length es < 2 ^ 31"
      "smv_length p = of_nat (length es)" "es \<noteq> [] \<Longrightarrow> smv_first_id p = fst (hd es)"
    using assms(3) by (auto simp: stream_at_def)
  note sorted = stream_records_sorted [OF at(1)]
  have k: "0 < below (sa_minid args) es" "es \<noteq> []" using assms(5) by (auto simp: trimmable_def below_def)
  let ?tr = "TrimRet_new\<lparr>tr_next_field := sid_Serialize (smv_first_id p)\<rparr>"
  have "fst (hd es) < sa_minid args" using below_nth(1) [OF sorted, of 0] k by (simp add: hd_conv_nth)
  then have "tr_next_field ?tr < sid_Serialize (sa_minid args) \<and>
      (\<exists>c \<le> below (sa_minid args) es. stream_records (view (rds_db r)) key (smv_version p) (drop c es) \<and> tr_count ?tr = of_nat c)"
    using at(1) at(4) [OF k(2)] by (auto simp: sid_Serialize_less TrimRet_new_def intro!: exI [of _ 0])
  then have "TrimByMinid_loop env p key args ?tr r \<noteq> Some res" for res
    using TrimByMinid_loop_diverges [OF assms(1,2) sorted at(2,3) at(4) [OF k(2)] assms(5), of env p key args ?tr r res] by blast
  then have "TrimByMinid_loop env p key args ?tr r = None" by (meson not_None_eq)
  then show ?thesis
    using stream_at_meta [OF assms(1-3)] assms(4) by (simp add: XTrim_def TrimStream_def TrimByMinid_def)
qed

section \<open>Deleting\<close>

lemma XDel_missing_ok:
  assumes "db_healthy (env_db env) view" and "key_ok key" and "stream_records (view s) key version es"
  shows "XDel_missing env key version ids s n = Inr (n - of_nat (length (filter (\<lambda>i. i \<notin> fst ` set es) ids)))"
proof (induction ids arbitrary: n)
  case (Cons i ids)
  have "view s kStreamsDataCF (data_key key version (sid_Serialize i)) = map_of (message_records es) (sid_Serialize i)"
    using data_records_lookup [OF assms(3) [unfolded stream_records_def] assms(2)] .
  also have "\<dots> = None \<longleftrightarrow> i \<notin> fst ` set es" by (auto simp: map_of_eq_None_iff image_iff)
  finally have get: "view s kStreamsDataCF (data_key key version (sid_Serialize i)) = None \<longleftrightarrow> i \<notin> fst ` set es" .
  let ?get = "db_Get (env_db env) s kStreamsDataCF (data_key key version (sid_Serialize i))"
  show ?case
  proof (cases "i \<in> fst ` set es")
    case True
    then obtain v where "?get = (OK, v)" using get Get_healthy(1) [OF assms(1)] by fastforce
    then show ?thesis using True Cons by (simp add: data_key_junk [OF assms(2), of "env_junk env"])
  next
    case False
    then have "is_NotFound (fst ?get)" using get Get_healthy(2) [OF assms(1)] by blast
    then show ?thesis using False Cons [of "n - 1"]
      by (cases ?get) (simp add: data_key_junk [OF assms(2), of "env_junk env"] algebra_simps)
  qed
qed simp

lemma SetFirstID_ok:
  assumes "key_ok key" and "stream_records (view s) key (smv_version m) es" and "length es < 2 ^ 31"
    and "smv_length m = of_nat (length es)"
  shows "SetFirstID tostr env key m s = Some (OK, smv_set_first_id (if es = [] then kSTREAMID_MIN else fst (hd es)) m)"
proof -
  have zero: "smv_length m = 0 \<longleftrightarrow> es = []"
    using assms(3,4) unat_u32 [of "length es"] by (auto simp: unat_eq_0 [symmetric])
  have "in_range kSTREAMID_MIN kSTREAMID_MAX es = es" by (simp add: in_range_def)
  moreover have "sint (1 :: i32) = 1" by simp
  ultimately have "ScanStream env \<lparr>so_key = key, so_version = smv_version m, so_start_sid = kSTREAMID_MIN, so_end_sid = kSTREAMID_MAX,
      so_limit = 1, so_start_ex = False, so_end_ex = False, so_is_reverse = False\<rparr> s = Some (OK, map to_message (take 1 es), next_field 1 es)"
    using ScanStream_forward [OF assms(1,2), of kSTREAMID_MIN kSTREAMID_MAX 1 False False] by simp
  then show ?thesis
    using zero by (cases es) (simp_all add: SetFirstID_def SetFirstOrLastID_def to_message_def)
qed

end

text \<open>The loop over the deleted identifiers keeps everything but the first and the largest deleted identifier.\<close>

definition same_stream :: "StreamMetaValue \<Rightarrow> StreamMetaValue \<Rightarrow> bool" where
  "same_stream m m' \<longleftrightarrow> smv_wf m' \<and> smv_type m' = smv_type m \<and> smv_version m' = smv_version m \<and> smv_length m' = smv_length m \<and>
     smv_last_id m' = smv_last_id m \<and> smv_entries_added m' = smv_entries_added m"

context engine
begin

lemma XDel_update_ok:
  assumes "key_ok key" and "length es < 2 ^ 31"
  shows "smv_wf m \<Longrightarrow> stream_records (view s) key (smv_version m) es \<Longrightarrow> smv_length m = of_nat (length es) \<Longrightarrow>
    smv_last_id m \<notin> set ids \<Longrightarrow> (\<forall>e \<in> set es. fst e \<notin> set ids) \<Longrightarrow>
    (es \<noteq> [] \<Longrightarrow> smv_first_id m = fst (hd es) \<or> smv_first_id m \<in> set ids) \<Longrightarrow>
    \<exists>m'. XDel_update tostr env key ids s m = Some (OK, m') \<and> same_stream m m' \<and> (es \<noteq> [] \<longrightarrow> smv_first_id m' = fst (hd es))"
proof (induction ids arbitrary: m)
  case Nil
  then show ?case by (simp add: same_stream_def)
next
  case (Cons i ids)
  define m1 where "m1 = (if sid_greater i (smv_max_deleted_entry_id m) then smv_set_max_deleted_entry_id i m else m)"
  have m1: "smv_wf m1" "smv_version m1 = smv_version m" "smv_length m1 = smv_length m" "smv_last_id m1 = smv_last_id m"
      "smv_first_id m1 = smv_first_id m" "smv_type m1 = smv_type m" "smv_entries_added m1 = smv_entries_added m"
    using Cons.prems(1) by (auto simp: m1_def intro!: smv_setters_wf)
  define m2 where "m2 = (if i = smv_first_id m1 then smv_set_first_id (if es = [] then kSTREAMID_MIN else fst (hd es)) m1 else m1)"
  have m2: "smv_wf m2" "smv_version m2 = smv_version m" "smv_length m2 = smv_length m" "smv_last_id m2 = smv_last_id m"
      "smv_type m2 = smv_type m" "smv_entries_added m2 = smv_entries_added m"
    using m1 by (auto simp: m2_def intro!: smv_setters_wf)
  have step: "XDel_update tostr env key (i # ids) s m = XDel_update tostr env key ids s m2"
  proof -
    have "SetFirstID tostr env key m1 s = Some (OK, smv_set_first_id (if es = [] then kSTREAMID_MIN else fst (hd es)) m1)"
      using SetFirstID_ok [of key s m1 es tostr] assms Cons.prems(2,3) m1 by simp
    moreover have "i \<noteq> smv_last_id m1" using Cons.prems(4) m1(4) by auto
    ultimately show ?thesis
      unfolding XDel_update.simps Let_def m1_def [symmetric] m2_def by (cases "i = smv_first_id m1") simp_all
  qed
  have "es \<noteq> [] \<Longrightarrow> smv_first_id m2 = fst (hd es) \<or> smv_first_id m2 \<in> set ids"
    using Cons.prems(5,6) m1(5) by (auto simp: m2_def)
  then obtain m' where "XDel_update tostr env key ids s m2 = Some (OK, m')" "same_stream m2 m'" "es \<noteq> [] \<longrightarrow> smv_first_id m' = fst (hd es)"
    using Cons.IH [of m2] Cons.prems m2 by auto
  then show ?case using step m2 by (auto simp: same_stream_def)
qed

lemma XDel_ok:
  assumes "db_healthy (env_db env) view" and "key_ok key" and "stream_at (view (rds_db r)) key p es"
    and "distinct ids" and "length ids < 2 ^ 31" and "smv_last_id p \<notin> set ids"
  defines "es' \<equiv> filter (\<lambda>e. fst e \<notin> set ids) es"
  shows "\<exists>r' p'. XDel tostr env key ids r = Some ((OK, of_nat (length es - length es')), r') \<and> stream_at (view (rds_db r')) key p' es' \<and>
    smv_version p' = smv_version p \<and> smv_last_id p' = smv_last_id p \<and> smv_entries_added p' = smv_entries_added p \<and>
    streams_frame key (smv_version p) (view (rds_db r)) (view (rds_db r'))"
proof -
  have at: "smv_wf p" "smv_type p = kStreams" "stream_records (view (rds_db r)) key (smv_version p) es" "length es < 2 ^ 31"
      "smv_length p = of_nat (length es)" "es \<noteq> [] \<Longrightarrow> smv_first_id p = fst (hd es)" "\<forall>e \<in> set es. fst e \<le> smv_last_id p"
    using assms(3) by (auto simp: stream_at_def)
  have dist: "distinct (map fst es)"
    using stream_records_sorted [OF at(3)] strict_sorted_iff [of "map fst es"] by (simp add: sorted_wrt_map)
  let ?d = "length es - length es'"
  have count: "of_nat (length ids) - of_nat (length (filter (\<lambda>i. i \<notin> fst ` set es) ids)) = (of_nat ?d :: i32)"
  proof -
    have "length (filter (\<lambda>i. i \<in> fst ` set es) ids) = card (set ids \<inter> fst ` set es)"
      using assms(4) distinct_card [of "filter (\<lambda>i. i \<in> fst ` set es) ids"] by (simp add: Int_def)
    also have "\<dots> = length (filter (\<lambda>e. fst e \<in> set ids) es)"
    proof -
      have "set (map fst (filter (\<lambda>e. fst e \<in> set ids) es)) = set ids \<inter> fst ` set es" by auto
      moreover have "distinct (map fst (filter (\<lambda>e. fst e \<in> set ids) es))" using dist by (simp add: distinct_map_filter)
      ultimately show ?thesis by (metis distinct_card length_map)
    qed
    finally have "length (filter (\<lambda>i. i \<in> fst ` set es) ids) = ?d"
      using sum_length_filter_compl [of "\<lambda>e. fst e \<notin> set ids" es] by (simp add: es'_def)
    moreover have "length ids = length (filter (\<lambda>i. i \<in> fst ` set es) ids) + length (filter (\<lambda>i. i \<notin> fst ` set es) ids)"
      using sum_length_filter_compl [of "\<lambda>i. i \<in> fst ` set es" ids] by simp
    ultimately show ?thesis by (metis add_diff_cancel_right' of_nat_add)
  qed
  obtain r1 where r1: "DeleteStreamMessages env key p (map sid_Serialize ids) r = (OK, r1)"
      "stream_records (view (rds_db r1)) key (smv_version p) es'" "view (rds_db r1) kMetaCF = view (rds_db r) kMetaCF"
      "streams_frame key (smv_version p) (view (rds_db r)) (view (rds_db r1))"
    using DeleteStreamMessages_ok [OF assms(1,2) at(3), of ids] unfolding es'_def by blast
  let ?m = "smv_set_length (smv_length p - of_nat ?d) p"
  have len: "smv_length ?m = of_nat (length es')"
  proof -
    have "length es' \<le> length es" by (simp add: es'_def)
    then show ?thesis using at(5) by (simp add: of_nat_diff)
  qed
  have short: "length es' < 2 ^ 31" unfolding es'_def using at(4) by (rule le_less_trans [OF length_filter_le])
  have first: "es' \<noteq> [] \<Longrightarrow> smv_first_id ?m = fst (hd es') \<or> smv_first_id ?m \<in> set ids"
    using at(6) by (cases es) (auto simp: es'_def)
  obtain p' where p': "XDel_update tostr env key ids (rds_db r1) ?m = Some (OK, p')" "same_stream ?m p'"
      "es' \<noteq> [] \<longrightarrow> smv_first_id p' = fst (hd es')"
  proof -
    have "\<exists>m'. XDel_update tostr env key ids (rds_db r1) ?m = Some (OK, m') \<and> same_stream ?m m' \<and> (es' \<noteq> [] \<longrightarrow> smv_first_id m' = fst (hd es'))"
      using smv_setters_wf(7) [OF at(1)] r1(2) len assms(6) first
      by (intro XDel_update_ok [OF assms(2) short]) (auto simp: es'_def)
    then show thesis using that by blast
  qed
  let ?meta = "Put kMetaCF (BaseKey_Encode (env_junk env) key) (smv_value p')"
  obtain r2 where r2: "redis_Write env [?meta] r1 = (OK, r2)"
      "\<And>cf. cf \<noteq> kZsetsScoreCF \<Longrightarrow> view (rds_db r2) cf = apply_batch sc [?meta] (view (rds_db r1)) cf"
    using redis_Write_healthy [OF assms(1), of "[?meta]" r1] by blast
  have "XDel tostr env key ids r = Some ((OK, of_nat ?d), r2)"
    unfolding XDel_def stream_at_meta [OF assms(1-3)] DeleteStreamMessages_ids_def
    using assms(5) XDel_missing_ok [OF assms(1,2) at(3), of ids] count r1(1) p'(1) r2(1) by (simp add: DeleteStreamMessages_ids_def)
  moreover have "stream_at (view (rds_db r2)) key p' es'"
    unfolding stream_at_def
  proof (intro conjI)
    show "meta_of (view (rds_db r2)) key = Some (smv_value p')" using meta_after_put [OF assms(2), of _ "[]"] r2(2) by simp
    show "smv_wf p'" "smv_type p' = kStreams" "length es' < 2 ^ 31" "smv_length p' = of_nat (length es')"
      "es' \<noteq> [] \<longrightarrow> smv_first_id p' = fst (hd es')"
      using p'(2,3) at(2) len short by (simp_all add: same_stream_def)
    have "view (rds_db r2) kStreamsDataCF = view (rds_db r1) kStreamsDataCF"
      using r2(2) [of kStreamsDataCF] meta_put(2) [OF slice_order_axioms assms(2), of kStreamsDataCF] by simp
    then show "stream_records (view (rds_db r2)) key (smv_version p') es'"
      using r1(2) p'(2) stream_records_cong [of "view (rds_db r2)" "view (rds_db r1)"] by (simp add: same_stream_def)
    show "\<forall>e \<in> set es'. fst e \<le> smv_last_id p'" using at(7) p'(2) by (auto simp: same_stream_def es'_def)
  qed
  moreover have "streams_frame key (smv_version p) (view (rds_db r)) (view (rds_db r2))"
  proof (rule data_frame_trans [OF r1(4) stream_frame_cong [OF _ r2(2)]])
    show "streams_frame key (smv_version p) (view (rds_db r1)) (apply_batch sc [?meta] (view (rds_db r1)))"
      using BaseKey_Encode_junk [OF assms(2), of "env_junk env"]
      by (intro data_op_frame [OF slice_order_axioms bytewise_streams assms(2)]) (auto simp: data_op_def)
  qed
  ultimately show ?thesis using p'(2) by (intro exI [of _ r2] exI [of _ p']) (simp add: same_stream_def)
qed

end

end
