(* ===== verification/StreamsTheorems.thy ===== *)
theory StreamsTheorems
  imports StreamsOps
begin

text \<open>
  The stream commands on every database that behaves as documented and answers, and on the reference database.
\<close>

section \<open>A stream in the reference database\<close>

definition example_messages :: "(streamID \<times> bytes) list" where
  "example_messages = [(streamID 1 0, [1]), (streamID 5 0, [2])]"

definition example_stream_meta :: StreamMetaValue where
  "example_stream_meta = smv_set_length 2 (smv_set_last_id (streamID 5 0) (smv_set_entries_added 2
     (smv_set_first_id (streamID 1 0) (InitMetaValue (InitMetaValue StreamMetaValue_new)))))"

definition example_stream :: "WriteOp list redis" where
  "example_stream = example_redis\<lparr>rds_db :=
     [Put kStreamsDataCF (data_key [7] 2 (sid_Serialize (streamID 1 0))) [1],
      Put kStreamsDataCF (data_key [7] 2 (sid_Serialize (streamID 5 0))) [2],
      Put kMetaCF (BaseKey_Encode (\<lambda>_. 9) [7]) (smv_value example_stream_meta)]\<rparr>"

lemma example_no_records: "stream_records (example_view []) key version []"
  by (simp add: stream_records_def data_records_def log_view_def log_scan_def)

lemma example_stream_view:
  "cf \<noteq> kZsetsScoreCF \<Longrightarrow> example_view (rds_db example_stream) cf = apply_batch pstd_Slice_compare (rds_db example_stream) (example_view []) cf"
  using log_view_append [OF pstd_slice.cf_comparator_ok [of cf], of "[]" "rds_db example_stream"] by simp

lemma example_stream_at: "stream_at (example_view (rds_db example_stream)) [7] example_stream_meta example_messages"
  unfolding stream_at_def
proof (intro conjI)
  show "meta_of (example_view (rds_db example_stream)) [7] = Some (smv_value example_stream_meta)"
    using example_stream_view [of kMetaCF] meta_put(1) [OF pstd_slice.slice_order_axioms example_key(1), of "\<lambda>_. 9"]
    by (simp add: meta_of_def example_key example_stream_def)
  show "smv_wf example_stream_meta"
    unfolding example_stream_meta_def
    by (intro smv_setters_wf InitMetaValue_wf) (simp add: StreamMetaValue_new_def)
  show "smv_type example_stream_meta = kStreams" by (simp add: example_stream_meta_def StreamMetaValue_new_def)
  let ?put = "\<lambda>i v. apply_op pstd_Slice_compare (Put kStreamsDataCF (data_key [7] 2 (sid_Serialize i)) v)"
  have one: "stream_records (?put (streamID 1 0) [1] (example_view [])) [7] 2 ([] @ [(streamID 1 0, [1])])"
    by (rule stream_records_append [OF pstd_slice.slice_order_axioms example_key(1) example_no_records]) simp
  have two: "stream_records (?put (streamID 5 0) [2] (?put (streamID 1 0) [1] (example_view []))) [7] 2 (([] @ [(streamID 1 0, [1])]) @ [(streamID 5 0, [2])])"
    by (rule stream_records_append [OF pstd_slice.slice_order_axioms example_key(1) one]) (simp add: streamID_less)
  have v: "example_view (rds_db example_stream) kStreamsDataCF =
      ?put (streamID 5 0) [2] (?put (streamID 1 0) [1] (example_view [])) kStreamsDataCF"
    using example_stream_view [of kStreamsDataCF] meta_put(2) [OF pstd_slice.slice_order_axioms example_key(1), of kStreamsDataCF]
    by (simp add: example_stream_def)
  show "stream_records (example_view (rds_db example_stream)) [7] (smv_version example_stream_meta) example_messages"
    unfolding stream_records_cong [of "example_view (rds_db example_stream)" "?put (streamID 5 0) [2] (?put (streamID 1 0) [1] (example_view []))", OF v]
    using two by (simp add: example_messages_def example_stream_meta_def StreamMetaValue_new_def)
  show "length example_messages < 2 ^ 31" "smv_length example_stream_meta = of_nat (length example_messages)"
    "example_messages \<noteq> [] \<longrightarrow> smv_first_id example_stream_meta = fst (hd example_messages)"
    "\<forall>e \<in> set example_messages. fst e \<le> smv_last_id example_stream_meta"
    by (simp_all add: example_messages_def example_stream_meta_def streamID_le)
qed

definition example_args :: StreamAddTrimArgs where
  "example_args = \<lparr>sa_id = streamID 6 0, sa_id_given = True, sa_seq_given = True, sa_no_mkstream = False,
     sa_trim_strategy = TRIM_STRATEGY_NONE, sa_maxlen = 1, sa_minid = streamID 3 0\<rparr>"

section \<open>Properties\<close>



text \<open>When the clock is behind the last message, a generated identifier need not be larger: the sequence number is
  that of the arguments plus one instead of the last one plus one, so the new message replaces an older one or is
  stored before the last.\<close>

theorem GenerateStreamID_clock_behind:
  assumes "\<not> sa_id_given args" and "sa_id args = streamID 0 0" and "now < ms (smv_last_id m)"
    and "1 \<le> seq (smv_last_id m)" and "seq (smv_last_id m) \<noteq> - 1"
  shows "GenerateStreamID now m args = (OK, args\<lparr>sa_id := streamID (ms (smv_last_id m)) 1\<rparr>) \<and>
    streamID (ms (smv_last_id m)) 1 \<le> smv_last_id m"
  using assms by (cases "smv_last_id m") (simp add: GenerateStreamID_def streamID_le)

theorem GenerateStreamID_clock_behind_witness:
  "GenerateStreamID 9 (smv_set_last_id (streamID 10 5) StreamMetaValue_new) (example_args\<lparr>sa_id := streamID 0 0, sa_id_given := False\<rparr>) =
    (OK, example_args\<lparr>sa_id := streamID 10 1, sa_id_given := False\<rparr>)"
  using GenerateStreamID_clock_behind [of "example_args\<lparr>sa_id := streamID 0 0, sa_id_given := False\<rparr>" 9 "smv_set_last_id (streamID 10 5) StreamMetaValue_new"]
  by (simp add: example_args_def)

text \<open>C18: \<open>XRANGE\<close> returns, in order, the messages between the two identifiers, at most as many as the limit, and then
  leaves out an excluded first or last identifier.\<close>

theorem XRange_reads:
  assumes "engine env view" and "db_healthy (env_db env) view" and "key_ok key" and "stream_at (view s) key p es"
    and "ss_start_sid args \<le> ss_end_sid args"
  shows "XRange env key args [] s =
    (let msgs = take (nat (sint (ss_limit args))) (filter (\<lambda>e. ss_start_sid args \<le> fst e \<and> fst e \<le> ss_end_sid args) es);
         msgs = (if ss_start_ex args \<and> msgs \<noteq> [] \<and> fst (hd msgs) = ss_start_sid args then tl msgs else msgs);
         msgs = (if ss_end_ex args \<and> msgs \<noteq> [] \<and> fst (last msgs) = ss_end_sid args then butlast msgs else msgs)
     in Some (OK, map to_message msgs))"
  unfolding engine.XRange_ok [OF assms] in_range_def ..

theorem XRange_reads_witness:
  "XRange example_env [7] \<lparr>ss_start_sid = streamID 1 0, ss_end_sid = streamID 9 0, ss_limit = 10, ss_start_ex = True, ss_end_ex = False\<rparr> []
    (rds_db example_stream) = Some (OK, [IdMessage (sid_Serialize (streamID 5 0)) [2]])"
  using XRange_reads [OF reference.engine_axioms reference_healthy example_key(1) example_stream_at,
      of "\<lparr>ss_start_sid = streamID 1 0, ss_end_sid = streamID 9 0, ss_limit = 10, ss_start_ex = True, ss_end_ex = False\<rparr>"]
  by (simp add: example_messages_def streamID_le to_message_def)

text \<open>\<open>XREVRANGE\<close> from any identifier but the largest returns the messages up to that identifier from the last to the
  first, but it ignores the identifier at which it is to end.\<close>

theorem XRevrange_ignores_end:
  assumes "engine env view" and "db_healthy (env_db env) view" and "key_ok key" and "stream_at (view s) key p es"
    and "ss_start_sid args \<noteq> kSTREAMID_MAX" and "\<not> ss_start_ex args" and "\<not> ss_end_ex args"
  shows "XRevrange env key args s =
    Some (OK, map to_message (take (nat (sint (ss_limit args))) (rev (filter (\<lambda>e. fst e \<le> ss_start_sid args) es))))"
  unfolding engine.XRevrange_ok [OF assms(1-5)] using assms(6,7) by simp

theorem XRevrange_ignores_end_witness:
  "XRevrange example_env [7] \<lparr>ss_start_sid = streamID 9 0, ss_end_sid = streamID 3 0, ss_limit = 10, ss_start_ex = False, ss_end_ex = False\<rparr>
    (rds_db example_stream) = Some (OK, [IdMessage (sid_Serialize (streamID 5 0)) [2], IdMessage (sid_Serialize (streamID 1 0)) [1]])"
  using XRevrange_ignores_end [OF reference.engine_axioms reference_healthy example_key(1) example_stream_at,
      of "\<lparr>ss_start_sid = streamID 9 0, ss_end_sid = streamID 3 0, ss_limit = 10, ss_start_ex = False, ss_end_ex = False\<rparr>"]
  by (simp add: example_messages_def streamID_le to_message_def kSTREAMID_MAX_def)

text \<open>C16: \<open>XTRIM MAXLEN\<close> ends, whatever number of batches it takes, and keeps exactly the last \<open>maxlen\<close> messages of the
  stream; it returns how many it removed, and changes nothing else in the database.\<close>

theorem XTrim_maxlen_trims:
  assumes "engine env view" and "db_healthy (env_db env) view" and "key_ok key" and "stream_at (view (rds_db r)) key p es"
    and "sa_trim_strategy args = TRIM_STRATEGY_MAXLEN"
  shows "\<exists>r' p'. XTrim env key args r = Some ((OK, of_nat (length es - unat (sa_maxlen args))), r') \<and>
    stream_at (view (rds_db r')) key p' (drop (length es - unat (sa_maxlen args)) es) \<and>
    smv_version p' = smv_version p \<and> smv_last_id p' = smv_last_id p \<and> smv_entries_added p' = smv_entries_added p \<and>
    streams_frame key (smv_version p) (view (rds_db r)) (view (rds_db r'))"
  by (rule engine.XTrim_maxlen_ok [OF assms])

theorem XTrim_maxlen_trims_witness:
  "\<exists>r' p'. XTrim example_env [7] (example_args\<lparr>sa_trim_strategy := TRIM_STRATEGY_MAXLEN\<rparr>) example_stream = Some ((OK, 1), r') \<and>
    stream_at (example_view (rds_db r')) [7] p' [(streamID 5 0, [2])]"
  using XTrim_maxlen_trims [OF reference.engine_axioms reference_healthy example_key(1) example_stream_at,
      of "example_args\<lparr>sa_trim_strategy := TRIM_STRATEGY_MAXLEN\<rparr>"]
  by (auto simp: example_messages_def example_args_def)

text \<open>C15: \<open>XTRIM MINID\<close> removes exactly the messages with smaller identifiers and returns their number when there are none,
  when all messages are smaller, or when \<open>minid\<close> is the identifier of a message. In every other case, with messages
  on both sides of \<open>minid\<close> but none at it, the command never returns: the scan stops before the next message and clears
  the next field, which compares as smaller than \<open>minid\<close> for ever.\<close>

theorem XTrim_minid_trims_or_diverges:
  assumes "engine env view" and "db_healthy (env_db env) view" and "key_ok key" and "stream_at (view (rds_db r)) key p es"
    and "sa_trim_strategy args = TRIM_STRATEGY_MINID"
  shows "if (\<exists>e \<in> set es. fst e < sa_minid args) \<and> (\<exists>e \<in> set es. sa_minid args < fst e) \<and> sa_minid args \<notin> fst ` set es
    then XTrim env key args r = None
    else \<exists>r' p'. XTrim env key args r = Some ((OK, of_nat (length (filter (\<lambda>e. fst e < sa_minid args) es))), r') \<and>
      stream_at (view (rds_db r')) key p' (filter (\<lambda>e. sa_minid args \<le> fst e) es) \<and>
      smv_version p' = smv_version p \<and> smv_last_id p' = smv_last_id p \<and> smv_entries_added p' = smv_entries_added p \<and>
      streams_frame key (smv_version p) (view (rds_db r)) (view (rds_db r'))"
proof -
  have sorted: "sorted_wrt (\<lambda>x y. fst x < fst y) es" using assms(4) stream_records_sorted by (auto simp: stream_at_def)
  show ?thesis
    using engine.XTrim_minid_ok [OF assms] engine.XTrim_minid_diverges [OF assms] trimmable_iff [OF sorted, of "sa_minid args"]
      below_nth(3) [OF sorted, of "sa_minid args"] by (simp add: below_def)
qed

theorem XTrim_minid_trims_or_diverges_witness:
  "XTrim example_env [7] (example_args\<lparr>sa_trim_strategy := TRIM_STRATEGY_MINID\<rparr>) example_stream = None"
  using XTrim_minid_trims_or_diverges [OF reference.engine_axioms reference_healthy example_key(1) example_stream_at,
      of "example_args\<lparr>sa_trim_strategy := TRIM_STRATEGY_MINID\<rparr>"]
  by (simp add: example_messages_def example_args_def streamID_less)



end
