(* ===== verification/KeyTypes.thy ===== *)
theory KeyTypes
  imports SetsTheorems StreamsTheorems
begin

text \<open>
  One key, one type. The commands of every type share the meta value of a key; here the invariants of the components
  are put side by side: a key that holds a value of one type refuses the commands of the others.
\<close>

section \<open>The type of a key\<close>

text \<open>The key holds a value of the given type that is neither empty nor expired.\<close>

definition typed_at :: "DataType \<Rightarrow> u64 \<Rightarrow> contents \<Rightarrow> bytes \<Rightarrow> bool" where
  "typed_at dt now m key \<longleftrightarrow> (\<exists>mv. meta_of m key = Some mv \<and> GetMetaValueType mv = dt \<and> ExpectedStale now mv = Some False)"

lemma parse_unowned:
  "ParsedListsMetaValue_parse True v = Some p \<Longrightarrow> ParsedListsMetaValue_parse False v = Some (p\<lparr>pv_owned := False\<rparr>)"
  "ParsedBaseMetaValue_parse True v = Some q \<Longrightarrow> ParsedBaseMetaValue_parse False v = Some (q\<lparr>pv_owned := False\<rparr>)"
  by (auto simp: ParsedListsMetaValue_parse_def ParsedBaseMetaValue_parse_def Let_def split: if_splits)

lemma typed_at_unique: "typed_at dt now m key \<Longrightarrow> typed_at dt' now m key \<Longrightarrow> dt = dt'"
  by (auto simp: typed_at_def)

lemma list_typed: "list_at now m key xs \<Longrightarrow> xs \<noteq> [] \<Longrightarrow> typed_at kLists now m key"
  by (erule list_at.cases)
    (auto simp: typed_at_def GetMetaValueType_wf ExpectedStale_def pv_IsStale_def dest!: parse_unowned(1) [OF pl_wf_D])

lemma coll_typed: "coll_at dt cf now m key ds \<Longrightarrow> ds \<noteq> [] \<Longrightarrow> dt \<in> {kHashes, kSets, kZSets} \<Longrightarrow> typed_at dt now m key"
  by (erule coll_at.cases)
    (auto simp: typed_at_def GetMetaValueType_pm ExpectedStale_def pv_IsStale_def dest!: parse_unowned(2) [OF pm_wf_D])

lemma hash_typed: "hash_at env m key h \<Longrightarrow> h \<noteq> [] \<Longrightarrow> typed_at kHashes (env_now env) m key"
  using coll_typed [of kHashes kHashesDataCF] by (auto simp: hash_at_def)

lemma set_typed: "set_at env m key A \<Longrightarrow> A \<noteq> {} \<Longrightarrow> typed_at kSets (env_now env) m key"
  using coll_typed [of kSets kSetsDataCF] by (auto simp: set_at_def)

text \<open>A stream does not count: for the other commands its key is free.\<close>

lemma stream_counts_as_stale:
  assumes "stream_at m key p es"
  shows "list_at now m key []" "left_room now m key = 2 ^ 63 - 1"
proof -
  have "meta_of m key = Some (smv_value p)" "GetMetaValueType (smv_value p) = kStreams"
    using assms reference.GetMetaValueType_stream by (auto simp: stream_at_def)
  then show "list_at now m key []" "left_room now m key = 2 ^ 63 - 1"
    using room_missing(1) [of m key now] by (auto simp: ExpectedStale_def intro: list_at.other_stale)
qed

lemma typed_not_stream:
  assumes "typed_at dt now m key" and "dt \<noteq> kStreams"
  shows "\<not> stream_at m key p es"
  using assms reference.GetMetaValueType_stream [of p] by (auto simp: typed_at_def stream_at_def)

text \<open>The commands of a type refuse a key: they all return the same status and leave the instance as it was.\<close>

definition lists_refused :: "'s env \<Rightarrow> bytes \<Rightarrow> 's redis \<Rightarrow> bool" where
  "lists_refused env key r \<longleftrightarrow> (\<exists>msg.
     (\<forall>index. LIndex env key index r = Some (InvalidArgument msg, [])) \<and> LLen env key [] r = Some (InvalidArgument msg, 0) \<and>
     (\<forall>start stop. LRange env key start stop r = Some (InvalidArgument msg, [])) \<and>
     (\<forall>vs. LPush env key vs r = Some ((InvalidArgument msg, 0), r)) \<and> (\<forall>vs. RPush env key vs r = Some ((InvalidArgument msg, 0), r)) \<and>
     (\<forall>vs. LPushx env key vs r = Some ((InvalidArgument msg, 0), r)) \<and> (\<forall>vs. RPushx env key vs r = Some ((InvalidArgument msg, 0), r)) \<and>
     (\<forall>count. LPop env key count r = Some ((InvalidArgument msg, []), r)) \<and> (\<forall>count. RPop env key count r = Some ((InvalidArgument msg, []), r)) \<and>
     (\<forall>index v. LSet env key index v r = Some (InvalidArgument msg, r)) \<and>
     (\<forall>start stop. LTrim env key start stop r = Some (InvalidArgument msg, r)) \<and>
     (\<forall>ba pivot v. LInsert env key ba pivot v r = Some ((InvalidArgument msg, 0), r)) \<and>
     (\<forall>count v. LRem env key count v r = Some ((InvalidArgument msg, 0), r)) \<and> RPoplpush env key key r = Some ((InvalidArgument msg, []), r) \<and>
     ListsDel env key [] r = Some (InvalidArgument msg, r) \<and> (\<forall>ttl. ListsExpire env key ttl [] r = Some (InvalidArgument msg, r)))"

definition hashes_refused :: "'s env \<Rightarrow> bytes \<Rightarrow> 's redis \<Rightarrow> bool" where
  "hashes_refused env key r \<longleftrightarrow> (\<exists>msg.
     (\<forall>f. HGet env key f r = Some (InvalidArgument msg, [])) \<and> (\<forall>fs. HMGet env key fs r = Some (InvalidArgument msg, [])) \<and>
     (\<forall>us. HGetall env us key r = Some ((InvalidArgument msg, []), r)) \<and> (\<forall>us. HKeys env us key r = Some ((InvalidArgument msg, []), r)) \<and>
     (\<forall>us. HVals env us key r = Some ((InvalidArgument msg, []), r)) \<and> HLen env key [] r = Some (InvalidArgument msg, 0) \<and>
     (\<forall>us cursor pattern count. 0 \<le> sint cursor \<longrightarrow> HScan env us key cursor pattern count r = Some ((InvalidArgument msg, [], 0), r)) \<and>
     (\<forall>f v. HSet env key f v r = Some ((InvalidArgument msg, None), r)) \<and> (\<forall>f v. HSetnx env key f v r = Some ((InvalidArgument msg, None), r)) \<and>
     (\<forall>fvs. HMSet env key fvs r = Some ((InvalidArgument msg, ()), r)) \<and> (\<forall>fs. HDel env key fs r = Some ((InvalidArgument msg, None), r)) \<and>
     (\<forall>f i. HIncrby env key f i r = Some ((InvalidArgument msg, 0), r)) \<and>
     HashesDel env key [] r = Some (InvalidArgument msg, r) \<and> (\<forall>ttl. HashesExpire env key ttl [] r = Some (InvalidArgument msg, r)))"

definition sets_refused :: "'s env \<Rightarrow> bytes \<Rightarrow> 's redis \<Rightarrow> bool" where
  "sets_refused env key r \<longleftrightarrow> (\<exists>msg.
     SCard env key [] r = Some (InvalidArgument msg, 0) \<and> (\<forall>x. SIsmember env key x r = Some (InvalidArgument msg, 0)) \<and>
     (\<forall>us. SMembers env us key r = Some ((InvalidArgument msg, []), r)) \<and>
     (\<forall>us cursor pattern count. 0 \<le> sint cursor \<longrightarrow> SScan env us key cursor pattern count r = Some ((InvalidArgument msg, [], 0), r)) \<and>
     (\<forall>xs. SAdd env key xs r = Some ((InvalidArgument msg, None), r)) \<and> (\<forall>xs. SRem env key xs r = Some ((InvalidArgument msg, 0), r)) \<and>
     (\<forall>rnd us cnt. SPop env rnd us key cnt r = Some ((InvalidArgument msg, []), r)) \<and>
     (\<forall>dest x. dest \<noteq> key \<longrightarrow> SMove env key dest x r = Some ((InvalidArgument msg, 0), r)) \<and>
     SetsDel env key [] r = Some (InvalidArgument msg, r) \<and> (\<forall>ttl. SetsExpire env key ttl [] r = Some (InvalidArgument msg, r)))"

context engine
begin

lemma get_meta_mismatch:
  assumes "db_healthy (env_db env) view" and "key_ok key" and "typed_at dt (env_now env) (view s) key"
    and "dt \<noteq> expected" and "DataTypeStrings dt \<noteq> None" and "DataTypeStrings expected \<noteq> None"
  shows "\<exists>msg. get_meta env expected key mk s = Some (Inl (InvalidArgument msg))"
proof -
  obtain mv where mv: "meta_of (view s) key = Some mv" "GetMetaValueType mv = dt" "ExpectedStale (env_now env) mv = Some False"
    using assms(3) by (auto simp: typed_at_def)
  have "view s kMetaCF (BaseKey_Encode (env_junk env) key) = Some mv"
    using mv(1) assms(2) by (simp add: meta_of_def BaseKey_Encode_layout)
  then have "db_Get (env_db env) s kMetaCF (BaseKey_Encode (env_junk env) key) = (OK, mv)"
    using Get_healthy [OF assms(1)] by simp
  then show ?thesis using mv assms(4-6) by (auto simp: get_meta_def ExpectedMetaValue_def wrong_type_def)
qed

lemma commands_refuse:
  assumes "db_healthy (env_db env) view" and "key_ok key" and "typed_at dt (env_now env) (view (rds_db r)) key" and "DataTypeStrings dt \<noteq> None"
  shows "dt \<noteq> kLists \<Longrightarrow> lists_refused env key r" "dt \<noteq> kHashes \<Longrightarrow> hashes_refused env key r" "dt \<noteq> kSets \<Longrightarrow> sets_refused env key r"
proof -
  note wrong = get_meta_mismatch [OF assms(1-3) _ assms(4), where mk = key]
  show "lists_refused env key r" if "dt \<noteq> kLists"
  proof -
    obtain msg where "get_meta env kLists key key (rds_db r) = Some (Inl (InvalidArgument msg))" using wrong [OF \<open>dt \<noteq> kLists\<close>] by auto
    then show ?thesis
      unfolding lists_refused_def
      by (intro exI [of _ msg]) (simp add: LIndex_def LLen_def LRange_def LPush_def RPush_def LPushx_def RPushx_def LPop_def RPop_def LSet_def
          LTrim_def LInsert_def LRem_def RPoplpush_def RPoplpush_same_def ListsDel_def ListsExpire_def)
  qed
  show "hashes_refused env key r" if "dt \<noteq> kHashes"
  proof -
    obtain msg where "get_meta env kHashes key key (rds_db r) = Some (Inl (InvalidArgument msg))" using wrong [OF \<open>dt \<noteq> kHashes\<close>] by auto
    then show ?thesis
      unfolding hashes_refused_def
      by (intro exI [of _ msg]) (simp add: HGet_def HMGet_def HGetall_def HKeys_def HVals_def HLen_def HScan_def HSet_def HSetnx_def
          HMSet_def HDel_def HIncrby_def HashesDel_def HashesExpire_def)
  qed
  show "sets_refused env key r" if "dt \<noteq> kSets"
  proof -
    obtain msg where "get_meta env kSets key key (rds_db r) = Some (Inl (InvalidArgument msg))" using wrong [OF \<open>dt \<noteq> kSets\<close>] by auto
    then show ?thesis
      unfolding sets_refused_def
      by (intro exI [of _ msg]) (simp add: SCard_def SIsmember_def SMembers_def SScan_def SAdd_def SRem_def SPop_def SMove_def
          SetsDel_def SetsExpire_def)
  qed
qed

end

end
