(* ===== verification/Spec2Isabelle.thy ===== *)
theory Spec2Isabelle
  imports Filters KeyTypes
begin

text \<open>
  A verification library for the storage engine of PikiwiDB, a Redis-compatible server on top of RocksDB
  (\<open>src/src/storage\<close> and the string helpers of \<open>src/src/pstd\<close>).

  \<^bold>\<open>The program.\<close> A \<open>Redis\<close> instance (\<open>redis.h\<close>, \<open>redis.cc\<close>) owns a RocksDB database with one column
  family for the meta values of all keys and one for the elements of each type. A command encodes the
  user key, reads its meta value, checks type and expiry, reads or iterates over elements, and writes one batch.
  Removing a collection only renews its version or count in the meta value; the elements left behind are
  dropped by compaction filters that look the meta value up. Statistics in an LRU cache queue compactions of
  keys that are modified often.

  \<^bold>\<open>Theories and what they model.\<close>
  \<^item> \<open>Prelude\<close>: bytes and machine integers as words, buffers with unspecified contents, copying into a buffer,
    little-endian bytes, and the lemmas on them all components share.
  \<^item> \<open>Coding\<close> (\<open>coding.h\<close>): fixed-width integers on both byte orders.
  \<^item> \<open>KeyFormat\<close> (\<open>storage_define.h\<close>, \<open>base_key_format.h\<close>, \<open>base_data_key_format.h\<close>,
    \<open>lists_data_key_format.h\<close>, \<open>zsets_data_key_format.h\<close>): escaping of user keys and the key classes; round trips,
    exactness of seek prefixes, buffer bounds, and the keys that collide.
  \<^item> \<open>ValueFormat\<close> (\<open>base_value_format.h\<close> and the value classes): encoding, parsing and the setters that keep fields
    and bytes in agreement.
  \<^item> \<open>StreamFormat\<close> (\<open>pika_stream_types.h\<close>, \<open>pika_stream_meta_value.h\<close>): stream identifiers, whose serialisation
    preserves the order, and the values of streams, groups, consumers and pending entries.
  \<^item> \<open>Comparator\<close> (\<open>custom_comparator.h\<close>): the comparators of list elements and zset scores order encoded keys by
    their fields; the interface \<open>slice_order\<close> is what they need of \<open>rocksdb::Slice::compare\<close>.
  \<^item> \<open>RocksDB\<close>: the database as a parameter. The record \<open>'s rocksdb\<close> has the calls the engine makes, the locale
    \<open>rocksdb\<close> their documented behaviour; any call may fail. A database kept as the log of its batches is interpreted
    as an instance.
  \<^item> \<open>LruCache\<close> (\<open>lru_cache.h\<close>): the handle table and the circular list with its pointers, refined to a list of
    entries ordered by use.
  \<^item> \<open>RedisBase\<close> (\<open>redis.h\<close>, \<open>redis.cc\<close>): the state of an instance, statistics, and the reading of a meta value.
  \<^item> \<open>Lists\<close> (\<open>redis_lists.cc\<close>): every list command with its loops and early returns. \<open>ListsCorrect\<close> says what it
    means that the database holds a list; \<open>ListsCommands\<close>, \<open>ListsOps\<close>, \<open>ListsMove\<close>, \<open>ListsRem\<close> and \<open>ListsKeys\<close> prove each
    command against the list operation a client expects in the locale \<open>engine\<close>, and \<open>ListsTheorems\<close> states the results
    for every database and instantiates them on the reference database.
  \<^item> \<open>Filters\<close> (\<open>base_filter.h\<close>, \<open>lists_filter.h\<close>, \<open>zsets_filter.h\<close>, \<open>strings_filter.h\<close>): the compaction filters with
    the state they keep from record to record; no sequence of their decisions changes a list a client can see, and
    what no client can see any more is dropped.
  \<^item> \<open>PstdString\<close> (\<open>pstd_string.cc\<close>, \<open>util.cc\<close>): the glob matcher of the scan commands, and printing and parsing of
    64-bit integers.
  \<^item> \<open>StreamUtils\<close> (\<open>redis_streams.cc\<close>, class \<open>StreamUtils\<close>): the text form of stream identifiers and the serialisation of
    messages, with their round trips; a corrupt message on which the parser runs for ever.
  \<^item> \<open>DataScan\<close>: what the records of one key and version in a data column family are, which of them an iterator
    visits from a position on in both directions, and how a batch changes them; shared by the types whose data keys
    are compared byte by byte.
  \<^item> \<open>Streams\<close> (\<open>redis_streams.cc\<close>): every stream command with its scanning and trimming helpers. \<open>StreamsCorrect\<close> says
    what it means that the database holds a stream and what the scans return, \<open>StreamsOps\<close> proves the commands in
    the locale \<open>engine\<close>, and \<open>StreamsTheorems\<close> states the results, among them exactly when \<open>XTRIM MINID\<close> returns.
  \<^item> \<open>Members\<close> (\<open>redis.h\<close>, \<open>redis.cc\<close>, \<open>util.cc\<close>): what the collections share, the keys of their members, the meta value of a
    new collection, the stored points of scans, the conversion of numbers. \<open>MembersCorrect\<close> says what it means that
    the database holds a collection and what its abstract writes (put a member, delete one, replace the meta value) do
    to it, in the locale \<open>members\<close>, a part of \<open>engine\<close> for every type of collection.
  \<^item> \<open>Hashes\<close> (\<open>redis_hashes.cc\<close>): every hash command. \<open>HashesCorrect\<close> proves the reading commands against an association
    list of fields and values, \<open>HashesOps\<close> the writing ones, \<open>HashesScan\<close> increments, lifetimes and scans with the points
    the server stores, and \<open>HashesTheorems\<close> states the results.
  \<^item> \<open>Sets\<close> (\<open>redis_sets.cc\<close>): every set command. \<open>SetsCorrect\<close> proves the reading commands against the operations on finite
    sets, \<open>SetsOps\<close> adding and removing members, \<open>SetsAlgebra\<close> the storing commands and \<open>SMOVE\<close>, \<open>SetsScan\<close> one call of
    \<open>SSCAN\<close> and a scan that never ends, \<open>SetsPop\<close> \<open>SPOP\<close>, whose drawing of positions ends for every engine that keeps
    reaching all of them, removal and expiry. \<open>SetsTheorems\<close> states the results, and where the commands do not do
    what they promise.
  \<^item> \<open>KeyTypes\<close>: the invariants of the types side by side, a key holds one of them. The properties at the end of this
    theory rest on it.

  \<^bold>\<open>Conventions.\<close> An operation returns \<open>None\<close> where the source throws, does not return or reads outside an object;
  a theorem about its result includes that it is not \<open>None\<close>. Statuses are the values of \<open>Status\<close>. Integers keep their
  width, so sums of indexes and offsets wrap as in the source. The clock is read once per command. Doubles are their
  bit patterns. Loops over iterators recurse over the entries the iterator visits; loops over data are
  terminating functions; the loops that may not end (trimming a stream, parsing a message, matching a pattern, drawing
  positions) are partial functions whose value \<open>None\<close> means that they do not return. No fuel is used.

  \<^bold>\<open>Not modelled.\<close> Locks, threads and snapshots: a command runs alone. RocksDB itself, its options and statistics.
  The sorted set and string commands, whose formats and filters are modelled. The output of the debugging
  scans. The parsing and printing of long doubles in \<open>HINCRBYFLOAT\<close>, the random engine of \<open>SPOP\<close> and \<open>SRANDMEMBER\<close> and the
  shuffling of the latter are parameters. The server
  around the engine (networking, command parsing, replication, binlog, cache, slots, access control).
\<close>

section \<open>Properties of the whole\<close>



text \<open>C35: The exception are streams: a command of another type asks a freshly constructed value for the length of the
  stream, finds it empty and takes the key for a free one. So \<open>LPUSH\<close> on a key that holds a stream succeeds and the
  stream is lost.\<close>

theorem LPush_overwrites_stream:
  assumes "engine env view" and "db_healthy (env_db env) view" and "key_ok key" and "stamp_ok (env_now env)"
    and "stream_at (view (rds_db r)) key p es" and "length vs < 2 ^ 63" and "vs \<noteq> []"
  shows "\<exists>ret r'. LPush env key vs r = Some ((OK, ret), r') \<and> list_at (env_now env) (view (rds_db r')) key (rev vs) \<and>
    (\<forall>p' es'. \<not> stream_at (view (rds_db r')) key p' es')"
proof -
  note s = stream_counts_as_stale [OF assms(5), of "env_now env"]
  obtain ret r' where r': "LPush env key vs r = Some ((OK, ret), r')" "list_at (env_now env) (view (rds_db r')) key (rev vs)"
    using engine.LPush_correct [OF assms(1,3,4) s(1), of vs] s(2) assms(2,6) by auto
  moreover have "typed_at kLists (env_now env) (view (rds_db r')) key" using list_typed [OF r'(2)] assms(7) by simp
  ultimately show ?thesis using typed_not_stream by blast
qed

theorem LPush_overwrites_stream_witness:
  "\<exists>ret r'. LPush example_env [7] [[1]] example_stream = Some ((OK, ret), r') \<and> list_at 5 (example_view (rds_db r')) [7] [[1]]"
  using LPush_overwrites_stream [OF reference.engine_axioms reference_healthy example_key(1) example_stamp example_stream_at, of "[[1]]"] by auto

end
